(* ===== verification/Sui_Prelude.thy ===== *)
theory Sui_Prelude
  imports Main "HOL-Library.AList" "HOL-Library.Monad_Syntax"
begin

text \<open>
  Shared vocabulary of the development.

  \<^item> Rust's unsigned 64-bit arithmetic on \<open>nat\<close> values below \<open>2 ^ 64\<close>: the checked,
    wrapping and saturating operations the source calls.
  \<^item> A Rust panic is \<open>None\<close>; code that may panic lives in the option monad, and
    \<open>rust_assert\<close> is \<open>assert!\<close>. A \<open>Result\<close> is a sum with the error on the left.
  \<^item> A \<open>HashMap\<close> is an association list with distinct keys, in some iteration order
    (inserted with \<open>AList.update\<close>); a \<open>BTreeMap\<close> is an association list whose keys are
    strictly increasing (inserted with \<open>bt_insert\<close>).
  \<^item> Generic facts on lists, maps and sums used by several components.
\<close>

named_theorems map_simps \<open>lookup after insertion, deletion and filtering\<close>

section \<open>Panics and results\<close>

type_synonym ('e, 'a) result = "'e + 'a"

definition rust_assert :: "bool \<Rightarrow> unit option" where
  "rust_assert b = (if b then Some () else None)"

lemma rust_assert_bind [simp]:
  "(rust_assert b \<bind> f) = (if b then f () else None)"
  by (simp add: rust_assert_def)

lemma rust_assert_Some [simp]: "rust_assert b = Some u \<longleftrightarrow> b"
  by (simp add: rust_assert_def)

lemma bind_eq_SomeE:
  assumes "(m \<bind> f) = Some y"
  obtains x where "m = Some x" "f x = Some y"
  using assms by (cases m) auto

section \<open>64-bit unsigned arithmetic\<close>

definition u64_size :: nat where
  "u64_size = 2 ^ 64"

definition u64_checked_add :: "nat \<Rightarrow> nat \<Rightarrow> nat option" where
  "u64_checked_add a b = (if a + b < u64_size then Some (a + b) else None)"

definition u64_checked_mul :: "nat \<Rightarrow> nat \<Rightarrow> nat option" where
  "u64_checked_mul a b = (if a * b < u64_size then Some (a * b) else None)"

definition u64_checked_sub :: "nat \<Rightarrow> nat \<Rightarrow> nat option" where
  "u64_checked_sub a b = (if b \<le> a then Some (a - b) else None)"

definition u64_wrapping_add :: "nat \<Rightarrow> nat \<Rightarrow> nat" where
  "u64_wrapping_add a b = (a + b) mod u64_size"

definition u64_wrapping_mul :: "nat \<Rightarrow> nat \<Rightarrow> nat" where
  "u64_wrapping_mul a b = (a * b) mod u64_size"

definition u64_wrapping_sub :: "nat \<Rightarrow> nat \<Rightarrow> nat" where
  "u64_wrapping_sub a b = (a + u64_size - b) mod u64_size"

text \<open>\<open>Iterator::sum\<close> over \<open>u64\<close> in a build without overflow checks.\<close>

definition u64_wrapping_sum :: "nat list \<Rightarrow> nat" where
  "u64_wrapping_sum xs = foldl u64_wrapping_add 0 xs"

text \<open>\<open>saturating_sub\<close> on unsigned integers is truncated subtraction.\<close>

abbreviation (input) saturating_sub :: "nat \<Rightarrow> nat \<Rightarrow> nat" where
  "saturating_sub a b \<equiv> a - b"

lemma u64_checked_add_Some [simp]:
  "u64_checked_add a b = Some c \<longleftrightarrow> c = a + b \<and> a + b < u64_size"
  by (auto simp: u64_checked_add_def)

lemma u64_checked_mul_Some [simp]:
  "u64_checked_mul a b = Some c \<longleftrightarrow> c = a * b \<and> a * b < u64_size"
  by (auto simp: u64_checked_mul_def)

lemma u64_checked_sub_Some [simp]:
  "u64_checked_sub a b = Some c \<longleftrightarrow> c = a - b \<and> b \<le> a"
  by (auto simp: u64_checked_sub_def)

lemma u64_wrapping_add_exact [simp]:
  "a + b < u64_size \<Longrightarrow> u64_wrapping_add a b = a + b"
  by (simp add: u64_wrapping_add_def)

lemma u64_wrapping_mul_exact [simp]:
  "a * b < u64_size \<Longrightarrow> u64_wrapping_mul a b = a * b"
  by (simp add: u64_wrapping_mul_def)

lemma u64_wrapping_sub_exact [simp]:
  "b \<le> a \<Longrightarrow> a < u64_size \<Longrightarrow> u64_wrapping_sub a b = a - b"
  unfolding u64_wrapping_sub_def by (subst Nat.diff_add_assoc2) (simp_all del: Nat.add_diff_assoc2)

lemma foldl_wrapping_add: "foldl u64_wrapping_add a xs mod u64_size = (a + sum_list xs) mod u64_size"
  by (induction xs arbitrary: a) (simp_all add: u64_wrapping_add_def mod_add_left_eq add.assoc)

lemma u64_wrapping_sum_mod: "u64_wrapping_sum xs = sum_list xs mod u64_size"
proof (cases xs rule: rev_cases)
  case (snoc ys y)
  have "foldl u64_wrapping_add 0 xs = foldl u64_wrapping_add 0 xs mod u64_size"
    by (simp add: snoc u64_wrapping_add_def)
  then show ?thesis unfolding u64_wrapping_sum_def using foldl_wrapping_add [of 0 xs] by simp
qed (simp add: u64_wrapping_sum_def)

lemma u64_wrapping_sum_exact [simp]: "sum_list xs < u64_size \<Longrightarrow> u64_wrapping_sum xs = sum_list xs"
  by (simp add: u64_wrapping_sum_mod)

section \<open>Ordered maps\<close>

fun bt_insert :: "'k::linorder \<Rightarrow> 'v \<Rightarrow> ('k \<times> 'v) list \<Rightarrow> ('k \<times> 'v) list" where
  "bt_insert k v [] = [(k, v)]"
| "bt_insert k v ((k', v') # m) =
     (if k < k' then (k, v) # (k', v') # m
      else if k = k' then (k, v) # m
      else (k', v') # bt_insert k v m)"

definition bt_of_list :: "('k::linorder \<times> 'v) list \<Rightarrow> ('k \<times> 'v) list" where
  "bt_of_list kvs = foldl (\<lambda>m (k, v). bt_insert k v m) [] kvs"

abbreviation bt_wf :: "('k::linorder \<times> 'v) list \<Rightarrow> bool" where
  "bt_wf m \<equiv> sorted_wrt (<) (map fst m)"

lemma map_of_bt_insert_apply:
  "map_of (bt_insert k v m) x = (if x = k then Some v else map_of m x)"
  by (induction k v m rule: bt_insert.induct) auto

lemma map_of_bt_insert [map_simps]: "map_of (bt_insert k v m) = (map_of m)(k \<mapsto> v)"
  by (rule ext) (simp add: map_of_bt_insert_apply)

lemma keys_bt_insert: "fst ` set (bt_insert k v m) = insert k (fst ` set m)"
  by (induction k v m rule: bt_insert.induct) (simp_all add: insert_commute)

lemma set_bt_insert_subset: "set (bt_insert k v m) \<subseteq> insert (k, v) (set m)"
  by (induction k v m rule: bt_insert.induct) auto

lemma bt_wf_bt_insert [simp]: "bt_wf m \<Longrightarrow> bt_wf (bt_insert k v m)"
proof (induction k v m rule: bt_insert.induct)
  case (2 k v k' v' m)
  have "\<forall>x \<in> fst ` set (bt_insert k v m). k' < x" if "\<not> k < k'" "k \<noteq> k'"
    using that 2(2) by (simp add: keys_bt_insert)
  then show ?case using 2 by (auto dest: less_trans)
qed simp

lemma bt_insert_last:
  "\<forall>k' \<in> fst ` set m. k' < k \<Longrightarrow> bt_insert k v m = m @ [(k, v)]"
  by (induction m) auto

lemma foldl_bt_insert_sorted:
  assumes "bt_wf (m @ kvs)"
  shows "foldl (\<lambda>m (k, v). bt_insert k v m) m kvs = m @ kvs"
  using assms
proof (induction kvs arbitrary: m)
  case (Cons kv kvs)
  obtain k v where kv: "kv = (k, v)" by (cases kv)
  have "bt_insert k v m = m @ [(k, v)]"
    using Cons.prems kv by (intro bt_insert_last) (auto simp: sorted_wrt_append)
  with Cons kv show ?case by simp
qed simp

lemma bt_of_list_sorted [simp]: "bt_wf kvs \<Longrightarrow> bt_of_list kvs = kvs"
  by (simp add: bt_of_list_def foldl_bt_insert_sorted)

lemma bt_wf_foldl_bt_insert:
  "bt_wf m \<Longrightarrow> bt_wf (foldl (\<lambda>m (k, v). bt_insert k v m) m kvs)"
  by (induction kvs arbitrary: m) (simp_all add: split_beta)

lemma bt_wf_bt_of_list [simp]: "bt_wf (bt_of_list kvs)"
  by (simp add: bt_of_list_def bt_wf_foldl_bt_insert)

lemma keys_foldl_bt_insert:
  "fst ` set (foldl (\<lambda>m (k, v). bt_insert k v m) m kvs) = fst ` set m \<union> fst ` set kvs"
  by (induction kvs arbitrary: m) (simp_all add: keys_bt_insert split_beta)

lemma keys_bt_of_list [simp]: "fst ` set (bt_of_list kvs) = fst ` set kvs"
  by (simp add: bt_of_list_def keys_foldl_bt_insert)

lemma sorted_less_distinct: "sorted_wrt (<) (xs :: 'a::linorder list) \<Longrightarrow> distinct xs"
  by (induction xs) auto

lemma bt_wf_distinct: "bt_wf m \<Longrightarrow> distinct (map fst m)"
  by (rule sorted_less_distinct)

lemma bt_wf_filter: "bt_wf m \<Longrightarrow> bt_wf (filter P m)"
  by (induction m) auto

lemma bt_wf_delete [simp]: "bt_wf m \<Longrightarrow> bt_wf (AList.delete k m)"
  by (simp add: AList.delete_eq bt_wf_filter)

lemma map_of_delete [map_simps]: "map_of (AList.delete k m) = (map_of m)(k := None)"
  by (rule delete_conv')

section \<open>Hash maps\<close>

lemma map_of_update [map_simps]: "map_of (AList.update k v m) = (map_of m)(k \<mapsto> v)"
  by (rule update_conv')

lemma distinct_keys_update [simp]:
  "distinct (map fst m) \<Longrightarrow> distinct (map fst (AList.update k v m))"
  by (rule distinct_update)

lemma map_of_filter_keys [map_simps]:
  "map_of (filter (\<lambda>(k, _). P k) m) k = (if P k then map_of m k else None)"
  by (induction m) auto

lemma distinct_keys_filter [simp]:
  "distinct (map fst m) \<Longrightarrow> distinct (map fst (filter P m))"
  by (induction m) auto

lemma map_of_mem_iff:
  "distinct (map fst m) \<Longrightarrow> map_of m k = Some v \<longleftrightarrow> (k, v) \<in> set m"
  by (auto dest: map_of_SomeD intro: map_of_is_SomeI)

text \<open>\<open>Iterator::position\<close>: the first index at which a predicate holds.\<close>

fun position :: "('a \<Rightarrow> bool) \<Rightarrow> 'a list \<Rightarrow> nat option" where
  "position P [] = None"
| "position P (x # xs) = (if P x then Some 0 else map_option Suc (position P xs))"

text \<open>Collecting an iterator of pairs into a hash map: later pairs win.\<close>

definition hash_collect :: "('k \<times> 'v) list \<Rightarrow> ('k \<times> 'v) list" where
  "hash_collect kvs = foldl (\<lambda>m (k, v). AList.update k v m) [] kvs"

lemma foldl_update_append:
  "distinct (map fst (m @ kvs)) \<Longrightarrow> foldl (\<lambda>m (k, v). AList.update k v m) m kvs = m @ kvs"
proof (induction kvs arbitrary: m)
  case (Cons kv kvs)
  obtain k v where kv: "kv = (k, v)" by (cases kv)
  have "k \<notin> fst ` set m" using Cons.prems kv by simp
  then have "AList.update k v m = m @ [(k, v)]" by (induction m) auto
  with Cons kv show ?case by simp
qed simp

lemma hash_collect_distinct [simp]: "distinct (map fst kvs) \<Longrightarrow> hash_collect kvs = kvs"
  by (simp add: hash_collect_def foldl_update_append)

lemma distinct_hash_collect [simp]: "distinct (map fst (hash_collect kvs))"
proof -
  have "distinct (map fst m) \<Longrightarrow> distinct (map fst (foldl (\<lambda>m (k, v). AList.update k v m) m kvs))"
    for m by (induction kvs arbitrary: m) (auto simp: split_beta)
  then show ?thesis by (simp add: hash_collect_def)
qed

section \<open>Sorting with a comparator\<close>

text \<open>\<open>slice::sort_by\<close>: a stable sort by a comparison.\<close>

fun insort_by :: "('a \<Rightarrow> 'a \<Rightarrow> bool) \<Rightarrow> 'a \<Rightarrow> 'a list \<Rightarrow> 'a list" where
  "insort_by le x [] = [x]"
| "insort_by le x (y # ys) = (if le x y then x # y # ys else y # insort_by le x ys)"

definition sort_by :: "('a \<Rightarrow> 'a \<Rightarrow> bool) \<Rightarrow> 'a list \<Rightarrow> 'a list" where
  "sort_by le xs = foldr (insort_by le) xs []"

lemma set_insort_by [simp]: "set (insort_by le x ys) = insert x (set ys)"
  by (induction le x ys rule: insort_by.induct) auto

lemma length_insort_by [simp]: "length (insort_by le x ys) = Suc (length ys)"
  by (induction le x ys rule: insort_by.induct) auto

lemma distinct_insort_by [simp]: "distinct (insort_by le x ys) \<longleftrightarrow> x \<notin> set ys \<and> distinct ys"
  by (induction le x ys rule: insort_by.induct) auto

lemma set_sort_by [simp]: "set (sort_by le xs) = set xs"
  by (induction xs) (simp_all add: sort_by_def)

lemma length_sort_by [simp]: "length (sort_by le xs) = length xs"
  by (induction xs) (simp_all add: sort_by_def)

lemma distinct_sort_by [simp]: "distinct (sort_by le xs) \<longleftrightarrow> distinct xs"
proof (induction xs)
  case (Cons x xs)
  have "sort_by le (x # xs) = insort_by le x (sort_by le xs)" by (simp add: sort_by_def)
  with Cons show ?case by simp
qed (simp add: sort_by_def)

lemma sorted_insort_by:
  assumes "\<And>a b. le a b \<or> le b a" "\<And>a b c. le a b \<Longrightarrow> le b c \<Longrightarrow> le a c" "sorted_wrt le ys"
  shows "sorted_wrt le (insort_by le x ys)"
  using assms(3)
proof (induction ys)
  case (Cons y ys)
  then show ?case using assms(1) [of x y] assms(2) by auto
qed simp

lemma sorted_sort_by:
  assumes "\<And>a b. le a b \<or> le b a" "\<And>a b c. le a b \<Longrightarrow> le b c \<Longrightarrow> le a c"
  shows "sorted_wrt le (sort_by le xs)"
  by (induction xs) (simp_all add: sort_by_def sorted_insort_by [OF assms])

text \<open>Under an antisymmetric order, a duplicate-free sorted list is determined by its elements.\<close>

lemma sorted_wrt_unique:
  assumes "\<And>a b. le a b \<Longrightarrow> le b a \<Longrightarrow> a = b"
    and "sorted_wrt le xs" "sorted_wrt le ys" "distinct xs" "distinct ys" "set xs = set ys"
  shows "xs = ys"
  using assms(2-)
proof (induction xs arbitrary: ys)
  case (Cons x xs)
  then obtain y ys' where ys: "ys = y # ys'" by (cases ys) auto
  have "x = y"
  proof (rule ccontr)
    assume "x \<noteq> y"
    then have "x \<in> set ys'" "y \<in> set xs" using Cons.prems(5) ys by auto
    then show False using Cons.prems(1,2) ys assms(1) \<open>x \<noteq> y\<close> by auto
  qed
  moreover have "set xs = set ys'"
    using Cons.prems(3-5) ys calculation by (simp add: insert_ident)
  ultimately show ?case using Cons.IH [of ys'] Cons.prems ys by simp
qed simp

lemma sort_by_cong_set:
  assumes "\<And>a b. le a b \<or> le b a" "\<And>a b c. le a b \<Longrightarrow> le b c \<Longrightarrow> le a c"
    and "\<And>a b. le a b \<Longrightarrow> le b a \<Longrightarrow> a = b"
    and "distinct xs" "distinct ys" "set xs = set ys"
  shows "sort_by le xs = sort_by le ys"
proof (rule sorted_wrt_unique [of le])
  show "sorted_wrt le (sort_by le xs)" "sorted_wrt le (sort_by le ys)"
    by (rule sorted_sort_by [of le]; (rule assms(1) | erule (1) assms(2)))+
qed (use assms(3-6) in simp_all)

section \<open>Lists and sums\<close>

lemma map_fst_index [simp]: "map (fst \<circ> (\<lambda>(k, a). (f a, a))) xs = map (f \<circ> snd) xs"
  by (simp add: comp_def split_beta)

lemma those_map_Some [simp]: "those (map (\<lambda>x. Some (f x)) xs) = Some (map f xs)"
  by (induction xs) auto

lemma those_eq_map:
  "(\<And>x. x \<in> set xs \<Longrightarrow> f x = Some (g x)) \<Longrightarrow> those (map f xs) = Some (map g xs)"
  by (induction xs) auto

lemma sum_list_mono_subset:
  fixes f :: "'a \<Rightarrow> nat"
  assumes "distinct xs" "finite A" "set xs \<subseteq> A"
  shows "sum_list (map f xs) \<le> sum f A"
  using assms by (simp add: sum_list_distinct_conv_sum_set sum_mono2)

lemma inj_on_set_of_distinct_map:
  "distinct (map f xs) \<Longrightarrow> inj_on f (set xs)"
  by (simp add: distinct_map)

section \<open>Ordered sets\<close>

text \<open>A \<open>BTreeSet\<close> is the strictly increasing list of its elements.\<close>

fun bs_insert :: "'k::linorder \<Rightarrow> 'k list \<Rightarrow> 'k list" where
  "bs_insert k [] = [k]"
| "bs_insert k (k' # s) = (if k < k' then k # k' # s else if k = k' then k' # s else k' # bs_insert k s)"

abbreviation bs_wf :: "'k::linorder list \<Rightarrow> bool" where
  "bs_wf s \<equiv> sorted_wrt (<) s"

definition bs_extend :: "'k::linorder list \<Rightarrow> 'k list \<Rightarrow> 'k list" where
  "bs_extend s ks = foldl (\<lambda>s k. bs_insert k s) s ks"

lemma set_bs_insert [simp]: "set (bs_insert k s) = insert k (set s)"
  by (induction k s rule: bs_insert.induct) auto

lemma bs_wf_bs_insert [simp]: "bs_wf s \<Longrightarrow> bs_wf (bs_insert k s)"
  by (induction k s rule: bs_insert.induct) (auto dest: less_trans)

lemma set_bs_extend [simp]: "set (bs_extend s ks) = set s \<union> set ks"
  unfolding bs_extend_def by (induction ks arbitrary: s) auto

lemma bs_wf_bs_extend [simp]: "bs_wf s \<Longrightarrow> bs_wf (bs_extend s ks)"
  unfolding bs_extend_def by (induction ks arbitrary: s) auto

lemma bs_wf_unique: "bs_wf s \<Longrightarrow> bs_wf s' \<Longrightarrow> set s = set s' \<Longrightarrow> s = s'"
  by (rule sorted_wrt_unique [of "(<)"]) (auto dest: sorted_less_distinct)

section \<open>Loops that may panic\<close>

fun fold_opt :: "('a \<Rightarrow> 's \<Rightarrow> 's option) \<Rightarrow> 'a list \<Rightarrow> 's \<Rightarrow> 's option" where
  "fold_opt f [] s = Some s"
| "fold_opt f (x # xs) s = do { s \<leftarrow> f x s; fold_opt f xs s }"

lemma fold_opt_append [simp]: "fold_opt f (xs @ ys) s = do { s \<leftarrow> fold_opt f xs s; fold_opt f ys s }"
proof (induction xs arbitrary: s)
  case (Cons x xs)
  then show ?case by (cases "f x s") simp_all
qed simp

end
