(* ===== verification/Quorum_System.thy ===== *)
theory Quorum_System
  imports Sui_Prelude
begin

text \<open>
  The interface every quorum-based component relies on: a committee gives its members a
  stake, and two thresholds. \<open>quorum\<close> is the 2f+1 threshold of certificates,
  \<open>validity\<close> the f+1 threshold of availability. The laws are what the committee
  constructors establish (Narwhal's \<open>Committee::load\<close>, Sui's \<open>Committee::new\<close>);
  the quorum intersection facts are proved here once for both.
\<close>

locale quorum_system =
  fixes members :: "'c \<Rightarrow> 'a set"
    and stake :: "'c \<Rightarrow> 'a \<Rightarrow> nat"
    and quorum :: "'c \<Rightarrow> nat"
    and validity :: "'c \<Rightarrow> nat"
    and wf :: "'c \<Rightarrow> bool"
  assumes finite_members: "wf c \<Longrightarrow> finite (members c)"
    and stake_outside: "wf c \<Longrightarrow> a \<notin> members c \<Longrightarrow> stake c a = 0"
    and thresholds_cover: "wf c \<Longrightarrow> sum (stake c) (members c) < quorum c + validity c"
    and quorums_cover: "wf c \<Longrightarrow> sum (stake c) (members c) + validity c \<le> 2 * quorum c"
    and quorum_reachable: "wf c \<Longrightarrow> quorum c \<le> sum (stake c) (members c)"
    and validity_positive: "wf c \<Longrightarrow> 0 < validity c"
begin

lemma sum_stake_inter:
  assumes "wf c" "finite A"
  shows "sum (stake c) (A \<inter> members c) = sum (stake c) A"
proof -
  have "sum (stake c) A = sum (stake c) (A \<inter> members c) + sum (stake c) (A - members c)"
    using assms(2) by (rule sum.Int_Diff)
  then show ?thesis using assms by (simp add: stake_outside)
qed

lemma sum_stake_le_total:
  assumes "wf c" "finite A"
  shows "sum (stake c) A \<le> sum (stake c) (members c)"
proof -
  have "sum (stake c) A = sum (stake c) (A \<inter> members c)"
    using assms by (simp add: sum_stake_inter)
  also have "\<dots> \<le> sum (stake c) (members c)"
    using assms by (intro sum_mono2) (auto simp: finite_members)
  finally show ?thesis .
qed

text \<open>Two sets share at least as much stake as they exceed the total by.\<close>

lemma stake_inclusion_exclusion:
  assumes "wf c" "finite A" "finite B"
  shows "sum (stake c) A + sum (stake c) B
    \<le> sum (stake c) (members c) + sum (stake c) (A \<inter> B)"
proof -
  have "sum (stake c) A + sum (stake c) B = sum (stake c) (A \<union> B) + sum (stake c) (A \<inter> B)"
    using assms by (simp add: sum.union_inter)
  moreover have "sum (stake c) (A \<union> B) \<le> sum (stake c) (members c)"
    using assms by (intro sum_stake_le_total) auto
  ultimately show ?thesis by simp
qed

lemma positive_stake_member:
  assumes "0 < sum (stake c) A" "wf c"
  obtains a where "a \<in> A" "a \<in> members c" "0 < stake c a"
proof -
  have "\<not> (\<forall>a \<in> A. stake c a = 0)"
  proof
    assume "\<forall>a \<in> A. stake c a = 0"
    then have "sum (stake c) A = 0" by (rule sum.neutral)
    with assms(1) show False by simp
  qed
  then obtain a where a: "a \<in> A" "stake c a \<noteq> 0" by auto
  moreover have "a \<in> members c"
    using a stake_outside [OF assms(2), of a] by auto
  ultimately show ?thesis using that [of a] by simp
qed

text \<open>A quorum and a validity set always have a member in common.\<close>

lemma quorum_meets_validity:
  assumes "wf c" "finite A" "finite B"
    and "quorum c \<le> sum (stake c) A" "validity c \<le> sum (stake c) B"
  obtains a where "a \<in> A" "a \<in> B" "a \<in> members c" "0 < stake c a"
proof -
  have "0 < sum (stake c) (A \<inter> B)"
    using stake_inclusion_exclusion [OF assms(1-3)] thresholds_cover [OF assms(1)] assms(4,5)
    by linarith
  then show ?thesis using assms(1) that by (elim positive_stake_member) auto
qed

text \<open>Two quorums overlap in at least a validity threshold of stake.\<close>

lemma quorums_overlap:
  assumes "wf c" "finite A" "finite B"
    and "quorum c \<le> sum (stake c) A" "quorum c \<le> sum (stake c) B"
  shows "validity c \<le> sum (stake c) (A \<inter> B)"
  using stake_inclusion_exclusion [OF assms(1-3)] quorums_cover [OF assms(1)] assms(4,5)
  by linarith

text \<open>If the faulty members hold less than the validity threshold, two quorums share an
  honest member.\<close>

lemma quorums_share_honest:
  assumes "wf c" "finite A" "finite B" "finite F"
    and "quorum c \<le> sum (stake c) A" "quorum c \<le> sum (stake c) B"
    and "sum (stake c) F < validity c"
  obtains a where "a \<in> A" "a \<in> B" "a \<notin> F" "a \<in> members c" "0 < stake c a"
proof -
  have "sum (stake c) (A \<inter> B) = sum (stake c) (A \<inter> B \<inter> F) + sum (stake c) (A \<inter> B - F)"
    using assms(2) by (intro sum.Int_Diff) auto
  moreover have "sum (stake c) (A \<inter> B \<inter> F) \<le> sum (stake c) F"
    using assms(4) by (intro sum_mono2) auto
  ultimately have "0 < sum (stake c) (A \<inter> B - F)"
    using quorums_overlap [OF assms(1-3,5,6)] assms(7) by linarith
  then show ?thesis using assms(1) that by (elim positive_stake_member) auto
qed

end

text \<open>
  A component that counts stake towards a threshold: it weighs the voters it has accepted.
  Several components of the code are such counters (the aggregators of votes, of certificates
  and of signatures); what follows from reaching the thresholds is proved here once.
\<close>

locale quorum_counter = quorum_system members stake quorum validity wf
  for members :: "'c \<Rightarrow> 'a set" and stake quorum validity wf +
  fixes weight :: "'s \<Rightarrow> nat"
    and voters :: "'s \<Rightarrow> 'a set"
    and inv :: "'c \<Rightarrow> 's \<Rightarrow> bool"
  assumes finite_voters: "inv c s \<Longrightarrow> finite (voters s)"
    and weight_voters: "wf c \<Longrightarrow> inv c s \<Longrightarrow> weight s = sum (stake c) (voters s)"
begin

lemma weight_le_total: "wf c \<Longrightarrow> inv c s \<Longrightarrow> weight s \<le> sum (stake c) (members c)"
  by (simp add: weight_voters finite_voters sum_stake_le_total)

lemma counters_overlap:
  assumes "wf c" "inv c s" "inv c s'" "quorum c \<le> weight s" "quorum c \<le> weight s'"
  shows "validity c \<le> sum (stake c) (voters s \<inter> voters s')"
  using assms by (intro quorums_overlap) (simp_all add: finite_voters weight_voters)

lemma honest_voter:
  assumes "wf c" "inv c s" "validity c \<le> weight s" "finite F" "sum (stake c) F < validity c"
  shows "\<exists>a \<in> voters s - F. a \<in> members c \<and> 0 < stake c a"
proof -
  have "sum (stake c) (voters s) = sum (stake c) (voters s \<inter> F) + sum (stake c) (voters s - F)"
    using finite_voters [OF assms(2)] by (rule sum.Int_Diff)
  moreover have "sum (stake c) (voters s \<inter> F) \<le> sum (stake c) F"
    using assms(4) by (intro sum_mono2) auto
  ultimately have "0 < sum (stake c) (voters s - F)"
    using assms(3,5) weight_voters [OF assms(1,2)] by linarith
  then show ?thesis using assms(1) by (elim positive_stake_member) auto
qed

end

end
