(* ===== verification/Narwhal_Committee.thy ===== *)
theory Narwhal_Committee
  imports Quorum_System
begin

text \<open>
  Narwhal's committee, \<open>src/narwhal/config/src/committee.rs\<close>: the authorities of an epoch,
  their index by identifier, the stake thresholds, the builder and the update of network
  addresses. Public keys and network keys are represented by their bytes read as a number:
  only their equality and order are used. Identifiers are the 16-bit numbers of
  \<open>AuthorityIdentifier\<close>; stakes are natural numbers.
\<close>

section \<open>Authorities\<close>

type_synonym public_key = nat
type_synonym network_key = nat
type_synonym multiaddr = string
type_synonym authority_identifier = nat
type_synonym stake = nat
type_synonym epoch = nat

record authority =
  auth_id :: authority_identifier
  auth_protocol_key :: public_key
  auth_protocol_key_bytes :: public_key
  auth_stake :: stake
  auth_primary_address :: multiaddr
  auth_network_key :: network_key
  auth_hostname :: string
  auth_initialised :: bool

definition authority_new ::
    "public_key \<Rightarrow> stake \<Rightarrow> multiaddr \<Rightarrow> network_key \<Rightarrow> string \<Rightarrow> authority" where
  "authority_new protocol_key s address nk hostname =
     \<lparr>auth_id = 0, auth_protocol_key = protocol_key, auth_protocol_key_bytes = protocol_key,
      auth_stake = s, auth_primary_address = address,
      auth_network_key = nk, auth_hostname = hostname, auth_initialised = False\<rparr>"

definition authority_initialise :: "authority_identifier \<Rightarrow> authority \<Rightarrow> authority" where
  "authority_initialise i a = a\<lparr>auth_id := i, auth_initialised := True\<rparr>"

text \<open>The getters panic on an authority that no committee has initialised.\<close>

definition authority_get :: "(authority \<Rightarrow> 'a) \<Rightarrow> authority \<Rightarrow> 'a option" where
  "authority_get f a = do { rust_assert (auth_initialised a); Some (f a) }"

definition authority_id :: "authority \<Rightarrow> authority_identifier option" where
  "authority_id a = authority_get auth_id a"

definition authority_protocol_key :: "authority \<Rightarrow> public_key option" where
  "authority_protocol_key a = authority_get auth_protocol_key a"

definition authority_stake :: "authority \<Rightarrow> stake option" where
  "authority_stake a = authority_get auth_stake a"

definition authority_primary_address :: "authority \<Rightarrow> multiaddr option" where
  "authority_primary_address a = authority_get auth_primary_address a"

definition authority_network_key :: "authority \<Rightarrow> network_key option" where
  "authority_network_key a = authority_get auth_network_key a"

definition authority_hostname :: "authority \<Rightarrow> string option" where
  "authority_hostname a = authority_get auth_hostname a"

lemmas authority_getter_defs =
  authority_get_def authority_id_def authority_protocol_key_def authority_stake_def
  authority_primary_address_def authority_network_key_def authority_hostname_def

section \<open>The committee\<close>

record committee =
  cm_authorities :: "(public_key \<times> authority) list"
  cm_authorities_by_id :: "(authority_identifier \<times> authority) list"
  cm_epoch :: epoch
  cm_quorum_threshold :: stake
  cm_validity_threshold :: stake

definition authorities :: "committee \<Rightarrow> authority list" where
  "authorities c = map snd (cm_authorities c)"

definition total_stake :: "committee \<Rightarrow> stake" where
  "total_stake c = u64_wrapping_sum (map (auth_stake \<circ> snd) (cm_authorities c))"

text \<open>\<open>NonZeroU64::new(..).unwrap()\<close> panics on zero.\<close>

definition calculate_quorum_threshold :: "committee \<Rightarrow> stake option" where
  "calculate_quorum_threshold c =
     (let q = u64_wrapping_add (u64_wrapping_mul 2 (total_stake c) div 3) 1 in if q = 0 then None else Some q)"

definition calculate_validity_threshold :: "committee \<Rightarrow> stake option" where
  "calculate_validity_threshold c =
     (let v = u64_wrapping_add (total_stake c) 2 div 3 in if v = 0 then None else Some v)"

text \<open>\<open>load\<close> numbers the authorities in key order (the identifiers are 16 bits wide) and
  computes the thresholds.\<close>

definition load_identifiers ::
    "(public_key \<times> authority) list \<Rightarrow> (public_key \<times> authority) list" where
  "load_identifiers as =
     map (\<lambda>(i, k, a). (k, authority_initialise (i mod 2 ^ 16) a)) (zip [0..<length as] as)"

definition committee_load :: "committee \<Rightarrow> committee option" where
  "committee_load c = do {
     let as = load_identifiers (cm_authorities c);
     let by_id = bt_of_list (map (\<lambda>(k, a). (auth_id a, a)) as);
     let c = c\<lparr>cm_authorities := as, cm_authorities_by_id := by_id\<rparr>;
     v \<leftarrow> calculate_validity_threshold c;
     q \<leftarrow> calculate_quorum_threshold c;
     Some (c\<lparr>cm_validity_threshold := v, cm_quorum_threshold := q\<rparr>)
   }"

definition committee_new :: "(public_key \<times> authority) list \<Rightarrow> epoch \<Rightarrow> committee option" where
  "committee_new as e = do {
     c \<leftarrow> committee_load \<lparr>cm_authorities = as, cm_authorities_by_id = [], cm_epoch = e,
            cm_quorum_threshold = 0, cm_validity_threshold = 0\<rparr>;
     rust_assert (length (cm_authorities_by_id c) = length (cm_authorities c));
     v \<leftarrow> calculate_validity_threshold c;
     rust_assert (cm_validity_threshold c = v);
     q \<leftarrow> calculate_quorum_threshold c;
     rust_assert (cm_quorum_threshold c = q);
     rust_assert (list_all (\<lambda>(i, k, a). i mod 2 ^ 16 = auth_id a)
       (zip [0..<length (cm_authorities c)] (cm_authorities c)));
     Some c
   }"

definition authority_lookup :: "committee \<Rightarrow> authority_identifier \<Rightarrow> authority option" where
  "authority_lookup c i = map_of (cm_authorities_by_id c) i"

text \<open>\<open>authority_safe\<close> panics where \<open>authority\<close> returns none, so both are the lookup.\<close>

definition authority_safe :: "committee \<Rightarrow> authority_identifier \<Rightarrow> authority option" where
  "authority_safe c i = map_of (cm_authorities_by_id c) i"

definition authority_by_key :: "committee \<Rightarrow> public_key \<Rightarrow> authority option" where
  "authority_by_key c k = map_of (cm_authorities c) k"

definition committee_keys :: "committee \<Rightarrow> public_key list" where
  "committee_keys c = map fst (cm_authorities c)"

definition authority_by_network_key :: "committee \<Rightarrow> network_key \<Rightarrow> authority option" where
  "authority_by_network_key c nk =
     map_option snd (List.find (\<lambda>(_, a). auth_network_key a = nk) (cm_authorities c))"

definition committee_size :: "committee \<Rightarrow> nat" where
  "committee_size c = length (cm_authorities c)"

definition committee_stake :: "committee \<Rightarrow> public_key \<Rightarrow> stake" where
  "committee_stake c k = (case map_of (cm_authorities c) k of None \<Rightarrow> 0 | Some a \<Rightarrow> auth_stake a)"

definition stake_by_id :: "committee \<Rightarrow> authority_identifier \<Rightarrow> stake" where
  "stake_by_id c i = (case map_of (cm_authorities_by_id c) i of None \<Rightarrow> 0 | Some a \<Rightarrow> auth_stake a)"

definition reached_quorum :: "committee \<Rightarrow> stake \<Rightarrow> bool" where
  "reached_quorum c s \<longleftrightarrow> cm_quorum_threshold c \<le> s"

definition reached_validity :: "committee \<Rightarrow> stake \<Rightarrow> bool" where
  "reached_validity c s \<longleftrightarrow> cm_validity_threshold c \<le> s"

text \<open>
  The leader of a seed is a stake-weighted choice by a seeded random generator
  (\<open>rand\<close>'s \<open>choose_weighted\<close>, with the stakes converted to 32-bit floats): a
  parameter, which picks one of the weighted items or fails.
\<close>

type_synonym choose_weighted = "nat \<Rightarrow> (authority \<times> stake) list \<Rightarrow> authority option"

definition committee_leader :: "choose_weighted \<Rightarrow> committee \<Rightarrow> nat \<Rightarrow> authority option" where
  "committee_leader cw c seed = cw seed (map (\<lambda>a. (a, auth_stake a)) (authorities c))"

datatype config_error = NotInCommittee_id authority_identifier | NotInCommittee_key public_key

definition primary_address :: "committee \<Rightarrow> public_key \<Rightarrow> (config_error, multiaddr) result" where
  "primary_address c k = (case map_of (cm_authorities c) k of
     None \<Rightarrow> Inl (NotInCommittee_key k) | Some a \<Rightarrow> Inr (auth_primary_address a))"

definition primary_by_id ::
    "committee \<Rightarrow> authority_identifier \<Rightarrow> (config_error, multiaddr) result" where
  "primary_by_id c i = (case map_of (cm_authorities_by_id c) i of
     None \<Rightarrow> Inl (NotInCommittee_id i) | Some a \<Rightarrow> Inr (auth_primary_address a))"

definition committee_network_key ::
    "committee \<Rightarrow> public_key \<Rightarrow> (config_error, network_key) result" where
  "committee_network_key c k = (case map_of (cm_authorities c) k of
     None \<Rightarrow> Inl (NotInCommittee_key k) | Some a \<Rightarrow> Inr (auth_network_key a))"

definition others_primaries ::
    "committee \<Rightarrow> public_key \<Rightarrow> (public_key \<times> multiaddr \<times> network_key) list" where
  "others_primaries c myself =
     map (\<lambda>(k, a). (k, auth_primary_address a, auth_network_key a))
       (filter (\<lambda>(k, _). k \<noteq> myself) (cm_authorities c))"

definition others_primaries_by_id ::
    "committee \<Rightarrow> authority_identifier \<Rightarrow>
     (authority_identifier \<times> multiaddr \<times> network_key) list option" where
  "others_primaries_by_id c myself = do {
     as \<leftarrow> those (map (\<lambda>a. do { i \<leftarrow> authority_id a; Some (i, a) }) (authorities c));
     those (map (\<lambda>(i, a). do {
         p \<leftarrow> authority_primary_address a; nk \<leftarrow> authority_network_key a; Some (i, p, nk) })
       (filter (\<lambda>(i, _). i \<noteq> myself) as))
   }"

definition get_all_network_addresses :: "committee \<Rightarrow> multiaddr set" where
  "get_all_network_addresses c = set (map auth_primary_address (authorities c))"

definition network_diff :: "committee \<Rightarrow> committee \<Rightarrow> multiaddr set" where
  "network_diff c other = get_all_network_addresses c - get_all_network_addresses other"

section \<open>Updating the network addresses\<close>

datatype committee_update_error =
    DifferentStake public_key
  | MissingFromUpdate public_key
  | NotInCommittee public_key

type_synonym update_acc =
  "(committee_update_error list, (public_key \<times> authority) list) result"

definition push_error_and_return :: "update_acc \<Rightarrow> committee_update_error \<Rightarrow> update_acc" where
  "push_error_and_return acc e = Inl ((case acc of Inl es \<Rightarrow> es | Inr _ \<Rightarrow> []) @ [e])"

fun update_table ::
    "(public_key \<times> authority) list \<Rightarrow> update_acc \<Rightarrow> (public_key \<times> stake \<times> multiaddr) list \<Rightarrow>
     update_acc \<times> (public_key \<times> stake \<times> multiaddr) list" where
  "update_table [] acc new_info = (acc, new_info)"
| "update_table ((pk, a) # table) acc new_info =
     (case map_of new_info pk of
        Some (s, address) \<Rightarrow>
          update_table table
            (if s = auth_stake a
             then (case acc of
                 Inr bmap \<Rightarrow> Inr (bt_insert pk (a\<lparr>auth_primary_address := address\<rparr>) bmap)
               | Inl es \<Rightarrow> Inl es)
             else push_error_and_return acc (DifferentStake pk))
            (AList.delete pk new_info)
      | None \<Rightarrow> update_table table (push_error_and_return acc (MissingFromUpdate pk)) new_info)"

definition update_primary_network_info ::
    "committee \<Rightarrow> (public_key \<times> stake \<times> multiaddr) list \<Rightarrow>
     (committee_update_error list, unit) result \<times> committee" where
  "update_primary_network_info c new_info =
     (let (res, left) = update_table (cm_authorities c) (Inr []) new_info;
          res = foldl (\<lambda>acc (pk, _). push_error_and_return acc (NotInCommittee pk)) res left
      in case res of
           Inr new_table \<Rightarrow> (Inr (), c\<lparr>cm_authorities := new_table\<rparr>)
         | Inl errs \<Rightarrow> (Inl errs, c))"

definition advance_epoch :: "committee \<Rightarrow> epoch \<Rightarrow> committee option" where
  "advance_epoch c e = committee_new (cm_authorities c) e"

section \<open>The builder\<close>

record committee_builder =
  cb_epoch :: epoch
  cb_authorities :: "(public_key \<times> authority) list"

definition committee_builder_new :: "epoch \<Rightarrow> committee_builder" where
  "committee_builder_new e = \<lparr>cb_epoch = e, cb_authorities = []\<rparr>"

definition add_authority ::
    "committee_builder \<Rightarrow> public_key \<Rightarrow> stake \<Rightarrow> multiaddr \<Rightarrow> network_key \<Rightarrow> string \<Rightarrow>
     committee_builder" where
  "add_authority b protocol_key s address nk hostname =
     b\<lparr>cb_authorities := bt_insert protocol_key
         (authority_new protocol_key s address nk hostname) (cb_authorities b)\<rparr>"

definition build :: "committee_builder \<Rightarrow> committee option" where
  "build b = committee_new (cb_authorities b) (cb_epoch b)"

section \<open>Well-formed committees\<close>

text \<open>What \<open>Committee::new\<close> establishes, as long as a hundred times the total stake fits in 64 bits: the
  identifiers are the positions in key order and fit in 16 bits, the index agrees with the table, every
  authority is initialised, and the thresholds are those of the (positive) total stake. Then no sum
  of stakes of different authorities wraps around, nor does a percentage of the total.\<close>

abbreviation stake_sum :: "(public_key \<times> authority) list \<Rightarrow> nat" where
  "stake_sum as \<equiv> sum_list (map (auth_stake \<circ> snd) as)"

definition wf_committee :: "committee \<Rightarrow> bool" where
  "wf_committee c \<longleftrightarrow>
     bt_wf (cm_authorities c)
     \<and> cm_authorities_by_id c = map (\<lambda>(k, a). (auth_id a, a)) (cm_authorities c)
     \<and> map auth_id (authorities c) = [0..<length (cm_authorities c)]
     \<and> length (cm_authorities c) \<le> 2 ^ 16
     \<and> list_all auth_initialised (authorities c)
     \<and> 100 * stake_sum (cm_authorities c) < u64_size
     \<and> 0 < total_stake c
     \<and> cm_quorum_threshold c = 2 * total_stake c div 3 + 1
     \<and> cm_validity_threshold c = (total_stake c + 2) div 3"

abbreviation committee_ids :: "committee \<Rightarrow> authority_identifier set" where
  "committee_ids c \<equiv> fst ` set (cm_authorities_by_id c)"

lemma total_stake_exact: "wf_committee c \<Longrightarrow> total_stake c = stake_sum (cm_authorities c)"
  by (simp add: wf_committee_def total_stake_def)

lemma stake_bound: "wf_committee c \<Longrightarrow> 100 * total_stake c < u64_size"
  by (simp add: total_stake_exact) (simp add: wf_committee_def)

lemma length_load_identifiers [simp]: "length (load_identifiers as) = length as"
  by (simp add: load_identifiers_def)

lemma nth_load_identifiers:
  "i < length as \<Longrightarrow> load_identifiers as ! i =
     (fst (as ! i), authority_initialise (i mod 2 ^ 16) (snd (as ! i)))"
  by (simp add: load_identifiers_def split_beta)

lemma keys_load_identifiers [simp]: "map fst (load_identifiers as) = map fst as"
  by (rule nth_equalityI) (simp_all add: nth_load_identifiers)

lemma ids_load_identifiers:
  "map (auth_id \<circ> snd) (load_identifiers as) = map (\<lambda>i. i mod 2 ^ 16) [0..<length as]"
  by (rule nth_equalityI) (simp_all add: nth_load_identifiers authority_initialise_def)

lemma stakes_load_identifiers:
  "map (auth_stake \<circ> snd) (load_identifiers as) = map (auth_stake \<circ> snd) as"
  by (rule nth_equalityI) (simp_all add: nth_load_identifiers authority_initialise_def)

lemma map_of_load_identifiers:
  "map_option auth_stake (map_of (load_identifiers as) k) = map_option auth_stake (map_of as k)"
proof -
  have "map (\<lambda>(k, a). (k, auth_stake a)) (load_identifiers as) = map (\<lambda>(k, a). (k, auth_stake a)) as"
    by (rule nth_equalityI) (simp_all add: nth_load_identifiers authority_initialise_def split_beta)
  then have "map_of (map (\<lambda>(k, a). (k, auth_stake a)) (load_identifiers as)) k
      = map_of (map (\<lambda>(k, a). (k, auth_stake a)) as) k" by simp
  then show ?thesis by (simp only: map_of_map comp_apply)
qed

lemma initialised_load_identifiers: "list_all (auth_initialised \<circ> snd) (load_identifiers as)"
  by (auto simp: list_all_length nth_load_identifiers authority_initialise_def)

text \<open>The first sanity check of \<open>Committee::new\<close> rules out more authorities than identifiers.\<close>

lemma length_bt_of_list_le:
  assumes "finite K" "fst ` set kvs \<subseteq> K"
  shows "length (bt_of_list kvs) \<le> card K"
proof -
  have "length (bt_of_list kvs) = card (set (map fst (bt_of_list kvs)))"
    using bt_wf_distinct [OF bt_wf_bt_of_list, of kvs] by (simp add: distinct_card del: set_map)
  also have "\<dots> = card (fst ` set kvs)" by simp
  also have "\<dots> \<le> card K" using assms by (rule card_mono)
  finally show ?thesis .
qed

lemma load_identifiers_checked:
  "list_all (\<lambda>(i, k, a). i mod 2 ^ 16 = auth_id a) (zip [0..<length as] (load_identifiers as))"
  by (auto simp: list_all_length nth_load_identifiers authority_initialise_def)

lemma committee_new_eq:
  "committee_new as e =
     (let as' = load_identifiers as;
          by_id = bt_of_list (map (\<lambda>(k, a). (auth_id a, a)) as');
          v = (stake_sum as + 2) mod u64_size div 3
      in if length by_id = length as \<and> v \<noteq> 0
         then Some \<lparr>cm_authorities = as', cm_authorities_by_id = by_id, cm_epoch = e,
           cm_quorum_threshold = 2 * stake_sum as mod u64_size div 3 + 1, cm_validity_threshold = v\<rparr>
         else None)"
proof -
  have quorum: "calculate_quorum_threshold c = Some (2 * stake_sum as mod u64_size div 3 + 1)"
    and validity: "calculate_validity_threshold c = (let v = (stake_sum as + 2) mod u64_size div 3 in if v = 0 then None else Some v)"
    if c: "cm_authorities c = load_identifiers as" for c
  proof -
    have total: "total_stake c = stake_sum as mod u64_size"
      by (simp add: total_stake_def c stakes_load_identifiers u64_wrapping_sum_mod)
    have "x mod u64_size div 3 + 1 < u64_size" for x
      using mod_less_divisor [of u64_size x] by (simp add: u64_size_def)
    then show "calculate_quorum_threshold c = Some (2 * stake_sum as mod u64_size div 3 + 1)"
      by (simp add: calculate_quorum_threshold_def total u64_wrapping_mul_def mod_mult_right_eq Let_def)
    show "calculate_validity_threshold c = (let v = (stake_sum as + 2) mod u64_size div 3 in if v = 0 then None else Some v)"
      unfolding calculate_validity_threshold_def total u64_wrapping_add_def mod_add_left_eq ..
  qed
  then show ?thesis using load_identifiers_checked [of as]
    by (simp add: committee_new_def committee_load_def Let_def)
qed

lemma committee_new_size:
  assumes "committee_new as e = Some c"
  shows "length as \<le> 2 ^ 16"
proof -
  have len: "length (bt_of_list (map (\<lambda>(k, a). (auth_id a, a)) (load_identifiers as))) = length as"
    using assms by (simp add: committee_new_eq Let_def split: if_splits)
  have "fst ` set (map (\<lambda>(k, a). (auth_id a, a)) (load_identifiers as))
      = set (map (auth_id \<circ> snd) (load_identifiers as))"
    by (force simp: image_image split_beta)
  also have "\<dots> \<subseteq> {..<2 ^ 16}"
    unfolding ids_load_identifiers by auto
  finally have "length (bt_of_list (map (\<lambda>(k, a). (auth_id a, a)) (load_identifiers as)))
      \<le> card {..<2 ^ 16 :: nat}"
    by (rule length_bt_of_list_le [OF finite_lessThan])
  then show ?thesis unfolding len card_lessThan .
qed

lemma ids_small:
  "length as \<le> 2 ^ 16 \<Longrightarrow> map (auth_id \<circ> snd) (load_identifiers as) = [0..<length as]"
  unfolding ids_load_identifiers by (rule map_idI) simp

lemma bt_wf_ids:
  assumes "length as \<le> 2 ^ 16"
  shows "bt_wf (map (\<lambda>(k, a). (auth_id a, a)) (load_identifiers as))"
proof -
  have ids: "map fst (map (\<lambda>(k, a). (auth_id a, a)) (load_identifiers as))
      = map (auth_id \<circ> snd) (load_identifiers as)"
    by (simp add: split_beta)
  show ?thesis unfolding ids ids_small [OF assms] by simp
qed

lemma committee_new_Some_iff:
  assumes "bt_wf as"
  shows "(\<exists>c. committee_new as e = Some c)
    \<longleftrightarrow> length as \<le> 2 ^ 16 \<and> 3 \<le> (stake_sum as + 2) mod u64_size" (is "?l \<longleftrightarrow> ?r")
proof
  assume ?l
  then obtain c where c: "committee_new as e = Some c" ..
  then show ?r
    using committee_new_size [OF c] by (simp add: committee_new_eq Let_def div_eq_0_iff split: if_splits)
next
  assume r: ?r
  then have "length as \<le> 2 ^ 16" by simp
  from bt_wf_ids [OF this] r show ?l by (simp add: committee_new_eq Let_def div_eq_0_iff)
qed

lemma committee_new_Some:
  assumes "bt_wf as" "committee_new as e = Some c"
  shows "c = \<lparr>cm_authorities = load_identifiers as,
      cm_authorities_by_id = map (\<lambda>(k, a). (auth_id a, a)) (load_identifiers as), cm_epoch = e,
      cm_quorum_threshold = 2 * stake_sum as mod u64_size div 3 + 1,
      cm_validity_threshold = (stake_sum as + 2) mod u64_size div 3\<rparr>"
  using assms(2) bt_wf_ids [OF committee_new_size [OF assms(2)]]
  by (simp add: committee_new_eq Let_def split: if_splits)

lemma committee_new_wf:
  assumes "bt_wf as" "committee_new as e = Some c" "100 * stake_sum as < u64_size"
  shows "wf_committee c"
proof -
  note size = committee_new_size [OF assms(2)] and c = committee_new_Some [OF assms(1,2)]
  have auths: "cm_authorities c = load_identifiers as" using c by simp
  have total: "total_stake c = stake_sum as" "stake_sum (cm_authorities c) = stake_sum as"
    using assms(3) by (simp_all add: total_stake_def auths stakes_load_identifiers)
  have small: "2 * stake_sum as < u64_size" "stake_sum as + 2 < u64_size" using assms(3) by (simp_all add: u64_size_def)
  have "0 < stake_sum as" using committee_new_Some_iff [OF assms(1), of e] assms(2) small by auto
  moreover have "map auth_id (authorities c) = [0..<length (cm_authorities c)]"
    using ids_small [OF size] by (simp add: authorities_def auths)
  moreover have "list_all auth_initialised (authorities c)"
    using initialised_load_identifiers [of as]
    by (simp add: authorities_def auths list.pred_map comp_def)
  moreover have "bt_wf (cm_authorities c)" using assms(1) auths by simp
  ultimately show "wf_committee c" unfolding wf_committee_def total using c size small assms(3) by simp
qed

lemma wf_committee_index:
  "wf_committee c \<Longrightarrow> map fst (cm_authorities_by_id c) = map auth_id (authorities c)"
  by (simp add: wf_committee_def authorities_def)

lemma wf_committee_ids:
  assumes "wf_committee c"
  shows "map fst (cm_authorities_by_id c) = [0..<committee_size c]"
    and "committee_ids c = {..<committee_size c}"
proof -
  show ids: "map fst (cm_authorities_by_id c) = [0..<committee_size c]"
    unfolding wf_committee_index [OF assms]
    using assms by (simp add: wf_committee_def committee_size_def)
  have "committee_ids c = set (map fst (cm_authorities_by_id c))" by simp
  then show "committee_ids c = {..<committee_size c}"
    unfolding ids by auto
qed

lemma wf_committee_distinct_ids:
  "wf_committee c \<Longrightarrow> distinct (map fst (cm_authorities_by_id c))"
  by (simp add: wf_committee_ids)

lemma authority_lookup_member:
  assumes "wf_committee c"
  shows "a \<in> set (authorities c) \<longleftrightarrow> authority_lookup c (auth_id a) = Some a"
proof -
  have "a \<in> set (authorities c) \<longleftrightarrow> (auth_id a, a) \<in> set (cm_authorities_by_id c)"
    using assms by (force simp: wf_committee_def authorities_def)
  then show ?thesis
    using wf_committee_distinct_ids [OF assms] by (simp add: authority_lookup_def map_of_mem_iff)
qed

lemma authority_lookup_id:
  assumes "wf_committee c" "authority_lookup c i = Some a"
  shows "auth_id a = i" and "a \<in> set (authorities c)"
proof -
  have "(i, a) \<in> set (cm_authorities_by_id c)"
    using assms(2) by (auto simp: authority_lookup_def dest: map_of_SomeD)
  then show "auth_id a = i" and "a \<in> set (authorities c)"
    using assms(1) by (force simp: wf_committee_def authorities_def)+
qed

lemma authority_lookup_dom:
  "wf_committee c \<Longrightarrow> (\<exists>a. authority_lookup c i = Some a) \<longleftrightarrow> i < committee_size c"
  using wf_committee_ids(2) [of c] map_of_eq_None_iff [of "cm_authorities_by_id c" i]
  by (auto simp: authority_lookup_def)

lemma initialised_getters:
  assumes "wf_committee c" "a \<in> set (authorities c)"
  shows "authority_id a = Some (auth_id a)"
    and "authority_protocol_key a = Some (auth_protocol_key a)"
    and "authority_stake a = Some (auth_stake a)"
  using assms by (auto simp: wf_committee_def list_all_iff authority_getter_defs)

lemma stake_by_id_auth:
  assumes "wf_committee c" "a \<in> set (authorities c)"
  shows "stake_by_id c (auth_id a) = auth_stake a"
  using assms authority_lookup_member by (simp add: stake_by_id_def authority_lookup_def)

lemma sum_stake_by_id:
  assumes "wf_committee c"
  shows "sum (stake_by_id c) (committee_ids c) = total_stake c"
proof -
  have "sum (stake_by_id c) (committee_ids c)
      = sum_list (map (stake_by_id c) (map fst (cm_authorities_by_id c)))"
    using wf_committee_distinct_ids [OF assms]
    by (subst sum_list_distinct_conv_sum_set) simp_all
  also have "map (stake_by_id c) (map fst (cm_authorities_by_id c))
      = map (stake_by_id c \<circ> auth_id) (authorities c)"
    by (simp only: wf_committee_index [OF assms] map_map)
  also have "\<dots> = map auth_stake (authorities c)"
    using assms by (simp add: stake_by_id_auth)
  finally show ?thesis by (simp add: authorities_def total_stake_exact [OF assms])
qed

interpretation narwhal_quorum:
  quorum_system committee_ids stake_by_id cm_quorum_threshold cm_validity_threshold wf_committee
proof unfold_locales
  fix c :: committee and a :: authority_identifier
  assume wf: "wf_committee c"
  then have thr: "0 < total_stake c" "cm_quorum_threshold c = 2 * total_stake c div 3 + 1"
      "cm_validity_threshold c = (total_stake c + 2) div 3"
    by (auto simp: wf_committee_def)
  show "finite (committee_ids c)" by simp
  show "stake_by_id c a = 0" if "a \<notin> committee_ids c"
    using that by (simp add: stake_by_id_def map_of_eq_None_iff [THEN iffD2])
  show "sum (stake_by_id c) (committee_ids c) < cm_quorum_threshold c + cm_validity_threshold c"
    unfolding sum_stake_by_id [OF wf] thr by presburger
  show "sum (stake_by_id c) (committee_ids c) + cm_validity_threshold c
      \<le> 2 * cm_quorum_threshold c"
    unfolding sum_stake_by_id [OF wf] thr by presburger
  show "cm_quorum_threshold c \<le> sum (stake_by_id c) (committee_ids c)"
    unfolding sum_stake_by_id [OF wf] thr(2) using thr(1) by presburger
  show "0 < cm_validity_threshold c"
    unfolding thr(3) using thr(1) by presburger
qed

lemma sum_stake_by_id_le: "wf_committee c \<Longrightarrow> finite A \<Longrightarrow> sum (stake_by_id c) A \<le> total_stake c"
  using narwhal_quorum.sum_stake_le_total [of c A] by (simp add: sum_stake_by_id)

lemma stakes_fit: "wf_committee c \<Longrightarrow> finite A \<Longrightarrow> sum (stake_by_id c) A < u64_size"
  using sum_stake_by_id_le [of c A] stake_bound [of c] by linarith

section \<open>Correctness of the address update\<close>

lemma update_table_leftover:
  "snd (update_table table acc new_info) = filter (\<lambda>(k, _). k \<notin> fst ` set table) new_info"
proof (induction table acc new_info rule: update_table.induct)
  case (2 pk a table acc new_info)
  have "filter (\<lambda>(k, _). k \<notin> fst ` set table) (AList.delete pk new_info)
      = filter (\<lambda>(k, _). k \<notin> fst ` set ((pk, a) # table)) new_info"
    by (auto simp: AList.delete_eq intro!: filter_cong)
  moreover have "filter (\<lambda>(k, _). k \<notin> fst ` set table) new_info
      = filter (\<lambda>(k, _). k \<notin> fst ` set ((pk, a) # table)) new_info"
    if "map_of new_info pk = None"
    using that by (intro filter_cong) (force simp: map_of_eq_None_iff)+
  ultimately show ?case using 2 by (auto split: option.split)
qed simp

lemma update_table_error: "\<exists>es'. fst (update_table table (Inl es) new_info) = Inl (es @ es')"
proof (induction table arbitrary: es new_info)
  case (Cons ka table)
  obtain k a where "ka = (k, a)" by (cases ka)
  then show ?case
    using Cons [of es] Cons [of "es @ [_]"]
    by (auto simp: push_error_and_return_def split: option.split) fastforce+
qed simp

definition update_matches ::
    "(public_key \<times> authority) list \<Rightarrow> (public_key \<times> stake \<times> multiaddr) list \<Rightarrow> bool" where
  "update_matches table new_info \<longleftrightarrow>
     list_all (\<lambda>(k, a). map_option fst (map_of new_info k) = Some (auth_stake a)) table"

definition apply_update ::
    "(public_key \<times> stake \<times> multiaddr) list \<Rightarrow> (public_key \<times> authority) list \<Rightarrow>
     (public_key \<times> authority) list" where
  "apply_update new_info =
     map (\<lambda>(k, a). (k, a\<lparr>auth_primary_address := snd (the (map_of new_info k))\<rparr>))"

lemma update_matches_delete:
  assumes "pk \<notin> fst ` set table"
  shows "update_matches table (AList.delete pk new_info) = update_matches table new_info"
    and "apply_update (AList.delete pk new_info) table = apply_update new_info table"
proof -
  have "map_of (AList.delete pk new_info) k = map_of new_info k" if "(k, a) \<in> set table" for k a
    using assms that by (force simp: delete_conv')
  then show "update_matches table (AList.delete pk new_info) = update_matches table new_info"
    and "apply_update (AList.delete pk new_info) table = apply_update new_info table"
    by (auto simp: update_matches_def apply_update_def list_all_iff)
qed

lemma update_table_ok:
  assumes "bt_wf (m @ table)"
  shows "fst (update_table table (Inr m) new_info) = Inr m' \<longleftrightarrow>
     update_matches table new_info \<and> m' = m @ apply_update new_info table"
  using assms
proof (induction table arbitrary: m new_info)
  case Nil
  then show ?case by (auto simp: update_matches_def apply_update_def)
next
  case (Cons ka table)
  obtain pk a where ka: "ka = (pk, a)" by (cases ka)
  have notin: "pk \<notin> fst ` set table" and last: "\<forall>k \<in> fst ` set m. k < pk"
    using Cons.prems ka by (auto simp: sorted_wrt_append)
  have ins: "bt_insert pk v m = m @ [(pk, v)]" for v
    by (rule bt_insert_last [OF last])
  have wf: "bt_wf ((m @ [(pk, v)]) @ table)" for v
    using Cons.prems ka by simp
  have err: "fst (update_table table (push_error_and_return (Inr m) e) ni) \<noteq> Inr m'" for e ni
    using update_table_error [of table "[e]" ni] by (auto simp: push_error_and_return_def)
  show ?case
    using err Cons.IH [OF wf] update_matches_delete [OF notin]
    by (auto simp: ka ins split: option.split)
       (auto simp: update_matches_def apply_update_def)
qed

lemma foldl_push_error:
  "left \<noteq> [] \<Longrightarrow>
     \<exists>es. foldl (\<lambda>acc (pk, _). push_error_and_return acc (NotInCommittee pk)) res left = Inl es"
  by (induction left arbitrary: res rule: rev_induct) (auto simp: push_error_and_return_def)

text \<open>The update is taken exactly when the new information names the same keys with the same
  stakes; it then changes the addresses and nothing else, and otherwise the committee stays as
  it was and a non-empty list of errors is returned.\<close>

lemma update_primary_network_info_cases:
  assumes "bt_wf (cm_authorities c)"
  shows "update_primary_network_info c new_info =
     (if update_matches (cm_authorities c) new_info
         \<and> fst ` set new_info \<subseteq> fst ` set (cm_authorities c)
      then (Inr (), c\<lparr>cm_authorities := apply_update new_info (cm_authorities c)\<rparr>)
      else (Inl (projl (fst (update_primary_network_info c new_info))), c))"
proof -
  obtain res left where ut: "update_table (cm_authorities c) (Inr []) new_info = (res, left)"
    by fastforce
  have left: "left = filter (\<lambda>(k, _). k \<notin> fst ` set (cm_authorities c)) new_info"
    using update_table_leftover [of "cm_authorities c" "Inr []" new_info] ut by simp
  then have emp: "left = [] \<longleftrightarrow> fst ` set new_info \<subseteq> fst ` set (cm_authorities c)"
    by (force simp: filter_empty_conv)
  have ok: "res = Inr m' \<longleftrightarrow> update_matches (cm_authorities c) new_info
      \<and> m' = apply_update new_info (cm_authorities c)" for m'
    using update_table_ok [of "[]" "cm_authorities c" new_info m'] assms ut by simp
  show ?thesis
  proof (cases "left = []")
    case True
    then show ?thesis using ok emp ut
      by (cases res) (auto simp: update_primary_network_info_def)
  next
    case False
    then obtain es where
      "foldl (\<lambda>acc (pk, _). push_error_and_return acc (NotInCommittee pk)) res left = Inl es"
      using foldl_push_error by blast
    then show ?thesis using emp False ut by (auto simp: update_primary_network_info_def)
  qed
qed

lemma update_matches_iff:
  assumes "distinct (map fst (cm_authorities c))"
  shows "(\<forall>k. map_option fst (map_of new_info k) = map_option auth_stake (authority_by_key c k))
    \<longleftrightarrow> update_matches (cm_authorities c) new_info
       \<and> fst ` set new_info \<subseteq> fst ` set (cm_authorities c)" (is "?l \<longleftrightarrow> ?r")
proof
  assume l: ?l
  have "map_option fst (map_of new_info k) = Some (auth_stake a)"
    if "(k, a) \<in> set (cm_authorities c)" for k a
    using l that assms by (simp add: authority_by_key_def)
  moreover have "k \<in> fst ` set (cm_authorities c)" if "k \<in> fst ` set new_info" for k
    using l [THEN spec, of k] that
    by (metis authority_by_key_def map_of_eq_None_iff option.map_disc_iff)
  ultimately show ?r unfolding update_matches_def list_all_iff by blast
next
  assume r: ?r
  show ?l
  proof
    fix k
    show "map_option fst (map_of new_info k) = map_option auth_stake (authority_by_key c k)"
    proof (cases "authority_by_key c k")
      case None
      then have "k \<notin> fst ` set new_info"
        using r by (auto simp: authority_by_key_def map_of_eq_None_iff)
      then show ?thesis using None by (simp add: map_of_eq_None_iff [THEN iffD2])
    next
      case (Some a)
      then have "(k, a) \<in> set (cm_authorities c)"
        by (simp add: authority_by_key_def map_of_SomeD)
      then show ?thesis using r Some by (auto simp: update_matches_def list_all_iff)
    qed
  qed
qed

lemma update_table_pushed:
  "fst (update_table table (push_error_and_return acc e) new_info) \<noteq> Inl []"
  using update_table_error [of table "(case acc of Inl es \<Rightarrow> es | Inr _ \<Rightarrow> []) @ [e]" new_info]
  by (auto simp: push_error_and_return_def)

lemma update_table_Inl: "fst (update_table table (Inr m) new_info) \<noteq> Inl []"
proof (induction table arbitrary: m new_info)
  case (Cons ka table)
  obtain k a where "ka = (k, a)" by (cases ka)
  then show ?case
    using Cons.IH update_table_pushed by (simp split: option.split)
qed simp

lemma update_errors:
  "fst (update_primary_network_info c new_info) \<noteq> Inl []"
proof -
  obtain res left where ut: "update_table (cm_authorities c) (Inr []) new_info = (res, left)"
    by fastforce
  have "foldl (\<lambda>acc (pk, _). push_error_and_return acc (NotInCommittee pk)) res left \<noteq> Inl []"
    using update_table_Inl [of "cm_authorities c" "[]" new_info] ut
    by (cases left rule: rev_cases) (auto simp: push_error_and_return_def)
  then show ?thesis using ut by (auto simp: update_primary_network_info_def split: sum.splits)
qed

section \<open>Properties\<close>

text \<open>C24: \<open>Committee::new\<close> on an ordered table of authorities panics exactly when there are more
  than \<open>2 ^ 16\<close> of them or the total stake plus two, in 64 bits, is below three: there is no stake at
  all, or the sum wrapped around. Otherwise the committee has the thresholds computed in 64 bits, keeps
  the epoch and the keys, and gives every key the stake the table gave it; if a hundred times the
  total stake fits in 64 bits, it is well formed, with the thresholds of the exact total.\<close>

theorem committee_new_correct:
  assumes "bt_wf as"
  shows "case committee_new as e of
      None \<Rightarrow> 2 ^ 16 < length as \<or> (stake_sum as + 2) mod 2 ^ 64 < 3
    | Some c \<Rightarrow> length as \<le> 2 ^ 16 \<and> 3 \<le> (stake_sum as + 2) mod 2 ^ 64
        \<and> cm_quorum_threshold c = (2 * stake_sum as) mod 2 ^ 64 div 3 + 1
        \<and> cm_validity_threshold c = (stake_sum as + 2) mod 2 ^ 64 div 3
        \<and> cm_epoch c = e \<and> committee_keys c = map fst as
        \<and> (\<forall>k. committee_stake c k = (case map_of as k of None \<Rightarrow> 0 | Some a \<Rightarrow> auth_stake a))
        \<and> (100 * stake_sum as < 2 ^ 64 \<longrightarrow> wf_committee c)"
proof (cases "committee_new as e")
  case None
  then have "\<not> (\<exists>c. committee_new as e = Some c)" by simp
  then show ?thesis
    unfolding committee_new_Some_iff [OF assms] using None by (auto simp: not_le u64_size_def)
next
  case (Some c)
  note c = committee_new_Some [OF assms Some]
  have "map_option auth_stake (map_of (load_identifiers as) k) = map_option auth_stake (map_of as k)"
    for k
    by (rule map_of_load_identifiers)
  then have "committee_stake c k = (case map_of as k of None \<Rightarrow> 0 | Some a \<Rightarrow> auth_stake a)" for k
    by (simp add: committee_stake_def c split: option.split)
       (metis option.map_disc_iff option.map_sel option.sel option.simps(3))
  moreover have "length as \<le> 2 ^ 16 \<and> 3 \<le> (stake_sum as + 2) mod 2 ^ 64"
    using committee_new_Some_iff [OF assms, of e] Some by (simp add: u64_size_def)
  ultimately show ?thesis using Some c committee_new_wf [OF assms Some]
    by (simp add: committee_keys_def u64_size_def)
qed

theorem committee_new_correct_witness:
  "\<exists>c. committee_new [(7, authority_new 7 3 ''a'' 1 ''h''), (9, authority_new 9 1 ''b'' 2 ''g'')] 5
       = Some c \<and> wf_committee c \<and> cm_quorum_threshold c = 3 \<and> committee_stake c 7 = 3"
proof -
  let ?as = "[(7, authority_new 7 3 ''a'' 1 ''h''), (9, authority_new 9 1 ''b'' 2 ''g'')]"
  have "stake_sum ?as = 4" by (simp add: authority_new_def)
  moreover have "committee_new ?as 5 \<noteq> None" by (simp add: committee_new_Some_iff authority_new_def u64_size_def)
  ultimately show ?thesis
    using committee_new_correct [of ?as 5] by (auto simp: authority_new_def)
qed

text \<open>A committee of four authorities with stake one each, as the builder makes it.\<close>

definition example_builder :: committee_builder where
  "example_builder =
     add_authority (add_authority (add_authority (add_authority (committee_builder_new 1)
       40 1 ''d'' 4 ''hd'') 10 1 ''a'' 1 ''ha'') 30 1 ''c'' 3 ''hc'') 20 1 ''b'' 2 ''hb''"

definition example_committee :: committee where
  "example_committee = the (build example_builder)"

lemma build_example: "build example_builder = Some example_committee"
  and example_committee_wf: "wf_committee example_committee"
proof -
  have wf: "bt_wf (cb_authorities example_builder)"
    by (simp add: example_builder_def add_authority_def committee_builder_new_def)
  have "\<exists>c. committee_new (cb_authorities example_builder) 1 = Some c"
    unfolding committee_new_Some_iff [OF wf]
    by (simp add: example_builder_def add_authority_def committee_builder_new_def authority_new_def u64_size_def)
  then show b: "build example_builder = Some example_committee"
    by (auto simp: example_committee_def build_def example_builder_def add_authority_def
        committee_builder_new_def)
  show "wf_committee example_committee"
    using committee_new_wf [OF wf] b
    by (simp add: build_def) (simp add: example_builder_def add_authority_def committee_builder_new_def authority_new_def u64_size_def)
qed

lemma example_committee_eq:
  "example_committee =
    \<lparr>cm_authorities = load_identifiers (cb_authorities example_builder),
     cm_authorities_by_id =
       map (\<lambda>(k, a). (auth_id a, a)) (load_identifiers (cb_authorities example_builder)),
     cm_epoch = 1, cm_quorum_threshold = 3, cm_validity_threshold = 2\<rparr>"
proof -
  have "bt_wf (map (\<lambda>(k, a). (auth_id a, a)) (load_identifiers (cb_authorities example_builder)))"
    by (rule bt_wf_ids)
       (simp add: example_builder_def add_authority_def committee_builder_new_def)
  then show ?thesis
    using build_example
    by (simp add: build_def committee_new_eq Let_def)
       (simp add: example_builder_def add_authority_def committee_builder_new_def authority_new_def u64_size_def)
qed

lemma thresholds_example:
  "cm_quorum_threshold example_committee = 3" "cm_validity_threshold example_committee = 2"
  by (simp_all add: example_committee_eq)

lemma stake_example:
  "stake_by_id example_committee i = (if i < 4 then 1 else 0)"
proof -
  have "cm_authorities_by_id example_committee = map (\<lambda>(k, a). (auth_id a, a))
     (load_identifiers (cb_authorities example_builder))"
    by (simp add: example_committee_eq)
  then show ?thesis
    by (auto simp: stake_by_id_def load_identifiers_def example_builder_def add_authority_def
        committee_builder_new_def authority_new_def authority_initialise_def upt_rec)
qed

lemma authorities_example:
  "authorities example_committee =
    map (\<lambda>i. authority_initialise i (snd (cb_authorities example_builder ! i))) [0, 1, 2, 3]"
  by (simp add: authorities_def example_committee_eq load_identifiers_def example_builder_def
      add_authority_def committee_builder_new_def authority_new_def authority_initialise_def
      upt_rec)

lemma size_example: "committee_size example_committee = 4"
  using arg_cong [OF authorities_example, of length]
  by (simp add: committee_size_def authorities_def)

lemma ids_example: "committee_ids example_committee = {..<4}"
  unfolding wf_committee_ids(2) [OF example_committee_wf] size_example ..

text \<open>C23: In a committee that \<open>Committee::new\<close> builds from an ordered table, a hundred times whose total stake
  fits in 64 bits, a set of authorities with quorum stake has a member in common with every set of
  validity stake, and shares at least validity stake with every other quorum; all authorities
  together are a quorum.\<close>

theorem narwhal_quorum_intersection:
  assumes "bt_wf as" "committee_new as e = Some c" "100 * stake_sum as < 2 ^ 64" "finite A" "finite B"
    and "reached_quorum c (sum (stake_by_id c) A)"
  shows "(reached_validity c (sum (stake_by_id c) B) \<longrightarrow> (\<exists>a. a \<in> A \<inter> B \<and> 0 < stake_by_id c a))
    \<and> (reached_quorum c (sum (stake_by_id c) B) \<longrightarrow>
         reached_validity c (sum (stake_by_id c) (A \<inter> B)))
    \<and> reached_quorum c (sum (stake_by_id c) (committee_ids c))"
proof -
  have wf: "wf_committee c" using committee_new_wf [OF assms(1,2)] assms(3) by (simp add: u64_size_def)
  show ?thesis using assms narwhal_quorum.quorums_overlap [OF wf assms(4,5)] narwhal_quorum.quorum_reachable [OF wf]
    by (auto simp: reached_quorum_def reached_validity_def
        elim: narwhal_quorum.quorum_meets_validity [OF wf assms(4,5)])
qed

theorem narwhal_quorum_intersection_witness:
  "reached_quorum example_committee (sum (stake_by_id example_committee) {0, 1, 2})
   \<and> reached_validity example_committee (sum (stake_by_id example_committee) ({0, 1, 2} \<inter> {1, 2, 3}))"
proof -
  have q: "reached_quorum example_committee (sum (stake_by_id example_committee) {0, 1, 2})"
    and q': "reached_quorum example_committee (sum (stake_by_id example_committee) {1, 2, 3})"
    by (simp_all add: reached_quorum_def stake_example thresholds_example)
  have as: "bt_wf (cb_authorities example_builder)" "stake_sum (cb_authorities example_builder) = 4"
    by (simp_all add: example_builder_def add_authority_def committee_builder_new_def authority_new_def)
  show ?thesis
    using q q' narwhal_quorum_intersection [OF as(1) build_example [unfolded build_def], of "{0, 1, 2}" "{1, 2, 3}"] as(2) by simp
qed

text \<open>\<open>update_primary_network_info\<close> succeeds exactly when the new information gives the
  committee's keys, all of them and no others, their own stakes. It then replaces the addresses
  and changes nothing else of the table; otherwise it reports errors and leaves the committee
  unchanged. In neither case does it touch the index by identifier.\<close>

theorem update_primary_network_info_correct:
  assumes "wf_committee c"
  shows "case update_primary_network_info c new_info of
      (Inr _, c') \<Rightarrow>
        (\<forall>k. map_option fst (map_of new_info k) = map_option auth_stake (authority_by_key c k))
        \<and> c' = c\<lparr>cm_authorities := map (\<lambda>(k, a).
             (k, a\<lparr>auth_primary_address := snd (the (map_of new_info k))\<rparr>)) (cm_authorities c)\<rparr>
        \<and> primary_by_id c' = primary_by_id c
    | (Inl es, c') \<Rightarrow>
        \<not> (\<forall>k. map_option fst (map_of new_info k) = map_option auth_stake (authority_by_key c k))
        \<and> es \<noteq> [] \<and> c' = c"
proof -
  have wf: "bt_wf (cm_authorities c)" using assms by (simp add: wf_committee_def)
  then have "distinct (map fst (cm_authorities c))" by (rule bt_wf_distinct)
  note matches = update_matches_iff [OF this, of new_info]
  define ok where "ok \<longleftrightarrow> update_matches (cm_authorities c) new_info
      \<and> fst ` set new_info \<subseteq> fst ` set (cm_authorities c)"
  note result = update_primary_network_info_cases [OF wf, of new_info, folded ok_def]
  show ?thesis
  proof (cases ok)
    case True
    then show ?thesis using result unfolding matches [folded ok_def]
      by (simp add: apply_update_def primary_by_id_def fun_eq_iff)
  next
    case False
    then obtain es where "update_primary_network_info c new_info = (Inl es, c)"
      using result by simp
    then show ?thesis
      using False update_errors [of c new_info] unfolding matches [folded ok_def] by simp
  qed
qed

theorem update_primary_network_info_correct_witness:
  "fst (update_primary_network_info example_committee
     [(10, 1, ''x''), (20, 1, ''b''), (30, 1, ''c''), (40, 1, ''d'')]) = Inr ()
   \<and> primary_by_id (snd (update_primary_network_info example_committee
     [(10, 1, ''x''), (20, 1, ''b''), (30, 1, ''c''), (40, 1, ''d'')])) 0 = Inr ''a''"
proof -
  let ?n = "[(10, 1, ''x''), (20, 1, ''b''), (30, 1, ''c''), (40, 1, ''d'')]"
  have "primary_by_id example_committee 0 = Inr ''a''"
    and "fst (update_primary_network_info example_committee ?n) = Inr ()"
    by (simp_all add: primary_by_id_def example_committee_eq load_identifiers_def
        example_builder_def add_authority_def committee_builder_new_def authority_new_def
        authority_initialise_def update_primary_network_info_def upt_rec AList.delete_eq)
  then show ?thesis
    using update_primary_network_info_correct [OF example_committee_wf, of ?n]
    by (auto split: prod.splits sum.splits)
qed

end
