(* ===== verification/Narwhal_Types.thy ===== *)
theory Narwhal_Types
  imports Narwhal_Committee
begin

text \<open>
  Headers and certificates of the Narwhal DAG, \<open>src/narwhal/types/src/primary.rs\<close>
  (the current versions, \<open>HeaderV2\<close> and \<open>CertificateV2\<close>; a \<open>HeaderV1\<close> is a header without
  system messages), with the worker lookup of \<open>src/narwhal/config/src/lib.rs\<close> that header
  validation calls.

  Digests, signatures and message bodies are numbers: only their equality and order are used.
  The hash of a header, signature aggregation and verification, and the conversion of a sorted
  sequence to a compressed bitmap are library calls, collected in the record \<open>crypto\<close> that the
  definitions take as a parameter. A header carries the value of its digest cell, which the
  constructors fill with the hash.
\<close>

section \<open>Headers\<close>

type_synonym round = nat
type_synonym timestamp_ms = nat
type_synonym digest = nat
type_synonym signature = nat
type_synonym worker_id = nat

text \<open>A distributed key generation message is its sender and its (opaque) contents.\<close>

datatype system_message =
    DkgMessage (sender: authority_identifier) nat
  | DkgConfirmation (sender: authority_identifier) nat

record header =
  hdr_author :: authority_identifier
  hdr_round :: round
  hdr_epoch :: epoch
  hdr_created_at :: timestamp_ms
  hdr_payload :: "(digest \<times> worker_id \<times> timestamp_ms) list"
  hdr_system_messages :: "system_message list"
  hdr_parents :: "digest list"
  hdr_digest :: digest

record crypto =
  header_hash :: "header \<Rightarrow> digest"
  aggregate :: "signature list \<Rightarrow> signature option"
  aggregate_default :: signature
  aggregate_try_from :: "signature \<Rightarrow> signature option"
  verify_secure :: "signature \<Rightarrow> digest \<Rightarrow> public_key list \<Rightarrow> bool"
  verify_one :: "signature \<Rightarrow> digest \<Rightarrow> public_key \<Rightarrow> bool"
  from_sorted_iter :: "nat list \<Rightarrow> nat list option"

definition header_new ::
    "crypto \<Rightarrow> timestamp_ms \<Rightarrow> authority_identifier \<Rightarrow> round \<Rightarrow> epoch \<Rightarrow>
     (digest \<times> worker_id \<times> timestamp_ms) list \<Rightarrow> system_message list \<Rightarrow> digest list \<Rightarrow> header" where
  "header_new C now author r e payload msgs parents =
     (let h = \<lparr>hdr_author = author, hdr_round = r, hdr_epoch = e, hdr_created_at = now,
               hdr_payload = payload, hdr_system_messages = msgs, hdr_parents = parents,
               hdr_digest = 0\<rparr>
      in h\<lparr>hdr_digest := header_hash C h\<rparr>)"

datatype dag_error =
    InvalidBitmap
  | InvalidSignature
  | InvalidHeaderDigest
  | InvalidSystemMessage
  | DuplicateSystemMessage
  | HeaderHasBadWorkerIds digest
  | UnknownAuthority authority_identifier
  | AuthorityReuse authority_identifier
  | CertificateRequiresQuorum
  | InvalidEpoch epoch epoch

type_synonym 'a dag_result = "(dag_error, 'a) result"

record worker_cache =
  wc_workers :: "(public_key \<times> (worker_id \<times> string) list) list"
  wc_epoch :: epoch

definition worker :: "worker_cache \<Rightarrow> public_key \<Rightarrow> worker_id \<Rightarrow> (config_error, string) result" where
  "worker wc to i =
     (case List.find (\<lambda>(name, _). name = to) (wc_workers wc) of
        None \<Rightarrow> Inl (NotInCommittee_key to)
      | Some (_, index) \<Rightarrow>
          (case List.find (\<lambda>(worker_id, _). worker_id = i) index of
             None \<Rightarrow> Inl (NotInCommittee_key to)
           | Some (_, info) \<Rightarrow> Inr info))"

fun check_workers ::
    "committee \<Rightarrow> worker_cache \<Rightarrow> header \<Rightarrow> (digest \<times> worker_id \<times> timestamp_ms) list \<Rightarrow>
     unit dag_result option" where
  "check_workers c wc h [] = Some (Inr ())"
| "check_workers c wc h ((_, worker_id, _) # payload) = do {
     a \<leftarrow> authority_lookup c (hdr_author h);
     pk \<leftarrow> authority_protocol_key a;
     case worker wc pk worker_id of
       Inl _ \<Rightarrow> Some (Inl (HeaderHasBadWorkerIds (hdr_digest h)))
     | Inr _ \<Rightarrow> check_workers c wc h payload
   }"

fun check_system_messages ::
    "authority_identifier \<Rightarrow> system_message list \<Rightarrow> bool \<Rightarrow> bool \<Rightarrow> unit dag_result" where
  "check_system_messages author [] has_msg has_conf = Inr ()"
| "check_system_messages author (DkgMessage s _ # ms) has_msg has_conf =
     (if s \<noteq> author then Inl InvalidSystemMessage
      else if has_msg then Inl DuplicateSystemMessage
      else check_system_messages author ms True has_conf)"
| "check_system_messages author (DkgConfirmation s _ # ms) has_msg has_conf =
     (if s \<noteq> author then Inl InvalidSystemMessage
      else if has_conf then Inl DuplicateSystemMessage
      else check_system_messages author ms has_msg True)"

definition validate ::
    "crypto \<Rightarrow> header \<Rightarrow> committee \<Rightarrow> worker_cache \<Rightarrow> unit dag_result option" where
  "validate C h c wc =
     (if hdr_epoch h \<noteq> cm_epoch c then Some (Inl (InvalidEpoch (cm_epoch c) (hdr_epoch h)))
      else if header_hash C h \<noteq> hdr_digest h then Some (Inl InvalidHeaderDigest)
      else if \<not> 0 < stake_by_id c (hdr_author h) then Some (Inl (UnknownAuthority (hdr_author h)))
      else do {
        r \<leftarrow> check_workers c wc h (hdr_payload h);
        case r of
          Inl e \<Rightarrow> Some (Inl e)
        | Inr _ \<Rightarrow> Some (check_system_messages (hdr_author h) (hdr_system_messages h) False False)
      })"

section \<open>Certificates\<close>

datatype signature_verification_state =
    Unsigned signature
  | Unverified signature
  | VerifiedDirectly signature
  | VerifiedIndirectly signature
  | Genesis

record certificate =
  cert_header :: header
  cert_state :: signature_verification_state
  cert_signed_authorities :: "nat list"
  cert_created_at :: timestamp_ms

definition aggregated_signature :: "certificate \<Rightarrow> signature option" where
  "aggregated_signature x = (case cert_state x of
     VerifiedDirectly s \<Rightarrow> Some s | Unverified s \<Rightarrow> Some s
   | VerifiedIndirectly s \<Rightarrow> Some s | Unsigned s \<Rightarrow> Some s | Genesis \<Rightarrow> None)"

definition cert_round :: "certificate \<Rightarrow> round" where
  "cert_round x = hdr_round (cert_header x)"

definition cert_epoch :: "certificate \<Rightarrow> epoch" where
  "cert_epoch x = hdr_epoch (cert_header x)"

definition cert_origin :: "certificate \<Rightarrow> authority_identifier" where
  "cert_origin x = hdr_author (cert_header x)"

definition cert_digest :: "certificate \<Rightarrow> digest" where
  "cert_digest x = hdr_digest (cert_header x)"

text \<open>The parents of a certificate's header; \<open>header().parents()\<close> throughout the consensus.\<close>

abbreviation cert_parents :: "certificate \<Rightarrow> digest list" where
  "cert_parents x \<equiv> hdr_parents (cert_header x)"

definition certificate_eq :: "certificate \<Rightarrow> certificate \<Rightarrow> bool" where
  "certificate_eq x y \<longleftrightarrow>
     cert_digest x = cert_digest y \<and> cert_round x = cert_round y
     \<and> cert_epoch x = cert_epoch y \<and> cert_origin x = cert_origin y"

definition genesis :: "crypto \<Rightarrow> committee \<Rightarrow> certificate list option" where
  "genesis C c = those (map (\<lambda>a. do {
       i \<leftarrow> authority_id a;
       Some \<lparr>cert_header = header_new C 0 i 0 (cm_epoch c) [] [] [],
             cert_state = Genesis, cert_signed_authorities = [], cert_created_at = 0\<rparr>
     }) (authorities c))"

type_synonym vote_entry = "authority_identifier \<times> signature"

text \<open>The filter of \<open>new_unsafe\<close> walks the authorities in order, taking the vote in front when
  it is the authority's, with its repeats.\<close>

fun filter_votes ::
    "(nat \<times> authority) list \<Rightarrow> vote_entry list \<Rightarrow> vote_entry list \<Rightarrow> stake \<Rightarrow>
     (nat list \<times> vote_entry list \<times> vote_entry list \<times> stake) option" where
  "filter_votes [] votes sigs weight = Some ([], votes, sigs, weight)"
| "filter_votes ((i, a) # as) [] sigs weight = filter_votes as [] sigs weight"
| "filter_votes ((i, a) # as) (v # votes) sigs weight = do {
     aid \<leftarrow> authority_id a;
     if aid = fst v
     then do {
       s \<leftarrow> authority_stake a;
       (ixs, res) \<leftarrow> filter_votes as (dropWhile (\<lambda>v'. v' = v) votes) (sigs @ [v]) (u64_wrapping_add weight s);
       Some (i # ixs, res)
     }
     else filter_votes as (v # votes) sigs weight
   }"

definition new_unsafe ::
    "crypto \<Rightarrow> committee \<Rightarrow> header \<Rightarrow> vote_entry list \<Rightarrow> bool \<Rightarrow> certificate dag_result option" where
  "new_unsafe C c h votes check_stake = do {
     let votes = sort_key fst votes;
     (ixs, votes, sigs, weight) \<leftarrow>
       filter_votes (zip [0..<length (authorities c)] (authorities c)) votes [] 0;
     case from_sorted_iter C (map (\<lambda>i. i mod 2 ^ 32) ixs) of
       None \<Rightarrow> Some (Inl InvalidBitmap)
     | Some signed_authorities \<Rightarrow>
         (if votes \<noteq> [] then Some (Inl (UnknownAuthority (fst (hd votes))))
          else if check_stake \<and> \<not> cm_quorum_threshold c \<le> weight
            then Some (Inl CertificateRequiresQuorum)
          else case (if sigs = [] then Some (aggregate_default C) else aggregate C (map snd sigs)) of
            None \<Rightarrow> Some (Inl InvalidSignature)
          | Some agg \<Rightarrow>
              Some (Inr \<lparr>cert_header = h,
                cert_state = (if check_stake then Unverified agg else Unsigned agg),
                cert_signed_authorities = signed_authorities, cert_created_at = 0\<rparr>))
   }"

definition new_unverified ::
    "crypto \<Rightarrow> committee \<Rightarrow> header \<Rightarrow> vote_entry list \<Rightarrow> certificate dag_result option" where
  "new_unverified C c h votes = new_unsafe C c h votes True"

definition new_unsigned ::
    "crypto \<Rightarrow> committee \<Rightarrow> header \<Rightarrow> vote_entry list \<Rightarrow> certificate dag_result option" where
  "new_unsigned C c h votes = new_unsafe C c h votes False"

text \<open>\<open>signed_by\<close> walks the authorities with a cursor into the signers' indexes.\<close>

fun filter_signed ::
    "nat list \<Rightarrow> nat \<Rightarrow> (nat \<times> authority) list \<Rightarrow> stake \<Rightarrow> (stake \<times> public_key list) option" where
  "filter_signed auth_indexes auth_iter [] weight = Some (weight, [])"
| "filter_signed auth_indexes auth_iter ((i, a) # as) weight =
     (if auth_iter < length auth_indexes \<and> auth_indexes ! auth_iter = i mod 2 ^ 32
      then do {
        s \<leftarrow> authority_stake a;
        pk \<leftarrow> authority_protocol_key a;
        (w, pks) \<leftarrow> filter_signed auth_indexes (auth_iter + 1) as (u64_wrapping_add weight s);
        Some (w, pk # pks)
      }
      else filter_signed auth_indexes auth_iter as weight)"

definition signed_by :: "certificate \<Rightarrow> committee \<Rightarrow> (stake \<times> public_key list) option" where
  "signed_by x c = filter_signed (cert_signed_authorities x) 0
     (zip [0..<length (authorities c)] (authorities c)) 0"

definition signed_authorities :: "certificate \<Rightarrow> committee \<Rightarrow> public_key list option" where
  "signed_authorities x c = do {
     rust_assert (cm_epoch c = cert_epoch x);
     (_, pks) \<leftarrow> signed_by x c;
     Some pks
   }"

definition verify_signature ::
    "crypto \<Rightarrow> certificate \<Rightarrow> public_key list \<Rightarrow> certificate dag_result" where
  "verify_signature C x pks = (case cert_state x of
     VerifiedIndirectly _ \<Rightarrow> Inr x
   | VerifiedDirectly _ \<Rightarrow> Inr x
   | Genesis \<Rightarrow> Inr x
   | Unsigned _ \<Rightarrow> Inl CertificateRequiresQuorum
   | Unverified bytes \<Rightarrow>
       (case aggregate_try_from C bytes of
          None \<Rightarrow> Inl InvalidSignature
        | Some s \<Rightarrow>
            if verify_secure C s (cert_digest x) pks
            then Inr (x\<lparr>cert_state := VerifiedDirectly bytes\<rparr>) else Inl InvalidSignature))"

definition cert_verify ::
    "crypto \<Rightarrow> certificate \<Rightarrow> committee \<Rightarrow> worker_cache \<Rightarrow> certificate dag_result option" where
  "cert_verify C x c wc =
     (if cert_epoch x \<noteq> cm_epoch c then Some (Inl (InvalidEpoch (cm_epoch c) (cert_epoch x)))
      else do {
        is_genesis \<leftarrow> (if cert_round x = 0
          then do { gs \<leftarrow> genesis C c; Some (list_ex (\<lambda>g. certificate_eq g x) gs) }
          else Some False);
        if is_genesis then Some (Inr x)
        else do {
          r \<leftarrow> validate C (cert_header x) c wc;
          case r of
            Inl e \<Rightarrow> Some (Inl e)
          | Inr _ \<Rightarrow> do {
              (weight, pks) \<leftarrow> signed_by x c;
              if cm_quorum_threshold c \<le> weight then Some (verify_signature C x pks)
              else Some (Inl CertificateRequiresQuorum)
            }
        }
      })"

section \<open>Forming a certificate from votes\<close>

text \<open>A list of votes is consistent when no authority voted with two different signatures.\<close>

definition consistent_votes :: "vote_entry list \<Rightarrow> bool" where
  "consistent_votes votes \<longleftrightarrow>
     (\<forall>v \<in> set votes. \<forall>v' \<in> set votes. fst v = fst v' \<longrightarrow> v = v')"

definition indexed_authorities :: "(nat \<times> authority) list \<Rightarrow> bool" where
  "indexed_authorities as \<longleftrightarrow>
     sorted_wrt (<) (map fst as)
     \<and> list_all (\<lambda>(i, a). auth_id a = i \<and> auth_initialised a) as"

lemma indexed_authorities_Cons [simp]:
  "indexed_authorities ((i, a) # as) \<longleftrightarrow>
     auth_id a = i \<and> auth_initialised a \<and> (\<forall>j \<in> fst ` set as. i < j) \<and> indexed_authorities as"
  by (auto simp: indexed_authorities_def)

lemma indexed_authorities_Nil [simp]: "indexed_authorities []"
  by (simp add: indexed_authorities_def)

lemma filter_votes_stuck:
  "indexed_authorities as \<Longrightarrow> fst v \<notin> fst ` set as \<Longrightarrow>
     filter_votes as (v # votes) sigs w = Some ([], v # votes, sigs, w)"
  by (induction as) (auto simp: authority_getter_defs)

lemma filter_votes_Nil: "filter_votes as [] sigs w = Some ([], [], sigs, w)"
  by (induction as) auto

lemma filter_votes_total:
  "indexed_authorities as \<Longrightarrow> \<exists>r. filter_votes as votes sigs w = Some r"
proof (induction as votes sigs w rule: filter_votes.induct)
  case (3 i a as v votes sigs weight)
  then show ?case by (cases "i = fst v") (force simp: authority_getter_defs)+
qed auto

lemma sorted_dropWhile: "sorted (map f xs) \<Longrightarrow> sorted (map f (dropWhile P xs))"
  by (metis (no_types) dropWhile_eq_drop sorted_wrt_drop drop_map)

lemma remdups_adj_dropWhile:
  "remdups_adj (x # xs) = x # remdups_adj (dropWhile (\<lambda>y. y = x) xs)"
  by (induction xs) auto

lemma consistent_votes_rest:
  assumes "consistent_votes (v # votes)" "sorted (map fst (v # votes))"
  shows "v \<notin> set (dropWhile (\<lambda>v'. v' = v) votes)"
    and "fst ` set (dropWhile (\<lambda>v'. v' = v) votes) = fst ` set votes - {fst v}"
    and "consistent_votes (dropWhile (\<lambda>v'. v' = v) votes)"
proof -
  have sub: "set (dropWhile (\<lambda>v'. v' = v) votes) \<subseteq> set votes" by (auto dest: set_dropWhileD)
  show "consistent_votes (dropWhile (\<lambda>v'. v' = v) votes)"
    using assms(1) sub unfolding consistent_votes_def by auto
  show notin: "v \<notin> set (dropWhile (\<lambda>v'. v' = v) votes)"
    using assms
  proof (induction votes)
    case (Cons u votes)
    show ?case
    proof (cases "u = v")
      case True
      then show ?thesis using Cons by (auto simp: consistent_votes_def)
    next
      case False
      then have "fst v < fst u" using Cons.prems by (fastforce simp: consistent_votes_def)
      then show ?thesis using Cons.prems False by auto
    qed
  qed simp
  have split: "set votes \<subseteq> insert v (set (dropWhile (\<lambda>v'. v' = v) votes))"
    by (induction votes) auto
  have "fst u \<noteq> fst v" if "u \<in> set (dropWhile (\<lambda>v'. v' = v) votes)" for u
    using that notin sub assms(1) by (auto simp: consistent_votes_def)
  then show "fst ` set (dropWhile (\<lambda>v'. v' = v) votes) = fst ` set votes - {fst v}"
    using split sub by auto
qed

text \<open>Consistent votes of known authorities are all consumed, one signature per voter.\<close>

lemma filter_votes_consumes:
  assumes "indexed_authorities as" "sorted (map fst votes)" "consistent_votes votes"
    and "fst ` set votes \<subseteq> fst ` set as"
    and "w + sum_list (map (auth_stake \<circ> snd) (filter (\<lambda>x. fst x \<in> fst ` set votes) as)) < u64_size"
  shows "filter_votes as votes sigs w = Some (filter (\<lambda>i. i \<in> fst ` set votes) (map fst as), [],
    sigs @ remdups_adj votes,
    w + sum_list (map (auth_stake \<circ> snd) (filter (\<lambda>x. fst x \<in> fst ` set votes) as)))"
  using assms
proof (induction as votes sigs w rule: filter_votes.induct)
  case (3 i a as v votes sigs w)
  let ?rest = "dropWhile (\<lambda>v'. v' = v) votes"
  show ?case
  proof (cases "i = fst v")
    case True
    note rest = consistent_votes_rest [OF 3(5,4)]
    have sub: "fst ` set ?rest \<subseteq> fst ` set as"
      using 3(6) rest(2) True by auto
    have same: "j \<in> fst ` set (v # votes) \<longleftrightarrow> j \<in> fst ` set ?rest" if "j \<in> fst ` set as" for j
      using 3(3) that rest(2) True by auto
    have f1: "filter (\<lambda>j. j \<in> fst ` set (v # votes)) (map fst as)
        = filter (\<lambda>j. j \<in> fst ` set ?rest) (map fst as)"
      by (rule filter_cong [OF refl]) (use same in auto)
    have f2: "filter (\<lambda>x. fst x \<in> fst ` set (v # votes)) as
        = filter (\<lambda>x. fst x \<in> fst ` set ?rest) as"
      by (rule filter_cong [OF refl]) (use same in auto)
    have "sorted (map fst ?rest)" using 3(4) by (simp add: sorted_dropWhile)
    moreover have "w + (auth_stake a + sum_list (map (auth_stake \<circ> snd) (filter (\<lambda>x. fst x \<in> fst ` set ?rest) as))) < u64_size"
      using 3(7) True unfolding filter.simps f2 by (simp add: comp_def)
    ultimately show ?thesis
      using 3(1) [OF _ _ _ _ _ rest(3) sub] 3(3) True
      unfolding filter.simps list.map f1 f2
      by (simp add: authority_getter_defs remdups_adj_dropWhile comp_def add.assoc del: remdups_adj.simps)
  next
    case False
    have "i < fst v" using 3(3,6) False by auto
    then have "i \<notin> fst ` set (v # votes)" using 3(4) by force
    moreover have "fst ` set (v # votes) \<subseteq> fst ` set as" using 3(6) calculation by auto
    ultimately show ?thesis
      using 3(2) [OF _ _ _ 3(4,5)] 3(3,7) False
      by (simp add: authority_getter_defs del: set_simps)
  qed
qed (auto simp: filter_votes_Nil)

text \<open>Conversely, a vote of an unknown authority or a second signature stays in the queue.\<close>

lemma filter_votes_leftover:
  assumes "indexed_authorities as" "sorted (map fst votes)"
    and "filter_votes as votes sigs w = Some (ixs, [], sigs', w')"
  shows "consistent_votes votes \<and> fst ` set votes \<subseteq> fst ` set as"
  using assms
proof (induction as votes sigs w arbitrary: ixs rule: filter_votes.induct)
  case (3 i a as v votes sigs w)
  let ?rest = "dropWhile (\<lambda>v'. v' = v) votes"
  show ?case
  proof (cases "i = fst v")
    case True
    with 3(3,5) obtain ixs' where
      run: "filter_votes as ?rest (sigs @ [v]) (u64_wrapping_add w (auth_stake a)) = Some (ixs', [], sigs', w')"
      by (auto simp: authority_getter_defs split: bind_splits)
    have "sorted (map fst ?rest)" using 3(4) by (simp add: sorted_dropWhile)
    with run 3(1) [of i, OF _ _ _] 3(3) True
    have IH: "consistent_votes ?rest" "fst ` set ?rest \<subseteq> fst ` set as"
      by (auto simp: authority_getter_defs)
    have split: "set votes \<subseteq> insert v (set ?rest)" by (induction votes) auto
    have differ: "fst u \<noteq> fst v" if "u \<in> set ?rest" for u
    proof -
      have "fst u \<in> fst ` set as" using IH(2) that by (meson imageI subsetD)
      moreover have "\<forall>j \<in> fst ` set as. i < j" using 3(3) by simp
      ultimately show ?thesis using True by (metis less_irrefl)
    qed
    have eq: "u = u'"
      if "u \<in> insert v (set ?rest)" "u' \<in> insert v (set ?rest)" "fst u = fst u'" for u u'
      using that(1,2) that(3) differ IH(1) [unfolded consistent_votes_def, rule_format]
      by (elim insertE) metis+
    have sub: "set (v # votes) \<subseteq> insert v (set ?rest)" using split by simp
    then have "consistent_votes (v # votes)"
      unfolding consistent_votes_def by (intro ballI impI) (rule eq; (erule subsetD)?; assumption)
    moreover have "fst ` set (v # votes) \<subseteq> insert i (fst ` set as)"
      using image_mono [OF sub, of fst] IH(2) True by (simp only: image_insert) blast
    ultimately show ?thesis by simp
  next
    case False
    then have "filter_votes as (v # votes) sigs w = Some (ixs, [], sigs', w')"
      using 3(3,5) by (simp add: authority_getter_defs)
    with 3(2) [of i, OF _ _ _ 3(4)] 3(3) False show ?thesis
      by (auto simp: authority_getter_defs)
  qed
qed (auto simp: consistent_votes_def)

section \<open>Reading the signers back\<close>

lemma zip_upt_ge: "x \<in> set (zip [k..<m] ys) \<Longrightarrow> k \<le> fst x"
  by (cases x) (auto dest: set_zip_leftD)

lemma filter_signed_eq:
  assumes "list_all auth_initialised as" "n + length as \<le> 2 ^ 32"
    and "sorted_wrt (<) idxs" "\<forall>x \<in> set (drop it idxs). n \<le> x"
    and "w + sum_list (map (auth_stake \<circ> snd)
       (filter (\<lambda>x. fst x \<in> set (drop it idxs)) (zip [n..<n + length as] as))) < u64_size"
  shows "filter_signed idxs it (zip [n..<n + length as] as) w = Some
    (w + sum_list (map (auth_stake \<circ> snd)
       (filter (\<lambda>x. fst x \<in> set (drop it idxs)) (zip [n..<n + length as] as))),
     map (auth_protocol_key \<circ> snd)
       (filter (\<lambda>x. fst x \<in> set (drop it idxs)) (zip [n..<n + length as] as)))"
  using assms
proof (induction as arbitrary: n it w)
  case (Cons a as)
  define zs where "zs = zip [Suc n..<Suc n + length as] as"
  have zip: "zip [n..<n + length (a # as)] (a # as) = (n, a) # zs"
    unfolding zs_def by (subst upt_conv_Cons) simp_all
  note IH = Cons.IH [of "Suc n", folded zs_def]
  have n: "n mod 2 ^ 32 = n" using Cons.prems(2) by simp
  show ?case
  proof (cases "it < length idxs \<and> idxs ! it = n")
    case True
    then have drop: "drop it idxs = n # drop (Suc it) idxs" by (simp add: Cons_nth_drop_Suc [symmetric])
    have "sorted_wrt (<) (drop it idxs)" using Cons.prems(3) by (rule sorted_wrt_drop)
    then have above: "\<forall>x \<in> set (drop (Suc it) idxs). Suc n \<le> x" unfolding drop by auto
    have same: "filter (\<lambda>x. fst x \<in> set (drop it idxs)) zs
        = filter (\<lambda>x. fst x \<in> set (drop (Suc it) idxs)) zs"
      unfolding drop zs_def by (rule filter_cong [OF refl]) (use zip_upt_ge in fastforce)
    have mem: "n \<in> set (drop it idxs)" unfolding drop by simp
    have "w + (auth_stake a + sum_list (map (auth_stake \<circ> snd) (filter (\<lambda>x. fst x \<in> set (drop (Suc it) idxs)) zs))) < u64_size"
      using Cons.prems(5) mem unfolding zip filter.simps same by (simp add: comp_def)
    then show ?thesis unfolding zip filter.simps same
      using IH [of "Suc it" "w + auth_stake a"] Cons.prems(1-4) True above mem n
      by (simp add: authority_getter_defs comp_def add.assoc)
  next
    case False
    have "n \<notin> set (drop it idxs)"
    proof
      assume "n \<in> set (drop it idxs)"
      then obtain y ys where d: "drop it idxs = y # ys" by (cases "drop it idxs") auto
      then have it: "it < length idxs" by (cases "it < length idxs") simp_all
      then have "idxs ! it = y" using d by (simp add: hd_drop_conv_nth [symmetric])
      moreover have "sorted_wrt (<) (y # ys)"
        using Cons.prems(3) unfolding d [symmetric] by (rule sorted_wrt_drop)
      ultimately show False
        using it False Cons.prems(4) \<open>n \<in> set (drop it idxs)\<close> unfolding d by auto
    qed
    moreover from this have "\<forall>x \<in> set (drop it idxs). Suc n \<le> x"
      using Cons.prems(4) by (metis Suc_leI le_neq_implies_less)
    moreover have "filter_signed idxs it ((n, a) # zs) w = filter_signed idxs it zs w"
      by (simp only: filter_signed.simps n False if_False)
    ultimately show ?thesis using Cons.prems(5) unfolding zip
      using IH [of it w] Cons.prems(1-4) by simp
  qed
qed simp

section \<open>Certificates of a well-formed committee\<close>

abbreviation enumerated :: "committee \<Rightarrow> (nat \<times> authority) list" where
  "enumerated c \<equiv> zip [0..<length (authorities c)] (authorities c)"

text \<open>A bitmap is built from any strictly increasing sequence, and reads back as it.\<close>

definition lawful_bitmap :: "crypto \<Rightarrow> bool" where
  "lawful_bitmap C \<longleftrightarrow> (\<forall>xs. sorted_wrt (<) xs \<longrightarrow> from_sorted_iter C xs = Some xs)"

lemma enumerated_id:
  assumes "wf_committee c" "x \<in> set (enumerated c)"
  shows "auth_id (snd x) = fst x" and "snd x \<in> set (authorities c)"
proof -
  obtain i where i: "x = (i, authorities c ! i)" "i < length (authorities c)"
    using assms(2) by (auto simp: set_zip)
  have "map auth_id (authorities c) ! i = [0..<length (cm_authorities c)] ! i"
    using assms(1) by (simp add: wf_committee_def)
  then show "auth_id (snd x) = fst x" "snd x \<in> set (authorities c)"
    using i by (simp_all add: authorities_def)
qed

lemma ids_enumerated:
  "wf_committee c \<Longrightarrow> fst ` set (enumerated c) = committee_ids c"
  using wf_committee_ids(2) [of c]
  by (simp add: set_map [symmetric] committee_size_def authorities_def atLeast0LessThan del: set_map)

lemma indexed_enumerated:
  assumes "wf_committee c"
  shows "indexed_authorities (enumerated c)"
  using assms enumerated_id [OF assms]
  by (auto simp: indexed_authorities_def list_all_iff wf_committee_def)

lemma sum_filter_enumerated:
  assumes "wf_committee c" "finite S"
  shows "sum_list (map (auth_stake \<circ> snd) (filter (\<lambda>x. fst x \<in> S) (enumerated c)))
    = sum (stake_by_id c) S"
proof -
  have "map (auth_stake \<circ> snd) (filter (\<lambda>x. fst x \<in> S) (enumerated c))
      = map (stake_by_id c \<circ> fst) (filter (\<lambda>x. fst x \<in> S) (enumerated c))"
    using enumerated_id [OF assms(1)] stake_by_id_auth [OF assms(1)]
    by (intro map_cong refl) (metis comp_apply filter_is_subset subsetD)
  also have "\<dots> = map (stake_by_id c) (filter (\<lambda>i. i \<in> S) (map fst (enumerated c)))"
    by (simp only: filter_map map_map comp_def)
  also have "sum_list \<dots> = sum (stake_by_id c) (S \<inter> committee_ids c)"
    unfolding wf_committee_ids(2) [OF assms(1)]
    by (subst sum_list_distinct_conv_sum_set)
      (auto simp: committee_size_def authorities_def intro!: sum.cong)
  finally show ?thesis using narwhal_quorum.sum_stake_inter [OF assms] by simp
qed

lemma keys_filter_enumerated:
  assumes "wf_committee c"
  shows "map (f \<circ> snd) (filter (\<lambda>x. fst x \<in> S) (enumerated c))
    = map f (filter (\<lambda>a. auth_id a \<in> S) (authorities c))"
proof -
  have "filter (\<lambda>x. fst x \<in> S) (enumerated c) = filter (\<lambda>x. auth_id (snd x) \<in> S) (enumerated c)"
    using enumerated_id [OF assms] by (intro filter_cong) simp_all
  moreover have "map snd (filter (\<lambda>x. auth_id (snd x) \<in> S) (enumerated c))
      = filter (\<lambda>a. auth_id a \<in> S) (map snd (enumerated c))"
    by (simp only: filter_map comp_def)
  ultimately show ?thesis by (simp flip: map_map)
qed

lemma signed_by_eq:
  assumes "wf_committee c" "sorted_wrt (<) (cert_signed_authorities x)"
  shows "signed_by x c = Some (sum (stake_by_id c) (set (cert_signed_authorities x)),
    map auth_protocol_key
      (filter (\<lambda>a. auth_id a \<in> set (cert_signed_authorities x)) (authorities c)))"
proof -
  have len: "0 + length (authorities c) \<le> 2 ^ 32" and init: "list_all auth_initialised (authorities c)"
    using assms(1) by (simp_all add: wf_committee_def authorities_def)
  show ?thesis
    using filter_signed_eq [OF init len assms(2), of 0 0] stakes_fit [OF assms(1), of "set (cert_signed_authorities x)"]
      sum_filter_enumerated [OF assms(1) finite_set] keys_filter_enumerated [OF assms(1)]
    by (simp add: signed_by_def)
qed

lemma new_unsafe_eq:
  assumes "wf_committee c" "lawful_bitmap C"
  shows "new_unsafe C c h votes check_stake =
    (if consistent_votes votes \<and> fst ` set votes \<subseteq> committee_ids c
     then let signers = filter (\<lambda>i. i \<in> fst ` set votes) [0..<length (authorities c)];
              sigs = remdups_adj (sort_key fst votes)
       in if check_stake \<and> sum (stake_by_id c) (fst ` set votes) < cm_quorum_threshold c
          then Some (Inl CertificateRequiresQuorum)
          else (case (if sigs = [] then Some (aggregate_default C) else aggregate C (map snd sigs)) of
              None \<Rightarrow> Some (Inl InvalidSignature)
            | Some agg \<Rightarrow> Some (Inr \<lparr>cert_header = h,
                cert_state = (if check_stake then Unverified agg else Unsigned agg),
                cert_signed_authorities = signers, cert_created_at = 0\<rparr>))
     else (case filter_votes (enumerated c) (sort_key fst votes) [] 0 of
         None \<Rightarrow> None
       | Some (ixs, left, _) \<Rightarrow>
           if from_sorted_iter C (map (\<lambda>i. i mod 2 ^ 32) ixs) = None then Some (Inl InvalidBitmap)
           else Some (Inl (UnknownAuthority (fst (hd left))))))" (is "_ = ?rhs")
proof (cases "consistent_votes votes \<and> fst ` set votes \<subseteq> committee_ids c")
  case True
  then have cons: "consistent_votes (sort_key fst votes)"
      and ids: "fst ` set (sort_key fst votes) \<subseteq> fst ` set (enumerated c)"
    using ids_enumerated [OF assms(1)] by (simp_all add: consistent_votes_def)
  have "map (\<lambda>i. i mod 2 ^ 32) (filter (\<lambda>i. i \<in> fst ` set votes) [0..<length (authorities c)])
      = filter (\<lambda>i. i \<in> fst ` set votes) [0..<length (authorities c)]"
    using assms(1) by (intro map_idI) (simp add: wf_committee_def authorities_def)
  then show ?thesis
    using filter_votes_consumes [OF indexed_enumerated [OF assms(1)] sorted_sort_key cons ids, of 0 "[]"]
      stakes_fit [OF assms(1), of "fst ` set votes"] assms(2) True sum_filter_enumerated [OF assms(1), of "fst ` set votes"]
    by (simp add: new_unsafe_def lawful_bitmap_def sorted_wrt_filter Let_def not_le
        del: filter_votes.simps split: option.split)
next
  case False
  obtain ixs left sigs w where run: "filter_votes (enumerated c) (sort_key fst votes) [] 0
      = Some (ixs, left, sigs, w)"
    using filter_votes_total [OF indexed_enumerated [OF assms(1)]] by (metis prod_cases4)
  have "left \<noteq> []"
  proof
    assume "left = []"
    with run have "consistent_votes (sort_key fst votes)
        \<and> fst ` set (sort_key fst votes) \<subseteq> fst ` set (enumerated c)"
      by (intro filter_votes_leftover [OF indexed_enumerated [OF assms(1)] sorted_sort_key]) simp
    with False show False
      by (simp only: consistent_votes_def set_sort ids_enumerated [OF assms(1)])
  qed
  then show ?thesis using run False by (auto simp: new_unsafe_def split: option.split)
qed

text \<open>What the signing committee must have done for a certificate to form.\<close>

definition certifiable :: "crypto \<Rightarrow> committee \<Rightarrow> vote_entry list \<Rightarrow> bool" where
  "certifiable C c votes \<longleftrightarrow>
     consistent_votes votes \<and> fst ` set votes \<subseteq> committee_ids c
     \<and> cm_quorum_threshold c \<le> sum (stake_by_id c) (fst ` set votes)
     \<and> aggregate C (map snd (remdups_adj (sort_key fst votes))) \<noteq> None"

lemma quorum_positive: "wf_committee c \<Longrightarrow> 0 < cm_quorum_threshold c"
  by (simp add: wf_committee_def)

lemma new_unverified_cases:
  assumes "wf_committee c" "lawful_bitmap C"
  shows "\<exists>r. new_unverified C c h votes = Some r \<and>
    (case r of
       Inl _ \<Rightarrow> \<not> certifiable C c votes
     | Inr x \<Rightarrow> certifiable C c votes \<and> cert_header x = h
         \<and> cert_signed_authorities x
           = filter (\<lambda>i. i \<in> fst ` set votes) [0..<length (authorities c)])"
proof (cases "consistent_votes votes \<and> fst ` set votes \<subseteq> committee_ids c")
  case True
  have "remdups_adj (sort_key fst votes) = [] \<longleftrightarrow> votes = []"
    by (metis length_0_conv length_sort remdups_adj_Nil_iff)
  then show ?thesis
    using True quorum_positive [OF assms(1)]
    by (auto simp: new_unverified_def new_unsafe_eq [OF assms] certifiable_def Let_def not_le
        split: option.split)
next
  case False
  then have "\<not> certifiable C c votes" by (auto simp: certifiable_def)
  moreover obtain r where "filter_votes (enumerated c) (sort_key fst votes) [] 0 = Some r"
    using filter_votes_total [OF indexed_enumerated [OF assms(1)]] by blast
  ultimately show ?thesis
    by (cases r) (simp add: new_unverified_def new_unsafe_eq [OF assms] if_not_P [OF False])
qed

lemma new_unverified_state:
  assumes "wf_committee c" "lawful_bitmap C" "new_unverified C c h votes = Some (Inr x)"
  shows "\<exists>agg. aggregate C (map snd (remdups_adj (sort_key fst votes))) = Some agg \<and> cert_state x = Unverified agg"
proof -
  have c: "certifiable C c votes" using new_unverified_cases [OF assms(1,2), of h votes] assms(3) by auto
  then have "consistent_votes votes \<and> fst ` set votes \<subseteq> committee_ids c" by (simp add: certifiable_def)
  moreover have "votes \<noteq> []" using c quorum_positive [OF assms(1)] by (auto simp: certifiable_def)
  then have "remdups_adj (sort_key fst votes) \<noteq> []" by (metis length_0_conv length_sort remdups_adj_Nil_iff)
  ultimately show ?thesis using assms(3)
    by (auto simp: new_unverified_def new_unsafe_eq [OF assms(1,2)] Let_def split: if_splits option.splits)
qed

lemma set_signers:
  assumes "wf_committee c" "S \<subseteq> committee_ids c"
  shows "set (filter (\<lambda>i. i \<in> S) [0..<length (authorities c)]) = S"
  using assms(2) unfolding wf_committee_ids(2) [OF assms(1)]
  by (auto simp: committee_size_def authorities_def)

lemma new_unverified_signed_by:
  assumes "wf_committee c" "lawful_bitmap C"
  shows "\<exists>r. new_unverified C c h votes = Some r \<and>
    (case r of
       Inl _ \<Rightarrow> \<not> certifiable C c votes
     | Inr x \<Rightarrow> certifiable C c votes \<and> cert_header x = h
         \<and> signed_by x c = Some (sum (stake_by_id c) (fst ` set votes),
             map auth_protocol_key (filter (\<lambda>a. auth_id a \<in> fst ` set votes) (authorities c))))"
proof -
  obtain r where r: "new_unverified C c h votes = Some r"
      "case r of Inl _ \<Rightarrow> \<not> certifiable C c votes
       | Inr x \<Rightarrow> certifiable C c votes \<and> cert_header x = h
         \<and> cert_signed_authorities x
           = filter (\<lambda>i. i \<in> fst ` set votes) [0..<length (authorities c)]"
    using new_unverified_cases [OF assms] by blast
  show ?thesis
  proof (cases r)
    case (Inr x)
    then have sub: "fst ` set votes \<subseteq> committee_ids c"
        and ixs: "cert_signed_authorities x = filter (\<lambda>i. i \<in> fst ` set votes) [0..<length (authorities c)]"
      using r(2) by (simp_all add: certifiable_def)
    have "sorted_wrt (<) (cert_signed_authorities x)" by (simp add: ixs sorted_wrt_filter)
    from signed_by_eq [OF assms(1) this] r Inr show ?thesis
      unfolding ixs set_signers [OF assms(1) sub] by simp
  qed (use r in simp)
qed

text \<open>Forming a certificate from votes never panics. It succeeds exactly when the votes
  come from committee members, no member voted with two different signatures, the voters
  hold a quorum of stake, and their signatures aggregate; the certificate's signers, as
  \<open>signed_by\<close> reads them back from its bitmap, are then exactly the voters, weighed once
  each however often their vote is repeated.\<close>

theorem new_unverified_correct:
  assumes "wf_committee c" "lawful_bitmap C"
  shows "\<exists>r. new_unverified C c h votes = Some r \<and>
    (case r of
       Inl _ \<Rightarrow> \<not> certifiable C c votes
     | Inr x \<Rightarrow> certifiable C c votes \<and> cert_header x = h
         \<and> signed_by x c = Some (sum (stake_by_id c) (fst ` set votes),
             map auth_protocol_key (filter (\<lambda>a. auth_id a \<in> fst ` set votes) (authorities c))))"
  using assms by (rule new_unverified_signed_by)

definition example_crypto :: crypto where
  "example_crypto = \<lparr>header_hash = (\<lambda>h. 100 * hdr_round h + hdr_author h),
     aggregate = (\<lambda>sigs. Some (sum_list sigs)), aggregate_default = 0,
     aggregate_try_from = Some, verify_secure = (\<lambda>s d pks. s = d * length pks),
     verify_one = (\<lambda>s d pk. s = d),
     from_sorted_iter = (\<lambda>xs. if sorted_wrt (<) xs then Some xs else None)\<rparr>"

lemma lawful_example_crypto: "lawful_bitmap example_crypto"
  by (simp add: lawful_bitmap_def example_crypto_def)

lemma certifiable_example:
  "certifiable example_crypto example_committee [(2, 301), (0, 301), (2, 301), (3, 301)]"
proof -
  have voters: "fst ` set [(2, 301), (0, 301), (2, 301), (3, 301 :: nat)] = {0, 2, 3 :: nat}" by auto
  show ?thesis
    unfolding certifiable_def ids_example thresholds_example voters
    by (simp add: consistent_votes_def stake_example example_crypto_def)
qed

theorem new_unverified_correct_witness:
  "\<exists>x. new_unverified example_crypto example_committee
      (header_new example_crypto 7 1 3 0 [] [] []) [(2, 301), (0, 301), (2, 301), (3, 301)]
      = Some (Inr x)
    \<and> cert_header x = header_new example_crypto 7 1 3 0 [] [] []
    \<and> signed_by x example_committee = Some (3, [10, 30, 40])"
proof -
  let ?votes = "[(2, 301), (0, 301), (2, 301), (3, 301)] :: vote_entry list"
  have "fst ` set ?votes = {0, 2, 3}" by auto
  then have "sum (stake_by_id example_committee) (fst ` set ?votes) = 3"
    by (simp only:) (simp add: stake_example)
  moreover have "map auth_protocol_key
      (filter (\<lambda>a. auth_id a \<in> fst ` set ?votes) (authorities example_committee)) = [10, 30, 40]"
    by (simp add: authorities_example authority_initialise_def example_builder_def add_authority_def
        committee_builder_new_def authority_new_def)
  moreover obtain r where "new_unverified example_crypto example_committee
      (header_new example_crypto 7 1 3 0 [] [] []) ?votes = Some r"
      "case r of
         Inl _ \<Rightarrow> \<not> certifiable example_crypto example_committee ?votes
       | Inr x \<Rightarrow> certifiable example_crypto example_committee ?votes
           \<and> cert_header x = header_new example_crypto 7 1 3 0 [] [] []
           \<and> signed_by x example_committee
             = Some (sum (stake_by_id example_committee) (fst ` set ?votes),
                 map auth_protocol_key (filter (\<lambda>a. auth_id a \<in> fst ` set ?votes)
                   (authorities example_committee)))"
    using new_unverified_correct [OF example_committee_wf lawful_example_crypto] by blast
  ultimately show ?thesis using certifiable_example by (cases r) auto
qed

section \<open>Verifying a certificate\<close>

lemma check_workers_total:
  assumes "wf_committee c" "0 < stake_by_id c (hdr_author h)"
  shows "\<exists>r. check_workers c wc h payload = Some r"
proof -
  obtain a where a: "authority_lookup c (hdr_author h) = Some a"
    using assms(2) by (auto simp: stake_by_id_def authority_lookup_def split: option.splits)
  have "authority_protocol_key a = Some (auth_protocol_key a)"
    using initialised_getters(2) [OF assms(1) authority_lookup_id(2) [OF assms(1) a]] .
  with a show ?thesis by (induction payload) (auto split: sum.split)
qed

lemma validate_total: "wf_committee c \<Longrightarrow> \<exists>r. validate C h c wc = Some r"
  using check_workers_total [of c h wc "hdr_payload h"]
  by (auto simp: validate_def split: sum.split)

lemma validate_OkD:
  assumes "validate C h c wc = Some (Inr u)"
  shows "hdr_epoch h = cm_epoch c" "header_hash C h = hdr_digest h" "0 < stake_by_id c (hdr_author h)"
  using assms by (auto simp: validate_def split: if_splits)

lemma genesis_total:
  assumes "wf_committee c"
  shows "genesis C c = Some (map (\<lambda>a. \<lparr>cert_header = header_new C 0 (auth_id a) 0 (cm_epoch c) [] [] [],
    cert_state = Genesis, cert_signed_authorities = [], cert_created_at = 0\<rparr>) (authorities c))"
  unfolding genesis_def using initialised_getters(1) [OF assms] by (intro those_eq_map) simp

text \<open>The certificates that need no signature: those equal to a genesis certificate.\<close>

definition is_genesis :: "crypto \<Rightarrow> committee \<Rightarrow> certificate \<Rightarrow> bool" where
  "is_genesis C c x \<longleftrightarrow>
     cert_round x = 0 \<and> list_ex (\<lambda>g. certificate_eq g x) (the (genesis C c))"

lemma cert_verify_eq:
  assumes "wf_committee c" "sorted_wrt (<) (cert_signed_authorities x)"
  shows "cert_verify C x c wc =
    (if cert_epoch x \<noteq> cm_epoch c then Some (Inl (InvalidEpoch (cm_epoch c) (cert_epoch x)))
     else if is_genesis C c x then Some (Inr x)
     else (case the (validate C (cert_header x) c wc) of
         Inl e \<Rightarrow> Some (Inl e)
       | Inr _ \<Rightarrow>
           if cm_quorum_threshold c \<le> sum (stake_by_id c) (set (cert_signed_authorities x))
           then Some (verify_signature C x (map auth_protocol_key
             (filter (\<lambda>a. auth_id a \<in> set (cert_signed_authorities x)) (authorities c))))
           else Some (Inl CertificateRequiresQuorum)))"
  using validate_total [OF assms(1), of C "cert_header x" wc] genesis_total [OF assms(1), of C]
  by (auto simp: cert_verify_def is_genesis_def signed_by_eq [OF assms] split: sum.split)

lemma cert_verify_Ok:
  assumes "wf_committee c" "sorted_wrt (<) (cert_signed_authorities x)"
    and "cert_verify C x c wc = Some (Inr x')" "\<not> is_genesis C c x"
  shows "cm_quorum_threshold c \<le> sum (stake_by_id c) (set (cert_signed_authorities x))"
    and "0 < stake_by_id c (cert_origin x)"
    and "verify_signature C x (map auth_protocol_key
      (filter (\<lambda>a. auth_id a \<in> set (cert_signed_authorities x)) (authorities c))) = Inr x'"
proof -
  obtain r where v: "validate C (cert_header x) c wc = Some r"
    using validate_total [OF assms(1)] by blast
  then obtain u where "r = Inr u"
    using assms(3,4) by (cases r) (simp_all add: cert_verify_eq [OF assms(1,2)] split: if_splits)
  with v have "0 < stake_by_id c (cert_origin x)"
    using validate_OkD(3) [of C "cert_header x" c wc u] by (simp add: cert_origin_def)
  then show "0 < stake_by_id c (cert_origin x)" .
  show "cm_quorum_threshold c \<le> sum (stake_by_id c) (set (cert_signed_authorities x))"
    and "verify_signature C x (map auth_protocol_key
      (filter (\<lambda>a. auth_id a \<in> set (cert_signed_authorities x)) (authorities c))) = Inr x'"
    using assms(3,4) v \<open>r = Inr u\<close>
    by (simp_all add: cert_verify_eq [OF assms(1,2)] split: if_splits)
qed

text \<open>C18: Verifying a certificate never panics. It passes exactly if it is of the committee's epoch and
  either is a genesis certificate, or its header is valid, its signers hold a quorum of stake, and its
  state admits it: a certificate received from the network, which is not verified yet, needs an
  aggregated signature that verifies on its digest under exactly the signers' keys and is then marked
  as verified directly; one that is already marked as verified, or as genesis, is returned as it is,
  and an unsigned one is refused. The author of an admitted header has stake, and its digest is right.\<close>

theorem cert_verify_sound:
  assumes "wf_committee c" "sorted_wrt (<) (cert_signed_authorities x)"
  shows "\<exists>r. cert_verify C x c wc = Some r
    \<and> (\<forall>x'. r = Inr x' \<longleftrightarrow> cert_epoch x = cm_epoch c
         \<and> (if is_genesis C c x then x' = x
            else validate C (cert_header x) c wc = Some (Inr ())
              \<and> cm_quorum_threshold c \<le> sum (stake_by_id c) (set (cert_signed_authorities x))
              \<and> (case cert_state x of
                   Unverified s \<Rightarrow> (\<exists>agg. aggregate_try_from C s = Some agg
                       \<and> verify_secure C agg (cert_digest x) (map auth_protocol_key
                           (filter (\<lambda>a. auth_id a \<in> set (cert_signed_authorities x)) (authorities c))))
                     \<and> x' = x\<lparr>cert_state := VerifiedDirectly s\<rparr>
                 | Unsigned _ \<Rightarrow> False
                 | _ \<Rightarrow> x' = x)))
    \<and> (\<forall>x'. r = Inr x' \<and> \<not> is_genesis C c x \<longrightarrow>
         0 < stake_by_id c (cert_origin x) \<and> header_hash C (cert_header x) = cert_digest x)"
proof -
  obtain r where v: "validate C (cert_header x) c wc = Some r" using validate_total [OF assms(1)] by blast
  have "r = Inr u \<Longrightarrow> 0 < stake_by_id c (cert_origin x) \<and> header_hash C (cert_header x) = cert_digest x" for u
    using validate_OkD [of C "cert_header x" c wc u] v by (simp add: cert_origin_def cert_digest_def)
  then show ?thesis unfolding cert_verify_eq [OF assms]
    using v by (cases r) (auto simp: verify_signature_def split: signature_verification_state.splits option.splits)
qed

definition example_certificate :: "round \<Rightarrow> authority_identifier \<Rightarrow> digest list \<Rightarrow> nat list \<Rightarrow> certificate" where
  "example_certificate r a parents signers =
     \<lparr>cert_header = header_new example_crypto (10 * r) a r 1 [] [] parents,
      cert_state = Unverified ((100 * r + a) * length signers),
      cert_signed_authorities = signers, cert_created_at = 0\<rparr>"

lemmas example_certificate_simps =
  example_certificate_def header_new_def cert_round_def cert_epoch_def cert_origin_def cert_digest_def
  example_crypto_def Let_def

lemma epoch_example: "cm_epoch example_committee = 1"
  by (simp add: example_committee_eq)

definition example_cache :: worker_cache where
  "example_cache = \<lparr>wc_workers = [], wc_epoch = 1\<rparr>"

lemma verify_example:
  assumes "signers \<in> {[0, 2, 3], [1, 2, 3]}"
  shows "cert_verify example_crypto (example_certificate 3 1 [] signers) example_committee example_cache
    = Some (Inr ((example_certificate 3 1 [] signers)
        \<lparr>cert_state := VerifiedDirectly (301 * length signers)\<rparr>))"
proof -
  let ?x = "example_certificate 3 1 [] signers"
  have cs: "cert_signed_authorities ?x = signers" by (simp add: example_certificate_def)
  have sorted: "sorted_wrt (<) (cert_signed_authorities ?x)" unfolding cs using assms by auto
  have "sum (stake_by_id example_committee) (set signers) = 3"
    using assms by (auto simp: stake_example)
  moreover have "length (filter (\<lambda>a. auth_id a \<in> set signers) (authorities example_committee))
      = length signers"
    using assms by (auto simp: authorities_example authority_initialise_def)
  moreover have "\<not> is_genesis example_crypto example_committee ?x"
    by (simp add: is_genesis_def example_certificate_simps)
  ultimately show ?thesis
    unfolding cert_verify_eq [OF example_committee_wf sorted] cs thresholds_example epoch_example
    by (simp add: example_certificate_simps validate_def verify_signature_def epoch_example stake_example)
qed

theorem cert_verify_sound_witness:
  "cert_verify example_crypto (example_certificate 3 1 [] [0, 2, 3]) example_committee example_cache
     = Some (Inr ((example_certificate 3 1 [] [0, 2, 3])\<lparr>cert_state := VerifiedDirectly 903\<rparr>))"
proof -
  let ?x = "example_certificate 3 1 [] [0, 2, 3]"
  have s: "sorted_wrt (<) (cert_signed_authorities ?x)" and st: "cert_state ?x = Unverified 903"
      and g: "\<not> is_genesis example_crypto example_committee ?x" and d: "cert_digest ?x = 301"
      and cs: "set (cert_signed_authorities ?x) = {0, 2, 3}"
    by (simp_all add: is_genesis_def example_certificate_simps)
  have keys: "map auth_protocol_key (filter (\<lambda>a. auth_id a \<in> {0, 2, 3}) (authorities example_committee)) = [10, 30, 40]"
    by (simp add: authorities_example authority_initialise_def example_builder_def add_authority_def
        committee_builder_new_def authority_new_def)
  have "validate example_crypto (cert_header ?x) example_committee example_cache = Some (Inr ())" "cert_epoch ?x = 1"
    by (simp_all add: example_certificate_simps validate_def epoch_example stake_example)
  moreover have "verify_secure example_crypto 903 301 [10, 30, 40]" "aggregate_try_from example_crypto 903 = Some 903"
    by (simp_all add: example_crypto_def)
  ultimately show ?thesis
    using cert_verify_sound [OF example_committee_wf s, of example_crypto example_cache] g
    unfolding st d cs keys thresholds_example epoch_example by (auto simp: stake_example)
qed

text \<open>Any two certificates that pass verification, genesis certificates apart, have
  common signers holding at least the validity threshold of stake: if fewer than that are
  faulty, an honest authority signed both.\<close>

theorem verified_certificates_overlap:
  assumes "wf_committee c"
    and "sorted_wrt (<) (cert_signed_authorities x)" "sorted_wrt (<) (cert_signed_authorities y)"
    and "cert_verify C x c wc = Some (Inr x')" "cert_verify C y c wc = Some (Inr y')"
    and "0 < cert_round x" "0 < cert_round y"
  shows "cm_validity_threshold c \<le> sum (stake_by_id c)
    (set (cert_signed_authorities x) \<inter> set (cert_signed_authorities y))"
  using assms cert_verify_Ok(1) [OF assms(1,2,4)] cert_verify_Ok(1) [OF assms(1,3,5)]
  by (intro narwhal_quorum.quorums_overlap) (simp_all add: is_genesis_def)

theorem verified_certificates_overlap_witness:
  "cm_validity_threshold example_committee
    \<le> sum (stake_by_id example_committee) (set [0, 2, 3] \<inter> set [1, 2, 3])"
  using verified_certificates_overlap [OF example_committee_wf _ _
      verify_example [of "[0, 2, 3]"] verify_example [of "[1, 2, 3]"]]
  by (simp add: example_certificate_def cert_round_def header_new_def Let_def)

end
