(* ===== verification/Narwhal_Store.thy ===== *)
theory Narwhal_Store
  imports Narwhal_Types
begin

text \<open>
  What the consensus commits and persists: reputation scores, committed sub-dags and their
  compact form (\<open>src/narwhal/types/src/consensus.rs\<close>), and the consensus store
  (\<open>src/narwhal/storage/src/consensus_store.rs\<close>). A database table is an ordered map from
  keys to values, as its iterators present it. Whether a batch is written is decided by the
  database, a parameter of the definitions that write.
\<close>

section \<open>Reputation scores\<close>

type_synonym sequence_number = nat

record reputation_scores =
  scores_per_authority :: "(authority_identifier \<times> nat) list"
  final_of_schedule :: bool

definition reputation_scores_new :: "committee \<Rightarrow> reputation_scores option" where
  "reputation_scores_new c = do {
     ids \<leftarrow> those (map authority_id (authorities c));
     Some \<lparr>scores_per_authority = hash_collect (map (\<lambda>i. (i, 0)) ids),
           final_of_schedule = False\<rparr>
   }"

definition add_score :: "reputation_scores \<Rightarrow> authority_identifier \<Rightarrow> nat \<Rightarrow> reputation_scores" where
  "add_score rs a score = rs\<lparr>scores_per_authority :=
     (case map_of (scores_per_authority rs) a of
        Some v \<Rightarrow> AList.update a (u64_wrapping_add v score) (scores_per_authority rs)
      | None \<Rightarrow> AList.update a score (scores_per_authority rs))\<rparr>"

definition total_authorities :: "reputation_scores \<Rightarrow> nat" where
  "total_authorities rs = length (scores_per_authority rs)"

definition all_zero :: "reputation_scores \<Rightarrow> bool" where
  "all_zero rs \<longleftrightarrow> \<not> list_ex (\<lambda>(_, e). 0 < e) (scores_per_authority rs)"

definition score_order :: "authority_identifier \<times> nat \<Rightarrow> authority_identifier \<times> nat \<Rightarrow> bool" where
  "score_order a1 a2 \<longleftrightarrow> snd a2 < snd a1 \<or> snd a2 = snd a1 \<and> fst a2 \<le> fst a1"

definition authorities_by_score_desc :: "reputation_scores \<Rightarrow> (authority_identifier \<times> nat) list" where
  "authorities_by_score_desc rs = sort_by score_order (scores_per_authority rs)"

section \<open>Committed sub-dags\<close>

record committed_sub_dag =
  sd_certificates :: "certificate list"
  sd_leader :: certificate
  sd_sub_dag_index :: sequence_number
  sd_reputation_score :: reputation_scores
  sd_commit_timestamp :: timestamp_ms

definition committed_sub_dag_new ::
    "certificate list \<Rightarrow> certificate \<Rightarrow> sequence_number \<Rightarrow> reputation_scores \<Rightarrow>
     committed_sub_dag option \<Rightarrow> committed_sub_dag" where
  "committed_sub_dag_new certs leader index scores previous =
     (let previous_ts = (case previous of None \<Rightarrow> 0 | Some s \<Rightarrow> sd_commit_timestamp s)
      in \<lparr>sd_certificates = certs, sd_leader = leader, sd_sub_dag_index = index,
          sd_reputation_score = scores,
          sd_commit_timestamp = max previous_ts (hdr_created_at (cert_header leader))\<rparr>)"

definition sub_dag_len :: "committed_sub_dag \<Rightarrow> nat" where
  "sub_dag_len s = length (sd_certificates s)"

definition num_batches :: "committed_sub_dag \<Rightarrow> nat" where
  "num_batches s = sum_list (map (\<lambda>x. length (hdr_payload (cert_header x))) (sd_certificates s))"

definition is_last :: "committed_sub_dag \<Rightarrow> certificate \<Rightarrow> bool" where
  "is_last s output =
     (sd_certificates s \<noteq> [] \<and> certificate_eq (last (sd_certificates s)) output)"

definition leader_round :: "committed_sub_dag \<Rightarrow> round" where
  "leader_round s = cert_round (sd_leader s)"

definition commit_timestamp :: "committed_sub_dag \<Rightarrow> timestamp_ms" where
  "commit_timestamp s =
     (if sd_commit_timestamp s = 0 then hdr_created_at (cert_header (sd_leader s))
      else sd_commit_timestamp s)"

section \<open>The compact form of a commit\<close>

record committed_sub_dag_shell =
  sh_certificates :: "digest list"
  sh_leader :: digest
  sh_leader_round :: round
  sh_sub_dag_index :: sequence_number
  sh_reputation_score :: reputation_scores

record consensus_commit_v2 =
  v2_certificates :: "digest list"
  v2_leader :: digest
  v2_leader_round :: round
  v2_sub_dag_index :: sequence_number
  v2_reputation_score :: reputation_scores
  v2_commit_timestamp :: timestamp_ms

datatype consensus_commit = V1 committed_sub_dag_shell | V2 consensus_commit_v2

definition shell_from_sub_dag :: "committed_sub_dag \<Rightarrow> committed_sub_dag_shell" where
  "shell_from_sub_dag s =
     \<lparr>sh_certificates = map cert_digest (sd_certificates s),
      sh_leader = cert_digest (sd_leader s), sh_leader_round = cert_round (sd_leader s),
      sh_sub_dag_index = sd_sub_dag_index s, sh_reputation_score = sd_reputation_score s\<rparr>"

definition v2_from_sub_dag :: "committed_sub_dag \<Rightarrow> consensus_commit_v2" where
  "v2_from_sub_dag s =
     \<lparr>v2_certificates = map cert_digest (sd_certificates s),
      v2_leader = cert_digest (sd_leader s), v2_leader_round = cert_round (sd_leader s),
      v2_sub_dag_index = sd_sub_dag_index s, v2_reputation_score = sd_reputation_score s,
      v2_commit_timestamp = sd_commit_timestamp s\<rparr>"

fun commit_certificates :: "consensus_commit \<Rightarrow> digest list" where
  "commit_certificates (V1 s) = sh_certificates s"
| "commit_certificates (V2 s) = v2_certificates s"

fun commit_leader_digest :: "consensus_commit \<Rightarrow> digest" where
  "commit_leader_digest (V1 s) = sh_leader s"
| "commit_leader_digest (V2 s) = v2_leader s"

fun commit_leader_round :: "consensus_commit \<Rightarrow> round" where
  "commit_leader_round (V1 s) = sh_leader_round s"
| "commit_leader_round (V2 s) = v2_leader_round s"

fun commit_sub_dag_index :: "consensus_commit \<Rightarrow> sequence_number" where
  "commit_sub_dag_index (V1 s) = sh_sub_dag_index s"
| "commit_sub_dag_index (V2 s) = v2_sub_dag_index s"

fun commit_reputation_score :: "consensus_commit \<Rightarrow> reputation_scores" where
  "commit_reputation_score (V1 s) = sh_reputation_score s"
| "commit_reputation_score (V2 s) = v2_reputation_score s"

fun commit_commit_timestamp :: "consensus_commit \<Rightarrow> timestamp_ms" where
  "commit_commit_timestamp (V1 s) = 0"
| "commit_commit_timestamp (V2 s) = v2_commit_timestamp s"

definition from_commit :: "consensus_commit \<Rightarrow> certificate list \<Rightarrow> certificate \<Rightarrow> committed_sub_dag" where
  "from_commit commit certs leader =
     \<lparr>sd_certificates = certs, sd_leader = leader,
      sd_sub_dag_index = commit_sub_dag_index commit,
      sd_reputation_score = commit_reputation_score commit,
      sd_commit_timestamp = commit_commit_timestamp commit\<rparr>"

section \<open>The consensus store\<close>

record consensus_store =
  cs_last_committed :: "(authority_identifier \<times> round) list"
  cs_committed_sub_dags :: "(sequence_number \<times> consensus_commit) list"

definition consensus_store_new ::
    "(authority_identifier \<times> round) list \<Rightarrow> (sequence_number \<times> consensus_commit) list \<Rightarrow>
     consensus_store" where
  "consensus_store_new lc sds = \<lparr>cs_last_committed = lc, cs_committed_sub_dags = sds\<rparr>"

definition store_clear :: "consensus_store \<Rightarrow> consensus_store" where
  "store_clear st = st\<lparr>cs_last_committed := [], cs_committed_sub_dags := []\<rparr>"

datatype store_error = StoreError

text \<open>The batch of one commit is written as a whole or not at all.\<close>

definition write_consensus_state ::
    "bool \<Rightarrow> consensus_store \<Rightarrow> (authority_identifier \<times> round) list \<Rightarrow> committed_sub_dag \<Rightarrow>
     (store_error, consensus_store) result" where
  "write_consensus_state written st last_committed s =
     (if written
      then Inr (st\<lparr>cs_last_committed :=
             foldl (\<lambda>m (a, r). bt_insert a r m) (cs_last_committed st) last_committed,
           cs_committed_sub_dags :=
             bt_insert (sd_sub_dag_index s) (V2 (v2_from_sub_dag s)) (cs_committed_sub_dags st)\<rparr>)
      else Inl StoreError)"

definition read_last_committed :: "consensus_store \<Rightarrow> (authority_identifier \<times> round) list" where
  "read_last_committed st = hash_collect (cs_last_committed st)"

definition get_latest_sub_dag_index :: "consensus_store \<Rightarrow> sequence_number" where
  "get_latest_sub_dag_index st =
     (if cs_committed_sub_dags st = [] then 0 else fst (last (cs_committed_sub_dags st)))"

definition get_latest_sub_dag :: "consensus_store \<Rightarrow> consensus_commit option" where
  "get_latest_sub_dag st =
     (if cs_committed_sub_dags st = [] then None else Some (snd (last (cs_committed_sub_dags st))))"

definition read_committed_sub_dags_from :: "consensus_store \<Rightarrow> sequence_number \<Rightarrow> consensus_commit list" where
  "read_committed_sub_dags_from st from =
     map snd (dropWhile (\<lambda>(k, _). k < from) (cs_committed_sub_dags st))"

definition read_consensus_commit :: "consensus_store \<Rightarrow> sequence_number \<Rightarrow> consensus_commit option" where
  "read_consensus_commit st seq = map_of (cs_committed_sub_dags st) seq"

definition read_latest_commit_with_final_reputation_scores ::
    "consensus_store \<Rightarrow> consensus_commit option" where
  "read_latest_commit_with_final_reputation_scores st =
     List.find (\<lambda>commit. final_of_schedule (commit_reputation_score commit))
       (map snd (rev (cs_committed_sub_dags st)))"

section \<open>Scores\<close>

lemma reputation_scores_new_eq:
  assumes "wf_committee c"
  shows "reputation_scores_new c =
    Some \<lparr>scores_per_authority = map (\<lambda>i. (i, 0)) [0..<committee_size c], final_of_schedule = False\<rparr>"
proof -
  have ids: "map auth_id (authorities c) = [0..<committee_size c]"
    using assms by (simp add: wf_committee_def committee_size_def)
  have "those (map authority_id (authorities c)) = Some (map auth_id (authorities c))"
    using initialised_getters(1) [OF assms] by (intro those_eq_map) simp
  moreover have "distinct (map fst (map (\<lambda>i. (i, 0 :: nat)) [0..<committee_size c]))"
    by (simp add: comp_def)
  ultimately show ?thesis unfolding reputation_scores_new_def ids
    by (simp only: bind.bind_lunit hash_collect_distinct)
qed

lemma keys_add_score:
  "fst ` set (scores_per_authority (add_score rs a n)) = insert a (fst ` set (scores_per_authority rs))"
  by (auto simp: add_score_def dom_update split: option.split)

lemma distinct_add_score [simp]:
  "distinct (map fst (scores_per_authority rs)) \<Longrightarrow>
     distinct (map fst (scores_per_authority (add_score rs a n)))"
  by (simp add: add_score_def split: option.split)

lemma final_add_score [simp]: "final_of_schedule (add_score rs a n) = final_of_schedule rs"
  by (simp add: add_score_def)

text \<open>The scores a committee's commits carry have one entry per member.\<close>

definition wf_scores :: "committee \<Rightarrow> reputation_scores \<Rightarrow> bool" where
  "wf_scores c rs \<longleftrightarrow>
     distinct (map fst (scores_per_authority rs)) \<and> fst ` set (scores_per_authority rs) = committee_ids c"

lemma wf_scores_new:
  "wf_committee c \<Longrightarrow> \<exists>rs. reputation_scores_new c = Some rs \<and> wf_scores c rs"
  by (simp add: reputation_scores_new_eq wf_scores_def wf_committee_ids(2) comp_def image_image
      atLeast0LessThan)

lemma wf_scores_add_score:
  "wf_scores c rs \<Longrightarrow> a \<in> committee_ids c \<Longrightarrow> wf_scores c (add_score rs a n)"
  unfolding wf_scores_def keys_add_score by (simp add: insert_absorb)

lemma total_authorities_wf:
  assumes "wf_committee c" "wf_scores c rs"
  shows "total_authorities rs = committee_size c"
proof -
  have "total_authorities rs = card (set (map fst (scores_per_authority rs)))"
    using assms(2) by (simp add: total_authorities_def wf_scores_def distinct_card del: set_map)
  also have "set (map fst (scores_per_authority rs)) = {..<committee_size c}"
    using assms by (simp add: wf_scores_def wf_committee_ids(2))
  finally show ?thesis by simp
qed

lemma score_order_total: "score_order a b \<or> score_order b a"
  by (auto simp: score_order_def)

lemma score_order_trans: "score_order a b \<Longrightarrow> score_order b c \<Longrightarrow> score_order a c"
  by (auto simp: score_order_def)

lemma score_order_antisym: "score_order a b \<Longrightarrow> score_order b a \<Longrightarrow> a = b"
  by (auto simp: score_order_def prod_eq_iff)

lemma by_score_sorted: "sorted_wrt score_order (authorities_by_score_desc rs)"
  unfolding authorities_by_score_desc_def
  by (rule sorted_sort_by; (rule score_order_total | erule (1) score_order_trans))

lemma set_by_score [simp]: "set (authorities_by_score_desc rs) = set (scores_per_authority rs)"
  by (simp add: authorities_by_score_desc_def)

lemma distinct_by_score:
  "distinct (map fst (scores_per_authority rs)) \<Longrightarrow> distinct (map fst (authorities_by_score_desc rs))"
  by (simp add: authorities_by_score_desc_def distinct_map)

lemma map_of_eq_set_eq:
  "distinct (map fst xs) \<Longrightarrow> distinct (map fst ys) \<Longrightarrow> map_of xs = map_of ys \<Longrightarrow> set xs = set ys"
  by (metis map_of_inject_set)

text \<open>\<open>authorities_by_score_desc\<close> lists every authority of the scores once, by
  decreasing score and, among equal scores, by decreasing identifier; the list depends only
  on the scores and not on the iteration order of the hash map that holds them.\<close>

theorem authorities_by_score_desc_deterministic:
  assumes "distinct (map fst (scores_per_authority rs))"
    and "distinct (map fst (scores_per_authority rs'))"
    and "map_of (scores_per_authority rs) = map_of (scores_per_authority rs')"
  shows "authorities_by_score_desc rs = authorities_by_score_desc rs'
    \<and> distinct (map fst (authorities_by_score_desc rs))
    \<and> set (authorities_by_score_desc rs) = set (scores_per_authority rs)
    \<and> sorted_wrt (\<lambda>a1 a2. snd a2 < snd a1 \<or> snd a2 = snd a1 \<and> fst a2 < fst a1)
        (authorities_by_score_desc rs)"
proof (intro conjI)
  have d: "distinct (scores_per_authority rs)" "distinct (scores_per_authority rs')"
    using assms(1,2) by (simp_all add: distinct_map)
  show "authorities_by_score_desc rs = authorities_by_score_desc rs'"
    unfolding authorities_by_score_desc_def
    by (rule sort_by_cong_set [OF score_order_total score_order_trans score_order_antisym d])
      (use map_of_eq_set_eq [OF assms] in auto)
  show dk: "distinct (map fst (authorities_by_score_desc rs))"
    using assms(1) by (rule distinct_by_score)
  have "sorted_wrt (\<lambda>a1 a2. score_order a1 a2 \<and> fst a1 \<noteq> fst a2) (authorities_by_score_desc rs)"
    using by_score_sorted dk by (simp add: sorted_wrt_iff_nth_less distinct_conv_nth)
  then show "sorted_wrt (\<lambda>a1 a2. snd a2 < snd a1 \<or> snd a2 = snd a1 \<and> fst a2 < fst a1)
        (authorities_by_score_desc rs)"
    by (rule sorted_wrt_mono_rel [rotated]) (auto simp: score_order_def)
qed simp

theorem authorities_by_score_desc_deterministic_witness:
  "authorities_by_score_desc \<lparr>scores_per_authority = [(0, 5), (1, 7), (2, 5)], final_of_schedule = True\<rparr>
     = [(1, 7), (2, 5), (0, 5)]
   \<and> authorities_by_score_desc \<lparr>scores_per_authority = [(0, 5), (1, 7), (2, 5)], final_of_schedule = True\<rparr>
     = authorities_by_score_desc \<lparr>scores_per_authority = [(2, 5), (1, 7), (0, 5)], final_of_schedule = True\<rparr>"
proof -
  have "map_of [(0, 5), (1, 7), (2, 5)] = map_of [(2, 5), (1, 7), (0 :: nat, 5 :: nat)]"
    by (auto simp: fun_eq_iff)
  then show ?thesis
    using authorities_by_score_desc_deterministic
      [of "\<lparr>scores_per_authority = [(0, 5), (1, 7), (2, 5)], final_of_schedule = True\<rparr>"
          "\<lparr>scores_per_authority = [(2, 5), (1, 7), (0, 5)], final_of_schedule = True\<rparr>"]
    by (simp add: authorities_by_score_desc_def sort_by_def score_order_def)
qed

section \<open>Reading back what was written\<close>

definition wf_store :: "consensus_store \<Rightarrow> bool" where
  "wf_store st \<longleftrightarrow> bt_wf (cs_last_committed st) \<and> bt_wf (cs_committed_sub_dags st)"

lemma map_of_foldl_bt_insert:
  "distinct (map fst kvs) \<Longrightarrow>
     map_of (foldl (\<lambda>m (k, v). bt_insert k v m) m kvs) = map_of m ++ map_of kvs"
proof (induction kvs arbitrary: m)
  case (Cons kv kvs)
  obtain k v where kv: "kv = (k, v)" by (cases kv)
  have "map_of kvs k = None" using Cons.prems kv by (simp add: map_of_eq_None_iff)
  moreover have "map_of (foldl (\<lambda>m (k, v). bt_insert k v m) m (kv # kvs)) x
      = (map_of (bt_insert k v m) ++ map_of kvs) x" for x
    using Cons kv by simp
  ultimately show ?case
    by (intro ext) (auto simp: kv map_of_bt_insert_apply map_add_def split: option.split)
qed simp

lemma write_consensus_state_wf:
  "wf_store st \<Longrightarrow> write_consensus_state w st lc s = Inr st' \<Longrightarrow> wf_store st'"
  by (auto simp: write_consensus_state_def wf_store_def bt_wf_foldl_bt_insert split: if_splits)

lemma write_appends:
  assumes "wf_store st" "\<forall>k \<in> fst ` set (cs_committed_sub_dags st). k < sd_sub_dag_index s"
    and "write_consensus_state w st lc s = Inr st'"
  shows "cs_committed_sub_dags st' =
    cs_committed_sub_dags st @ [(sd_sub_dag_index s, V2 (v2_from_sub_dag s))]"
  using assms(3) bt_insert_last [OF assms(2)]
  by (auto simp: write_consensus_state_def split: if_splits)

lemma map_of_read_last_committed:
  assumes "wf_store st" "distinct (map fst lc)" "write_consensus_state w st lc s = Inr st'"
  shows "map_of (read_last_committed st') = map_of (cs_last_committed st) ++ map_of lc"
proof -
  have "cs_last_committed st' = foldl (\<lambda>m (a, r). bt_insert a r m) (cs_last_committed st) lc"
    using assms(3) by (auto simp: write_consensus_state_def split: if_splits)
  moreover have "distinct (map fst (cs_last_committed st'))"
    using write_consensus_state_wf [OF assms(1,3)] by (simp add: wf_store_def bt_wf_distinct)
  ultimately show ?thesis
    using map_of_foldl_bt_insert [OF assms(2), of "cs_last_committed st"]
    by (simp add: read_last_committed_def)
qed

lemma dropWhile_append_last:
  assumes "\<not> P y"
  shows "dropWhile P (xs @ [y]) = dropWhile P xs @ [y]"
  using assms by (induction xs) auto

lemma read_final_after_write:
  assumes "wf_store st" "\<forall>k \<in> fst ` set (cs_committed_sub_dags st). k < sd_sub_dag_index s"
    and "write_consensus_state w st lc s = Inr st'"
  shows "read_latest_commit_with_final_reputation_scores st'
    = (if final_of_schedule (sd_reputation_score s) then Some (V2 (v2_from_sub_dag s))
       else read_latest_commit_with_final_reputation_scores st)"
  using write_appends [OF assms]
  by (simp add: read_latest_commit_with_final_reputation_scores_def v2_from_sub_dag_def)

text \<open>After a commit with the next index is persisted, it is the latest commit and the
  one found under its index, every range read that starts at or below it ends with it and is
  unchanged before it, the latest final scores are its own if they are final and the former
  ones otherwise, and the last committed rounds are the former ones overridden by the commit's.\<close>

theorem write_consensus_state_roundtrip:
  assumes "wf_store st" "distinct (map fst lc)"
    and "\<forall>k \<in> fst ` set (cs_committed_sub_dags st). k < sd_sub_dag_index s"
    and "write_consensus_state True st lc s = Inr st'"
  shows "wf_store st'
    \<and> get_latest_sub_dag st' = Some (V2 (v2_from_sub_dag s))
    \<and> get_latest_sub_dag_index st' = sd_sub_dag_index s
    \<and> read_consensus_commit st' (sd_sub_dag_index s) = Some (V2 (v2_from_sub_dag s))
    \<and> (\<forall>i. i \<noteq> sd_sub_dag_index s \<longrightarrow> read_consensus_commit st' i = read_consensus_commit st i)
    \<and> (\<forall>from. from \<le> sd_sub_dag_index s \<longrightarrow>
        read_committed_sub_dags_from st' from
          = read_committed_sub_dags_from st from @ [V2 (v2_from_sub_dag s)])
    \<and> read_latest_commit_with_final_reputation_scores st'
        = (if final_of_schedule (sd_reputation_score s) then Some (V2 (v2_from_sub_dag s))
           else read_latest_commit_with_final_reputation_scores st)
    \<and> map_of (read_last_committed st') = map_of (cs_last_committed st) ++ map_of lc"
proof -
  note app = write_appends [OF assms(1,3,4)]
  have new: "map_of (cs_committed_sub_dags st) (sd_sub_dag_index s) = None"
    unfolding map_of_eq_None_iff using assms(3) by blast
  show ?thesis
    using app new write_consensus_state_wf [OF assms(1,4)] map_of_read_last_committed [OF assms(1,2,4)]
    by (auto simp: get_latest_sub_dag_def get_latest_sub_dag_index_def read_consensus_commit_def
        read_committed_sub_dags_from_def read_latest_commit_with_final_reputation_scores_def
        dropWhile_append_last v2_from_sub_dag_def map_add_def split: option.split)
qed

definition example_sub_dag :: "nat \<Rightarrow> round \<Rightarrow> committed_sub_dag" where
  "example_sub_dag i r = \<lparr>sd_certificates = [example_certificate r 0 [] [0, 1, 2]],
     sd_leader = example_certificate r 0 [] [0, 1, 2], sd_sub_dag_index = i,
     sd_reputation_score = \<lparr>scores_per_authority = [(0, 2), (1, 0)], final_of_schedule = True\<rparr>,
     sd_commit_timestamp = 9\<rparr>"

theorem write_consensus_state_roundtrip_witness:
  "\<exists>st'. write_consensus_state True
      \<lparr>cs_last_committed = [(0, 2), (3, 1)],
       cs_committed_sub_dags = [(1, V2 (v2_from_sub_dag (example_sub_dag 1 2)))]\<rparr>
      [(0, 4), (1, 3)] (example_sub_dag 2 4) = Inr st'
    \<and> get_latest_sub_dag_index st' = 2
    \<and> read_committed_sub_dags_from st' 0
      = [V2 (v2_from_sub_dag (example_sub_dag 1 2)), V2 (v2_from_sub_dag (example_sub_dag 2 4))]
    \<and> map_of (read_last_committed st') 0 = Some 4"
proof -
  let ?st = "\<lparr>cs_last_committed = [(0, 2), (3, 1)],
       cs_committed_sub_dags = [(1, V2 (v2_from_sub_dag (example_sub_dag 1 2)))]\<rparr> :: consensus_store"
  obtain st' where w: "write_consensus_state True ?st [(0, 4), (1, 3)] (example_sub_dag 2 4) = Inr st'"
    by (simp add: write_consensus_state_def)
  have "wf_store ?st" "distinct (map fst [(0 :: nat, 4 :: nat), (1, 3)])"
      "\<forall>k \<in> fst ` set (cs_committed_sub_dags ?st). k < sd_sub_dag_index (example_sub_dag 2 4)"
    by (simp_all add: wf_store_def example_sub_dag_def)
  note rt = write_consensus_state_roundtrip [OF this(1,2,3) w]
  have "read_committed_sub_dags_from ?st 0 = [V2 (v2_from_sub_dag (example_sub_dag 1 2))]"
      "sd_sub_dag_index (example_sub_dag 2 4) = 2"
    by (simp_all add: read_committed_sub_dags_from_def example_sub_dag_def)
  with rt w show ?thesis by (auto simp: map_add_def)
qed

text \<open>A commit read back with its certificates is the sub-dag that was committed, apart from
  the commits of the first format, which do not record their timestamp.\<close>

lemma from_commit_from_sub_dag:
  "from_commit (V2 (v2_from_sub_dag s)) (sd_certificates s) (sd_leader s) = s"
  by (simp add: from_commit_def v2_from_sub_dag_def)

end
