(* ===== verification/Narwhal_Certificate_Store.thy ===== *)
theory Narwhal_Certificate_Store
  imports Narwhal_Types "HOL-Library.Product_Lexorder"
begin

text \<open>
  The certificate store, \<open>src/narwhal/storage/src/certificate_store.rs\<close>: certificates by
  digest, two indexes of their digests (by round and origin, by origin and round), and a cache
  in front of the certificates. A database table is an ordered map; its iterators are suffixes
  of the list of its entries. Whether a batch is written is decided by the database: a
  parameter of the operations that write. The cache is an interface, the record \<open>cache_ops\<close>;
  the code has two implementations, one that caches nothing and one on top of an LRU cache of
  a library. Waiting for a write (\<open>notify_read\<close>) is not modelled.
\<close>

section \<open>Caches\<close>

record 'k cache_ops =
  cache_write :: "'k \<Rightarrow> certificate \<Rightarrow> 'k"
  cache_read :: "'k \<Rightarrow> digest \<Rightarrow> certificate option \<times> 'k"
  cache_contains :: "'k \<Rightarrow> digest \<Rightarrow> bool"
  cache_remove :: "'k \<Rightarrow> digest \<Rightarrow> 'k"

definition cache_write_all :: "'k cache_ops \<Rightarrow> 'k \<Rightarrow> certificate list \<Rightarrow> 'k" where
  "cache_write_all ops k xs = foldl (cache_write ops) k xs"

fun cache_read_all :: "'k cache_ops \<Rightarrow> 'k \<Rightarrow> digest list \<Rightarrow> (digest \<times> certificate option) list \<times> 'k" where
  "cache_read_all ops k [] = ([], k)"
| "cache_read_all ops k (d # ds) =
     (let (x, k) = cache_read ops k d; (rest, k) = cache_read_all ops k ds in ((d, x) # rest, k))"

definition cache_multi_contains :: "'k cache_ops \<Rightarrow> 'k \<Rightarrow> digest list \<Rightarrow> bool list" where
  "cache_multi_contains ops k ds = map (cache_contains ops k) ds"

definition cache_remove_all :: "'k cache_ops \<Rightarrow> 'k \<Rightarrow> digest list \<Rightarrow> 'k" where
  "cache_remove_all ops k ds = foldl (cache_remove ops) k ds"

definition no_cache :: "unit cache_ops" where
  "no_cache = \<lparr>cache_write = (\<lambda>k x. k), cache_read = (\<lambda>k d. (None, k)),
     cache_contains = (\<lambda>k d. False), cache_remove = (\<lambda>k d. k)\<rparr>"

text \<open>The operations of the LRU cache library that the code calls.\<close>

record 'l lru_ops =
  lru_put :: "'l \<Rightarrow> digest \<Rightarrow> certificate \<Rightarrow> 'l"
  lru_get :: "'l \<Rightarrow> digest \<Rightarrow> certificate option \<times> 'l"
  lru_contains :: "'l \<Rightarrow> digest \<Rightarrow> bool"
  lru_pop :: "'l \<Rightarrow> digest \<Rightarrow> 'l"

definition certificate_store_cache :: "'l lru_ops \<Rightarrow> 'l cache_ops" where
  "certificate_store_cache L =
     \<lparr>cache_write = (\<lambda>k x. lru_put L k (cert_digest x) x), cache_read = lru_get L,
      cache_contains = lru_contains L, cache_remove = lru_pop L\<rparr>"

section \<open>The store\<close>

record 'k certificate_store =
  certificates_by_id :: "(digest \<times> certificate) list"
  certificate_id_by_round :: "((round \<times> authority_identifier) \<times> digest) list"
  certificate_id_by_origin :: "((authority_identifier \<times> round) \<times> digest) list"
  cert_cache :: 'k

datatype cert_store_error = WriteFailed | RocksDBError

definition certificate_store_new :: "'k \<Rightarrow> 'k certificate_store" where
  "certificate_store_new k = \<lparr>certificates_by_id = [], certificate_id_by_round = [],
     certificate_id_by_origin = [], cert_cache = k\<rparr>"

definition batch_write :: "'k certificate_store \<Rightarrow> certificate list \<Rightarrow> 'k certificate_store" where
  "batch_write st xs = st
     \<lparr>certificates_by_id := foldl (\<lambda>m x. bt_insert (cert_digest x) x m) (certificates_by_id st) xs,
      certificate_id_by_round := foldl (\<lambda>m x. bt_insert (cert_round x, cert_origin x) (cert_digest x) m)
        (certificate_id_by_round st) xs,
      certificate_id_by_origin := foldl (\<lambda>m x. bt_insert (cert_origin x, cert_round x) (cert_digest x) m)
        (certificate_id_by_origin st) xs\<rparr>"

definition cert_write ::
    "'k cache_ops \<Rightarrow> bool \<Rightarrow> 'k certificate_store \<Rightarrow> certificate \<Rightarrow>
     (cert_store_error, unit) result \<times> 'k certificate_store" where
  "cert_write ops written st x =
     (let st = (if written then batch_write st [x] else st);
          st = st\<lparr>cert_cache := cache_write ops (cert_cache st) x\<rparr>
      in (if written then Inr () else Inl WriteFailed, st))"

definition cert_write_all ::
    "'k cache_ops \<Rightarrow> bool \<Rightarrow> 'k certificate_store \<Rightarrow> certificate list \<Rightarrow>
     (cert_store_error, unit) result \<times> 'k certificate_store" where
  "cert_write_all ops written st xs =
     (let st = (if written then batch_write st xs else st);
          st = st\<lparr>cert_cache := cache_write_all ops (cert_cache st) xs\<rparr>
      in (if written then Inr () else Inl WriteFailed, st))"

definition cert_read ::
    "'k cache_ops \<Rightarrow> 'k certificate_store \<Rightarrow> digest \<Rightarrow> certificate option \<times> 'k certificate_store" where
  "cert_read ops st d =
     (let (x, k) = cache_read ops (cert_cache st) d; st = st\<lparr>cert_cache := k\<rparr>
      in case x of Some x \<Rightarrow> (Some x, st) | None \<Rightarrow> (map_of (certificates_by_id st) d, st))"

definition read_by_index ::
    "'k cache_ops \<Rightarrow> 'k certificate_store \<Rightarrow> authority_identifier \<Rightarrow> round \<Rightarrow>
     certificate option \<times> 'k certificate_store" where
  "read_by_index ops st origin r =
     (case map_of (certificate_id_by_origin st) (origin, r) of
        Some d \<Rightarrow> cert_read ops st d
      | None \<Rightarrow> (None, st))"

definition cert_contains :: "'k cache_ops \<Rightarrow> 'k certificate_store \<Rightarrow> digest \<Rightarrow> bool" where
  "cert_contains ops st d =
     (if cache_contains ops (cert_cache st) d then True
      else map_of (certificates_by_id st) d \<noteq> None)"

definition multi_contains :: "'k cache_ops \<Rightarrow> 'k certificate_store \<Rightarrow> digest list \<Rightarrow> bool list" where
  "multi_contains ops st ds =
     (let found = cache_multi_contains ops (cert_cache st) ds;
          store_lookups = filter (\<lambda>(i, d). \<not> found ! i) (zip [0..<length ds] ds);
          store_found = map (\<lambda>(i, d). map_of (certificates_by_id st) d \<noteq> None) store_lookups
      in foldl (\<lambda>found ((i, d), hit). if hit then found[i := True] else found)
           found (zip store_lookups store_found))"

definition read_all ::
    "'k cache_ops \<Rightarrow> 'k certificate_store \<Rightarrow> digest list \<Rightarrow>
     certificate option list \<times> 'k certificate_store" where
  "read_all ops st ds =
     (let (cached, k) = cache_read_all ops (cert_cache st) ds;
          found = foldl (\<lambda>m (d, x). case x of Some x \<Rightarrow> AList.update d x m | None \<Rightarrow> m) [] cached;
          missing = map fst (filter (\<lambda>(d, x). x = None) cached);
          found = foldl (\<lambda>m (x, d). case x of Some x \<Rightarrow> AList.update d x m | None \<Rightarrow> m) found
            (zip (map (map_of (certificates_by_id st)) missing) missing)
      in (map (map_of found) ds, st\<lparr>cert_cache := k\<rparr>))"

definition cert_delete ::
    "'k cache_ops \<Rightarrow> bool \<Rightarrow> 'k certificate_store \<Rightarrow> digest \<Rightarrow>
     (cert_store_error, unit) result \<times> 'k certificate_store" where
  "cert_delete ops written st d =
     (let (x, st) = cert_read ops st d
      in case x of
           None \<Rightarrow> (Inr (), st)
         | Some x \<Rightarrow>
             if written
             then (Inr (), st
               \<lparr>certificates_by_id := AList.delete d (certificates_by_id st),
                certificate_id_by_round :=
                  AList.delete (cert_round x, cert_origin x) (certificate_id_by_round st),
                cert_cache := cache_remove ops (cert_cache st) d\<rparr>)
             else (Inl WriteFailed, st))"

definition delete_all ::
    "'k cache_ops \<Rightarrow> bool \<Rightarrow> 'k certificate_store \<Rightarrow> digest list \<Rightarrow>
     (cert_store_error, unit) result \<times> 'k certificate_store" where
  "delete_all ops written st ds =
     (let (xs, st) = read_all ops st ds;
          keys_by_round = map (\<lambda>x. (cert_round x, cert_origin x)) (List.map_filter id xs)
      in if keys_by_round = [] then (Inr (), st)
         else if written
         then (Inr (), st
           \<lparr>certificate_id_by_round :=
              foldl (\<lambda>m k. AList.delete k m) (certificate_id_by_round st) keys_by_round,
            certificates_by_id := foldl (\<lambda>m d. AList.delete d m) (certificates_by_id st) ds,
            cert_cache := cache_remove_all ops (cert_cache st) ds\<rparr>)
         else (Inl WriteFailed, st))"

section \<open>Range reads\<close>

text \<open>An iterator positioned at the first entry whose key is at least the given one.\<close>

definition skip_to :: "'a::linorder \<Rightarrow> ('a \<times> 'v) list \<Rightarrow> ('a \<times> 'v) list" where
  "skip_to k m = dropWhile (\<lambda>(k', _). k' < k) m"

text \<open>The entry at the given key or, if there is none, at the last key before it.\<close>

definition prior_to :: "'a::linorder \<Rightarrow> ('a \<times> 'v) list \<Rightarrow> ('a \<times> 'v) option" where
  "prior_to k m = (let before = takeWhile (\<lambda>(k', _). k' \<le> k) m
     in if before = [] then None else Some (last before))"

definition iter_from_round ::
    "round \<Rightarrow> ((round \<times> authority_identifier) \<times> digest) list \<Rightarrow>
     ((round \<times> authority_identifier) \<times> digest) list" where
  "iter_from_round r m = (if 0 < r then skip_to (r - 1, 0) m else m)"

definition after_round ::
    "'k certificate_store \<Rightarrow> round \<Rightarrow> (cert_store_error, certificate list) result" where
  "after_round st r =
     (let iter = iter_from_round r (certificate_id_by_round st);
          digests = map snd (filter (\<lambda>((r', _), _). r \<le> r') iter)
      in case those (map (map_of (certificates_by_id st)) digests) of
           None \<Rightarrow> Inl RocksDBError
         | Some xs \<Rightarrow> Inr xs)"

definition origins_after_round ::
    "'k certificate_store \<Rightarrow> round \<Rightarrow> (round \<times> authority_identifier list) list" where
  "origins_after_round st r =
     (let iter = iter_from_round r (certificate_id_by_round st)
      in foldl (\<lambda>m ((r', origin), _).
           if r' < r then m
           else bt_insert r' ((case map_of m r' of None \<Rightarrow> [] | Some os \<Rightarrow> os) @ [origin]) m)
         [] iter)"

fun last_two_loop ::
    "(digest \<times> certificate) list \<Rightarrow> ((round \<times> authority_identifier) \<times> digest) list \<Rightarrow> round \<Rightarrow>
     certificate list \<Rightarrow> (cert_store_error, certificate list) result" where
  "last_two_loop by_id [] r acc = Inr acc"
| "last_two_loop by_id (((cr, _), d) # iter) r acc =
     (if r \<noteq> 0 \<and> cr < r - 1 then Inr acc
      else case map_of by_id d of
          None \<Rightarrow> Inl RocksDBError
        | Some x \<Rightarrow> last_two_loop by_id iter (if r = 0 then cr else r) (acc @ [x]))"

definition last_two_rounds_certs ::
    "'k certificate_store \<Rightarrow> (cert_store_error, certificate list) result" where
  "last_two_rounds_certs st =
     last_two_loop (certificates_by_id st) (rev (certificate_id_by_round st)) 0 []"

definition cert_last_round ::
    "'k cache_ops \<Rightarrow> 'k certificate_store \<Rightarrow> authority_identifier \<Rightarrow>
     certificate option \<times> 'k certificate_store" where
  "cert_last_round ops st origin =
     (case prior_to (origin, u64_size - 1) (certificate_id_by_origin st) of
        Some ((name, _), d) \<Rightarrow> if name = origin then cert_read ops st d else (None, st)
      | None \<Rightarrow> (None, st))"

definition highest_round_number :: "'k certificate_store \<Rightarrow> round" where
  "highest_round_number st =
     (if certificate_id_by_round st = [] then 0 else fst (fst (last (certificate_id_by_round st))))"

definition last_round_number :: "'k certificate_store \<Rightarrow> authority_identifier \<Rightarrow> round option" where
  "last_round_number st origin =
     (case prior_to (origin, u64_size - 1) (certificate_id_by_origin st) of
        Some ((name, r), _) \<Rightarrow> if name = origin then Some r else None
      | None \<Rightarrow> None)"

definition next_round_number ::
    "'k certificate_store \<Rightarrow> authority_identifier \<Rightarrow> round \<Rightarrow> round option" where
  "next_round_number st origin r =
     (case skip_to (origin, r + 1) (certificate_id_by_origin st) of
        ((name, r'), _) # _ \<Rightarrow> if name = origin then Some r' else None
      | [] \<Rightarrow> None)"

definition cert_clear :: "'k certificate_store \<Rightarrow> 'k certificate_store" where
  "cert_clear st = st\<lparr>certificates_by_id := [], certificate_id_by_round := [],
     certificate_id_by_origin := []\<rparr>"

definition cert_is_empty :: "'k certificate_store \<Rightarrow> bool" where
  "cert_is_empty st \<longleftrightarrow> certificates_by_id st = []"

section \<open>What a cache must promise\<close>

text \<open>
  A cache may forget, but it never answers anything but the last certificate written under a
  digest. \<open>peek\<close> is the cache's content, which reading does not change.
\<close>

locale coherent_cache =
  fixes ops :: "'k cache_ops"
    and peek :: "'k \<Rightarrow> digest \<Rightarrow> certificate option"
  assumes read_peek: "fst (cache_read ops k d) = peek k d"
    and read_keeps: "peek (snd (cache_read ops k d)) = peek k"
    and contains_peek: "cache_contains ops k d \<longleftrightarrow> peek k d \<noteq> None"
    and write_peek: "peek (cache_write ops k x) d = Some y \<Longrightarrow>
      d = cert_digest x \<and> y = x \<or> d \<noteq> cert_digest x \<and> peek k d = Some y"
    and remove_peek: "peek (cache_remove ops k d) d' = (if d' = d then None else peek k d')"
begin

lemma read_all_peek:
  "fst (cache_read_all ops k ds) = map (\<lambda>d. (d, peek k d)) ds
   \<and> peek (snd (cache_read_all ops k ds)) = peek k"
proof (induction ds arbitrary: k)
  case (Cons d ds)
  then show ?case
    using read_peek [of k d] read_keeps [of k d] Cons [of "snd (cache_read ops k d)"]
    by (auto simp: split_beta Let_def)
qed simp

lemma remove_all_peek:
  "peek (cache_remove_all ops k ds) d' = (if d' \<in> set ds then None else peek k d')"
  by (induction ds arbitrary: k) (auto simp: cache_remove_all_def remove_peek)

end

text \<open>The documented behaviour of the LRU cache library: \<open>get\<close> returns and only reorders,
  \<open>put\<close> may evict other entries, \<open>pop\<close> removes one.\<close>

locale lru_cache =
  fixes L :: "'l lru_ops"
    and lru_peek :: "'l \<Rightarrow> digest \<Rightarrow> certificate option"
  assumes get_peek: "fst (lru_get L l d) = lru_peek l d"
    and get_keeps: "lru_peek (snd (lru_get L l d)) = lru_peek l"
    and lru_contains_peek: "lru_contains L l d \<longleftrightarrow> lru_peek l d \<noteq> None"
    and put_peek: "lru_peek (lru_put L l d x) d' = Some y \<Longrightarrow>
      d' = d \<and> y = x \<or> d' \<noteq> d \<and> lru_peek l d' = Some y"
    and pop_peek: "lru_peek (lru_pop L l d) d' = (if d' = d then None else lru_peek l d')"
begin

lemma get_popped: "fst (lru_get L (lru_pop L l d) d) = None"
  by (simp add: get_peek pop_peek)

end

sublocale lru_cache \<subseteq> cached: coherent_cache "certificate_store_cache L" lru_peek
  by unfold_locales (simp_all add: certificate_store_cache_def get_peek get_keeps lru_contains_peek
      put_peek pop_peek)

interpretation uncached: coherent_cache no_cache "\<lambda>_ _. None"
  by unfold_locales (simp_all add: no_cache_def)

text \<open>An LRU cache of bounded capacity, most recently used entries first.\<close>

definition list_lru :: "nat \<Rightarrow> (digest \<times> certificate) list lru_ops" where
  "list_lru n =
     \<lparr>lru_put = (\<lambda>l d x. take n ((d, x) # AList.delete d l)),
      lru_get = (\<lambda>l d. case map_of l d of
          None \<Rightarrow> (None, l) | Some x \<Rightarrow> (Some x, (d, x) # AList.delete d l)),
      lru_contains = (\<lambda>l d. map_of l d \<noteq> None),
      lru_pop = (\<lambda>l d. AList.delete d l)\<rparr>"

lemma map_of_take_SomeD: "map_of (take n l) d = Some x \<Longrightarrow> map_of l d = Some x"
  by (metis append_take_drop_id map_of_append map_add_find_right)

interpretation bounded_lru: lru_cache "list_lru n" map_of for n
proof
  fix l :: "(digest \<times> certificate) list" and d d' x y
  show "fst (lru_get (list_lru n) l d) = map_of l d"
    by (simp add: list_lru_def split: option.split)
  show "map_of (snd (lru_get (list_lru n) l d)) = map_of l"
    by (auto simp: list_lru_def map_of_delete split: option.split)
  show "lru_contains (list_lru n) l d \<longleftrightarrow> map_of l d \<noteq> None" by (simp add: list_lru_def)
  show "map_of (lru_pop (list_lru n) l d) d' = (if d' = d then None else map_of l d')"
    by (simp add: list_lru_def map_of_delete)
  show "d' = d \<and> y = x \<or> d' \<noteq> d \<and> map_of l d' = Some y"
    if "map_of (lru_put (list_lru n) l d x) d' = Some y"
    using map_of_take_SomeD [of n "(d, x) # AList.delete d l" d' y] that
    by (auto simp: list_lru_def map_of_delete split: if_splits)
qed

section \<open>The store's invariant\<close>

definition cs_inv :: "('k \<Rightarrow> digest \<Rightarrow> certificate option) \<Rightarrow> 'k certificate_store \<Rightarrow> bool" where
  "cs_inv peek st \<longleftrightarrow>
     bt_wf (certificates_by_id st) \<and> bt_wf (certificate_id_by_round st)
     \<and> bt_wf (certificate_id_by_origin st)
     \<and> (\<forall>d x. map_of (certificates_by_id st) d = Some x \<longrightarrow> cert_digest x = d)
     \<and> (\<forall>r a d. map_of (certificate_id_by_round st) (r, a) = Some d \<longrightarrow>
          (\<exists>x. map_of (certificates_by_id st) d = Some x \<and> cert_round x = r \<and> cert_origin x = a))
     \<and> (\<forall>d x. peek (cert_cache st) d = Some x \<longrightarrow> map_of (certificates_by_id st) d = Some x)"

text \<open>The two indexes hold the same entries; writing keeps this, deleting does not.\<close>

definition indexes_agree :: "'k certificate_store \<Rightarrow> bool" where
  "indexes_agree st \<longleftrightarrow>
     (\<forall>a r. map_of (certificate_id_by_origin st) (a, r) = map_of (certificate_id_by_round st) (r, a))"

text \<open>No other certificate has the digest of \<open>x\<close>: digests are hashes of headers.\<close>

definition no_collision :: "'k certificate_store \<Rightarrow> certificate \<Rightarrow> bool" where
  "no_collision st x \<longleftrightarrow>
     (\<forall>y. map_of (certificates_by_id st) (cert_digest x) = Some y \<longrightarrow>
        cert_round y = cert_round x \<and> cert_origin y = cert_origin x)"

abbreviation same_tables :: "'k certificate_store \<Rightarrow> 'k certificate_store \<Rightarrow> bool" where
  "same_tables st st' \<equiv> certificates_by_id st' = certificates_by_id st
     \<and> certificate_id_by_round st' = certificate_id_by_round st
     \<and> certificate_id_by_origin st' = certificate_id_by_origin st"

lemma batch_write_one:
  "batch_write st [x] = st
     \<lparr>certificates_by_id := bt_insert (cert_digest x) x (certificates_by_id st),
      certificate_id_by_round :=
        bt_insert (cert_round x, cert_origin x) (cert_digest x) (certificate_id_by_round st),
      certificate_id_by_origin :=
        bt_insert (cert_origin x, cert_round x) (cert_digest x) (certificate_id_by_origin st)\<rparr>"
  by (simp add: batch_write_def)

lemma batch_write_Cons: "batch_write st (x # xs) = batch_write (batch_write st [x]) xs"
  by (simp add: batch_write_def)

lemma cache_batch_write [simp]: "cert_cache (batch_write st xs) = cert_cache st"
  by (simp add: batch_write_def)

lemma batch_write_cache_update:
  "batch_write (st\<lparr>cert_cache := k\<rparr>) xs = (batch_write st xs)\<lparr>cert_cache := k\<rparr>"
  by (simp add: batch_write_def)

lemma cs_inv_new: "(\<And>d. peek k d = None) \<Longrightarrow> cs_inv peek (certificate_store_new k)"
  by (simp add: cs_inv_def certificate_store_new_def)

lemma indexes_agree_new: "indexes_agree (certificate_store_new k)"
  by (simp add: indexes_agree_def certificate_store_new_def)

lemma indexes_agree_batch_write: "indexes_agree st \<Longrightarrow> indexes_agree (batch_write st xs)"
proof (induction xs arbitrary: st)
  case Nil
  then show ?case by (simp add: batch_write_def indexes_agree_def)
next
  case (Cons x xs)
  have "indexes_agree (batch_write st [x])"
    using Cons.prems by (auto simp: indexes_agree_def batch_write_one map_of_bt_insert_apply)
  from Cons.IH [OF this] show ?case by (simp add: batch_write_Cons [of st x xs])
qed

lemma map_of_foldl_delete:
  "map_of (foldl (\<lambda>m k. AList.delete k m) m ks) k = (if k \<in> set ks then None else map_of m k)"
  by (induction ks arbitrary: m) (auto simp: map_of_delete)

lemma bt_wf_foldl_delete: "bt_wf m \<Longrightarrow> bt_wf (foldl (\<lambda>m k. AList.delete k m) m ks)"
  by (induction ks arbitrary: m) auto

lemma map_of_foldl_found:
  "map_of (foldl (\<lambda>m (d, x). case x of Some x \<Rightarrow> AList.update d x m | None \<Rightarrow> m) m
      (map (\<lambda>d. (d, f d)) ds)) d
   = (if d \<in> set ds \<and> f d \<noteq> None then f d else map_of m d)"
  by (induction ds arbitrary: m) (auto simp: map_of_update split: option.split)

lemma foldl_zip_swap:
  "foldl (\<lambda>m (x, d). g m d x) m (zip (map f ds) ds) = foldl (\<lambda>m (d, x). g m d x) m (map (\<lambda>d. (d, f d)) ds)"
  by (induction ds arbitrary: m) auto

lemma foldl_hits:
  assumes "length fd = n" "\<forall>(i, d) \<in> set L. i < n"
  shows "length (foldl (\<lambda>fd ((i, d), hit). if hit then fd[i := True] else fd) fd
      (zip L (map (\<lambda>(i, d). P d) L))) = n"
    and "j < n \<Longrightarrow> foldl (\<lambda>fd ((i, d), hit). if hit then fd[i := True] else fd) fd
      (zip L (map (\<lambda>(i, d). P d) L)) ! j \<longleftrightarrow> fd ! j \<or> (\<exists>d. (j, d) \<in> set L \<and> P d)"
  using assms
  by (induction L arbitrary: fd) (auto simp: nth_list_update split: if_splits)

text \<open>Deleting certificates \<open>ds\<close> and index entries \<open>keys\<close> that cover theirs.\<close>

lemma cs_inv_deleted:
  assumes inv: "cs_inv peek st"
    and keys: "\<And>d x. d \<in> set ds \<Longrightarrow> map_of (certificates_by_id st) d = Some x \<Longrightarrow>
      (cert_round x, cert_origin x) \<in> set keys"
    and cache: "\<And>d. peek k d = (if d \<in> set ds then None else peek (cert_cache st) d)"
  shows "cs_inv peek (st\<lparr>certificate_id_by_round :=
        foldl (\<lambda>m k. AList.delete k m) (certificate_id_by_round st) keys,
      certificates_by_id := foldl (\<lambda>m d. AList.delete d m) (certificates_by_id st) ds,
      cert_cache := k\<rparr>)" (is "cs_inv peek ?st")
proof -
  have ix: "\<exists>y. map_of (certificates_by_id st) d = Some y \<and> cert_round y = r \<and> cert_origin y = a"
    if "map_of (certificate_id_by_round st) (r, a) = Some d" for r a d
    using inv that by (simp add: cs_inv_def)
  have "\<exists>y. map_of (certificates_by_id ?st) d = Some y \<and> cert_round y = r \<and> cert_origin y = a"
    if "map_of (certificate_id_by_round ?st) (r, a) = Some d" for r a d
  proof -
    have old: "(r, a) \<notin> set keys" "map_of (certificate_id_by_round st) (r, a) = Some d"
      using that by (simp_all add: map_of_foldl_delete split: if_splits)
    from ix [OF old(2)] obtain y where y: "map_of (certificates_by_id st) d = Some y"
        "cert_round y = r" "cert_origin y = a" by blast
    then have "d \<notin> set ds" using keys [of d y] old(1) by auto
    with y show ?thesis by (simp add: map_of_foldl_delete)
  qed
  moreover have "map_of (certificates_by_id ?st) d = Some y" if "peek (cert_cache ?st) d = Some y" for d y
    using that inv by (simp add: cache cs_inv_def map_of_foldl_delete split: if_splits)
  moreover have "cert_digest y = d" if "map_of (certificates_by_id ?st) d = Some y" for d y
    using that inv by (simp add: cs_inv_def map_of_foldl_delete split: if_splits)
  moreover have "bt_wf (certificates_by_id ?st)" "bt_wf (certificate_id_by_round ?st)"
      "bt_wf (certificate_id_by_origin ?st)"
    using inv by (simp_all add: cs_inv_def bt_wf_foldl_delete)
  ultimately show ?thesis unfolding cs_inv_def by blast
qed

context coherent_cache
begin

lemma cert_read_db:
  assumes "cs_inv peek st"
  shows "fst (cert_read ops st d) = map_of (certificates_by_id st) d"
    and "same_tables st (snd (cert_read ops st d))"
    and "cs_inv peek (snd (cert_read ops st d))"
  using assms read_peek [of "cert_cache st" d] read_keeps [of "cert_cache st" d]
  by (auto simp: cert_read_def cs_inv_def split_beta Let_def split: option.split)

lemma cert_contains_db:
  assumes "cs_inv peek st"
  shows "cert_contains ops st d \<longleftrightarrow> map_of (certificates_by_id st) d \<noteq> None"
  using assms by (auto simp: cert_contains_def cs_inv_def contains_peek)

lemma cs_inv_write:
  assumes "cs_inv peek st" "no_collision st x"
  shows "cs_inv peek ((batch_write st [x])\<lparr>cert_cache := cache_write ops (cert_cache st) x\<rparr>)"
proof -
  let ?st = "(batch_write st [x])\<lparr>cert_cache := cache_write ops (cert_cache st) x\<rparr>"
  have wf: "bt_wf (certificates_by_id st)" "bt_wf (certificate_id_by_round st)"
      "bt_wf (certificate_id_by_origin st)"
    and key: "\<And>d y. map_of (certificates_by_id st) d = Some y \<Longrightarrow> cert_digest y = d"
    and ix: "\<And>r a d. map_of (certificate_id_by_round st) (r, a) = Some d \<Longrightarrow>
      \<exists>y. map_of (certificates_by_id st) d = Some y \<and> cert_round y = r \<and> cert_origin y = a"
    and co: "\<And>d y. peek (cert_cache st) d = Some y \<Longrightarrow> map_of (certificates_by_id st) d = Some y"
    using assms(1) by (auto simp: cs_inv_def)
  have by_id: "map_of (certificates_by_id ?st) d
      = (if d = cert_digest x then Some x else map_of (certificates_by_id st) d)" for d
    by (simp add: batch_write_one map_of_bt_insert_apply)
  have by_round: "map_of (certificate_id_by_round ?st) (r, a)
      = (if (r, a) = (cert_round x, cert_origin x) then Some (cert_digest x)
         else map_of (certificate_id_by_round st) (r, a))" for r a
    by (simp add: batch_write_one map_of_bt_insert_apply)
  have "\<exists>y. map_of (certificates_by_id ?st) d = Some y \<and> cert_round y = r \<and> cert_origin y = a"
    if "map_of (certificate_id_by_round ?st) (r, a) = Some d" for r a d
  proof (cases "(r, a) = (cert_round x, cert_origin x)")
    case False
    then have "map_of (certificate_id_by_round st) (r, a) = Some d"
      using that unfolding by_round by (simp only: if_False)
    from ix [OF this] obtain y where y: "map_of (certificates_by_id st) d = Some y"
        "cert_round y = r" "cert_origin y = a" by blast
    moreover have "d \<noteq> cert_digest x" using y assms(2) False by (auto simp: no_collision_def)
    ultimately show ?thesis using by_id by simp
  qed (use that by_round by_id in auto)
  moreover have "map_of (certificates_by_id ?st) d = Some y"
    if "peek (cert_cache ?st) d = Some y" for d y
    using write_peek [of "cert_cache st" x d y] that by_id co by auto
  moreover have "cert_digest y = d" if "map_of (certificates_by_id ?st) d = Some y" for d y
    using that key by_id by (simp split: if_splits)
  moreover have "bt_wf (certificates_by_id ?st)" "bt_wf (certificate_id_by_round ?st)"
      "bt_wf (certificate_id_by_origin ?st)"
    using wf by (simp_all add: batch_write_one)
  ultimately show ?thesis unfolding cs_inv_def by blast
qed

lemma cs_inv_write_all:
  assumes "cs_inv peek st" "\<And>x. x \<in> set xs \<Longrightarrow> no_collision st x"
    and "\<And>x y. x \<in> set xs \<Longrightarrow> y \<in> set xs \<Longrightarrow> cert_digest x = cert_digest y \<Longrightarrow>
      cert_round x = cert_round y \<and> cert_origin x = cert_origin y"
  shows "cs_inv peek ((batch_write st xs)\<lparr>cert_cache := cache_write_all ops (cert_cache st) xs\<rparr>)"
  using assms
proof (induction xs arbitrary: st)
  case Nil
  then show ?case by (simp add: batch_write_def cache_write_all_def)
next
  case (Cons x xs)
  let ?st = "(batch_write st [x])\<lparr>cert_cache := cache_write ops (cert_cache st) x\<rparr>"
  have 1: "cs_inv peek ?st" using Cons.prems(1,2) by (intro cs_inv_write) simp_all
  have 2: "no_collision ?st y" if "y \<in> set xs" for y
    using Cons.prems(2) [of y] Cons.prems(3) [of x y] that
    by (auto simp: no_collision_def batch_write_one map_of_bt_insert_apply)
  from Cons.IH [OF 1 2] Cons.prems(3) show ?case
    by (simp add: batch_write_cache_update batch_write_Cons [of st x xs] cache_write_all_def)
qed

lemma read_all_db:
  assumes "cs_inv peek st"
  shows "fst (read_all ops st ds) = map (map_of (certificates_by_id st)) ds"
    and "same_tables st (snd (read_all ops st ds))"
    and "cs_inv peek (snd (read_all ops st ds))"
proof -
  let ?k = "cert_cache st" and ?db = "map_of (certificates_by_id st)"
  obtain cached k where c: "cache_read_all ops ?k ds = (cached, k)" by (cases "cache_read_all ops ?k ds")
  have cached: "cached = map (\<lambda>d. (d, peek ?k d)) ds" and k: "peek k = peek ?k"
    using read_all_peek [of ?k ds] c by simp_all
  have missing: "map fst (filter (\<lambda>(d, x). x = None) cached) = filter (\<lambda>d. peek ?k d = None) ds"
    unfolding cached by (induction ds) auto
  have co: "?db d = Some x" if "peek ?k d = Some x" for d x
    using assms that by (simp add: cs_inv_def)
  define m where "m = foldl (\<lambda>m (d, x). case x of Some x \<Rightarrow> AList.update d x m | None \<Rightarrow> m) [] cached"
  have m: "map_of m d = (if d \<in> set ds then peek ?k d else None)" for d
    unfolding m_def cached map_of_foldl_found by simp
  have "map_of (foldl (\<lambda>m (d, x). case x of Some x \<Rightarrow> AList.update d x m | None \<Rightarrow> m) m
      (map (\<lambda>d. (d, ?db d)) (filter (\<lambda>d. peek ?k d = None) ds))) d = ?db d" if "d \<in> set ds" for d
    unfolding map_of_foldl_found using that m co [of d] by (cases "peek ?k d") auto
  then show "fst (read_all ops st ds) = map ?db ds"
    by (simp only: read_all_def c m_def [symmetric] missing Let_def prod.case fst_conv
        foldl_zip_swap [of "\<lambda>m d x. case x of Some x \<Rightarrow> AList.update d x m | None \<Rightarrow> m"] map_eq_conv)
      blast
  show "same_tables st (snd (read_all ops st ds))" by (simp add: read_all_def c Let_def)
  show "cs_inv peek (snd (read_all ops st ds))"
    using assms k by (simp add: read_all_def c Let_def cs_inv_def)
qed

lemma multi_contains_db:
  assumes "cs_inv peek st"
  shows "multi_contains ops st ds = map (cert_contains ops st) ds"
proof -
  let ?fd = "cache_multi_contains ops (cert_cache st) ds"
  let ?P = "\<lambda>d. map_of (certificates_by_id st) d \<noteq> None"
  define L where "L = filter (\<lambda>(i, d). \<not> ?fd ! i) (zip [0..<length ds] ds)"
  have eq: "multi_contains ops st ds = foldl (\<lambda>fd ((i, d), hit). if hit then fd[i := True] else fd) ?fd
      (zip L (map (\<lambda>(i, d). ?P d) L))"
    by (simp only: multi_contains_def L_def Let_def)
  have len: "length ?fd = length ds" by (simp add: cache_multi_contains_def)
  have L: "\<forall>(i, d) \<in> set L. i < length ds" by (auto simp: L_def set_zip)
  have mem: "(j, d) \<in> set L \<longleftrightarrow> \<not> ?fd ! j \<and> d = ds ! j" if "j < length ds" for j d
    using that by (force simp: L_def set_zip)
  show ?thesis
  proof (rule nth_equalityI)
    show "length (multi_contains ops st ds) = length (map (cert_contains ops st) ds)"
      unfolding eq foldl_hits(1) [OF len L, of ?P] by simp
    fix j
    assume "j < length (multi_contains ops st ds)"
    then have j: "j < length ds"
      unfolding eq foldl_hits(1) [OF len L, of ?P] by simp
    have "multi_contains ops st ds ! j \<longleftrightarrow> ?fd ! j \<or> (\<exists>d. (j, d) \<in> set L \<and> ?P d)"
      unfolding eq by (rule foldl_hits(2) [OF len L j, of ?P])
    also have "\<dots> \<longleftrightarrow> cert_contains ops st (ds ! j)"
      using j by (auto simp: mem cache_multi_contains_def cert_contains_def)
    finally show "multi_contains ops st ds ! j = map (cert_contains ops st) ds ! j" using j by simp
  qed
qed

lemma cert_write_db:
  assumes "cs_inv peek st" "no_collision st x"
  shows "cs_inv peek (snd (cert_write ops True st x))"
    and "map_of (certificates_by_id (snd (cert_write ops True st x)))
      = (map_of (certificates_by_id st))(cert_digest x \<mapsto> x)"
    and "map_of (certificate_id_by_origin (snd (cert_write ops True st x)))
      = (map_of (certificate_id_by_origin st))((cert_origin x, cert_round x) \<mapsto> cert_digest x)"
  using cs_inv_write [OF assms] by (simp_all add: cert_write_def Let_def batch_write_one map_of_bt_insert)

lemma cert_delete_db:
  assumes "cs_inv peek st"
  shows "cs_inv peek (snd (cert_delete ops True st d))"
    and "fst (cert_delete ops True st d) = Inr ()"
    and "map_of (certificates_by_id (snd (cert_delete ops True st d)))
      = (map_of (certificates_by_id st))(d := None)"
    and "certificate_id_by_origin (snd (cert_delete ops True st d)) = certificate_id_by_origin st"
proof -
  obtain x st1 where r: "cert_read ops st d = (x, st1)" by (cases "cert_read ops st d")
  have x: "x = map_of (certificates_by_id st) d" and same: "same_tables st st1"
      and inv: "cs_inv peek st1"
    using cert_read_db [OF assms, of d] r by auto
  show "cs_inv peek (snd (cert_delete ops True st d))"
  proof (cases x)
    case (Some y)
    have "cs_inv peek (st1\<lparr>certificate_id_by_round :=
        foldl (\<lambda>m k. AList.delete k m) (certificate_id_by_round st1) [(cert_round y, cert_origin y)],
      certificates_by_id := foldl (\<lambda>m d. AList.delete d m) (certificates_by_id st1) [d],
      cert_cache := cache_remove ops (cert_cache st1) d\<rparr>)"
      by (rule cs_inv_deleted [OF inv]) (use x same Some remove_peek in auto)
    moreover have "st1\<lparr>certificate_id_by_round :=
          AList.delete (cert_round y, cert_origin y) (certificate_id_by_round st1),
        certificates_by_id := AList.delete d (certificates_by_id st1),
        cert_cache := cache_remove ops (cert_cache st1) d\<rparr> = snd (cert_delete ops True st d)"
      using r Some by (simp add: cert_delete_def)
    ultimately show ?thesis by simp
  qed (use r inv in \<open>simp add: cert_delete_def\<close>)
  show "fst (cert_delete ops True st d) = Inr ()"
    and "map_of (certificates_by_id (snd (cert_delete ops True st d)))
      = (map_of (certificates_by_id st))(d := None)"
    and "certificate_id_by_origin (snd (cert_delete ops True st d)) = certificate_id_by_origin st"
    using r x same by (auto simp: cert_delete_def map_of_delete split: option.split)
qed

lemma delete_all_db:
  assumes "cs_inv peek st"
  shows "cs_inv peek (snd (delete_all ops True st ds))"
    and "fst (delete_all ops True st ds) = Inr ()"
    and "map_of (certificates_by_id (snd (delete_all ops True st ds))) d
      = (if d \<in> set ds then None else map_of (certificates_by_id st) d)"
proof -
  let ?db = "map_of (certificates_by_id st)"
  obtain xs st1 where r: "read_all ops st ds = (xs, st1)" by (cases "read_all ops st ds")
  have xs: "xs = map ?db ds" and same: "same_tables st st1" and inv: "cs_inv peek st1"
    using read_all_db [OF assms, of ds] r by auto
  define keys where "keys = map (\<lambda>x. (cert_round x, cert_origin x)) (List.map_filter id xs)"
  have covered: "(cert_round y, cert_origin y) \<in> set keys" if "e \<in> set ds" "?db e = Some y" for e y
  proof -
    have "y \<in> set (List.map_filter id xs)" using that unfolding xs by (force simp: List.map_filter_def)
    then show ?thesis by (simp add: keys_def)
  qed
  have empty: "?db e = None" if "List.map_filter id xs = []" "e \<in> set ds" for e
    using covered that by (cases "?db e") (auto simp: keys_def)
  have "cs_inv peek (st1\<lparr>certificate_id_by_round :=
        foldl (\<lambda>m k. AList.delete k m) (certificate_id_by_round st1) keys,
      certificates_by_id := foldl (\<lambda>m d. AList.delete d m) (certificates_by_id st1) ds,
      cert_cache := cache_remove_all ops (cert_cache st1) ds\<rparr>)"
    by (rule cs_inv_deleted [OF inv]) (use covered same remove_all_peek in auto)
  then show "cs_inv peek (snd (delete_all ops True st ds))"
    using inv by (simp add: delete_all_def r keys_def)
  show "fst (delete_all ops True st ds) = Inr ()" by (simp add: delete_all_def r)
  show "map_of (certificates_by_id (snd (delete_all ops True st ds))) d
      = (if d \<in> set ds then None else ?db d)"
    using same empty [of d] by (auto simp: delete_all_def r map_of_foldl_delete Let_def)
qed

end

section \<open>Ordered lookups\<close>

lemma filter_dropWhile: "(\<And>x. Q x \<Longrightarrow> \<not> P x) \<Longrightarrow> filter P (dropWhile Q xs) = filter P xs"
  by (induction xs) auto

lemma takeWhile_le_filter:
  "bt_wf m \<Longrightarrow> takeWhile (\<lambda>(k', _). k' \<le> k) m = filter (\<lambda>(k', _). k' \<le> k) m"
proof (induction m)
  case (Cons a m)
  then have "filter (\<lambda>x. fst x \<le> k) m = []" if "\<not> fst a \<le> k"
    using that by (force simp: filter_empty_conv)
  with Cons show ?case by (auto simp: split_beta)
qed simp

lemma dropWhile_less_filter:
  "bt_wf m \<Longrightarrow> dropWhile (\<lambda>(k', _). k' < k) m = filter (\<lambda>(k', _). k \<le> k') m"
proof (induction m)
  case (Cons a m)
  then have "filter (\<lambda>x. k \<le> fst x) m = m" if "\<not> fst a < k"
    using that by (force intro!: filter_True)
  with Cons show ?case by (auto simp: split_beta)
qed simp

lemma bt_wf_last_max: "bt_wf m \<Longrightarrow> x \<in> set m \<Longrightarrow> fst x \<le> fst (last m)"
proof (induction m)
  case (Cons a m)
  then show ?case using last_in_set [of m] by (cases "m = []") (auto simp: less_imp_le)
qed simp

lemma bt_wf_hd_min: "bt_wf (y # m) \<Longrightarrow> x \<in> set (y # m) \<Longrightarrow> fst y \<le> fst x"
  by auto

lemma prior_to_None: "bt_wf m \<Longrightarrow> prior_to k m = None \<longleftrightarrow> (\<forall>x \<in> set m. \<not> fst x \<le> k)"
  by (auto simp: prior_to_def takeWhile_le_filter filter_empty_conv split_beta Let_def)

lemma prior_to_Some:
  assumes "bt_wf m" "prior_to k m = Some x"
  shows "x \<in> set m" "fst x \<le> k" "\<And>y. y \<in> set m \<Longrightarrow> fst y \<le> k \<Longrightarrow> fst y \<le> fst x"
proof -
  let ?b = "filter (\<lambda>(k', _). k' \<le> k) m"
  have b: "?b \<noteq> []" "x = last ?b"
    using assms by (auto simp: prior_to_def takeWhile_le_filter Let_def split: if_splits)
  then have "x \<in> set ?b" using last_in_set by blast
  then show "x \<in> set m" "fst x \<le> k" by (auto simp: split_beta)
  have "bt_wf ?b" using assms(1) by (rule bt_wf_filter)
  then show "fst y \<le> fst x" if "y \<in> set m" "fst y \<le> k" for y
    using bt_wf_last_max [of ?b y] that b(2) by (auto simp: split_beta)
qed

section \<open>Properties\<close>

text \<open>C27: With any coherent cache in front of it, a successful write of a certificate makes it
  the answer for its digest and for its origin and round, leaves every other digest's answer
  unchanged, and keeps the store's invariant: the index by round only names stored
  certificates of that round and origin, and the cache only holds stored certificates.\<close>

theorem cert_write_read:
  assumes "coherent_cache ops peek" "cs_inv peek st" "no_collision st x"
    and "cert_write ops True st x = (r, st')"
  shows "r = Inr () \<and> cs_inv peek st'
    \<and> fst (cert_read ops st' d) = (if d = cert_digest x then Some x else fst (cert_read ops st d))
    \<and> (cert_contains ops st' d \<longleftrightarrow> d = cert_digest x \<or> cert_contains ops st d)
    \<and> fst (read_by_index ops st' (cert_origin x) (cert_round x)) = Some x
    \<and> (indexes_agree st \<longrightarrow> indexes_agree st')"
proof -
  note db = coherent_cache.cert_write_db [OF assms(1-3)]
  have st': "st' = snd (cert_write ops True st x)" and r: "r = Inr ()"
    using assms(4) by (auto simp: cert_write_def)
  note inv' = db(1) [folded st']
  have "indexes_agree st'" if "indexes_agree st"
    using indexes_agree_batch_write [OF that, of "[x]"] st'
    by (simp add: cert_write_def Let_def indexes_agree_def)
  then show ?thesis
    using db(2,3) inv' r coherent_cache.cert_read_db(1) [OF assms(1,2)]
      coherent_cache.cert_read_db(1) [OF assms(1) inv']
      coherent_cache.cert_contains_db [OF assms(1,2)]
      coherent_cache.cert_contains_db [OF assms(1) inv']
    unfolding st' [symmetric] by (simp add: read_by_index_def)
qed

abbreviation example_lru :: "(digest \<times> certificate) list cache_ops" where
  "example_lru \<equiv> certificate_store_cache (list_lru 2)"

lemma example_lru_coherent: "coherent_cache example_lru map_of"
  by (rule bounded_lru.cached.coherent_cache_axioms)

lemma example_cert_fields [simp]:
  "cert_round (example_certificate r a p s) = r" "cert_origin (example_certificate r a p s) = a"
  "cert_digest (example_certificate r a p s) = 100 * r + a"
  by (simp_all add: example_certificate_simps)

theorem cert_write_read_witness:
  "fst (cert_read example_lru
      (snd (cert_write example_lru True (certificate_store_new []) (example_certificate 3 1 [] []))) 301)
    = Some (example_certificate 3 1 [] [])"
  using cert_write_read [OF example_lru_coherent cs_inv_new, of "[]" "example_certificate 3 1 [] []"
      _ _ 301]
  by (auto simp: no_collision_def certificate_store_new_def cert_write_def)

text \<open>The bulk operations agree with the single ones: \<open>read_all\<close> and \<open>multi_contains\<close>
  answer for each digest what \<open>read\<close> and \<open>contains\<close> would, with or without the cache, and
  \<open>delete_all\<close> removes exactly the given digests; all keep the store's invariant.\<close>

theorem bulk_operations_agree:
  assumes "coherent_cache ops peek" "cs_inv peek st"
  shows "fst (read_all ops st ds) = map (\<lambda>d. fst (cert_read ops st d)) ds
    \<and> multi_contains ops st ds = map (cert_contains ops st) ds
    \<and> cs_inv peek (snd (read_all ops st ds))
    \<and> cs_inv peek (snd (delete_all ops True st ds))
    \<and> (\<forall>d. fst (cert_read ops (snd (delete_all ops True st ds)) d)
        = (if d \<in> set ds then None else fst (cert_read ops st d)))"
  using coherent_cache.read_all_db [OF assms] coherent_cache.multi_contains_db [OF assms]
    coherent_cache.cert_read_db(1) [OF assms] coherent_cache.delete_all_db [OF assms]
    coherent_cache.cert_read_db(1) [OF assms(1) coherent_cache.delete_all_db(1) [OF assms]]
  by simp

theorem bulk_operations_agree_witness:
  "fst (read_all example_lru
      (snd (cert_write example_lru True (certificate_store_new []) (example_certificate 3 1 [] []))) [7, 301])
    = [None, Some (example_certificate 3 1 [] [])]"
proof -
  let ?st = "snd (cert_write example_lru True (certificate_store_new []) (example_certificate 3 1 [] []))"
  have inv: "cs_inv map_of ?st"
    by (rule coherent_cache.cert_write_db(1) [OF example_lru_coherent cs_inv_new])
      (simp_all add: no_collision_def certificate_store_new_def)
  have "fst (cert_read example_lru ?st d) = (if d = 301 then Some (example_certificate 3 1 [] []) else None)" for d
    unfolding coherent_cache.cert_read_db(1) [OF example_lru_coherent inv]
    by (simp add: cert_write_def batch_write_one certificate_store_new_def)
  with bulk_operations_agree [OF example_lru_coherent inv, of "[7, 301]"] show ?thesis by simp
qed

lemma cs_inv_wf:
  assumes "cs_inv peek st"
  shows "bt_wf (certificates_by_id st)" "bt_wf (certificate_id_by_round st)"
    "bt_wf (certificate_id_by_origin st)"
  using assms by (simp_all add: cs_inv_def)

lemma cs_inv_index:
  assumes "cs_inv peek st" "map_of (certificate_id_by_round st) (r, a) = Some d"
  obtains x where "map_of (certificates_by_id st) d = Some x" "cert_digest x = d"
    "cert_round x = r" "cert_origin x = a"
  using assms that unfolding cs_inv_def by blast

lemma iter_from_round_filter:
  "filter (\<lambda>((r', _), _). r \<le> r') (iter_from_round r m) = filter (\<lambda>((r', _), _). r \<le> r') m"
  unfolding iter_from_round_def skip_to_def
  by (auto simp: less_prod_def intro!: filter_dropWhile)

lemma after_round_eq:
  assumes "cs_inv peek st"
  shows "\<exists>xs. after_round st r = Inr xs
    \<and> map (\<lambda>x. (cert_round x, cert_origin x)) xs
      = map fst (filter (\<lambda>((r', _), _). r \<le> r') (certificate_id_by_round st))
    \<and> (\<forall>x \<in> set xs. map_of (certificate_id_by_round st) (cert_round x, cert_origin x)
          = Some (cert_digest x)
        \<and> map_of (certificates_by_id st) (cert_digest x) = Some x)"
proof -
  let ?F = "filter (\<lambda>((r', _), _). r \<le> r') (certificate_id_by_round st)"
  let ?g = "\<lambda>e. the (map_of (certificates_by_id st) (snd e))"
  have entry: "\<exists>x. map_of (certificates_by_id st) (snd e) = Some x \<and> cert_digest x = snd e
      \<and> (cert_round x, cert_origin x) = fst e
      \<and> map_of (certificate_id_by_round st) (fst e) = Some (snd e)" if "e \<in> set ?F" for e
  proof -
    obtain r' a d where e: "e = ((r', a), d)" by (metis prod.collapse)
    have "((r', a), d) \<in> set (certificate_id_by_round st)" using that e by simp
    with bt_wf_distinct [OF cs_inv_wf(2) [OF assms]]
    have ix: "map_of (certificate_id_by_round st) (r', a) = Some d" by (rule map_of_is_SomeI)
    from cs_inv_index [OF assms ix] obtain x where "map_of (certificates_by_id st) d = Some x"
      "cert_digest x = d" "cert_round x = r'" "cert_origin x = a" .
    then show ?thesis using e ix by simp
  qed
  have "those (map (map_of (certificates_by_id st)) (map snd ?F)) = Some (map ?g ?F)"
    unfolding map_map comp_def by (rule those_eq_map) (use entry in fastforce)
  then have "after_round st r = Inr (map ?g ?F)"
    by (simp add: after_round_def iter_from_round_filter)
  moreover have "map (\<lambda>x. (cert_round x, cert_origin x)) (map ?g ?F) = map fst ?F"
    unfolding map_map comp_def by (rule map_cong [OF refl]) (use entry in fastforce)
  moreover have "map_of (certificate_id_by_round st) (cert_round x, cert_origin x)
          = Some (cert_digest x) \<and> map_of (certificates_by_id st) (cert_digest x) = Some x"
    if x: "x \<in> set (map ?g ?F)" for x
  proof -
    obtain e where e: "e \<in> set ?F" "x = ?g e" using x unfolding set_map by blast
    with entry [OF e(1)] show ?thesis by auto
  qed
  ultimately show ?thesis by blast
qed

lemma after_round_spec:
  assumes "cs_inv peek st"
  shows "\<exists>xs. after_round st r = Inr xs
    \<and> sorted_wrt (<) (map (\<lambda>x. (cert_round x, cert_origin x)) xs)
    \<and> (\<forall>x. x \<in> set xs \<longleftrightarrow> r \<le> cert_round x
        \<and> map_of (certificate_id_by_round st) (cert_round x, cert_origin x) = Some (cert_digest x)
        \<and> map_of (certificates_by_id st) (cert_digest x) = Some x)"
proof -
  obtain xs where xs: "after_round st r = Inr xs"
      "map (\<lambda>x. (cert_round x, cert_origin x)) xs
        = map fst (filter (\<lambda>((r', _), _). r \<le> r') (certificate_id_by_round st))"
      "\<And>x. x \<in> set xs \<Longrightarrow> map_of (certificate_id_by_round st) (cert_round x, cert_origin x)
          = Some (cert_digest x) \<and> map_of (certificates_by_id st) (cert_digest x) = Some x"
    using after_round_eq [OF assms, of r] by blast
  let ?F = "filter (\<lambda>((r', _), _). r \<le> r') (certificate_id_by_round st)"
  have "bt_wf ?F" using assms by (intro bt_wf_filter) (simp add: cs_inv_def)
  moreover have "r \<le> cert_round x" if "x \<in> set xs" for x
  proof -
    have "(cert_round x, cert_origin x) \<in> set (map fst ?F)" unfolding xs(2) [symmetric] using that by auto
    then show ?thesis by auto
  qed
  moreover have "x \<in> set xs" if x: "r \<le> cert_round x"
      "map_of (certificate_id_by_round st) (cert_round x, cert_origin x) = Some (cert_digest x)"
      "map_of (certificates_by_id st) (cert_digest x) = Some x" for x
  proof -
    have "((cert_round x, cert_origin x), cert_digest x) \<in> set ?F"
      using x(1,2) by (auto dest: map_of_SomeD)
    then have "(cert_round x, cert_origin x) \<in> set (map (\<lambda>x. (cert_round x, cert_origin x)) xs)"
      unfolding xs(2) by force
    then obtain y where y: "y \<in> set xs" "cert_round y = cert_round x" "cert_origin y = cert_origin x"
      by auto
    have "Some (cert_digest y) = Some (cert_digest x)"
      using xs(3) [OF y(1)] x(2) unfolding y(2,3) by simp
    then have "map_of (certificates_by_id st) (cert_digest x) = Some y"
      using xs(3) [OF y(1)] by (simp only: option.inject)
    with x(3) y(1) show ?thesis by (simp only: option.inject)
  qed
  ultimately show ?thesis using xs by (intro exI [of _ xs]) auto
qed

text \<open>\<open>after_round\<close> never reports a missing certificate, and returns exactly the indexed
  certificates of the given round and later ones, in the order of their rounds and, within a
  round, of their origins.\<close>

theorem after_round_correct:
  assumes "cs_inv peek st"
  shows "\<exists>xs. after_round st r = Inr xs
    \<and> sorted_wrt (<) (map (\<lambda>x. (cert_round x, cert_origin x)) xs)
    \<and> (\<forall>x. x \<in> set xs \<longleftrightarrow> r \<le> cert_round x
        \<and> map_of (certificate_id_by_round st) (cert_round x, cert_origin x) = Some (cert_digest x)
        \<and> map_of (certificates_by_id st) (cert_digest x) = Some x)"
  using assms by (rule after_round_spec)

theorem after_round_correct_witness:
  "\<exists>xs. after_round (snd (cert_write example_lru True
        (snd (cert_write example_lru True (certificate_store_new []) (example_certificate 3 1 [] [])))
        (example_certificate 2 0 [] []))) 3 = Inr xs
    \<and> set xs = {example_certificate 3 1 [] []}"
proof -
  let ?a = "example_certificate 3 1 [] []" and ?b = "example_certificate 2 0 [] []"
  let ?st1 = "snd (cert_write example_lru True (certificate_store_new []) ?a)"
  let ?st = "snd (cert_write example_lru True ?st1 ?b)"
  have "cs_inv map_of ?st1"
    by (rule coherent_cache.cert_write_db(1) [OF example_lru_coherent cs_inv_new])
      (simp_all add: no_collision_def certificate_store_new_def)
  then have inv: "cs_inv map_of ?st"
    by (rule coherent_cache.cert_write_db(1) [OF example_lru_coherent])
      (simp add: no_collision_def certificate_store_new_def cert_write_def batch_write_one)
  have tables: "certificates_by_id ?st = [(200, ?b), (301, ?a)]"
      "certificate_id_by_round ?st = [((2, 0), 200), ((3, 1), 301)]"
    by (simp_all add: certificate_store_new_def cert_write_def batch_write_one)
  obtain xs where xs: "after_round ?st 3 = Inr xs"
      "\<And>x. x \<in> set xs \<longleftrightarrow> 3 \<le> cert_round x
        \<and> map_of (certificate_id_by_round ?st) (cert_round x, cert_origin x) = Some (cert_digest x)
        \<and> map_of (certificates_by_id ?st) (cert_digest x) = Some x"
    using after_round_correct [OF inv, of 3] by blast
  have "x \<in> set xs \<longleftrightarrow> x = ?a" for x
    unfolding xs(2) tables by (auto split: if_splits)
  with xs(1) show ?thesis by auto
qed

lemma map_of_Some_mem:
  "bt_wf m \<Longrightarrow> map_of m k \<noteq> None \<longleftrightarrow> (\<exists>v. (k, v) \<in> set m)"
  using map_of_mem_iff [OF bt_wf_distinct] by fastforce

text \<open>The rounds for which an authority has an entry in the index by origin.\<close>

definition rounds_of :: "'k certificate_store \<Rightarrow> authority_identifier \<Rightarrow> round set" where
  "rounds_of st a = {r. map_of (certificate_id_by_origin st) (a, r) \<noteq> None}"

lemma last_round_number_spec:
  assumes wf: "bt_wf (certificate_id_by_origin st)" and "\<And>r. r \<in> rounds_of st a \<Longrightarrow> r < u64_size"
  shows "case last_round_number st a of
    None \<Rightarrow> rounds_of st a = {}
  | Some r \<Rightarrow> r \<in> rounds_of st a \<and> (\<forall>r' \<in> rounds_of st a. r' \<le> r)"
proof -
  let ?m = "certificate_id_by_origin st"
  have below: "\<exists>v. ((a, r), v) \<in> set ?m \<and> (a, r) \<le> (a, u64_size - 1)" if "r \<in> rounds_of st a" for r
    using that assms(2) [OF that] map_of_Some_mem [OF wf] by (auto simp: rounds_of_def)
  show ?thesis
  proof (cases "prior_to (a, u64_size - 1) ?m")
    case None
    then show ?thesis
      using below prior_to_None [OF wf, of "(a, u64_size - 1)"]
      by (fastforce simp: last_round_number_def)
  next
    case (Some e)
    obtain name r d where e: "e = ((name, r), d)" by (metis prod.collapse)
    note p = prior_to_Some [OF wf Some]
    have max: "(a, r') \<le> (name, r)" if "r' \<in> rounds_of st a" for r'
      using below [OF that] p(3) e by fastforce
    have "r \<in> rounds_of st name"
      using p(1) e map_of_Some_mem [OF wf] by (auto simp: rounds_of_def)
    then show ?thesis
      using Some e max p(2) by (fastforce simp: last_round_number_def less_eq_prod_def)
  qed
qed

lemma next_round_number_spec:
  assumes wf: "bt_wf (certificate_id_by_origin st)"
  shows "case next_round_number st a r of
    None \<Rightarrow> (\<forall>r' \<in> rounds_of st a. r' \<le> r)
  | Some n \<Rightarrow> n \<in> rounds_of st a \<and> r < n \<and> (\<forall>r' \<in> rounds_of st a. r < r' \<longrightarrow> n \<le> r')"
proof -
  let ?m = "certificate_id_by_origin st"
  define F where "F = filter (\<lambda>(k', _). (a, r + 1) \<le> k') ?m"
  have skip: "skip_to (a, r + 1) ?m = F"
    unfolding skip_to_def F_def by (rule dropWhile_less_filter [OF wf])
  have mem: "\<exists>v. ((a, r'), v) \<in> set F" if "r' \<in> rounds_of st a" "r < r'" for r'
    using that map_of_Some_mem [OF wf] by (auto simp: rounds_of_def F_def)
  show ?thesis
  proof (cases F)
    case Nil
    then show ?thesis using mem skip by (auto simp: next_round_number_def not_less [symmetric])
  next
    case (Cons e F')
    obtain name n d where e: "e = ((name, n), d)" by (metis prod.collapse)
    have "bt_wf (e # F')" using bt_wf_filter [OF wf] unfolding Cons [symmetric] F_def .
    then have min: "(name, n) \<le> (a, r')" if "r' \<in> rounds_of st a" "r < r'" for r'
      using mem [OF that] bt_wf_hd_min [of e F'] Cons e by fastforce
    have "e \<in> set F" using Cons by simp
    then have "(a, r + 1) \<le> (name, n)" "n \<in> rounds_of st name"
      using e map_of_Some_mem [OF wf] by (auto simp: F_def rounds_of_def)
    then show ?thesis
      using Cons e min skip
      by (fastforce simp: next_round_number_def less_eq_prod_def not_less [symmetric])
  qed
qed

text \<open>\<open>last_round_number\<close> is the highest round with a certificate of the given origin in
  the index, and \<open>next_round_number\<close> the lowest one above the given round; each is none
  exactly when there is no such round.\<close>

theorem round_numbers_correct:
  assumes "cs_inv peek st" "\<forall>r \<in> rounds_of st a. r < u64_size"
  shows "(case last_round_number st a of
      None \<Rightarrow> rounds_of st a = {}
    | Some r \<Rightarrow> r \<in> rounds_of st a \<and> (\<forall>r' \<in> rounds_of st a. r' \<le> r))
    \<and> (case next_round_number st a r of
      None \<Rightarrow> (\<forall>r' \<in> rounds_of st a. r' \<le> r)
    | Some n \<Rightarrow> n \<in> rounds_of st a \<and> r < n \<and> (\<forall>r' \<in> rounds_of st a. r < r' \<longrightarrow> n \<le> r'))"
  using last_round_number_spec [OF cs_inv_wf(3) [OF assms(1)]]
    next_round_number_spec [OF cs_inv_wf(3) [OF assms(1)]] assms(2) by blast

lemma rounds_of_example:
  "rounds_of (snd (cert_write example_lru True (certificate_store_new []) (example_certificate 3 1 [] []))) 1
    = {3}"
  by (simp add: rounds_of_def cert_write_def batch_write_one certificate_store_new_def)

lemma cs_inv_example:
  "cs_inv map_of
    (snd (cert_write example_lru True (certificate_store_new []) (example_certificate 3 1 [] [])))"
  by (rule coherent_cache.cert_write_db(1) [OF example_lru_coherent cs_inv_new])
    (simp_all add: no_collision_def certificate_store_new_def)

theorem round_numbers_correct_witness:
  "last_round_number
      (snd (cert_write example_lru True (certificate_store_new []) (example_certificate 3 1 [] []))) 1
    = Some 3"
  using round_numbers_correct [OF cs_inv_example, of 1 0]
  unfolding rounds_of_example by (simp add: u64_size_def split: option.splits)

text \<open>C28: Deleting a certificate removes it for every reader by digest and keeps the invariant,
  but it leaves the index by origin untouched: the certificate's origin still reports its
  round as indexed, while reading by that origin and round finds nothing.\<close>

theorem cert_delete_leaves_origin_index:
  assumes "coherent_cache ops peek" "cs_inv peek st" "indexes_agree st"
    and "fst (cert_read ops st d) = Some x"
    and "map_of (certificate_id_by_origin st) (cert_origin x, cert_round x) = Some d"
    and "cert_delete ops True st d = (r, st')"
  shows "r = Inr () \<and> cs_inv peek st'
    \<and> fst (cert_read ops st' e) = (if e = d then None else fst (cert_read ops st e))
    \<and> rounds_of st' a = rounds_of st a \<and> cert_round x \<in> rounds_of st' (cert_origin x)
    \<and> last_round_number st' a = last_round_number st a
    \<and> fst (read_by_index ops st' (cert_origin x) (cert_round x)) = None"
proof -
  have st': "st' = snd (cert_delete ops True st d)" and r: "r = fst (cert_delete ops True st d)"
    using assms(6) by simp_all
  note db = coherent_cache.cert_delete_db [OF assms(1,2), of d, folded st' r]
  show ?thesis
    using db coherent_cache.cert_read_db(1) [OF assms(1,2)]
      coherent_cache.cert_read_db(1) [OF assms(1) db(1)] assms(5)
    by (auto simp: rounds_of_def last_round_number_def read_by_index_def)
qed

theorem cert_delete_leaves_origin_index_witness:
  "last_round_number (snd (cert_delete example_lru True
      (snd (cert_write example_lru True (certificate_store_new []) (example_certificate 3 1 [] []))) 301)) 1
    = last_round_number
      (snd (cert_write example_lru True (certificate_store_new []) (example_certificate 3 1 [] []))) 1"
proof -
  let ?st = "snd (cert_write example_lru True (certificate_store_new []) (example_certificate 3 1 [] []))"
  have "indexes_agree ?st"
    using indexes_agree_batch_write [OF indexes_agree_new, of "[]" "[example_certificate 3 1 [] []]"]
    by (simp add: cert_write_def indexes_agree_def)
  moreover have "fst (cert_read example_lru ?st 301) = Some (example_certificate 3 1 [] [])"
    unfolding coherent_cache.cert_read_db(1) [OF example_lru_coherent cs_inv_example]
    by (simp add: cert_write_def batch_write_one certificate_store_new_def)
  moreover have "map_of (certificate_id_by_origin ?st) (1, 3) = Some 301"
    by (simp add: cert_write_def batch_write_one certificate_store_new_def)
  ultimately show ?thesis
    using cert_delete_leaves_origin_index [OF example_lru_coherent cs_inv_example, of 301 _ _ _ 0 1]
    by (metis example_cert_fields(1,2) prod.collapse)
qed

text \<open>A write that the database refuses reports the error and changes no table, yet the
  certificate enters the cache all the same: while it stays there, reading its digest answers
  with a certificate that is not stored.\<close>

theorem cert_write_failed_is_cached:
  assumes "coherent_cache ops peek" "map_of (certificates_by_id st) (cert_digest x) = None"
    and "cert_write ops False st x = (r, st')"
    and "peek (cache_write ops (cert_cache st) x) (cert_digest x) = Some x"
  shows "r = Inl WriteFailed \<and> same_tables st st'
    \<and> map_of (certificates_by_id st') (cert_digest x) = None
    \<and> fst (cert_read ops st' (cert_digest x)) = Some x
    \<and> \<not> cs_inv peek st'"
proof -
  have st': "st' = st\<lparr>cert_cache := cache_write ops (cert_cache st) x\<rparr>" and "r = Inl WriteFailed"
    using assms(3) by (simp_all add: cert_write_def)
  moreover have "fst (cert_read ops st' (cert_digest x)) = Some x"
    using coherent_cache.read_peek [OF assms(1), of "cert_cache st'" "cert_digest x"] assms(4) st'
    by (simp add: cert_read_def split_beta Let_def)
  moreover have "\<not> cs_inv peek st'"
    using assms(2,4) st' by (auto simp: cs_inv_def)
  ultimately show ?thesis using assms(2) by simp
qed

theorem cert_write_failed_is_cached_witness:
  "fst (cert_read example_lru (snd (cert_write example_lru False (certificate_store_new [])
      (example_certificate 3 1 [] []))) 301) = Some (example_certificate 3 1 [] [])"
proof -
  have "map_of (certificates_by_id (certificate_store_new []))
      (cert_digest (example_certificate 3 1 [] [])) = None"
    by (simp add: certificate_store_new_def)
  moreover have "map_of (cache_write example_lru (cert_cache (certificate_store_new []))
      (example_certificate 3 1 [] [])) (cert_digest (example_certificate 3 1 [] []))
    = Some (example_certificate 3 1 [] [])"
    by (simp add: certificate_store_new_def certificate_store_cache_def list_lru_def)
  ultimately show ?thesis
    using cert_write_failed_is_cached [OF example_lru_coherent, of "certificate_store_new []"
        "example_certificate 3 1 [] []"] by (cases "cert_write example_lru False (certificate_store_new []) (example_certificate 3 1 [] [])") auto
qed

end
