(* ===== verification/Narwhal_State.thy ===== *)
theory Narwhal_State
  imports Narwhal_Store Narwhal_Certificate_Store
begin

text \<open>
  The consensus state, \<open>src/narwhal/primary/src/consensus/state.rs\<close>: the DAG in memory, the
  committed and garbage-collection rounds, insertion of certificates, the update after a
  commit, and the recovery of the state from the stores. The DAG is an ordered map from rounds
  to hash maps from origins to certificates with their digests. Metrics are not modelled.
\<close>

section \<open>Definitions\<close>

type_synonym dag_row = "(authority_identifier \<times> digest \<times> certificate) list"
type_synonym dag = "(round \<times> dag_row) list"

datatype consensus_error =
    CertificateEquivocation certificate certificate
  | ConsensusStoreError
  | ShuttingDown

definition gc_round :: "round \<Rightarrow> round \<Rightarrow> round" where
  "gc_round commit_round gc_depth = saturating_sub commit_round gc_depth"

record consensus_round =
  cr_committed_round :: round
  cr_gc_round :: round

definition consensus_round_default :: consensus_round where
  "consensus_round_default = \<lparr>cr_committed_round = 0, cr_gc_round = 0\<rparr>"

definition new_with_gc_depth :: "round \<Rightarrow> round \<Rightarrow> consensus_round" where
  "new_with_gc_depth committed gc_depth =
     \<lparr>cr_committed_round = committed, cr_gc_round = gc_round committed gc_depth\<rparr>"

definition consensus_round_update :: "consensus_round \<Rightarrow> round \<Rightarrow> round \<Rightarrow> consensus_round" where
  "consensus_round_update cr new_committed_round gc_depth =
     (let last_committed_round = max (cr_committed_round cr) new_committed_round
      in \<lparr>cr_committed_round = last_committed_round,
          cr_gc_round = gc_round last_committed_round gc_depth\<rparr>)"

record consensus_state =
  st_last_round :: consensus_round
  st_gc_depth :: round
  st_last_committed :: "(authority_identifier \<times> round) list"
  st_last_committed_sub_dag :: "committed_sub_dag option"
  st_dag :: dag

definition consensus_state_new :: "round \<Rightarrow> consensus_state" where
  "consensus_state_new gc_depth = \<lparr>st_last_round = consensus_round_default, st_gc_depth = gc_depth,
     st_last_committed = [], st_last_committed_sub_dag = None, st_dag = []\<rparr>"

text \<open>Missing parents panic.\<close>

definition check_parents :: "certificate \<Rightarrow> dag \<Rightarrow> round \<Rightarrow> unit option" where
  "check_parents x dag gc =
     (if cert_round x \<le> gc + 1 then Some ()
      else case map_of dag (cert_round x - 1) of
          Some row \<Rightarrow>
            rust_assert (list_all (\<lambda>p. p \<in> set (map (fst \<circ> snd) row)) (cert_parents x))
        | None \<Rightarrow> None)"

definition try_insert_in_dag ::
    "dag \<Rightarrow> (authority_identifier \<times> round) list \<Rightarrow> round \<Rightarrow> certificate \<Rightarrow>
     ((consensus_error, bool) result \<times> dag) option" where
  "try_insert_in_dag dag last_committed gc x =
     (if cert_round x \<le> gc then Some (Inr False, dag)
      else do {
        check_parents x dag gc;
        let row = (case map_of dag (cert_round x) of None \<Rightarrow> [] | Some row \<Rightarrow> row);
        let dag' = bt_insert (cert_round x)
          (AList.update (cert_origin x) (cert_digest x, x) row) dag;
        let newer = (cert_round x >
          (case map_of last_committed (cert_origin x) of None \<Rightarrow> 0 | Some r \<Rightarrow> r));
        case map_of row (cert_origin x) of
          Some (_, existing) \<Rightarrow>
            (if cert_digest existing \<noteq> cert_digest x
             then Some (Inl (CertificateEquivocation x existing), dag')
             else Some (Inr newer, dag'))
        | None \<Rightarrow> Some (Inr newer, dag')
      })"

definition try_insert ::
    "consensus_state \<Rightarrow> certificate \<Rightarrow>
     ((consensus_error, bool) result \<times> consensus_state) option" where
  "try_insert st x = do {
     (r, dag) \<leftarrow> try_insert_in_dag (st_dag st) (st_last_committed st)
       (cr_gc_round (st_last_round st)) x;
     Some (r, st\<lparr>st_dag := dag\<rparr>)
   }"

definition state_update :: "consensus_state \<Rightarrow> certificate \<Rightarrow> consensus_state" where
  "state_update st x =
     (let lc = AList.update (cert_origin x)
            (case map_of (st_last_committed st) (cert_origin x) of
               Some r \<Rightarrow> max r (cert_round x) | None \<Rightarrow> cert_round x) (st_last_committed st);
          lr = consensus_round_update (st_last_round st) (cert_round x) (st_gc_depth st)
      in st\<lparr>st_last_committed := lc, st_last_round := lr,
           st_dag := filter (\<lambda>(r, _). r > cr_gc_round lr) (st_dag st)\<rparr>)"

definition next_sub_dag_index :: "consensus_state \<Rightarrow> sequence_number" where
  "next_sub_dag_index st =
     (case st_last_committed_sub_dag st of None \<Rightarrow> 0 | Some s \<Rightarrow> sd_sub_dag_index s) + 1"

section \<open>Recovery\<close>

fun insert_certificates ::
    "dag \<Rightarrow> (authority_identifier \<times> round) list \<Rightarrow> round \<Rightarrow> certificate list \<Rightarrow>
     (consensus_error, dag) result option" where
  "insert_certificates dag last_committed gc [] = Some (Inr dag)"
| "insert_certificates dag last_committed gc (x # xs) = do {
     (r, dag) \<leftarrow> try_insert_in_dag dag last_committed gc x;
     case r of
       Inl e \<Rightarrow> Some (Inl e)
     | Inr _ \<Rightarrow> insert_certificates dag last_committed gc xs
   }"

definition construct_dag_from_cert_store ::
    "'k certificate_store \<Rightarrow> (authority_identifier \<times> round) list \<Rightarrow> round \<Rightarrow>
     (consensus_error, dag) result option" where
  "construct_dag_from_cert_store cs last_committed gc =
     (case after_round cs (gc + 1) of
        Inl _ \<Rightarrow> None
      | Inr xs \<Rightarrow> insert_certificates [] last_committed gc xs)"

fun read_certificates ::
    "'k cache_ops \<Rightarrow> 'k certificate_store \<Rightarrow> digest list \<Rightarrow>
     (certificate list \<times> 'k certificate_store) option" where
  "read_certificates ops cs [] = Some ([], cs)"
| "read_certificates ops cs (d # ds) =
     (case cert_read ops cs d of
        (None, _) \<Rightarrow> None
      | (Some x, cs) \<Rightarrow> do { (xs, cs) \<leftarrow> read_certificates ops cs ds; Some (x # xs, cs) })"

definition new_from_store ::
    "'k cache_ops \<Rightarrow> round \<Rightarrow> round \<Rightarrow> (authority_identifier \<times> round) list \<Rightarrow>
     consensus_commit option \<Rightarrow> 'k certificate_store \<Rightarrow> consensus_state option" where
  "new_from_store ops last_committed_round gc_depth recovered latest cs = do {
     let last_round = new_with_gc_depth last_committed_round gc_depth;
     r \<leftarrow> construct_dag_from_cert_store cs recovered (cr_gc_round last_round);
     dag \<leftarrow> (case r of Inl _ \<Rightarrow> None | Inr dag \<Rightarrow> Some dag);
     last_sub_dag \<leftarrow> (case latest of
         None \<Rightarrow> Some None
       | Some commit \<Rightarrow> do {
           (xs, cs) \<leftarrow> read_certificates ops cs (commit_certificates commit);
           case fst (cert_read ops cs (commit_leader_digest commit)) of
             None \<Rightarrow> None
           | Some leader \<Rightarrow> Some (Some (from_commit commit xs leader))
         });
     Some \<lparr>st_last_round = last_round, st_gc_depth = gc_depth, st_last_committed = recovered,
           st_last_committed_sub_dag = last_sub_dag, st_dag = dag\<rparr>
   }"

text \<open>The state with which \<open>Consensus::spawn\<close> starts the consensus task.\<close>

definition consensus_spawn ::
    "'k cache_ops \<Rightarrow> round \<Rightarrow> consensus_store \<Rightarrow> 'k certificate_store \<Rightarrow> consensus_state option" where
  "consensus_spawn ops gc_depth store cs = do {
     let recovered = read_last_committed store;
     let last_committed_round = fold max (map snd recovered) 0;
     let latest = get_latest_sub_dag store;
     (case latest of
        None \<Rightarrow> Some ()
      | Some commit \<Rightarrow> rust_assert (commit_leader_round commit = last_committed_round));
     new_from_store ops last_committed_round gc_depth recovered latest cs
   }"

section \<open>Well-formed DAGs\<close>

definition wf_row :: "round \<Rightarrow> dag_row \<Rightarrow> bool" where
  "wf_row r row \<longleftrightarrow>
     row \<noteq> [] \<and> distinct (map fst row)
     \<and> list_all (\<lambda>(a, d, x). cert_round x = r \<and> cert_origin x = a \<and> cert_digest x = d) row"

definition wf_dag :: "dag \<Rightarrow> bool" where
  "wf_dag dag \<longleftrightarrow> bt_wf dag \<and> list_all (\<lambda>(r, row). wf_row r row) dag"

definition in_dag :: "dag \<Rightarrow> certificate \<Rightarrow> bool" where
  "in_dag dag x \<longleftrightarrow>
     (case map_of dag (cert_round x) of
        None \<Rightarrow> False
      | Some row \<Rightarrow> map_of row (cert_origin x) = Some (cert_digest x, x))"

text \<open>The certificates of a round.\<close>

definition dag_round :: "dag \<Rightarrow> round \<Rightarrow> certificate list" where
  "dag_round dag r = (case map_of dag r of None \<Rightarrow> [] | Some row \<Rightarrow> map (snd \<circ> snd) row)"

text \<open>Above the round after garbage collection, every certificate has its whole parent round
  and all its parents in the DAG.\<close>

definition complete_history :: "dag \<Rightarrow> round \<Rightarrow> bool" where
  "complete_history dag gc \<longleftrightarrow>
     (\<forall>x. in_dag dag x \<longrightarrow> gc + 1 < cert_round x \<longrightarrow>
        map_of dag (cert_round x - 1) \<noteq> None
        \<and> (\<forall>p \<in> set (cert_parents x). \<exists>y \<in> set (dag_round dag (cert_round x - 1)). cert_digest y = p))"

abbreviation dag_insert :: "dag \<Rightarrow> certificate \<Rightarrow> dag" where
  "dag_insert dag x \<equiv> bt_insert (cert_round x) (AList.update (cert_origin x) (cert_digest x, x)
     (case map_of dag (cert_round x) of None \<Rightarrow> [] | Some row \<Rightarrow> row)) dag"

lemma wf_dag_row: "wf_dag dag \<Longrightarrow> map_of dag r = Some row \<Longrightarrow> wf_row r row"
  by (auto simp: wf_dag_def list_all_iff dest: map_of_SomeD)

lemma wf_row_lookup:
  "wf_row r row \<Longrightarrow> map_of row a = Some (d, x) \<Longrightarrow> cert_round x = r \<and> cert_origin x = a \<and> cert_digest x = d"
  by (force simp: wf_row_def list_all_iff dest: map_of_SomeD)

lemma wf_row_mem:
  assumes "wf_row r row" "x \<in> set (map (snd \<circ> snd) row)"
  shows "map_of row (cert_origin x) = Some (cert_digest x, x)" "cert_round x = r"
proof -
  obtain a d where m: "(a, d, x) \<in> set row" using assms(2) by auto
  then have f: "cert_round x = r" "cert_origin x = a" "cert_digest x = d"
    using assms(1) by (auto simp: wf_row_def list_all_iff)
  then show "cert_round x = r" by simp
  have "distinct (map fst row)" using assms(1) by (simp add: wf_row_def)
  from map_of_is_SomeI [OF this m] f show "map_of row (cert_origin x) = Some (cert_digest x, x)" by simp
qed

lemma in_dag_round:
  assumes "wf_dag dag"
  shows "x \<in> set (dag_round dag r) \<longleftrightarrow> in_dag dag x \<and> cert_round x = r"
proof (cases "map_of dag r")
  case (Some row)
  note wf = wf_dag_row [OF assms Some]
  have "x \<in> set (map (snd \<circ> snd) row) \<longleftrightarrow>
      map_of row (cert_origin x) = Some (cert_digest x, x) \<and> cert_round x = r"
  proof
    assume "map_of row (cert_origin x) = Some (cert_digest x, x) \<and> cert_round x = r"
    then have "(cert_origin x, cert_digest x, x) \<in> set row" by (auto dest: map_of_SomeD)
    then show "x \<in> set (map (snd \<circ> snd) row)" by force
  qed (use wf_row_mem [OF wf] in blast)
  then show ?thesis using Some by (auto simp: dag_round_def in_dag_def)
qed (auto simp: dag_round_def in_dag_def)

lemma in_dag_unique:
  assumes "in_dag dag x" "in_dag dag y" "cert_round x = cert_round y" "cert_origin x = cert_origin y"
  shows "x = y"
  using assms(1,2) unfolding in_dag_def assms(3,4) by (simp split: option.splits)

lemma wf_row_update:
  assumes "row = [] \<or> wf_row (cert_round x) row"
  shows "wf_row (cert_round x) (AList.update (cert_origin x) (cert_digest x, x) row)"
proof -
  let ?row = "AList.update (cert_origin x) (cert_digest x, x) row"
  have d: "distinct (map fst row)" using assms by (auto simp: wf_row_def)
  then have d': "distinct (map fst ?row)" by (rule distinct_update)
  have fields: "cert_round y = cert_round x \<and> cert_origin y = a \<and> cert_digest y = e"
    if "(a, e, y) \<in> set ?row" for a e y
  proof -
    have "map_of ?row a = Some (e, y)" using d' that by (rule map_of_is_SomeI)
    then show ?thesis
      using assms wf_row_lookup [of "cert_round x" row a e y]
      by (auto simp: map_of_update split: if_splits)
  qed
  have ne: "?row \<noteq> []" by (cases row) (auto split: if_splits)
  show ?thesis unfolding wf_row_def list_all_iff
  proof (intro conjI ballI)
    fix v
    assume v: "v \<in> set ?row"
    show "case v of (a, d, y) \<Rightarrow> cert_round y = cert_round x \<and> cert_origin y = a \<and> cert_digest y = d"
      by (rule prod_cases3 [of v]) (use fields v in blast)
  qed (fact ne d')+
qed

lemma wf_dag_insert: "wf_dag dag \<Longrightarrow> wf_dag (dag_insert dag x)"
proof -
  assume wf: "wf_dag dag"
  let ?row = "case map_of dag (cert_round x) of None \<Rightarrow> [] | Some row \<Rightarrow> row"
  have "?row = [] \<or> wf_row (cert_round x) ?row"
    using wf_dag_row [OF wf] by (auto split: option.split)
  then have new: "wf_row (cert_round x) (AList.update (cert_origin x) (cert_digest x, x) ?row)"
    by (rule wf_row_update)
  have bt: "bt_wf (dag_insert dag x)" using wf by (simp add: wf_dag_def)
  have "wf_row r row" if "(r, row) \<in> set (dag_insert dag x)" for r row
  proof -
    have "map_of (dag_insert dag x) r = Some row" using bt_wf_distinct [OF bt] that by (rule map_of_is_SomeI)
    then show ?thesis using new wf_dag_row [OF wf] by (auto simp: map_of_bt_insert split: if_splits)
  qed
  with bt show ?thesis by (auto simp: wf_dag_def list_all_iff)
qed

lemma in_dag_insert:
  "in_dag (dag_insert dag x) y \<longleftrightarrow>
     y = x \<or> in_dag dag y \<and> (cert_round y, cert_origin y) \<noteq> (cert_round x, cert_origin x)"
  by (auto simp: in_dag_def map_of_bt_insert map_of_update split: option.split)

lemma rows_insert: "map_of (dag_insert dag x) r \<noteq> None \<longleftrightarrow> r = cert_round x \<or> map_of dag r \<noteq> None"
  by (auto simp: map_of_bt_insert)

lemma wf_dag_filter: "wf_dag dag \<Longrightarrow> wf_dag (filter (\<lambda>(r, _). P r) dag)"
  by (auto simp: wf_dag_def bt_wf_filter list_all_iff)

lemma in_dag_filter: "in_dag (filter (\<lambda>(r, _). P r) dag) x \<longleftrightarrow> in_dag dag x \<and> P (cert_round x)"
  by (simp add: in_dag_def map_of_filter_keys)

lemma dag_round_filter: "dag_round (filter (\<lambda>(r, _). P r) dag) r = (if P r then dag_round dag r else [])"
  by (simp add: dag_round_def map_of_filter_keys)

lemma complete_historyD:
  assumes "complete_history dag gc" "in_dag dag x" "gc + 1 < cert_round x"
  shows "map_of dag (cert_round x - 1) \<noteq> None"
    and "p \<in> set (cert_parents x) \<Longrightarrow> \<exists>y \<in> set (dag_round dag (cert_round x - 1)). cert_digest y = p"
  using assms unfolding complete_history_def by blast+

lemma complete_history_filter:
  assumes "complete_history dag gc" "gc \<le> gc'"
  shows "complete_history (filter (\<lambda>(r, _). gc' < r) dag) gc'"
  unfolding complete_history_def in_dag_filter dag_round_filter map_of_filter_keys
proof (intro allI impI)
  fix x
  assume x: "in_dag dag x \<and> gc' < cert_round x" "gc' + 1 < cert_round x"
  then have "gc' < cert_round x - 1" "gc + 1 < cert_round x" using assms(2) by linarith+
  with complete_historyD [OF assms(1), of x] x
  show "(if gc' < cert_round x - 1 then map_of dag (cert_round x - 1) else None) \<noteq> None \<and>
      (\<forall>p \<in> set (cert_parents x). \<exists>y \<in> set (if gc' < cert_round x - 1 then dag_round dag (cert_round x - 1)
        else []). cert_digest y = p)"
    by simp
qed

section \<open>Insertion\<close>

lemma check_parents_Some:
  assumes "wf_dag dag"
  shows "check_parents x dag gc = Some () \<longleftrightarrow>
    (gc + 1 < cert_round x \<longrightarrow> map_of dag (cert_round x - 1) \<noteq> None
      \<and> (\<forall>p \<in> set (cert_parents x). \<exists>y \<in> set (dag_round dag (cert_round x - 1)). cert_digest y = p))"
proof (cases "map_of dag (cert_round x - 1)")
  case (Some row)
  have "fst (snd v) = cert_digest (snd (snd v))" if "v \<in> set row" for v
    using wf_dag_row [OF assms Some] that by (auto simp: wf_row_def list_all_iff)
  then have "p \<in> set (map (fst \<circ> snd) row) \<longleftrightarrow> (\<exists>y \<in> set (map (snd \<circ> snd) row). cert_digest y = p)" for p
    by force
  then show ?thesis using Some
    by (auto simp: check_parents_def dag_round_def list_all_iff rust_assert_def)
qed (auto simp: check_parents_def dag_round_def)

lemma try_insert_in_dag_Ok:
  assumes "try_insert_in_dag dag lc gc x = Some (Inr b, dag')"
  shows "if cert_round x \<le> gc then dag' = dag \<and> \<not> b
    else check_parents x dag gc = Some () \<and> dag' = dag_insert dag x
      \<and> b = (cert_round x > (case map_of lc (cert_origin x) of None \<Rightarrow> 0 | Some r \<Rightarrow> r))
      \<and> (\<forall>y. in_dag dag y \<longrightarrow> cert_round y = cert_round x \<longrightarrow> cert_origin y = cert_origin x \<longrightarrow>
           cert_digest y = cert_digest x)"
proof (cases "cert_round x \<le> gc")
  case False
  have "cert_digest y = cert_digest x"
    if y: "in_dag dag y" "cert_round y = cert_round x" "cert_origin y = cert_origin x" for y
  proof -
    obtain row where "map_of dag (cert_round x) = Some row"
        "map_of row (cert_origin x) = Some (cert_digest y, y)"
      using y(1) unfolding in_dag_def y(2,3) by (auto split: option.splits)
    then show ?thesis using assms False
      by (auto simp: try_insert_in_dag_def Let_def elim!: bind_eq_SomeE split: if_splits)
  qed
  moreover have "check_parents x dag gc = Some ()" "dag' = dag_insert dag x"
      "b = (cert_round x > (case map_of lc (cert_origin x) of None \<Rightarrow> 0 | Some r \<Rightarrow> r))"
    using assms False
    by (auto simp: try_insert_in_dag_def Let_def elim!: bind_eq_SomeE split: option.splits if_splits)
  ultimately show ?thesis using False by simp
qed (use assms in \<open>simp add: try_insert_in_dag_def\<close>)

lemma try_insert_in_dag_total:
  assumes "cert_round x \<le> gc \<or> check_parents x dag gc = Some ()"
    and "\<And>y. in_dag dag y \<Longrightarrow> cert_round y = cert_round x \<Longrightarrow> cert_origin y = cert_origin x \<Longrightarrow>
      cert_digest y = cert_digest x"
    and "wf_dag dag"
  shows "\<exists>b dag'. try_insert_in_dag dag lc gc x = Some (Inr b, dag')"
proof (cases "cert_round x \<le> gc")
  case False
  have "cert_digest y = cert_digest x"
    if m: "map_of dag (cert_round x) = Some row" "map_of row (cert_origin x) = Some (d, y)" for row d y
  proof -
    have f: "cert_round y = cert_round x" "cert_origin y = cert_origin x" "cert_digest y = d"
      using wf_row_lookup [OF wf_dag_row [OF assms(3) m(1)] m(2)] by auto
    then have "in_dag dag y" using m unfolding in_dag_def f by simp
    from assms(2) [OF this f(1,2)] show ?thesis .
  qed
  then show ?thesis using assms(1) False
    by (auto simp: try_insert_in_dag_def Let_def split: option.split)
qed (auto simp: try_insert_in_dag_def)

lemma dag_insert_digests:
  assumes "wf_dag dag" "y \<in> set (dag_round dag r)"
    and "\<And>y. in_dag dag y \<Longrightarrow> cert_round y = cert_round x \<Longrightarrow> cert_origin y = cert_origin x \<Longrightarrow>
      cert_digest y = cert_digest x"
  shows "\<exists>z \<in> set (dag_round (dag_insert dag x) r). cert_digest z = cert_digest y"
proof -
  have y: "in_dag dag y" "cert_round y = r" using assms(2) in_dag_round [OF assms(1)] by auto
  show ?thesis
  proof (cases "(cert_round y, cert_origin y) = (cert_round x, cert_origin x)")
    case True
    then have "cert_digest x = cert_digest y" using assms(3) [OF y(1)] by simp
    moreover have "x \<in> set (dag_round (dag_insert dag x) r)"
      using True y(2) in_dag_round [OF wf_dag_insert [OF assms(1)]] in_dag_insert by auto
    ultimately show ?thesis by blast
  next
    case False
    then have "y \<in> set (dag_round (dag_insert dag x) r)"
      using y in_dag_round [OF wf_dag_insert [OF assms(1)]] in_dag_insert by auto
    then show ?thesis by blast
  qed
qed

lemma complete_history_insert:
  assumes "wf_dag dag" "complete_history dag gc" "check_parents x dag gc = Some ()"
    and "\<And>y. in_dag dag y \<Longrightarrow> cert_round y = cert_round x \<Longrightarrow> cert_origin y = cert_origin x \<Longrightarrow>
      cert_digest y = cert_digest x"
  shows "complete_history (dag_insert dag x) gc"
  unfolding complete_history_def
proof (intro allI impI)
  fix z
  assume z: "in_dag (dag_insert dag x) z" "gc + 1 < cert_round z"
  have "map_of dag (cert_round z - 1) \<noteq> None
      \<and> (\<forall>p \<in> set (cert_parents z). \<exists>y \<in> set (dag_round dag (cert_round z - 1)). cert_digest y = p)"
  proof (cases "z = x")
    case True
    then show ?thesis using assms(3) z(2) check_parents_Some [OF assms(1)] by blast
  next
    case False
    then have "in_dag dag z" using z(1) in_dag_insert by blast
    then show ?thesis using complete_historyD [OF assms(2) _ z(2)] by blast
  qed
  then show "map_of (dag_insert dag x) (cert_round z - 1) \<noteq> None
      \<and> (\<forall>p \<in> set (cert_parents z).
          \<exists>y \<in> set (dag_round (dag_insert dag x) (cert_round z - 1)). cert_digest y = p)"
    using dag_insert_digests [OF assms(1) _ assms(4)] rows_insert by metis
qed

section \<open>The state's invariant\<close>

definition st_inv :: "consensus_state \<Rightarrow> bool" where
  "st_inv st \<longleftrightarrow>
     wf_dag (st_dag st)
     \<and> list_all (\<lambda>(r, _). cr_gc_round (st_last_round st) < r) (st_dag st)
     \<and> complete_history (st_dag st) (cr_gc_round (st_last_round st))
     \<and> cr_gc_round (st_last_round st) = gc_round (cr_committed_round (st_last_round st)) (st_gc_depth st)
     \<and> distinct (map fst (st_last_committed st))
     \<and> list_all (\<lambda>(_, r). r \<le> cr_committed_round (st_last_round st)) (st_last_committed st)"

lemma st_invD:
  assumes "st_inv st"
  shows "wf_dag (st_dag st)"
    and "complete_history (st_dag st) (cr_gc_round (st_last_round st))"
    and "cr_gc_round (st_last_round st) = gc_round (cr_committed_round (st_last_round st)) (st_gc_depth st)"
    and "distinct (map fst (st_last_committed st))"
    and "cr_gc_round (st_last_round st) \<le> cr_committed_round (st_last_round st)"
  using assms by (auto simp: st_inv_def gc_round_def)

lemma st_inv_last_committed:
  assumes "st_inv st" "map_of (st_last_committed st) a = Some r"
  shows "r \<le> cr_committed_round (st_last_round st)"
  using assms by (auto simp: st_inv_def list_all_iff dest: map_of_SomeD)

lemma st_inv_above_gc:
  assumes "st_inv st" "in_dag (st_dag st) x"
  shows "cr_gc_round (st_last_round st) < cert_round x"
  using assms by (force simp: st_inv_def in_dag_def list_all_iff dest: map_of_SomeD split: option.splits)

lemma st_inv_new: "st_inv (consensus_state_new gc_depth)"
  by (simp add: st_inv_def consensus_state_new_def consensus_round_default_def wf_dag_def
      complete_history_def in_dag_def gc_round_def)

lemma last_committed_update:
  "map_of (st_last_committed (state_update st x)) a =
    (if a = cert_origin x
     then Some (case map_of (st_last_committed st) a of Some r \<Rightarrow> max r (cert_round x) | None \<Rightarrow> cert_round x)
     else map_of (st_last_committed st) a)"
  by (simp add: state_update_def map_of_update Let_def)

lemma state_update_simps [simp]:
  "st_gc_depth (state_update st x) = st_gc_depth st"
  "st_last_committed_sub_dag (state_update st x) = st_last_committed_sub_dag st"
  "cr_committed_round (st_last_round (state_update st x))
    = max (cr_committed_round (st_last_round st)) (cert_round x)"
  by (simp_all add: state_update_def consensus_round_update_def Let_def)

lemma state_update_dag:
  "st_dag (state_update st x) =
    filter (\<lambda>(r, _). gc_round (max (cr_committed_round (st_last_round st)) (cert_round x)) (st_gc_depth st) < r)
      (st_dag st)"
  by (simp add: state_update_def consensus_round_update_def Let_def)

lemma gc_round_mono: "a \<le> b \<Longrightarrow> gc_round a d \<le> gc_round b d"
  by (simp add: gc_round_def)

lemma st_inv_update:
  assumes "st_inv st"
  shows "st_inv (state_update st x)"
proof -
  let ?cr = "max (cr_committed_round (st_last_round st)) (cert_round x)"
  let ?gc = "gc_round ?cr (st_gc_depth st)"
  have gc: "cr_gc_round (st_last_round (state_update st x)) = ?gc"
    by (simp add: state_update_def consensus_round_update_def Let_def)
  have "cr_gc_round (st_last_round st) \<le> ?gc"
    using st_invD(3) [OF assms] by (simp add: gc_round_mono)
  then have "complete_history (st_dag (state_update st x)) ?gc"
    unfolding state_update_dag by (rule complete_history_filter [OF st_invD(2) [OF assms]])
  moreover have "wf_dag (st_dag (state_update st x))"
    unfolding state_update_dag by (rule wf_dag_filter [OF st_invD(1) [OF assms]])
  moreover have d: "distinct (map fst (st_last_committed (state_update st x)))"
    using st_invD(4) [OF assms] by (simp add: state_update_def Let_def)
  moreover have "r \<le> ?cr" if "(a, r) \<in> set (st_last_committed (state_update st x))" for a r
    using map_of_is_SomeI [OF d that] st_inv_last_committed [OF assms, of a]
    by (fastforce simp: last_committed_update split: if_splits option.splits)
  ultimately show ?thesis
    unfolding st_inv_def gc by (auto simp: list_all_iff state_update_dag)
qed

lemma st_inv_try_insert:
  assumes "st_inv st" "try_insert st x = Some (Inr b, st')"
  shows "st_inv st'"
proof -
  let ?gc = "cr_gc_round (st_last_round st)"
  obtain dag' where ins: "try_insert_in_dag (st_dag st) (st_last_committed st) ?gc x = Some (Inr b, dag')"
      and st': "st' = st\<lparr>st_dag := dag'\<rparr>"
    using assms(2) by (auto simp: try_insert_def split: bind_splits)
  show ?thesis
  proof (cases "cert_round x \<le> ?gc")
    case True
    then show ?thesis using try_insert_in_dag_Ok [OF ins] st' assms(1) by simp
  next
    case False
    then have i: "check_parents x (st_dag st) ?gc = Some ()" "dag' = dag_insert (st_dag st) x"
        "\<And>y. in_dag (st_dag st) y \<Longrightarrow> cert_round y = cert_round x \<Longrightarrow> cert_origin y = cert_origin x \<Longrightarrow>
           cert_digest y = cert_digest x"
      using try_insert_in_dag_Ok [OF ins] by auto
    have "fst ` set dag' = insert (cert_round x) (fst ` set (st_dag st))"
      unfolding i(2) by (rule keys_bt_insert)
    moreover have "\<forall>r \<in> fst ` set (st_dag st). ?gc < r"
      using assms(1) by (auto simp: st_inv_def list_all_iff)
    ultimately have "\<forall>r \<in> fst ` set dag'. ?gc < r" using False by auto
    then have "list_all (\<lambda>(r, _). ?gc < r) dag'" by (auto simp: list_all_iff)
    moreover have "complete_history (dag_insert (st_dag st) x) ?gc"
      by (rule complete_history_insert [OF st_invD(1,2) [OF assms(1)] i(1)]) (rule i(3))
    ultimately show ?thesis
      using assms(1) wf_dag_insert [OF st_invD(1) [OF assms(1)]]
      unfolding st' i(2) by (simp add: st_inv_def)
  qed
qed

text \<open>C25: Inserting a certificate whose parents are in the DAG, or garbage collected, into a
  well-formed state never panics. A certificate at or below the garbage-collection round is
  ignored; otherwise, if the DAG holds another digest for its origin and round the insertion
  reports the equivocation, and if not the certificate is in the DAG, the DAG still has the
  complete history above the garbage-collection round, and the result tells whether it is
  above its origin's last committed round.\<close>

theorem try_insert_correct:
  assumes "st_inv st"
    and "cert_round x \<le> cr_gc_round (st_last_round st) \<or>
      check_parents x (st_dag st) (cr_gc_round (st_last_round st)) = Some ()"
  shows "\<exists>r st'. try_insert st x = Some (r, st') \<and>
    (if cert_round x \<le> cr_gc_round (st_last_round st) then r = Inr False \<and> st' = st
     else case r of
         Inl e \<Rightarrow> \<exists>y. in_dag (st_dag st) y \<and> cert_round y = cert_round x \<and> cert_origin y = cert_origin x
           \<and> cert_digest y \<noteq> cert_digest x \<and> e = CertificateEquivocation x y
       | Inr b \<Rightarrow> st_inv st'
           \<and> (\<forall>y. in_dag (st_dag st') y \<longleftrightarrow> y = x \<or> in_dag (st_dag st) y
               \<and> (cert_round y, cert_origin y) \<noteq> (cert_round x, cert_origin x))
           \<and> b = (cert_round x > (case map_of (st_last_committed st) (cert_origin x) of
                None \<Rightarrow> 0 | Some r \<Rightarrow> r)))"
proof (cases "cert_round x \<le> cr_gc_round (st_last_round st)")
  case True
  then show ?thesis by (simp add: try_insert_def try_insert_in_dag_def)
next
  case False
  let ?gc = "cr_gc_round (st_last_round st)"
  show ?thesis
  proof (cases "\<exists>y. in_dag (st_dag st) y \<and> cert_round y = cert_round x \<and> cert_origin y = cert_origin x
      \<and> cert_digest y \<noteq> cert_digest x")
    case True
    then obtain y where y: "in_dag (st_dag st) y" "cert_round y = cert_round x"
        "cert_origin y = cert_origin x" "cert_digest y \<noteq> cert_digest x" by blast
    then obtain row where "map_of (st_dag st) (cert_round x) = Some row"
        "map_of row (cert_origin x) = Some (cert_digest y, y)"
      unfolding in_dag_def y(2,3) by (auto split: option.splits)
    then have "\<exists>st'. try_insert st x = Some (Inl (CertificateEquivocation x y), st')"
      using assms(2) False y(4) by (auto simp: try_insert_def try_insert_in_dag_def Let_def)
    with y False show ?thesis by auto
  next
    case no: False
    obtain b dag' where ins: "try_insert_in_dag (st_dag st) (st_last_committed st) ?gc x = Some (Inr b, dag')"
      using try_insert_in_dag_total [OF assms(2) _ st_invD(1) [OF assms(1)], of "st_last_committed st"] no
      by blast
    then have t: "try_insert st x = Some (Inr b, st\<lparr>st_dag := dag'\<rparr>)" by (simp add: try_insert_def)
    have "dag' = dag_insert (st_dag st) x"
        "b = (cert_round x > (case map_of (st_last_committed st) (cert_origin x) of None \<Rightarrow> 0 | Some r \<Rightarrow> r))"
      using try_insert_in_dag_Ok [OF ins] False by auto
    with t st_inv_try_insert [OF assms(1) t] False show ?thesis by (simp add: in_dag_insert)
  qed
qed

theorem try_insert_correct_witness:
  "\<exists>st'. try_insert (consensus_state_new 50) (example_certificate 1 2 [] []) = Some (Inr True, st')
    \<and> st_inv st' \<and> in_dag (st_dag st') (example_certificate 1 2 [] [])"
proof -
  define x where "x = example_certificate 1 2 [] []"
  have x: "cert_round x = 1" by (simp add: x_def)
  let ?st = "consensus_state_new 50"
  have st: "cr_gc_round (st_last_round ?st) = 0" "st_last_committed ?st = []" "st_dag ?st = []"
    by (simp_all add: consensus_state_new_def consensus_round_default_def)
  have "cert_round x \<le> cr_gc_round (st_last_round ?st) \<or>
      check_parents x (st_dag ?st) (cr_gc_round (st_last_round ?st)) = Some ()"
    by (simp add: check_parents_def st x)
  note result = try_insert_correct [OF st_inv_new this, unfolded st x]
  have "\<not> in_dag [] y" for y by (simp add: in_dag_def)
  with result show ?thesis
    unfolding x_def [symmetric]
    apply (elim exE conjE)
    subgoal for r st' by (cases r) auto
    done
qed

end
