(* ===== verification/Narwhal_Leader_Schedule.thy ===== *)
theory Narwhal_Leader_Schedule
  imports Narwhal_State
begin

text \<open>
  The leader schedule, \<open>src/narwhal/primary/src/consensus/leader_schedule.rs\<close>: a leader is
  drawn for every even round, and the swap table built from the reputation scores of the last
  schedule replaces the worst scorers by the best ones. The two random draws (the
  stake-weighted one of \<open>Committee::leader\<close> and the uniform one of \<open>LeaderSwapTable::swap\<close>,
  both from a generator seeded by the round) are the record \<open>leader_rng\<close>, a parameter. The
  test-only round-robin election is not modelled.
\<close>

section \<open>Definitions\<close>

record leader_rng =
  rng_choose_weighted :: choose_weighted
  rng_choose :: "round \<Rightarrow> authority list \<Rightarrow> authority option"

record leader_swap_table =
  lst_round :: round
  lst_good_nodes :: "authority list"
  lst_bad_nodes :: "(authority_identifier \<times> authority) list"

definition leader_swap_table_default :: leader_swap_table where
  "leader_swap_table_default = \<lparr>lst_round = 0, lst_good_nodes = [], lst_bad_nodes = []\<rparr>"

fun retrieve_loop ::
    "committee \<Rightarrow> nat \<Rightarrow> stake \<Rightarrow> (authority_identifier \<times> nat) list \<Rightarrow> authority list option" where
  "retrieve_loop c stake_threshold s [] = Some []"
| "retrieve_loop c stake_threshold s ((i, _) # as) =
     (let s = u64_wrapping_add s (stake_by_id c i) in
      if u64_wrapping_mul stake_threshold (total_stake c) div 100 < s then Some []
      else do {
        a \<leftarrow> authority_safe c i;
        rest \<leftarrow> retrieve_loop c stake_threshold s as;
        Some (a # rest)
      })"

definition retrieve_first_nodes ::
    "committee \<Rightarrow> (authority_identifier \<times> nat) list \<Rightarrow> nat \<Rightarrow> authority list option" where
  "retrieve_first_nodes c as stake_threshold = retrieve_loop c stake_threshold 0 as"

definition leader_swap_table_new ::
    "committee \<Rightarrow> round \<Rightarrow> reputation_scores \<Rightarrow> nat \<Rightarrow> leader_swap_table option" where
  "leader_swap_table_new c r scores bad_nodes_stake_threshold = do {
     rust_assert (bad_nodes_stake_threshold \<le> 33);
     rust_assert (final_of_schedule scores);
     good \<leftarrow> retrieve_first_nodes c (authorities_by_score_desc scores) bad_nodes_stake_threshold;
     bad \<leftarrow> retrieve_first_nodes c (rev (authorities_by_score_desc scores)) bad_nodes_stake_threshold;
     bad \<leftarrow> those (map (\<lambda>a. do { i \<leftarrow> authority_id a; Some (i, a) }) bad);
     Some \<lparr>lst_round = r, lst_good_nodes = good, lst_bad_nodes = hash_collect bad\<rparr>
   }"

definition swap ::
    "leader_rng \<Rightarrow> leader_swap_table \<Rightarrow> authority_identifier \<Rightarrow> round \<Rightarrow> authority option option" where
  "swap rng t leader r =
     (if map_of (lst_bad_nodes t) leader \<noteq> None
      then do { g \<leftarrow> rng_choose rng r (lst_good_nodes t); Some (Some g) }
      else Some None)"

record leader_schedule =
  ls_committee :: committee
  ls_leader_swap_table :: leader_swap_table

definition leader_schedule_new :: "committee \<Rightarrow> leader_swap_table \<Rightarrow> leader_schedule" where
  "leader_schedule_new c t = \<lparr>ls_committee = c, ls_leader_swap_table = t\<rparr>"

definition from_store :: "committee \<Rightarrow> consensus_store \<Rightarrow> nat \<Rightarrow> leader_schedule option" where
  "from_store c store bad_nodes_stake_threshold = do {
     t \<leftarrow> (case read_latest_commit_with_final_reputation_scores store of
         None \<Rightarrow> Some leader_swap_table_default
       | Some commit \<Rightarrow> leader_swap_table_new c (commit_leader_round commit)
           (commit_reputation_score commit) bad_nodes_stake_threshold);
     Some (leader_schedule_new c t)
   }"

definition update_leader_swap_table :: "leader_schedule \<Rightarrow> leader_swap_table \<Rightarrow> leader_schedule" where
  "update_leader_swap_table ls t = ls\<lparr>ls_leader_swap_table := t\<rparr>"

definition leader :: "leader_rng \<Rightarrow> leader_schedule \<Rightarrow> round \<Rightarrow> authority option" where
  "leader rng ls r = do {
     rust_assert (r mod 2 = 0);
     l \<leftarrow> committee_leader (rng_choose_weighted rng) (ls_committee ls) r;
     i \<leftarrow> authority_id l;
     s \<leftarrow> swap rng (ls_leader_swap_table ls) i r;
     Some (case s of None \<Rightarrow> l | Some g \<Rightarrow> g)
   }"

definition leader_certificate ::
    "leader_rng \<Rightarrow> leader_schedule \<Rightarrow> round \<Rightarrow> dag \<Rightarrow> (authority \<times> certificate option) option" where
  "leader_certificate rng ls r dag = do {
     l \<leftarrow> leader rng ls r;
     i \<leftarrow> authority_id l;
     Some (l, case map_of dag r of None \<Rightarrow> None | Some row \<Rightarrow> map_option snd (map_of row i))
   }"

definition num_of_bad_nodes :: "leader_schedule \<Rightarrow> nat" where
  "num_of_bad_nodes ls = length (lst_bad_nodes (ls_leader_swap_table ls))"

section \<open>The nodes within the stake threshold\<close>

text \<open>The longest prefix of a list of authorities whose stakes stay within a bound.\<close>

fun stake_prefix :: "(authority_identifier \<Rightarrow> stake) \<Rightarrow> nat \<Rightarrow> authority_identifier list \<Rightarrow> authority_identifier list" where
  "stake_prefix f b [] = []"
| "stake_prefix f b (i # is) = (if f i \<le> b then i # stake_prefix f (b - f i) is else [])"

lemma stake_prefix_sum: "sum_list (map f (stake_prefix f b is)) \<le> b"
  by (induction f b "is" rule: stake_prefix.induct) auto

lemma stake_prefix_prefix: "\<exists>rest. is = stake_prefix f b is @ rest"
  by (induction f b "is" rule: stake_prefix.induct) auto

lemma stake_prefix_maximal:
  "is = stake_prefix f b is @ i # rest \<Longrightarrow> b < sum_list (map f (stake_prefix f b is)) + f i"
  by (induction f b "is" rule: stake_prefix.induct) (auto split: if_splits)

text \<open>A threshold in percent and the sums compared with it stay below the machine bound.\<close>

lemma threshold_exact:
  assumes "wf_committee c" "thr \<le> 100"
  shows "u64_wrapping_mul thr (total_stake c) = thr * total_stake c"
    and "s \<le> (thr * total_stake c) div 100 \<Longrightarrow> u64_wrapping_add s (stake_by_id c i) = s + stake_by_id c i"
proof -
  have le: "thr * total_stake c \<le> 100 * total_stake c" using assms(2) by simp
  then have "thr * total_stake c < u64_size" using stake_bound [OF assms(1)] by linarith
  then show "u64_wrapping_mul thr (total_stake c) = thr * total_stake c" by simp
  assume "s \<le> (thr * total_stake c) div 100"
  then have "s \<le> total_stake c" using le by linarith
  moreover have "stake_by_id c i \<le> total_stake c" using sum_stake_by_id_le [OF assms(1), of "{i}"] by simp
  ultimately show "u64_wrapping_add s (stake_by_id c i) = s + stake_by_id c i"
    using stake_bound [OF assms(1)] by simp
qed

lemma retrieve_loop_eq:
  assumes "wf_committee c" "thr \<le> 100" "fst ` set as \<subseteq> committee_ids c" "s \<le> (thr * total_stake c) div 100"
  shows "retrieve_loop c thr s as = Some (map (\<lambda>i. the (authority_lookup c i))
    (stake_prefix (stake_by_id c) ((thr * total_stake c) div 100 - s) (map fst as)))"
  using assms(3,4)
proof (induction as arbitrary: s)
  case (Cons v as)
  note exact = threshold_exact [OF assms(1,2)] threshold_exact(2) [OF assms(1,2) Cons.prems(2)]
  obtain i score where v: "v = (i, score)" by (cases v)
  have "i < committee_size c" using Cons.prems(1) v wf_committee_ids(2) [OF assms(1)] by simp
  then obtain a where "authority_lookup c i = Some a"
    using authority_lookup_dom [OF assms(1)] by blast
  then have a: "authority_safe c i = Some (the (authority_lookup c i))"
    by (simp add: authority_safe_def authority_lookup_def)
  have IH: "retrieve_loop c thr (s + stake_by_id c i) as = Some (map (\<lambda>i. the (authority_lookup c i))
      (stake_prefix (stake_by_id c) ((thr * total_stake c) div 100 - (s + stake_by_id c i)) (map fst as)))"
    if "s + stake_by_id c i \<le> (thr * total_stake c) div 100"
    using Cons.IH [OF _ that] Cons.prems(1) by simp
  show ?case
  proof (cases "s + stake_by_id c i \<le> (thr * total_stake c) div 100")
    case True
    then have "\<not> (thr * total_stake c) div 100 < s + stake_by_id c i"
      "stake_by_id c i \<le> (thr * total_stake c) div 100 - s" by linarith+
    then show ?thesis using IH [OF True] a v exact by (simp add: Let_def)
  next
    case False
    then show ?thesis using v Cons.prems(2) exact by (simp add: Let_def not_le)
  qed
qed simp

lemma retrieve_first_nodes_eq:
  assumes "wf_committee c" "thr \<le> 100" "fst ` set as \<subseteq> committee_ids c"
  shows "retrieve_first_nodes c as thr = Some (map (\<lambda>i. the (authority_lookup c i))
    (stake_prefix (stake_by_id c) ((thr * total_stake c) div 100) (map fst as)))"
  using retrieve_loop_eq [OF assms, of 0] by (simp add: retrieve_first_nodes_def)

text \<open>The identifiers of the good and the bad nodes.\<close>

definition good_ids :: "committee \<Rightarrow> reputation_scores \<Rightarrow> nat \<Rightarrow> authority_identifier list" where
  "good_ids c scores thr = stake_prefix (stake_by_id c) ((thr * total_stake c) div 100)
     (map fst (authorities_by_score_desc scores))"

definition bad_ids :: "committee \<Rightarrow> reputation_scores \<Rightarrow> nat \<Rightarrow> authority_identifier list" where
  "bad_ids c scores thr = stake_prefix (stake_by_id c) ((thr * total_stake c) div 100)
     (rev (map fst (authorities_by_score_desc scores)))"

lemma prefix_distinct: "xs = p @ r \<Longrightarrow> distinct xs \<Longrightarrow> distinct p \<and> set p \<subseteq> set xs"
  by auto

lemma good_bad_ids:
  assumes "wf_scores c scores"
  shows "distinct (good_ids c scores thr)" "set (good_ids c scores thr) \<subseteq> committee_ids c"
    "distinct (bad_ids c scores thr)" "set (bad_ids c scores thr) \<subseteq> committee_ids c"
proof -
  let ?xs = "map fst (authorities_by_score_desc scores)"
  have xs: "distinct ?xs" "set ?xs = committee_ids c"
    using assms by (auto simp: wf_scores_def distinct_by_score)
  obtain g where g: "?xs = good_ids c scores thr @ g"
    using stake_prefix_prefix unfolding good_ids_def by blast
  obtain b where b: "rev ?xs = bad_ids c scores thr @ b"
    using stake_prefix_prefix unfolding bad_ids_def by blast
  show "distinct (good_ids c scores thr)" "set (good_ids c scores thr) \<subseteq> committee_ids c"
    using prefix_distinct [OF g] xs by simp_all
  show "distinct (bad_ids c scores thr)" "set (bad_ids c scores thr) \<subseteq> committee_ids c"
    using prefix_distinct [OF b] xs by simp_all
qed

lemma lookup_ids:
  assumes "wf_committee c" "i \<in> committee_ids c"
  shows "authority_lookup c i = Some (the (authority_lookup c i))"
    and "the (authority_lookup c i) \<in> set (authorities c)" "auth_id (the (authority_lookup c i)) = i"
proof -
  have "i < committee_size c" using assms(2) unfolding wf_committee_ids(2) [OF assms(1)] by simp
  then obtain a where "authority_lookup c i = Some a" using authority_lookup_dom [OF assms(1)] by blast
  then show "authority_lookup c i = Some (the (authority_lookup c i))"
    and "the (authority_lookup c i) \<in> set (authorities c)" "auth_id (the (authority_lookup c i)) = i"
    using authority_lookup_id [OF assms(1)] by simp_all
qed

lemma leader_swap_table_new_eq:
  assumes "wf_committee c" "wf_scores c scores"
  shows "leader_swap_table_new c r scores thr =
    (if thr \<le> 33 \<and> final_of_schedule scores
     then Some \<lparr>lst_round = r,
       lst_good_nodes = map (\<lambda>i. the (authority_lookup c i)) (good_ids c scores thr),
       lst_bad_nodes = map (\<lambda>i. (i, the (authority_lookup c i))) (bad_ids c scores thr)\<rparr>
     else None)"
proof -
  have ids: "fst ` set (authorities_by_score_desc scores) \<subseteq> committee_ids c"
    using assms(2) by (simp add: wf_scores_def)
  have g: "retrieve_first_nodes c (authorities_by_score_desc scores) thr
      = Some (map (\<lambda>i. the (authority_lookup c i)) (good_ids c scores thr))" if "thr \<le> 33"
    using retrieve_first_nodes_eq [OF assms(1) _ ids] that by (simp add: good_ids_def)
  have b: "retrieve_first_nodes c (rev (authorities_by_score_desc scores)) thr
      = Some (map (\<lambda>i. the (authority_lookup c i)) (bad_ids c scores thr))" if "thr \<le> 33"
    using retrieve_first_nodes_eq [OF assms(1), of thr "rev (authorities_by_score_desc scores)"] ids that
    by (simp add: bad_ids_def rev_map)
  have id: "authority_id (the (authority_lookup c i)) = Some i" if "i \<in> set (bad_ids c scores thr)" for i
    using lookup_ids [OF assms(1)] good_bad_ids(4) [OF assms(2)] that
      initialised_getters(1) [OF assms(1)] by (metis subsetD)
  have m: "those (map (\<lambda>a. do { i \<leftarrow> authority_id a; Some (i, a) })
      (map (\<lambda>i. the (authority_lookup c i)) (bad_ids c scores thr)))
    = Some (map (\<lambda>i. (i, the (authority_lookup c i))) (bad_ids c scores thr))"
    unfolding map_map comp_def by (rule those_eq_map) (simp add: id)
  have d: "distinct (map fst (map (\<lambda>i. (i, the (authority_lookup c i))) (bad_ids c scores thr)))"
    using good_bad_ids(3) [OF assms(2)] by (simp add: comp_def)
  show ?thesis
    by (cases "thr \<le> 33") (simp_all add: leader_swap_table_new_def g b m hash_collect_distinct [OF d] del: map_map)
qed

lemma prefix_suffix_overlap:
  assumes "distinct xs" "xs = g @ u" "rev xs = b @ v" "set g \<inter> set b \<noteq> {}"
  shows "set xs = set g \<union> set b"
proof -
  have xs: "xs = rev v @ rev b" using assms(3) by (metis rev_append rev_rev_ident)
  have "length (rev v) < length g"
  proof (rule ccontr)
    assume "\<not> length (rev v) < length g"
    then have "g = take (length g) (rev v)" using assms(2) xs by (metis append_eq_conv_conj not_less take_append diff_is_0_eq take0 append_Nil2)
    then have "set g \<subseteq> set (rev v)" by (metis set_take_subset)
    then show False using assms(1,4) xs by auto
  qed
  then have "rev v = take (length (rev v)) g"
    using assms(2) xs by (metis append_eq_conv_conj less_imp_le take_append diff_is_0_eq take0 append_Nil2)
  then have "set v \<subseteq> set g" by (metis set_rev set_take_subset)
  moreover have "set xs = set v \<union> set b" using xs by simp
  moreover have "set g \<subseteq> set xs" using assms(2) by simp
  ultimately show ?thesis by blast
qed

lemma ids_stake_bound:
  assumes "distinct is" "is = stake_prefix (stake_by_id c) b xs"
  shows "sum (stake_by_id c) (set is) \<le> b"
  using stake_prefix_sum [of "stake_by_id c" b xs] assms by (simp add: sum_list_distinct_conv_sum_set)

lemma good_bad_disjoint:
  assumes "wf_committee c" "wf_scores c scores" "thr \<le> 33"
  shows "set (good_ids c scores thr) \<inter> set (bad_ids c scores thr) = {}"
proof (rule ccontr)
  let ?xs = "map fst (authorities_by_score_desc scores)" and ?b = "(thr * total_stake c) div 100"
  let ?G = "set (good_ids c scores thr)" and ?B = "set (bad_ids c scores thr)"
  assume ne: "?G \<inter> ?B \<noteq> {}"
  obtain g where g: "?xs = good_ids c scores thr @ g"
    using stake_prefix_prefix unfolding good_ids_def by blast
  obtain b where b: "rev ?xs = bad_ids c scores thr @ b"
    using stake_prefix_prefix unfolding bad_ids_def by blast
  have xs: "distinct ?xs" "set ?xs = committee_ids c"
    using assms(2) by (auto simp: wf_scores_def distinct_by_score)
  have "committee_ids c = ?G \<union> ?B"
    using prefix_suffix_overlap [OF xs(1) g b ne] xs(2) by simp
  then have "total_stake c = sum (stake_by_id c) (?G \<union> ?B)"
    using sum_stake_by_id [OF assms(1)] by simp
  also have "\<dots> \<le> sum (stake_by_id c) ?G + sum (stake_by_id c) ?B"
    by (metis List.finite_set le_add1 sum.union_inter)
  also have "\<dots> \<le> ?b + ?b"
    using ids_stake_bound [OF good_bad_ids(1) [OF assms(2)] good_ids_def]
      ids_stake_bound [OF good_bad_ids(3) [OF assms(2)] bad_ids_def] by (intro add_mono)
  also have "?b \<le> (33 * total_stake c) div 100" using assms(3) by (intro div_le_mono mult_le_mono1)
  then have "?b + ?b \<le> (66 * total_stake c) div 100" by linarith
  finally have "total_stake c \<le> (66 * total_stake c) div 100" .
  moreover have "0 < total_stake c" using assms(1) by (simp add: wf_committee_def)
  ultimately show False by linarith
qed

text \<open>With final scores of a well-formed committee and a threshold of at most 33 percent,
  the swap table is built without panicking. Its good nodes are the longest run of best
  scorers, and its bad nodes the longest run of worst scorers, whose stake stays within the
  threshold's share of the total, and no authority is both good and bad. With a larger
  threshold, or scores that are not final, the construction panics.\<close>

theorem leader_swap_table_new_correct:
  assumes "wf_committee c" "wf_scores c scores"
  shows "if thr \<le> 33 \<and> final_of_schedule scores
    then \<exists>t. leader_swap_table_new c r scores thr = Some t \<and> lst_round t = r
      \<and> map auth_id (lst_good_nodes t) = good_ids c scores thr
      \<and> map fst (lst_bad_nodes t) = bad_ids c scores thr
      \<and> set (lst_good_nodes t) \<subseteq> set (authorities c)
      \<and> sum (stake_by_id c) (set (good_ids c scores thr)) \<le> (thr * total_stake c) div 100
      \<and> sum (stake_by_id c) (set (bad_ids c scores thr)) \<le> (thr * total_stake c) div 100
      \<and> set (good_ids c scores thr) \<inter> set (bad_ids c scores thr) = {}
    else leader_swap_table_new c r scores thr = None"
proof (cases "thr \<le> 33 \<and> final_of_schedule scores")
  case True
  have "map auth_id (map (\<lambda>i. the (authority_lookup c i)) (good_ids c scores thr)) = good_ids c scores thr"
    unfolding map_map comp_def
    using lookup_ids(3) [OF assms(1)] good_bad_ids(2) [OF assms(2)] by (intro map_idI) blast
  moreover have "set (map (\<lambda>i. the (authority_lookup c i)) (good_ids c scores thr)) \<subseteq> set (authorities c)"
    using lookup_ids(2) [OF assms(1)] good_bad_ids(2) [OF assms(2), of thr]
    by (auto simp del: image_iff) (meson subsetD)
  ultimately show ?thesis
    using True good_bad_disjoint [OF assms] leader_swap_table_new_eq [OF assms, of r thr]
      ids_stake_bound [OF good_bad_ids(1) [OF assms(2)] good_ids_def]
      ids_stake_bound [OF good_bad_ids(3) [OF assms(2)] bad_ids_def]
    by (simp add: comp_def)
next
  case False
  then show ?thesis unfolding if_not_P [OF False] leader_swap_table_new_eq [OF assms] by simp
qed

definition example_scores :: reputation_scores where
  "example_scores = \<lparr>scores_per_authority = [(0, 5), (1, 7), (2, 5), (3, 9)], final_of_schedule = True\<rparr>"

lemma wf_example_scores: "wf_scores example_committee example_scores"
  unfolding wf_scores_def ids_example by (auto simp: example_scores_def)

lemma total_stake_example: "total_stake example_committee = 4"
  using sum_stake_by_id [OF example_committee_wf] unfolding ids_example
  by (simp add: stake_example)

lemma ids_example_scores: "good_ids example_committee example_scores 33 = [3]"
  "bad_ids example_committee example_scores 33 = [0]"
  by (simp_all add: good_ids_def bad_ids_def authorities_by_score_desc_def sort_by_def score_order_def
      example_scores_def total_stake_example stake_example)

theorem leader_swap_table_new_correct_witness:
  "\<exists>t. leader_swap_table_new example_committee 10 example_scores 33 = Some t
    \<and> map auth_id (lst_good_nodes t) = [3] \<and> map fst (lst_bad_nodes t) = [0]"
proof -
  have "final_of_schedule example_scores" by (simp add: example_scores_def)
  then show ?thesis
    using leader_swap_table_new_correct [OF example_committee_wf wf_example_scores, of 33 10]
    by (auto simp: ids_example_scores)
qed

section \<open>Leaders\<close>

text \<open>The documented behaviour of the draws: the uniform one picks an element and fails only on
  an empty list, the weighted one picks an element when some weight is positive.\<close>

definition lawful_rng :: "leader_rng \<Rightarrow> bool" where
  "lawful_rng rng \<longleftrightarrow>
     (\<forall>r xs. (case rng_choose rng r xs of None \<Rightarrow> xs = [] | Some a \<Rightarrow> a \<in> set xs))
     \<and> (\<forall>s xs. (\<exists>x \<in> set xs. 0 < snd x) \<longrightarrow>
          (\<exists>a. rng_choose_weighted rng s xs = Some a \<and> a \<in> fst ` set xs))"

lemma lawful_choose:
  assumes "lawful_rng rng"
  shows "xs \<noteq> [] \<Longrightarrow> \<exists>a. rng_choose rng r xs = Some a \<and> a \<in> set xs" and "rng_choose rng r [] = None"
proof -
  have *: "case rng_choose rng r xs of None \<Rightarrow> xs = [] | Some a \<Rightarrow> a \<in> set xs" for xs
    using assms unfolding lawful_rng_def by blast
  show "\<exists>a. rng_choose rng r xs = Some a \<and> a \<in> set xs" if "xs \<noteq> []"
    using * [of xs] that by (cases "rng_choose rng r xs") auto
  show "rng_choose rng r [] = None" using * [of "[]"] by (cases "rng_choose rng r []") auto
qed

definition wf_table :: "committee \<Rightarrow> leader_swap_table \<Rightarrow> bool" where
  "wf_table c t \<longleftrightarrow>
     set (lst_good_nodes t) \<subseteq> set (authorities c)
     \<and> auth_id ` set (lst_good_nodes t) \<inter> fst ` set (lst_bad_nodes t) = {}"

text \<open>Every bad node finds a good one to be swapped with.\<close>

definition swappable :: "leader_swap_table \<Rightarrow> bool" where
  "swappable t \<longleftrightarrow> lst_bad_nodes t \<noteq> [] \<longrightarrow> lst_good_nodes t \<noteq> []"

lemma wf_table_default: "wf_table c leader_swap_table_default" "swappable leader_swap_table_default"
  by (simp_all add: wf_table_def swappable_def leader_swap_table_default_def)

lemma wf_table_new:
  assumes "wf_committee c" "wf_scores c scores" "leader_swap_table_new c r scores thr = Some t"
  shows "wf_table c t"
proof -
  have thr: "thr \<le> 33" and t: "lst_good_nodes t = map (\<lambda>i. the (authority_lookup c i)) (good_ids c scores thr)"
      "lst_bad_nodes t = map (\<lambda>i. (i, the (authority_lookup c i))) (bad_ids c scores thr)"
    using assms(3) leader_swap_table_new_eq [OF assms(1,2)] by (auto split: if_splits)
  have l: "the (authority_lookup c i) \<in> set (authorities c)" "auth_id (the (authority_lookup c i)) = i"
    if "i \<in> set (good_ids c scores thr)" for i
  proof -
    from that have "i \<in> committee_ids c" by (rule subsetD [OF good_bad_ids(2) [OF assms(2)]])
    then show "the (authority_lookup c i) \<in> set (authorities c)" "auth_id (the (authority_lookup c i)) = i"
      using lookup_ids(2,3) [OF assms(1)] by simp_all
  qed
  have "auth_id ` set (lst_good_nodes t) = set (good_ids c scores thr)"
    unfolding t set_map image_image using l(2) by simp
  moreover have "fst ` set (lst_bad_nodes t) = set (bad_ids c scores thr)"
    unfolding t set_map image_image by simp
  moreover have "set (lst_good_nodes t) \<subseteq> set (authorities c)" unfolding t set_map using l(1) by blast
  ultimately show ?thesis
    using good_bad_disjoint [OF assms(1,2) thr] by (simp add: wf_table_def)
qed

text \<open>If no authority holds more than the threshold's share of stake, there is a good node.\<close>

lemma swappable_new:
  assumes "wf_committee c" "wf_scores c scores" "leader_swap_table_new c r scores thr = Some t"
    and "\<And>i. stake_by_id c i \<le> (thr * total_stake c) div 100"
  shows "swappable t"
proof -
  have t: "lst_good_nodes t = map (\<lambda>i. the (authority_lookup c i)) (good_ids c scores thr)"
      "lst_bad_nodes t = map (\<lambda>i. (i, the (authority_lookup c i))) (bad_ids c scores thr)"
    using assms(3) leader_swap_table_new_eq [OF assms(1,2)] by (auto split: if_splits)
  have "map fst (authorities_by_score_desc scores) = []" if "good_ids c scores thr = []"
    using that assms(4) unfolding good_ids_def
    by (cases "map fst (authorities_by_score_desc scores)") simp_all
  then have "bad_ids c scores thr = []" if "good_ids c scores thr = []"
    using that by (simp add: bad_ids_def)
  then show ?thesis by (auto simp: swappable_def t)
qed

lemma committee_leader_member:
  assumes "wf_committee c" "lawful_rng rng"
  shows "\<exists>a. committee_leader (rng_choose_weighted rng) c r = Some a \<and> a \<in> set (authorities c)"
proof -
  let ?xs = "map (\<lambda>a. (a, auth_stake a)) (authorities c)"
  have "\<exists>x \<in> set ?xs. 0 < snd x"
  proof (rule ccontr)
    assume "\<not> (\<exists>x \<in> set ?xs. 0 < snd x)"
    then have "total_stake c = 0" by (auto simp: total_stake_exact [OF assms(1)] authorities_def)
    with assms(1) show False by (simp add: wf_committee_def)
  qed
  then obtain a where "rng_choose_weighted rng r ?xs = Some a" "a \<in> fst ` set ?xs"
    using assms(2) unfolding lawful_rng_def by blast
  then show ?thesis by (auto simp: committee_leader_def)
qed

lemma leader_total:
  assumes "wf_committee (ls_committee ls)" "lawful_rng rng" "r mod 2 = 0"
    and "wf_table (ls_committee ls) (ls_leader_swap_table ls)" "swappable (ls_leader_swap_table ls)"
  shows "\<exists>a. leader rng ls r = Some a \<and> a \<in> set (authorities (ls_committee ls))
    \<and> auth_id a \<notin> fst ` set (lst_bad_nodes (ls_leader_swap_table ls))"
proof -
  let ?c = "ls_committee ls" and ?t = "ls_leader_swap_table ls"
  obtain l where l: "committee_leader (rng_choose_weighted rng) ?c r = Some l" "l \<in> set (authorities ?c)"
    using committee_leader_member [OF assms(1,2)] by blast
  have id: "authority_id l = Some (auth_id l)" by (rule initialised_getters(1) [OF assms(1) l(2)])
  show ?thesis
  proof (cases "map_of (lst_bad_nodes ?t) (auth_id l)")
    case None
    then show ?thesis
      using l id assms(3) by (auto simp: leader_def swap_def map_of_eq_None_iff)
  next
    case (Some b)
    then have "lst_good_nodes ?t \<noteq> []"
      using assms(5) by (auto simp: swappable_def dest: map_of_SomeD)
    then obtain g where g: "rng_choose rng r (lst_good_nodes ?t) = Some g" "g \<in> set (lst_good_nodes ?t)"
      using lawful_choose(1) [OF assms(2)] by blast
    then show ?thesis
      using l id Some assms(3,4) by (auto simp: leader_def swap_def wf_table_def)
  qed
qed

definition example_rng :: leader_rng where
  "example_rng =
     \<lparr>rng_choose_weighted = (\<lambda>s xs. let ys = filter (\<lambda>x. 0 < snd x) xs in
        if ys = [] then None else Some (fst (ys ! (s div 2 mod length ys)))),
      rng_choose = (\<lambda>r xs. if xs = [] then None else Some (xs ! (r div 2 mod length xs)))\<rparr>"

lemma lawful_example_rng: "lawful_rng example_rng"
  unfolding lawful_rng_def
proof (intro conjI allI impI)
  fix r and xs :: "authority list"
  show "case rng_choose example_rng r xs of None \<Rightarrow> xs = [] | Some a \<Rightarrow> a \<in> set xs"
    by (simp add: example_rng_def)
next
  fix s and xs :: "(authority \<times> stake) list"
  define ys where "ys = filter (\<lambda>x. 0 < snd x) xs"
  assume "\<exists>x \<in> set xs. 0 < snd x"
  then have ne: "ys \<noteq> []" by (auto simp: ys_def filter_empty_conv)
  then have "ys ! (s div 2 mod length ys) \<in> set ys" by (intro nth_mem) simp
  then have "ys ! (s div 2 mod length ys) \<in> set xs" by (simp add: ys_def)
  moreover have "rng_choose_weighted example_rng s xs = Some (fst (ys ! (s div 2 mod length ys)))"
    using ne by (simp add: example_rng_def ys_def Let_def)
  ultimately show "\<exists>a. rng_choose_weighted example_rng s xs = Some a \<and> a \<in> fst ` set xs" by blast
qed

lemma leader_certificate_spec:
  assumes "wf_committee (ls_committee ls)" "lawful_rng rng" "r mod 2 = 0"
    and "wf_table (ls_committee ls) (ls_leader_swap_table ls)" "swappable (ls_leader_swap_table ls)"
    and "wf_dag dag"
  shows "\<exists>a x. leader_certificate rng ls r dag = Some (a, x)
    \<and> a \<in> set (authorities (ls_committee ls))
    \<and> auth_id a \<notin> fst ` set (lst_bad_nodes (ls_leader_swap_table ls))
    \<and> (\<forall>y. x = Some y \<longleftrightarrow> in_dag dag y \<and> cert_round y = r \<and> cert_origin y = auth_id a)"
proof -
  obtain a where a: "leader rng ls r = Some a" "a \<in> set (authorities (ls_committee ls))"
      "auth_id a \<notin> fst ` set (lst_bad_nodes (ls_leader_swap_table ls))"
    using leader_total [OF assms(1-5)] by blast
  have id: "authority_id a = Some (auth_id a)" by (rule initialised_getters(1) [OF assms(1) a(2)])
  let ?x = "case map_of dag r of None \<Rightarrow> None | Some row \<Rightarrow> map_option snd (map_of row (auth_id a))"
  have "?x = Some y \<longleftrightarrow> in_dag dag y \<and> cert_round y = r \<and> cert_origin y = auth_id a" for y
  proof (cases "map_of dag r")
    case (Some row)
    note wf = wf_dag_row [OF assms(6) Some]
    show ?thesis
    proof
      assume "?x = Some y"
      then obtain d where m: "map_of row (auth_id a) = Some (d, y)" using Some by auto
      note f = wf_row_lookup [OF wf m]
      then show "in_dag dag y \<and> cert_round y = r \<and> cert_origin y = auth_id a"
        using Some m by (simp add: in_dag_def)
    next
      assume "in_dag dag y \<and> cert_round y = r \<and> cert_origin y = auth_id a"
      then show "?x = Some y" using Some by (auto simp: in_dag_def)
    qed
  qed (auto simp: in_dag_def)
  then show ?thesis using a id by (simp add: leader_certificate_def)
qed

text \<open>As long as the swap table pairs bad nodes with good ones, electing the leader of an
  even round never panics, elects a committee member that is not one of the bad nodes, and
  returns that member's certificate of the round exactly when the DAG holds it.\<close>

theorem leader_certificate_correct:
  assumes "wf_committee (ls_committee ls)" "lawful_rng rng" "r mod 2 = 0"
    and "wf_table (ls_committee ls) (ls_leader_swap_table ls)" "swappable (ls_leader_swap_table ls)"
    and "wf_dag dag"
  shows "\<exists>a x. leader_certificate rng ls r dag = Some (a, x)
    \<and> a \<in> set (authorities (ls_committee ls))
    \<and> auth_id a \<notin> fst ` set (lst_bad_nodes (ls_leader_swap_table ls))
    \<and> (\<forall>y. x = Some y \<longleftrightarrow> in_dag dag y \<and> cert_round y = r \<and> cert_origin y = auth_id a)"
  using assms by (rule leader_certificate_spec)

theorem leader_certificate_correct_witness:
  "\<exists>a x. leader_certificate example_rng
      (leader_schedule_new example_committee leader_swap_table_default) 4 [] = Some (a, x)
    \<and> a \<in> set (authorities example_committee)"
proof -
  have d: "wf_dag []" by (simp add: wf_dag_def)
  show ?thesis
    using leader_certificate_correct [where ls = "leader_schedule_new example_committee leader_swap_table_default"
        and r = 4, OF _ lawful_example_rng _ _ _ d] example_committee_wf wf_table_default
    by (auto simp: leader_schedule_new_def)
qed

text \<open>The schedule does not protect itself against an empty list of good nodes: if the best
  scorer alone holds more than the threshold's share of stake, no node is good, and electing
  a leader that is one of the bad nodes panics.\<close>

theorem leader_panics_without_good_nodes:
  assumes "wf_committee c" "wf_scores c scores" "lawful_rng rng"
    and "leader_swap_table_new c r0 scores thr = Some t"
    and "(thr * total_stake c) div 100 < stake_by_id c (fst (hd (authorities_by_score_desc scores)))"
    and "r mod 2 = 0" "committee_leader (rng_choose_weighted rng) c r = Some l"
    and "l \<in> set (authorities c)" "auth_id l \<in> set (bad_ids c scores thr)"
  shows "lst_good_nodes t = [] \<and> leader rng (leader_schedule_new c t) r = None"
proof -
  have t: "lst_good_nodes t = map (\<lambda>i. the (authority_lookup c i)) (good_ids c scores thr)"
      "lst_bad_nodes t = map (\<lambda>i. (i, the (authority_lookup c i))) (bad_ids c scores thr)"
    using assms(4) leader_swap_table_new_eq [OF assms(1,2)] by (auto split: if_splits)
  have "good_ids c scores thr = []"
    using assms(5) by (cases "authorities_by_score_desc scores") (simp_all add: good_ids_def)
  with t(1) have good: "lst_good_nodes t = []" by simp
  have "map_of (lst_bad_nodes t) (auth_id l) \<noteq> None"
    using assms(9) by (auto simp: t(2) map_of_eq_None_iff image_image)
  then show ?thesis
    using good assms(7) initialised_getters(1) [OF assms(1,8)] lawful_choose(2) [OF assms(3)]
    by (auto simp: leader_def swap_def leader_schedule_new_def)
qed

text \<open>Two authorities, one of which holds three quarters of the stake.\<close>

definition skewed_authority :: "nat \<Rightarrow> stake \<Rightarrow> authority" where
  "skewed_authority i s = authority_initialise i (authority_new (10 + i) s ''a'' i ''h'')"

definition skewed_committee :: committee where
  "skewed_committee =
     (let as = [(10, skewed_authority 0 3), (11, skewed_authority 1 1)]
      in \<lparr>cm_authorities = as, cm_authorities_by_id = map (\<lambda>(k, a). (auth_id a, a)) as, cm_epoch = 1,
          cm_quorum_threshold = 3, cm_validity_threshold = 2\<rparr>)"

lemmas skewed_simps =
  skewed_committee_def skewed_authority_def authority_initialise_def authority_new_def
  authorities_def total_stake_def u64_wrapping_sum_def u64_size_def

lemma wf_skewed: "wf_committee skewed_committee"
  by (simp add: wf_committee_def skewed_simps upt_rec)

definition skewed_scores :: reputation_scores where
  "skewed_scores = \<lparr>scores_per_authority = [(0, 5), (1, 2)], final_of_schedule = True\<rparr>"

lemma skewed_by_score: "authorities_by_score_desc skewed_scores = [(0, 5), (1, 2)]"
  by (simp add: authorities_by_score_desc_def sort_by_def score_order_def skewed_scores_def)

theorem leader_panics_without_good_nodes_witness:
  "\<exists>t. leader_swap_table_new skewed_committee 0 skewed_scores 33 = Some t
    \<and> leader example_rng (leader_schedule_new skewed_committee t) 2 = None"
proof -
  have scores: "wf_scores skewed_committee skewed_scores"
    by (auto simp: wf_scores_def skewed_simps skewed_scores_def)
  have "final_of_schedule skewed_scores" by (simp add: skewed_scores_def)
  then obtain t where t: "leader_swap_table_new skewed_committee 0 skewed_scores 33 = Some t"
    using leader_swap_table_new_eq [OF wf_skewed scores, of 0 33] by simp
  have "committee_leader (rng_choose_weighted example_rng) skewed_committee 2 = Some (skewed_authority 1 1)"
    by (simp add: committee_leader_def example_rng_def skewed_simps)
  moreover have "skewed_authority 1 1 \<in> set (authorities skewed_committee)"
    by (simp add: skewed_committee_def authorities_def)
  moreover have "(33 * total_stake skewed_committee) div 100
      < stake_by_id skewed_committee (fst (hd (authorities_by_score_desc skewed_scores)))"
    unfolding skewed_by_score by (simp add: stake_by_id_def skewed_simps)
  moreover have "auth_id (skewed_authority 1 1) \<in> set (bad_ids skewed_committee skewed_scores 33)"
    unfolding bad_ids_def skewed_by_score by (simp add: stake_by_id_def skewed_simps)
  ultimately show ?thesis
    using leader_panics_without_good_nodes [OF wf_skewed scores lawful_example_rng t, of 2] t by simp
qed

text \<open>A restarted node elects leaders as before: after a commit with final scores has been
  persisted, building the schedule from the store gives the swap table that the running node
  built from that commit, and persisting a later commit without final scores does not change it.\<close>

theorem from_store_roundtrip:
  assumes "wf_store st" "distinct (map fst lc)"
    and "\<forall>k \<in> fst ` set (cs_committed_sub_dags st). k < sd_sub_dag_index s"
    and "write_consensus_state True st lc s = Inr st'"
  shows "from_store c st' thr =
    (if final_of_schedule (sd_reputation_score s)
     then map_option (leader_schedule_new c)
       (leader_swap_table_new c (leader_round s) (sd_reputation_score s) thr)
     else from_store c st thr)"
proof -
  have read: "read_latest_commit_with_final_reputation_scores st'
      = (if final_of_schedule (sd_reputation_score s) then Some (V2 (v2_from_sub_dag s))
         else read_latest_commit_with_final_reputation_scores st)"
    by (rule read_final_after_write [OF assms(1,3,4)])
  show ?thesis
    unfolding from_store_def read
    by (cases "leader_swap_table_new c (leader_round s) (sd_reputation_score s) thr")
      (simp_all add: v2_from_sub_dag_def leader_round_def)
qed

theorem from_store_roundtrip_witness:
  "\<exists>st'. write_consensus_state True \<lparr>cs_last_committed = [], cs_committed_sub_dags = []\<rparr> []
      (example_sub_dag 1 2) = Inr st'
    \<and> from_store example_committee st' 33 = map_option (leader_schedule_new example_committee)
        (leader_swap_table_new example_committee 2
        (sd_reputation_score (example_sub_dag 1 2)) 33)"
proof -
  let ?st = "\<lparr>cs_last_committed = [], cs_committed_sub_dags = []\<rparr> :: consensus_store"
  have "\<exists>st'. write_consensus_state True ?st [] (example_sub_dag 1 2) = Inr st'"
    by (simp add: write_consensus_state_def)
  then obtain st' where w: "write_consensus_state True ?st [] (example_sub_dag 1 2) = Inr st'" ..
  have "wf_store ?st" by (simp add: wf_store_def)
  moreover have "leader_round (example_sub_dag 1 2) = 2" "final_of_schedule (sd_reputation_score (example_sub_dag 1 2))"
    by (simp_all add: leader_round_def example_sub_dag_def)
  ultimately show ?thesis
    using from_store_roundtrip [of ?st "[]" "example_sub_dag 1 2" st' example_committee 33] w by auto
qed

end
