(* ===== verification/Narwhal_Order_Dag.thy ===== *)
theory Narwhal_Order_Dag
  imports Narwhal_State
begin

text \<open>
  Flattening the sub-dag of a leader, \<open>src/narwhal/primary/src/consensus/utils.rs\<close>: a
  depth-first search with an explicit stack and a set of digests already seen, which skips the
  certificates that are committed and stops above the leader's garbage-collection round. The
  loop runs on fuel; every turn pops the stack, and every push marks a digest of the DAG that
  was not marked, so the number of certificates plus two turns are enough.
\<close>

section \<open>Flattening a sub-dag\<close>

definition dag_find :: "dag \<Rightarrow> round \<Rightarrow> digest \<Rightarrow> (digest \<times> certificate) option" where
  "dag_find dag r p = do { row \<leftarrow> map_of dag r; List.find (\<lambda>(d, _). d = p) (map snd row) }"

text \<open>Rust's \<open>round - 1\<close> on round zero does not return.\<close>

fun visit_parents ::
    "dag \<Rightarrow> (authority_identifier \<times> round) list \<Rightarrow> certificate \<Rightarrow> digest list \<Rightarrow>
     certificate list \<Rightarrow> digest set \<Rightarrow> (certificate list \<times> digest set) option" where
  "visit_parents dag lc x [] buffer seen = Some (buffer, seen)"
| "visit_parents dag lc x (p # ps) buffer seen = do {
     r \<leftarrow> u64_checked_sub (cert_round x) 1;
     (d, y) \<leftarrow> dag_find dag r p;
     let skip = (d \<in> seen \<or>
       (case map_of lc (cert_origin y) of None \<Rightarrow> False | Some r \<Rightarrow> cert_round y \<le> r));
     if skip then visit_parents dag lc x ps buffer seen
     else visit_parents dag lc x ps (y # buffer) (insert d seen)
   }"

text \<open>The buffer is a stack, its top first.\<close>

fun order_loop ::
    "nat \<Rightarrow> dag \<Rightarrow> (authority_identifier \<times> round) list \<Rightarrow> round \<Rightarrow> certificate list \<Rightarrow> digest set \<Rightarrow>
     certificate list \<Rightarrow> certificate list option" where
  "order_loop 0 dag lc gc buffer seen ordered = None"
| "order_loop (Suc n) dag lc gc [] seen ordered = Some ordered"
| "order_loop (Suc n) dag lc gc (x # buffer) seen ordered =
     (if cert_round x = gc + 1 then order_loop n dag lc gc buffer seen (ordered @ [x])
      else do {
        (buffer, seen) \<leftarrow> visit_parents dag lc x (cert_parents x) buffer seen;
        order_loop n dag lc gc buffer seen (ordered @ [x])
      })"

definition dag_size :: "dag \<Rightarrow> nat" where
  "dag_size dag = sum_list (map (length \<circ> snd) dag)"

definition order_dag :: "certificate \<Rightarrow> consensus_state \<Rightarrow> certificate list option" where
  "order_dag lead st = do {
     rust_assert (0 < cert_round lead);
     let gc = saturating_sub (cert_round lead) (st_gc_depth st);
     ordered \<leftarrow> order_loop (dag_size (st_dag st) + 2) (st_dag st) (st_last_committed st) gc
       [lead] {} [];
     Some (sort_key cert_round ordered)
   }"

section \<open>Lookups\<close>

text \<open>No two certificates of the DAG have the same digest: digests are hashes of headers.\<close>

definition distinct_digests :: "dag \<Rightarrow> bool" where
  "distinct_digests dag \<longleftrightarrow>
     (\<forall>x y. in_dag dag x \<longrightarrow> in_dag dag y \<longrightarrow> cert_digest x = cert_digest y \<longrightarrow> x = y)"

definition committed_before :: "(authority_identifier \<times> round) list \<Rightarrow> certificate \<Rightarrow> bool" where
  "committed_before lc y \<longleftrightarrow>
     (case map_of lc (cert_origin y) of None \<Rightarrow> False | Some r \<Rightarrow> cert_round y \<le> r)"

lemma dag_find_SomeD:
  assumes "wf_dag dag" "dag_find dag r p = Some (d, y)"
  shows "d = p" "cert_digest y = p" "in_dag dag y" "cert_round y = r"
proof -
  obtain row where row: "map_of dag r = Some row" and f: "List.find (\<lambda>(d, _). d = p) (map snd row) = Some (d, y)"
    using assms(2) by (auto simp: dag_find_def split: bind_splits)
  have m: "(d, y) \<in> set (map snd row)" "d = p"
    using f by (metis (mono_tags, lifting) find_Some_iff case_prodD nth_mem)+
  then obtain a where a: "(a, d, y) \<in> set row" by auto
  then have "y \<in> set (dag_round dag r)" using row by (force simp: dag_round_def)
  then show "in_dag dag y" "cert_round y = r" using in_dag_round [OF assms(1)] by auto
  show "d = p" "cert_digest y = p"
    using m(2) a wf_dag_row [OF assms(1) row] by (auto simp: wf_row_def list_all_iff)
qed

lemma dag_find_exists:
  assumes "wf_dag dag" "y \<in> set (dag_round dag r)"
  shows "\<exists>z. dag_find dag r (cert_digest y) = Some (cert_digest y, z)"
proof -
  obtain row where row: "map_of dag r = Some row" "y \<in> set (map (snd \<circ> snd) row)"
    using assms(2) by (cases "map_of dag r") (auto simp: dag_round_def)
  note m = wf_row_mem(1) [OF wf_dag_row [OF assms(1) row(1)] row(2)]
  have "(cert_digest y, y) \<in> set (map snd row)" using map_of_SomeD [OF m] by force
  then have "List.find (\<lambda>(d, _). d = cert_digest y) (map snd row) \<noteq> None"
    unfolding find_None_iff by fastforce
  then obtain d z where f: "List.find (\<lambda>(d, _). d = cert_digest y) (map snd row) = Some (d, z)"
    by auto
  then have "dag_find dag r (cert_digest y) = Some (d, z)" using row(1) by (simp add: dag_find_def)
  with dag_find_SomeD(1) [OF assms(1) this] show ?thesis by blast
qed

lemma finite_in_dag:
  assumes "wf_dag dag"
  shows "finite {x. in_dag dag x}" "card (cert_digest ` {x. in_dag dag x}) \<le> dag_size dag"
proof -
  let ?xs = "concat (map (map (snd \<circ> snd) \<circ> snd) dag)"
  have sub: "{x. in_dag dag x} \<subseteq> set ?xs"
  proof
    fix x
    assume "x \<in> {x. in_dag dag x}"
    then obtain row where "map_of dag (cert_round x) = Some row"
        "map_of row (cert_origin x) = Some (cert_digest x, x)"
      by (auto simp: in_dag_def split: option.splits)
    then have "(cert_round x, row) \<in> set dag" "(cert_origin x, cert_digest x, x) \<in> set row"
      by (auto dest: map_of_SomeD)
    then show "x \<in> set ?xs" by force
  qed
  then show fin: "finite {x. in_dag dag x}" by (rule finite_subset) simp
  have "card (cert_digest ` {x. in_dag dag x}) \<le> card {x. in_dag dag x}" by (rule card_image_le [OF fin])
  also have "\<dots> \<le> card (set ?xs)" by (rule card_mono [OF _ sub]) simp
  also have "\<dots> \<le> length ?xs" by (rule card_length)
  also have "\<dots> = dag_size dag" by (simp add: dag_size_def length_concat comp_def)
  finally show "card (cert_digest ` {x. in_dag dag x}) \<le> dag_size dag" .
qed

section \<open>One step of the search\<close>

text \<open>The search follows a parent that is not committed, from a certificate above the round
  after garbage collection.\<close>

definition follows ::
    "dag \<Rightarrow> (authority_identifier \<times> round) list \<Rightarrow> round \<Rightarrow> certificate \<Rightarrow> certificate \<Rightarrow> bool" where
  "follows dag lc gc x y \<longleftrightarrow>
     cert_round x \<noteq> gc + 1 \<and> in_dag dag y \<and> cert_round x = cert_round y + 1
     \<and> cert_digest y \<in> set (cert_parents x) \<and> \<not> committed_before lc y"

lemma visit_parents_spec:
  assumes "wf_dag dag" "0 < cert_round x"
    and "\<And>p. p \<in> set ps \<Longrightarrow> \<exists>y. dag_find dag (cert_round x - 1) p = Some (p, y)"
  shows "\<exists>new. visit_parents dag lc x ps buffer seen = Some (new @ buffer, seen \<union> cert_digest ` set new)
    \<and> distinct (map cert_digest new) \<and> cert_digest ` set new \<inter> seen = {}
    \<and> (\<forall>y \<in> set new. in_dag dag y \<and> cert_round y = cert_round x - 1 \<and> cert_digest y \<in> set ps
        \<and> \<not> committed_before lc y)
    \<and> (\<forall>p \<in> set ps. \<forall>y. dag_find dag (cert_round x - 1) p = Some (p, y) \<longrightarrow>
        committed_before lc y \<or> p \<in> seen \<union> cert_digest ` set new)"
  using assms(3)
proof (induction ps arbitrary: buffer seen)
  case (Cons p ps)
  obtain y where y: "dag_find dag (cert_round x - 1) p = Some (p, y)" using Cons.prems by auto
  note f = dag_find_SomeD [OF assms(1) y]
  have sub: "u64_checked_sub (cert_round x) 1 = Some (cert_round x - 1)" using assms(2) by simp
  show ?case
  proof (cases "p \<in> seen \<or> committed_before lc y")
    case True
    have "visit_parents dag lc x (p # ps) buffer seen = visit_parents dag lc x ps buffer seen"
      unfolding visit_parents.simps sub bind.bind_lunit y using True
      by (simp add: committed_before_def Let_def)
    moreover obtain new where "visit_parents dag lc x ps buffer seen
        = Some (new @ buffer, seen \<union> cert_digest ` set new)"
        "distinct (map cert_digest new)" "cert_digest ` set new \<inter> seen = {}"
        "\<forall>y \<in> set new. in_dag dag y \<and> cert_round y = cert_round x - 1 \<and> cert_digest y \<in> set ps
          \<and> \<not> committed_before lc y"
        "\<forall>p \<in> set ps. \<forall>y. dag_find dag (cert_round x - 1) p = Some (p, y) \<longrightarrow>
          committed_before lc y \<or> p \<in> seen \<union> cert_digest ` set new"
      using Cons by (metis list.set_intros(2))
    ultimately show ?thesis using True y by (intro exI [of _ new]) auto
  next
    case False
    have "visit_parents dag lc x (p # ps) buffer seen
        = visit_parents dag lc x ps (y # buffer) (insert p seen)"
      unfolding visit_parents.simps sub bind.bind_lunit y using False
      by (simp add: committed_before_def Let_def)
    moreover obtain new where "visit_parents dag lc x ps (y # buffer) (insert p seen)
        = Some (new @ y # buffer, insert p seen \<union> cert_digest ` set new)"
        "distinct (map cert_digest new)" "cert_digest ` set new \<inter> insert p seen = {}"
        "\<forall>y \<in> set new. in_dag dag y \<and> cert_round y = cert_round x - 1 \<and> cert_digest y \<in> set ps
          \<and> \<not> committed_before lc y"
        "\<forall>q \<in> set ps. \<forall>y. dag_find dag (cert_round x - 1) q = Some (q, y) \<longrightarrow>
          committed_before lc y \<or> q \<in> insert p seen \<union> cert_digest ` set new"
      using Cons by (metis list.set_intros(2))
    ultimately show ?thesis using False y f by (intro exI [of _ "new @ [y]"]) auto
  qed
qed simp

section \<open>The search\<close>

text \<open>What holds at the head of the loop: every certificate met so far is reachable from the
  leader and is met once, the marked digests are those of the certificates met (the leader
  apart), and the successors of a finished certificate have been met.\<close>

definition search_inv ::
    "dag \<Rightarrow> (authority_identifier \<times> round) list \<Rightarrow> round \<Rightarrow> certificate \<Rightarrow> certificate list \<Rightarrow> digest set \<Rightarrow>
     certificate list \<Rightarrow> bool" where
  "search_inv dag lc gc lead buffer seen ordered \<longleftrightarrow>
     distinct (ordered @ buffer)
     \<and> seen = cert_digest ` (set (ordered @ buffer) - {lead})
     \<and> lead \<in> set (ordered @ buffer)
     \<and> (\<forall>x \<in> set (ordered @ buffer). in_dag dag x \<and> (follows dag lc gc)\<^sup>*\<^sup>* lead x
          \<and> gc < cert_round x \<and> (x = lead \<or> cert_round x < cert_round lead))
     \<and> (\<forall>x \<in> set ordered. \<forall>y. follows dag lc gc x y \<longrightarrow> y \<in> set (ordered @ buffer))"

lemma search_invD:
  assumes "search_inv dag lc gc lead buffer seen ordered"
  shows "distinct (ordered @ buffer)"
    and "seen = cert_digest ` (set (ordered @ buffer) - {lead})"
    and "lead \<in> set (ordered @ buffer)"
    and "x \<in> set (ordered @ buffer) \<Longrightarrow> in_dag dag x"
    and "x \<in> set (ordered @ buffer) \<Longrightarrow> (follows dag lc gc)\<^sup>*\<^sup>* lead x"
    and "x \<in> set (ordered @ buffer) \<Longrightarrow> gc < cert_round x"
    and "x \<in> set (ordered @ buffer) \<Longrightarrow> x = lead \<or> cert_round x < cert_round lead"
    and "x \<in> set ordered \<Longrightarrow> follows dag lc gc x y \<Longrightarrow> y \<in> set (ordered @ buffer)"
  using assms unfolding search_inv_def by blast+

lemma search_inv_start:
  "in_dag dag lead \<Longrightarrow> gc < cert_round lead \<Longrightarrow> search_inv dag lc gc lead [lead] {} []"
  by (simp add: search_inv_def)

lemma search_inv_end:
  assumes "search_inv dag lc gc lead [] seen ordered"
  shows "set ordered = {x. (follows dag lc gc)\<^sup>*\<^sup>* lead x}" "distinct ordered"
proof -
  note inv = search_invD [OF assms, unfolded append_Nil2]
  have "x \<in> set ordered" if "(follows dag lc gc)\<^sup>*\<^sup>* lead x" for x
    using that by induction (rule inv(3), rule inv(8))
  then show "set ordered = {x. (follows dag lc gc)\<^sup>*\<^sup>* lead x}" using inv(5) by blast
  show "distinct ordered" by (rule inv(1))
qed

text \<open>Garbage collection stops the search: a certificate of the last kept round has no
  successor.\<close>

lemma search_inv_stop:
  assumes "search_inv dag lc gc lead (x # buffer) seen ordered" "cert_round x = gc + 1"
  shows "search_inv dag lc gc lead buffer seen (ordered @ [x])"
proof -
  have "\<not> follows dag lc gc x y" for y using assms(2) by (simp add: follows_def)
  then have "\<forall>z \<in> set (ordered @ [x]). \<forall>y. follows dag lc gc z y \<longrightarrow> y \<in> set (ordered @ x # buffer)"
    using search_invD(8) [OF assms(1)] by (metis Un_iff empty_iff insert_iff list.set set_append)
  then show ?thesis using assms(1) unfolding search_inv_def by simp
qed

lemma search_inv_visit:
  assumes inv: "search_inv dag lc gc lead (x # buffer) seen ordered" and x: "cert_round x \<noteq> gc + 1"
    and wf: "wf_dag dag" "distinct_digests dag"
    and new: "distinct (map cert_digest new)" "cert_digest ` set new \<inter> seen = {}"
      "\<forall>y \<in> set new. in_dag dag y \<and> cert_round y = cert_round x - 1 \<and> cert_digest y \<in> set (cert_parents x)
        \<and> \<not> committed_before lc y"
      "\<forall>p \<in> set (cert_parents x). \<forall>y. dag_find dag (cert_round x - 1) p = Some (p, y) \<longrightarrow>
        committed_before lc y \<or> p \<in> seen \<union> cert_digest ` set new"
  shows "search_inv dag lc gc lead (new @ buffer) (seen \<union> cert_digest ` set new) (ordered @ [x])"
proof -
  let ?V = "set (ordered @ x # buffer)"
  note V = search_invD(4-7) [OF inv] and seen = search_invD(2) [OF inv] and lead = search_invD(3) [OF inv]
    and closed = search_invD(8) [OF inv]
  have rx: "gc + 1 < cert_round x" "cert_round x \<le> cert_round lead" using V(3,4) [of x] x by auto
  have fresh: "y \<notin> ?V" "y \<noteq> lead" if "y \<in> set new" for y
  proof -
    show "y \<noteq> lead" using new(3) that rx by auto
    moreover have "cert_digest y \<notin> seen" using new(2) that by blast
    ultimately show "y \<notin> ?V" unfolding seen by blast
  qed
  have step: "follows dag lc gc x y" if "y \<in> set new" for y
    using new(3) that rx by (auto simp: follows_def)
  have met: "y \<in> ?V \<union> set new" if y: "follows dag lc gc x y" for y
  proof -
    have r: "cert_round y = cert_round x - 1" "in_dag dag y" using y by (auto simp: follows_def)
    have "y \<in> set (dag_round dag (cert_round x - 1))" using in_dag_round [OF wf(1)] r by blast
    from dag_find_exists [OF wf(1) this] obtain z where
      z: "dag_find dag (cert_round x - 1) (cert_digest y) = Some (cert_digest y, z)" by blast
    from dag_find_SomeD(2,3) [OF wf(1) z] have "z = y" using wf(2) r(2) by (auto simp: distinct_digests_def)
    then have "cert_digest y \<in> seen \<union> cert_digest ` set new"
      using new(4) z y by (auto simp: follows_def)
    then have "cert_digest y \<in> cert_digest ` (?V \<union> set new)" unfolding seen by blast
    then obtain w where w: "w \<in> ?V \<union> set new" "cert_digest w = cert_digest y" by (metis imageE)
    then have "in_dag dag w" using V(1) new(3) by blast
    then have "w = y" using w(2) wf(2) r(2) by (simp add: distinct_digests_def)
    then show ?thesis using w(1) by simp
  qed
  have "distinct new" using new(1) by (simp add: distinct_map)
  then have "distinct ((ordered @ [x]) @ new @ buffer)"
    using search_invD(1) [OF inv] fresh(1) by auto
  moreover have "seen \<union> cert_digest ` set new = cert_digest ` (set ((ordered @ [x]) @ new @ buffer) - {lead})"
    unfolding seen using fresh(2) by auto
  moreover have "in_dag dag z \<and> (follows dag lc gc)\<^sup>*\<^sup>* lead z \<and> gc < cert_round z
      \<and> (z = lead \<or> cert_round z < cert_round lead)" if "z \<in> ?V \<union> set new" for z
  proof (cases "z \<in> ?V")
    case False
    then have z: "z \<in> set new" using that by blast
    have "(follows dag lc gc)\<^sup>*\<^sup>* lead z"
      using V(2) [of x] step [OF z] by (meson in_set_conv_decomp rtranclp.rtrancl_into_rtrancl)
    then show ?thesis using new(3) z rx by auto
  qed (use V in blast)
  moreover have U: "set ((ordered @ [x]) @ new @ buffer) = ?V \<union> set new" by auto
  moreover have "\<forall>z \<in> set (ordered @ [x]). \<forall>y. follows dag lc gc z y \<longrightarrow> y \<in> ?V \<union> set new"
    using closed met by simp blast
  ultimately show ?thesis
    unfolding search_inv_def U using lead by blast
qed

text \<open>Every turn of the loop either leaves the digests alone or marks digests of the DAG that
  were not marked; with the stack it decreases, so the fuel is enough.\<close>

lemma order_loop_spec:
  assumes "wf_dag dag" "distinct_digests dag"
    and complete: "\<And>x p. in_dag dag x \<Longrightarrow> gc + 1 < cert_round x \<Longrightarrow> p \<in> set (cert_parents x) \<Longrightarrow>
      \<exists>y. dag_find dag (cert_round x - 1) p = Some (p, y)"
    and "search_inv dag lc gc lead buffer seen ordered"
    and "card (cert_digest ` {x. in_dag dag x} - seen) + length buffer < n"
  shows "\<exists>xs. order_loop n dag lc gc buffer seen ordered = Some xs
    \<and> set xs = {x. (follows dag lc gc)\<^sup>*\<^sup>* lead x} \<and> distinct xs"
  using assms(4,5)
proof (induction n arbitrary: buffer seen ordered)
  case (Suc n)
  let ?D = "cert_digest ` {x. in_dag dag x}"
  show ?case
  proof (cases buffer)
    case Nil
    then show ?thesis using search_inv_end Suc.prems(1) by simp
  next
    case (Cons x buf)
    have inv: "search_inv dag lc gc lead (x # buf) seen ordered" using Suc.prems(1) Cons by simp
    have x: "in_dag dag x" "gc < cert_round x" using search_invD(4,6) [OF inv, of x] by simp_all
    show ?thesis
    proof (cases "cert_round x = gc + 1")
      case True
      then show ?thesis using Suc.IH [OF search_inv_stop [OF inv True]] Suc.prems(2) Cons by simp
    next
      case False
      then have gcx: "gc + 1 < cert_round x" using x(2) by linarith
      then have pos: "0 < cert_round x" by simp
      obtain new where v: "visit_parents dag lc x (cert_parents x) buf seen
          = Some (new @ buf, seen \<union> cert_digest ` set new)"
          and new: "distinct (map cert_digest new)" "cert_digest ` set new \<inter> seen = {}"
            "\<forall>y \<in> set new. in_dag dag y \<and> cert_round y = cert_round x - 1
              \<and> cert_digest y \<in> set (cert_parents x) \<and> \<not> committed_before lc y"
            "\<forall>p \<in> set (cert_parents x). \<forall>y. dag_find dag (cert_round x - 1) p = Some (p, y) \<longrightarrow>
              committed_before lc y \<or> p \<in> seen \<union> cert_digest ` set new"
        using visit_parents_spec [OF assms(1) pos complete [OF x(1) gcx], of "cert_parents x" lc buf seen]
        by auto
      have "cert_digest ` set new \<subseteq> ?D - seen" using new(2,3) by auto
      moreover have "card (cert_digest ` set new) = length new"
        using distinct_card [OF new(1)] by simp
      moreover have "finite ?D" using finite_in_dag(1) [OF assms(1)] by simp
      ultimately have "card (?D - (seen \<union> cert_digest ` set new)) + length new = card (?D - seen)"
        using card_Diff_subset [of "cert_digest ` set new" "?D - seen"]
          card_mono [of "?D - seen" "cert_digest ` set new"]
        by (simp add: Diff_Un Diff_Int2 [symmetric] set_diff_eq Int_def conj_ac)
      then have "card (?D - (seen \<union> cert_digest ` set new)) + length (new @ buf) < n"
        using Suc.prems(2) Cons by simp
      from Suc.IH [OF search_inv_visit [OF inv False assms(1,2) new] this] show ?thesis
        using False v Cons by simp
    qed
  qed
qed simp

section \<open>Executable forms\<close>

definition dag_certs :: "dag \<Rightarrow> certificate list" where
  "dag_certs dag = concat (map (map (snd \<circ> snd) \<circ> snd) dag)"

lemma dag_certs_simps [simp]:
  "dag_certs [] = []" "dag_certs ((r, row) # dag) = map (snd \<circ> snd) row @ dag_certs dag"
  by (simp_all add: dag_certs_def)

lemma in_dag_certs:
  assumes "wf_dag dag"
  shows "in_dag dag x \<longleftrightarrow> x \<in> set (dag_certs dag)"
proof
  assume "in_dag dag x"
  then have "x \<in> set (dag_round dag (cert_round x))" using in_dag_round [OF assms] by blast
  then obtain row where "map_of dag (cert_round x) = Some row" "x \<in> set (map (snd \<circ> snd) row)"
    by (cases "map_of dag (cert_round x)") (auto simp: dag_round_def)
  then have "(cert_round x, row) \<in> set dag" "x \<in> (snd \<circ> snd) ` set row" by (auto dest: map_of_SomeD)
  then show "x \<in> set (dag_certs dag)" by (force simp: dag_certs_def)
next
  assume "x \<in> set (dag_certs dag)"
  then have "\<exists>v \<in> set dag. x \<in> set (map (snd \<circ> snd) (snd v))" by (simp add: dag_certs_def)
  then obtain r row where row: "(r, row) \<in> set dag" "x \<in> set (map (snd \<circ> snd) row)" by fastforce
  have "map_of dag r = Some row"
    using assms row(1) bt_wf_distinct by (auto simp: wf_dag_def intro!: map_of_is_SomeI)
  then have "x \<in> set (dag_round dag r)" using row(2) by (simp add: dag_round_def)
  then show "in_dag dag x" using in_dag_round [OF assms] by blast
qed

lemma complete_history_code:
  assumes "wf_dag dag"
  shows "complete_history dag gc \<longleftrightarrow>
    list_all (\<lambda>x. gc + 1 < cert_round x \<longrightarrow> map_of dag (cert_round x - 1) \<noteq> None \<and>
      list_all (\<lambda>p. list_ex (\<lambda>y. cert_digest y = p) (dag_round dag (cert_round x - 1))) (cert_parents x))
      (dag_certs dag)"
  unfolding complete_history_def list_all_iff list_ex_iff in_dag_certs [OF assms] by blast

lemma distinct_digests_code:
  "wf_dag dag \<Longrightarrow> distinct (map cert_digest (dag_certs dag)) \<Longrightarrow> distinct_digests dag"
  by (auto simp: distinct_digests_def in_dag_certs distinct_map inj_on_def)

lemma distinct_digests_mono:
  "distinct_digests dag \<Longrightarrow> (\<And>x. in_dag dag' x \<Longrightarrow> in_dag dag x) \<Longrightarrow> distinct_digests dag'"
  unfolding distinct_digests_def by blast

section \<open>The sub-dag of a leader\<close>

text \<open>The leader and the certificates it reaches through parents that are not committed and are
  above its garbage-collection round.\<close>

definition sub_dag_of :: "consensus_state \<Rightarrow> certificate \<Rightarrow> certificate set" where
  "sub_dag_of st lead =
     {x. (follows (st_dag st) (st_last_committed st) (cert_round lead - st_gc_depth st))\<^sup>*\<^sup>* lead x}"

lemma sub_dag_of_mem:
  assumes "x \<in> sub_dag_of st lead" "in_dag (st_dag st) lead"
  shows "in_dag (st_dag st) x"
    and "x = lead \<or> cert_round x < cert_round lead \<and> \<not> committed_before (st_last_committed st) x"
proof -
  have "in_dag (st_dag st) x \<and>
      (x = lead \<or> cert_round x < cert_round lead \<and> \<not> committed_before (st_last_committed st) x)"
    using assms(1) unfolding sub_dag_of_def mem_Collect_eq
    by (induction rule: rtranclp_induct) (use assms(2) in \<open>auto simp: follows_def\<close>)
  then show "in_dag (st_dag st) x"
    and "x = lead \<or> cert_round x < cert_round lead \<and> \<not> committed_before (st_last_committed st) x"
    by blast+
qed

lemma sub_dag_of_round: "x \<in> sub_dag_of st lead \<Longrightarrow> in_dag (st_dag st) lead \<Longrightarrow> cert_round x \<le> cert_round lead"
  using sub_dag_of_mem(2) by fastforce

lemma leader_in_sub_dag [simp]: "lead \<in> sub_dag_of st lead"
  by (simp add: sub_dag_of_def)

lemma order_dag_spec:
  assumes inv: "st_inv st" and lead: "in_dag (st_dag st) lead"
    and round: "cr_committed_round (st_last_round st) < cert_round lead"
    and wf: "distinct_digests (st_dag st)" "0 < st_gc_depth st"
  shows "\<exists>xs. order_dag lead st = Some xs \<and> set xs = sub_dag_of st lead \<and> distinct xs
    \<and> sorted (map cert_round xs)"
proof -
  let ?dag = "st_dag st" and ?lc = "st_last_committed st"
  let ?gc = "cert_round lead - st_gc_depth st"
  have gc: "cr_gc_round (st_last_round st) \<le> ?gc"
    using st_invD(3) [OF inv] round by (simp add: gc_round_def)
  have complete: "\<exists>y. dag_find ?dag (cert_round x - 1) p = Some (p, y)"
    if "in_dag ?dag x" "?gc + 1 < cert_round x" "p \<in> set (cert_parents x)" for x p
  proof -
    have "cr_gc_round (st_last_round st) + 1 < cert_round x" using that(2) gc by linarith
    with complete_historyD(2) [OF st_invD(2) [OF inv] that(1) _ that(3)]
    obtain y where "y \<in> set (dag_round ?dag (cert_round x - 1))" "cert_digest y = p" by blast
    then show ?thesis using dag_find_exists [OF st_invD(1) [OF inv]] by blast
  qed
  have pos: "0 < cert_round lead" "?gc < cert_round lead" using round wf(2) by linarith+
  have "card (cert_digest ` {x. in_dag ?dag x} - {}) + length [lead] < dag_size ?dag + 2"
    using finite_in_dag(2) [OF st_invD(1) [OF inv]] by simp
  from order_loop_spec [OF st_invD(1) [OF inv] wf(1) complete search_inv_start [OF lead pos(2)] this]
  obtain xs where "order_loop (dag_size ?dag + 2) ?dag ?lc ?gc [lead] {} [] = Some xs"
      "set xs = sub_dag_of st lead" "distinct xs" unfolding sub_dag_of_def by blast
  then have "order_dag lead st = Some (sort_key cert_round xs)"
    unfolding order_dag_def using pos(1) by (simp add: Let_def)
  then show ?thesis
    using \<open>set xs = sub_dag_of st lead\<close> \<open>distinct xs\<close> by auto
qed

lemma order_dag_last:
  assumes "set xs = sub_dag_of st lead" "sorted (map cert_round xs)" "in_dag (st_dag st) lead"
  shows "last xs = lead"
proof -
  have "xs \<noteq> []" using assms(1) leader_in_sub_dag by fastforce
  then have "last xs \<in> set xs" by simp
  moreover have "cert_round lead \<le> cert_round (last xs)"
  proof -
    obtain i where i: "i < length xs" "xs ! i = lead"
      using assms(1) leader_in_sub_dag by (metis in_set_conv_nth)
    then have "cert_round (xs ! i) \<le> cert_round (xs ! (length xs - 1))"
      using sorted_nth_mono [OF assms(2), of i "length xs - 1"] by simp
    then show ?thesis using i \<open>xs \<noteq> []\<close> by (simp add: last_conv_nth)
  qed
  ultimately show ?thesis using sub_dag_of_mem(2) [OF _ assms(3)] assms(1) by fastforce
qed

text \<open>C15: Flattening the sub-dag of a leader above the committed round never panics and runs
  within its fuel. The result lists, once each and in order of rounds with the leader last,
  exactly the certificates reachable from the leader through parents that are neither committed
  nor garbage collected.\<close>

theorem order_dag_correct:
  assumes "st_inv st" "in_dag (st_dag st) lead" "cr_committed_round (st_last_round st) < cert_round lead"
    and "distinct_digests (st_dag st)" "0 < st_gc_depth st"
  shows "\<exists>xs. order_dag lead st = Some xs \<and> distinct xs \<and> sorted (map cert_round xs) \<and> last xs = lead
    \<and> set xs = {x. (follows (st_dag st) (st_last_committed st) (cert_round lead - st_gc_depth st))\<^sup>*\<^sup>* lead x}"
  using order_dag_spec [OF assms] order_dag_last [OF _ _ assms(2)] unfolding sub_dag_of_def by blast

lemma example_cert_parents [simp]: "cert_parents (example_certificate r a ps s) = ps"
  by (simp add: example_certificate_simps)

definition example_dag :: dag where
  "example_dag =
     [(1, map (\<lambda>a. (a, 100 + a, example_certificate 1 a [] [])) [0, 1, 2]),
      (2, map (\<lambda>a. (a, 200 + a, example_certificate 2 a [100, 101, 102] [])) [0, 1, 2])]"

definition example_state :: consensus_state where
  "example_state = (consensus_state_new 50)\<lparr>st_dag := example_dag, st_last_committed := [(1, 1)],
     st_last_round := \<lparr>cr_committed_round = 1, cr_gc_round = 0\<rparr>\<rparr>"

lemma example_state_inv:
  "st_inv example_state" "distinct_digests (st_dag example_state)"
proof -
  have wf: "wf_dag example_dag"
    by (simp add: example_dag_def wf_dag_def wf_row_def)
  then have "complete_history example_dag 0"
    unfolding complete_history_code [OF wf] by (simp add: example_dag_def dag_round_def)
  with wf show "st_inv example_state"
    by (simp add: st_inv_def example_state_def consensus_state_new_def gc_round_def)
      (simp add: example_dag_def)
  have "distinct_digests example_dag"
    by (rule distinct_digests_code [OF wf]) (simp add: example_dag_def)
  then show "distinct_digests (st_dag example_state)" by (simp add: example_state_def)
qed

theorem order_dag_correct_witness:
  "\<exists>xs. order_dag (example_certificate 2 2 [100, 101, 102] []) example_state = Some xs
    \<and> distinct xs \<and> sorted (map cert_round xs) \<and> last xs = example_certificate 2 2 [100, 101, 102] []"
proof -
  have "in_dag (st_dag example_state) (example_certificate 2 2 [100, 101, 102] [])"
      "cr_committed_round (st_last_round example_state) < cert_round (example_certificate 2 2 [100, 101, 102] [])"
      "0 < st_gc_depth example_state"
    by (simp_all add: example_state_def in_dag_def example_dag_def consensus_state_new_def)
  from order_dag_correct [OF example_state_inv(1) this(1,2) example_state_inv(2) this(3)]
  show ?thesis by blast
qed

end
