(* ===== verification/Narwhal_Bullshark.thy ===== *)
theory Narwhal_Bullshark
  imports Narwhal_Leader_Schedule Narwhal_Order_Dag
begin

text \<open>
  The Bullshark protocol, \<open>src/narwhal/primary/src/consensus/bullshark.rs\<close>, and the consensus
  task's main loop (\<open>state.rs\<close>, \<open>run_inner\<close>). The random draws and the outcome of database writes
  are parameters; metrics and clocks are not modelled. A panic is \<open>None\<close>. The retry after a
  schedule change runs on fuel, shown to be enough in \<open>Narwhal_Commit\<close>.
\<close>

section \<open>Bullshark\<close>

datatype outcome =
    NoLeaderElectedForOddRound
  | LeaderBelowCommitRound
  | LeaderNotFound
  | NotEnoughSupportForLeader
  | CertificateBelowCommitRound
  | ScheduleChanged
  | Commit

record bullshark =
  bs_committee :: committee
  bs_bad_nodes_stake_threshold :: nat
  bs_store :: consensus_store
  bs_max_inserted_certificate_round :: round
  bs_num_sub_dags_per_schedule :: nat
  bs_leader_schedule :: leader_schedule

definition bullshark_new ::
    "committee \<Rightarrow> consensus_store \<Rightarrow> nat \<Rightarrow> nat \<Rightarrow> leader_schedule \<Rightarrow> bullshark" where
  "bullshark_new c store bad_nodes_stake_threshold num_sub_dags_per_schedule ls =
     \<lparr>bs_committee = c, bs_bad_nodes_stake_threshold = bad_nodes_stake_threshold, bs_store = store,
      bs_max_inserted_certificate_round = 0,
      bs_num_sub_dags_per_schedule = num_sub_dags_per_schedule, bs_leader_schedule = ls\<rparr>"

definition resolve_reputation_score ::
    "bullshark \<Rightarrow> consensus_state \<Rightarrow> certificate list \<Rightarrow> sequence_number \<Rightarrow> reputation_scores option" where
  "resolve_reputation_score b st committed_sequence sub_dag_index = do {
     let n = bs_num_sub_dags_per_schedule b;
     rust_assert (n \<noteq> 0);
     scores \<leftarrow> (if sub_dag_index = 1 \<or> sub_dag_index mod n = 0
        then reputation_scores_new (bs_committee b)
        else map_option sd_reputation_score (st_last_committed_sub_dag st));
     let scores = (case st_last_committed_sub_dag st of
         None \<Rightarrow> scores
       | Some prev \<Rightarrow>
           foldl (\<lambda>scores x. if list_ex (\<lambda>d. d = cert_digest (sd_leader prev)) (cert_parents x)
               then add_score scores (cert_origin x) 1 else scores)
             scores committed_sequence);
     let scores = scores\<lparr>final_of_schedule := ((sub_dag_index + 1) mod n = 0)\<rparr>;
     rust_assert (total_authorities scores = committee_size (bs_committee b));
     Some scores
   }"

definition update_leader_schedule ::
    "bullshark \<Rightarrow> round \<Rightarrow> reputation_scores \<Rightarrow> (bool \<times> bullshark) option" where
  "update_leader_schedule b r scores =
     (if final_of_schedule scores
      then do {
        t \<leftarrow> leader_swap_table_new (bs_committee b) r scores (bs_bad_nodes_stake_threshold b);
        Some (True, b\<lparr>bs_leader_schedule := update_leader_swap_table (bs_leader_schedule b) t\<rparr>)
      }
      else Some (False, b))"

definition report_leader_on_time_metrics ::
    "leader_rng \<Rightarrow> bullshark \<Rightarrow> round \<Rightarrow> bullshark option" where
  "report_leader_on_time_metrics rng b r = do {
     (if r > bs_max_inserted_certificate_round b \<and> r mod 2 = 0 \<and> r > 2
      then do { a \<leftarrow> leader rng (bs_leader_schedule b) (r - 2); authority_hostname a }
      else Some []);
     Some (b\<lparr>bs_max_inserted_certificate_round := max (bs_max_inserted_certificate_round b) r\<rparr>)
   }"

text \<open>The certificates of a round that some certificate of \<open>parents\<close> references.\<close>

definition referenced :: "dag_row \<Rightarrow> certificate list \<Rightarrow> certificate list" where
  "referenced row parents =
     map snd (filter (\<lambda>(d, _). list_ex (\<lambda>x. d \<in> set (cert_parents x)) parents) (map snd row))"

fun linked_loop :: "dag \<Rightarrow> round list \<Rightarrow> certificate list \<Rightarrow> certificate list option" where
  "linked_loop dag [] parents = Some parents"
| "linked_loop dag (r # rs) parents = do {
     row \<leftarrow> map_of dag r;
     linked_loop dag rs (referenced row parents)
   }"

definition linked :: "certificate \<Rightarrow> certificate \<Rightarrow> dag \<Rightarrow> bool option" where
  "linked lead prev_leader dag = do {
     parents \<leftarrow> linked_loop dag (rev [cert_round prev_leader..<cert_round lead]) [lead];
     Some (list_ex (\<lambda>x. certificate_eq x prev_leader) parents)
   }"

fun step_by_2 :: "'a list \<Rightarrow> 'a list" where
  "step_by_2 [] = []"
| "step_by_2 [x] = [x]"
| "step_by_2 (x # y # zs) = x # step_by_2 zs"

fun order_leaders_loop ::
    "leader_rng \<Rightarrow> leader_schedule \<Rightarrow> dag \<Rightarrow> round list \<Rightarrow> certificate \<Rightarrow> certificate list \<Rightarrow>
     certificate list option" where
  "order_leaders_loop rng ls dag [] lead to_commit = Some to_commit"
| "order_leaders_loop rng ls dag (r # rs) lead to_commit = do {
     (authority, prev) \<leftarrow> leader_certificate rng ls r dag;
     case prev of
       None \<Rightarrow> do { authority_hostname authority; order_leaders_loop rng ls dag rs lead to_commit }
     | Some prev_leader \<Rightarrow> do {
         l \<leftarrow> linked lead prev_leader dag;
         if l then order_leaders_loop rng ls dag rs prev_leader (prev_leader # to_commit)
         else do { authority_hostname authority; order_leaders_loop rng ls dag rs lead to_commit }
       }
   }"

definition order_leaders ::
    "leader_rng \<Rightarrow> bullshark \<Rightarrow> certificate \<Rightarrow> consensus_state \<Rightarrow> certificate list option" where
  "order_leaders rng b lead st = do {
     rust_assert (cert_round lead mod 2 = 0);
     top \<leftarrow> u64_checked_sub (cert_round lead) 2;
     let rounds = step_by_2 (rev [cr_committed_round (st_last_round st) + 2..<top + 1]);
     to_commit \<leftarrow> order_leaders_loop rng (bs_leader_schedule b) (st_dag st) rounds lead [lead];
     those (map (\<lambda>x. do { a \<leftarrow> authority_lookup (bs_committee b) (cert_origin x);
       authority_hostname a }) to_commit);
     Some to_commit
   }"

type_synonym commit_result = "(consensus_error, outcome \<times> committed_sub_dag list) result"

fun commit_leaders ::
    "(committed_sub_dag \<Rightarrow> bool) \<Rightarrow> bullshark \<Rightarrow> consensus_state \<Rightarrow> certificate list \<Rightarrow>
     committed_sub_dag list \<Rightarrow> (commit_result \<times> bullshark \<times> consensus_state) option" where
  "commit_leaders written b st [] acc = Some (Inr (Commit, acc), b, st)"
| "commit_leaders written b st (lead # leaders) acc = do {
     let sub_dag_index = next_sub_dag_index st;
     sequence \<leftarrow> order_dag lead st;
     let st = foldl state_update st sequence;
     scores \<leftarrow> resolve_reputation_score b st sequence sub_dag_index;
     let sub_dag = committed_sub_dag_new sequence lead sub_dag_index scores
       (st_last_committed_sub_dag st);
     case write_consensus_state (written sub_dag) (bs_store b) (st_last_committed st) sub_dag of
       Inl _ \<Rightarrow> Some (Inl ConsensusStoreError, b, st)
     | Inr store \<Rightarrow> do {
         let b = b\<lparr>bs_store := store\<rparr>;
         let st = st\<lparr>st_last_committed_sub_dag := Some sub_dag\<rparr>;
         let acc = acc @ [sub_dag];
         (changed, b) \<leftarrow> update_leader_schedule b (cert_round lead) scores;
         if changed \<and> leaders \<noteq> [] then Some (Inr (ScheduleChanged, acc), b, st)
         else commit_leaders written b st leaders acc
       }
   }"

text \<open>The stake behind a leader: that of the certificates of the next round that have it as a
  parent.\<close>

definition leader_support :: "committee \<Rightarrow> dag_row \<Rightarrow> certificate \<Rightarrow> stake" where
  "leader_support c row lead = u64_wrapping_sum (map (\<lambda>(_, x). stake_by_id c (cert_origin x))
     (filter (\<lambda>(_, x). cert_digest lead \<in> set (cert_parents x)) (map snd row)))"

definition commit_leader ::
    "leader_rng \<Rightarrow> (committed_sub_dag \<Rightarrow> bool) \<Rightarrow> bullshark \<Rightarrow> round \<Rightarrow> consensus_state \<Rightarrow>
     (commit_result \<times> bullshark \<times> consensus_state) option" where
  "commit_leader rng written b r st = do {
     (_, lead) \<leftarrow> leader_certificate rng (bs_leader_schedule b) r (st_dag st);
     case lead of
       None \<Rightarrow> Some (Inr (LeaderNotFound, []), b, st)
     | Some lead \<Rightarrow> do {
         row \<leftarrow> map_of (st_dag st) (r + 1);
         if leader_support (bs_committee b) row lead < cm_validity_threshold (bs_committee b)
         then Some (Inr (NotEnoughSupportForLeader, []), b, st)
         else do {
           leaders_to_commit \<leftarrow> order_leaders rng b lead st;
           commit_leaders written b st leaders_to_commit []
         }
       }
   }"

text \<open>The loop of \<open>process_certificate\<close>: commit again while the schedule changes.\<close>

fun commit_retry ::
    "nat \<Rightarrow> leader_rng \<Rightarrow> (committed_sub_dag \<Rightarrow> bool) \<Rightarrow> bullshark \<Rightarrow> round \<Rightarrow> consensus_state \<Rightarrow>
     committed_sub_dag list \<Rightarrow> (commit_result \<times> bullshark \<times> consensus_state) option" where
  "commit_retry 0 rng written b r st acc = None"
| "commit_retry (Suc n) rng written b r st acc = do {
     (res, b, st) \<leftarrow> commit_leader rng written b r st;
     case res of
       Inl e \<Rightarrow> Some (Inl e, b, st)
     | Inr (outcome, committed) \<Rightarrow>
         (if outcome \<noteq> ScheduleChanged then Some (Inr (outcome, acc @ committed), b, st)
          else commit_retry n rng written b r st (acc @ committed))
   }"

definition process_certificate ::
    "leader_rng \<Rightarrow> (committed_sub_dag \<Rightarrow> bool) \<Rightarrow> bullshark \<Rightarrow> consensus_state \<Rightarrow> certificate \<Rightarrow>
     (commit_result \<times> bullshark \<times> consensus_state) option" where
  "process_certificate rng written b st x = do {
     let round = cert_round x;
     (r, st) \<leftarrow> try_insert st x;
     case r of
       Inl e \<Rightarrow> Some (Inl e, b, st)
     | Inr inserted \<Rightarrow>
         (if \<not> inserted then Some (Inr (CertificateBelowCommitRound, []), b, st)
          else do {
            b \<leftarrow> report_leader_on_time_metrics rng b round;
            r \<leftarrow> u64_checked_sub round 1;
            if r mod 2 \<noteq> 0 \<or> r < 2 then Some (Inr (NoLeaderElectedForOddRound, []), b, st)
            else if r \<le> cr_committed_round (st_last_round st)
            then Some (Inr (LeaderBelowCommitRound, []), b, st)
            else do {
              (res, b, st) \<leftarrow> commit_retry (r + 1) rng written b r st [];
              case res of
                Inl e \<Rightarrow> Some (Inl e, b, st)
              | Inr (outcome, committed) \<Rightarrow>
                  Some (Inr (if committed = [] then outcome else Commit, committed), b, st)
            }
          })
   }"

section \<open>The consensus task\<close>

text \<open>
  What one received certificate makes the task send: the committed sub-dags to the
  application, the committed certificates with the commit round to the primary, and the new
  consensus round.
\<close>

record consensus_output =
  out_sequence :: "committed_sub_dag list"
  out_committed :: "(round \<times> certificate list) option"
  out_round :: "consensus_round option"

text \<open>One turn of the main loop. An error ends the task with a panic.\<close>

definition run_step ::
    "leader_rng \<Rightarrow> (committed_sub_dag \<Rightarrow> bool) \<Rightarrow> committee \<Rightarrow> bullshark \<Rightarrow> consensus_state \<Rightarrow>
     certificate \<Rightarrow> (consensus_output \<times> bullshark \<times> consensus_state) option" where
  "run_step rng written c b st x =
     (if cert_epoch x \<noteq> cm_epoch c
      then Some (\<lparr>out_sequence = [], out_committed = None, out_round = None\<rparr>, b, st)
      else do {
        (res, b, st) \<leftarrow> process_certificate rng written b st x;
        case res of
          Inl _ \<Rightarrow> None
        | Inr (_, sub_dags) \<Rightarrow> do {
            let committed = concat (map sd_certificates sub_dags);
            if committed = []
            then Some (\<lparr>out_sequence = sub_dags, out_committed = None, out_round = None\<rparr>, b, st)
            else do {
              let leader_commit_round = Max (set (map cert_round committed));
              rust_assert (cr_committed_round (st_last_round st) = leader_commit_round);
              Some (\<lparr>out_sequence = sub_dags,
                out_committed = Some (leader_commit_round, committed),
                out_round = Some (st_last_round st)\<rparr>, b, st)
            }
          }
      })"

section \<open>Paths between leaders\<close>

text \<open>A certificate and one of its parents in the DAG.\<close>

definition parent_in :: "dag \<Rightarrow> certificate \<Rightarrow> certificate \<Rightarrow> bool" where
  "parent_in dag x y \<longleftrightarrow>
     in_dag dag y \<and> cert_round x = cert_round y + 1 \<and> cert_digest y \<in> set (cert_parents x)"

lemma path_round: "(parent_in dag)\<^sup>*\<^sup>* x y \<Longrightarrow> x = y \<or> cert_round y < cert_round x \<and> in_dag dag y"
  by (induction rule: rtranclp_induct) (auto simp: parent_in_def)

lemma set_referenced:
  assumes "wf_dag dag" "map_of dag r = Some row"
  shows "set (referenced row xs) =
    {y. in_dag dag y \<and> cert_round y = r \<and> (\<exists>x \<in> set xs. cert_digest y \<in> set (cert_parents x))}"
proof -
  have mem: "(\<exists>a. (a, d, y) \<in> set row) \<longleftrightarrow> in_dag dag y \<and> cert_round y = r \<and> d = cert_digest y" for d y
  proof
    assume "\<exists>a. (a, d, y) \<in> set row"
    then obtain a where a: "(a, d, y) \<in> set row" ..
    then have "y \<in> set (dag_round dag r)" using assms(2) by (force simp: dag_round_def)
    moreover have "d = cert_digest y"
      using wf_dag_row [OF assms] a by (auto simp: wf_row_def list_all_iff)
    ultimately show "in_dag dag y \<and> cert_round y = r \<and> d = cert_digest y"
      using in_dag_round [OF assms(1)] by blast
  next
    assume y: "in_dag dag y \<and> cert_round y = r \<and> d = cert_digest y"
    then have "map_of row (cert_origin y) = Some (d, y)" using assms(2) by (auto simp: in_dag_def)
    then show "\<exists>a. (a, d, y) \<in> set row" by (auto dest: map_of_SomeD)
  qed
  have "y \<in> set (referenced row xs) \<longleftrightarrow>
      (\<exists>d. (\<exists>a. (a, d, y) \<in> set row) \<and> (\<exists>x \<in> set xs. d \<in> set (cert_parents x)))" (is "?l \<longleftrightarrow> ?r") for y
  proof
    assume ?l
    then show ?r by (auto simp: referenced_def list_ex_iff) blast
  next
    assume ?r
    then obtain a d x where m: "(a, d, y) \<in> set row" "x \<in> set xs" "d \<in> set (cert_parents x)" by blast
    then have "(d, y) \<in> set (filter (\<lambda>(d, _). list_ex (\<lambda>x. d \<in> set (cert_parents x)) xs) (map snd row))"
      by (auto simp: list_ex_iff image_iff intro: bexI [of _ "(a, d, y)"])
    then show ?l unfolding referenced_def set_map by (metis imageI snd_conv)
  qed
  then show ?thesis by (intro set_eqI) (simp add: mem conj_ac)
qed

lemma linked_loop_spec:
  assumes "wf_dag dag" "p \<le> l" "\<And>x. x \<in> set xs \<Longrightarrow> cert_round x = l"
    and "\<And>r. p \<le> r \<Longrightarrow> r < l \<Longrightarrow> map_of dag r \<noteq> None"
  shows "\<exists>ys. linked_loop dag (rev [p..<l]) xs = Some ys
    \<and> set ys = {y. cert_round y = p \<and> (\<exists>x \<in> set xs. (parent_in dag)\<^sup>*\<^sup>* x y)}"
  using assms(2-4)
proof (induction "l - p" arbitrary: l xs)
  case 0
  then have "l = p" by simp
  moreover have "set xs = {y. cert_round y = p \<and> (\<exists>x \<in> set xs. (parent_in dag)\<^sup>*\<^sup>* x y)}"
    using "0.prems"(2) \<open>l = p\<close> path_round by (auto, fastforce)
  ultimately show ?case by simp
next
  case (Suc n)
  then have l: "l = Suc (l - 1)" "p \<le> l - 1" by linarith+
  define k where "k = l - 1"
  note l = l [folded k_def]
  obtain row where row: "map_of dag k = Some row" using Suc.prems(3) [of k] l by auto
  let ?xs = "referenced row xs"
  have ref: "set ?xs = {y. in_dag dag y \<and> cert_round y = k \<and> (\<exists>x \<in> set xs. cert_digest y \<in> set (cert_parents x))}"
    by (rule set_referenced [OF assms(1) row])
  have "n = k - p" using Suc.hyps(2) l by simp
  from Suc.hyps(1) [OF this l(2), of ?xs] obtain ys where
    ys: "linked_loop dag (rev [p..<k]) ?xs = Some ys"
      "set ys = {y. cert_round y = p \<and> (\<exists>x \<in> set ?xs. (parent_in dag)\<^sup>*\<^sup>* x y)}"
    using Suc.prems(3) l(1) unfolding ref by auto
  have "(\<exists>x \<in> set xs. (parent_in dag)\<^sup>*\<^sup>* x y) \<longleftrightarrow> (\<exists>z \<in> set ?xs. (parent_in dag)\<^sup>*\<^sup>* z y)"
    if "cert_round y = p" for y
  proof
    assume "\<exists>x \<in> set xs. (parent_in dag)\<^sup>*\<^sup>* x y"
    then obtain x where x: "x \<in> set xs" "(parent_in dag)\<^sup>*\<^sup>* x y" by blast
    have "x \<noteq> y" using Suc.prems(2) [OF x(1)] that l by auto
    from x(2) obtain z where z: "parent_in dag x z" "(parent_in dag)\<^sup>*\<^sup>* z y"
      by (cases rule: converse_rtranclpE) (use \<open>x \<noteq> y\<close> in simp)+
    have "z \<in> set ?xs" unfolding ref using z(1) x(1) Suc.prems(2) [OF x(1)] l(1) by (auto simp: parent_in_def)
    with z(2) show "\<exists>z \<in> set ?xs. (parent_in dag)\<^sup>*\<^sup>* z y" by blast
  next
    assume "\<exists>z \<in> set ?xs. (parent_in dag)\<^sup>*\<^sup>* z y"
    then obtain z x where z: "(parent_in dag)\<^sup>*\<^sup>* z y" "x \<in> set xs" "in_dag dag z" "cert_round z = k"
        "cert_digest z \<in> set (cert_parents x)" unfolding ref by blast
    then have "parent_in dag x z" using Suc.prems(2) l(1) by (simp add: parent_in_def)
    then have "(parent_in dag)\<^sup>*\<^sup>* x y" using z(1) by (rule converse_rtranclp_into_rtranclp)
    with z(2) show "\<exists>x \<in> set xs. (parent_in dag)\<^sup>*\<^sup>* x y" by blast
  qed
  then have "set ys = {y. cert_round y = p \<and> (\<exists>x \<in> set xs. (parent_in dag)\<^sup>*\<^sup>* x y)}"
    unfolding ys(2) by blast
  moreover have "rev [p..<l] = k # rev [p..<k]" using l by simp
  ultimately show ?case using ys(1) row by simp
qed

text \<open>In a DAG with the complete history above a round, every round between that one and a
  certificate's has a row.\<close>

lemma rows_below:
  assumes "wf_dag dag" "complete_history dag gc" "in_dag dag x" "gc < r" "r \<le> cert_round x"
  shows "map_of dag r \<noteq> None"
  using assms(3-5)
proof (induction "cert_round x - r" arbitrary: x)
  case 0
  then have "r = cert_round x" by simp
  then show ?case using "0.prems"(1) by (auto simp: in_dag_def split: option.splits)
next
  case (Suc n)
  then have "gc + 1 < cert_round x" by linarith
  from complete_historyD(1) [OF assms(2) Suc.prems(1) this] obtain row
    where row: "map_of dag (cert_round x - 1) = Some row" by blast
  have "row \<noteq> []" using wf_dag_row [OF assms(1) row] by (simp add: wf_row_def)
  then obtain v where "v \<in> set row" by (cases row) auto
  then have "snd (snd v) \<in> set (dag_round dag (cert_round x - 1))" using row by (auto simp: dag_round_def)
  then have y: "in_dag dag (snd (snd v))" "cert_round (snd (snd v)) = cert_round x - 1"
    using in_dag_round [OF assms(1)] by auto
  show ?case by (rule Suc.hyps(1) [OF _ y(1) Suc.prems(2)]) (use Suc.hyps(2) y(2) in linarith)+
qed

lemma certificate_eq_in_dag:
  "in_dag dag x \<Longrightarrow> in_dag dag y \<Longrightarrow> certificate_eq x y \<longleftrightarrow> x = y"
  by (auto simp: certificate_eq_def intro: in_dag_unique)

lemma linked_spec:
  assumes "wf_dag dag" "complete_history dag gc" "in_dag dag lead" "in_dag dag prev"
    and "gc < cert_round prev" "cert_round prev \<le> cert_round lead"
  shows "linked lead prev dag = Some ((parent_in dag)\<^sup>*\<^sup>* lead prev)"
proof -
  have rows: "map_of dag r \<noteq> None" if "cert_round prev \<le> r" "r < cert_round lead" for r
    using rows_below [OF assms(1-3), of r] that assms(5) by simp
  from linked_loop_spec [OF assms(1,6) _ rows, of "[lead]"] obtain ys where
    ys: "linked_loop dag (rev [cert_round prev..<cert_round lead]) [lead] = Some ys"
      "set ys = {y. cert_round y = cert_round prev \<and> (parent_in dag)\<^sup>*\<^sup>* lead y}" by auto
  have dag: "in_dag dag y" if "y \<in> set ys" for y
    using that path_round assms(3) unfolding ys(2) by blast
  have "(\<exists>y \<in> set ys. certificate_eq y prev) \<longleftrightarrow> prev \<in> set ys"
    using certificate_eq_in_dag [OF dag assms(4)] by blast
  moreover have "prev \<in> set ys \<longleftrightarrow> (parent_in dag)\<^sup>*\<^sup>* lead prev" unfolding ys(2) by simp
  ultimately show ?thesis using ys(1) by (simp add: linked_def list_ex_iff)
qed

section \<open>Supported leaders\<close>

text \<open>Every certificate above a round has a quorum of parents in the DAG, as the primaries check
  of a header before they vote for it.\<close>

definition quorum_parents :: "committee \<Rightarrow> dag \<Rightarrow> round \<Rightarrow> bool" where
  "quorum_parents c dag gc \<longleftrightarrow>
     (\<forall>x. in_dag dag x \<longrightarrow> gc + 1 < cert_round x \<longrightarrow>
       cm_quorum_threshold c \<le> sum (stake_by_id c) (cert_origin ` {y. parent_in dag x y}))"

text \<open>What two honest nodes can rely on: certificates of the same authority and round have the
  same header, since two quorums voted for them, and so do certificates of the same digest.\<close>

definition same_history :: "dag \<Rightarrow> dag \<Rightarrow> bool" where
  "same_history dag dag' \<longleftrightarrow>
     (\<forall>x y. in_dag dag x \<longrightarrow> in_dag dag' y \<longrightarrow>
       cert_round x = cert_round y \<and> cert_origin x = cert_origin y \<or> cert_digest x = cert_digest y \<longrightarrow>
       cert_header x = cert_header y)"

lemma same_historyD:
  assumes "same_history dag dag'" "in_dag dag x" "in_dag dag' y"
  shows "cert_round x = cert_round y \<Longrightarrow> cert_origin x = cert_origin y \<Longrightarrow> cert_header x = cert_header y"
    and "cert_digest x = cert_digest y \<Longrightarrow> cert_header x = cert_header y"
  using assms unfolding same_history_def by blast+

lemma same_history_sym: "same_history dag dag' \<Longrightarrow> same_history dag' dag"
  unfolding same_history_def by metis

lemma header_fields:
  assumes "cert_header x = cert_header y"
  shows "cert_round x = cert_round y" "cert_origin x = cert_origin y" "cert_digest x = cert_digest y"
  using assms by (simp_all add: cert_round_def cert_origin_def cert_digest_def)

lemma in_dag_header_unique:
  "in_dag dag x \<Longrightarrow> in_dag dag y \<Longrightarrow> cert_header x = cert_header y \<Longrightarrow> x = y"
  using header_fields by (blast intro: in_dag_unique)

lemma leader_support_sum:
  assumes "wf_dag dag" "map_of dag (r + 1) = Some row" "wf_committee c"
  shows "leader_support c row lead = sum (stake_by_id c)
    (cert_origin ` {x. in_dag dag x \<and> cert_round x = r + 1 \<and> cert_digest lead \<in> set (cert_parents x)})"
proof -
  note wf = wf_dag_row [OF assms(1,2)]
  let ?P = "\<lambda>x. cert_digest lead \<in> set (cert_parents x)"
  let ?xs = "filter ?P (map (snd \<circ> snd) row)"
  have fields: "cert_origin (snd (snd v)) = fst v" if "v \<in> set row" for v
    using wf that by (auto simp: wf_row_def list_all_iff)
  have o: "map cert_origin (map (snd \<circ> snd) row) = map fst row" using fields by simp
  have "distinct (map cert_origin (map (snd \<circ> snd) row))" unfolding o using wf by (simp add: wf_row_def)
  then have d: "distinct (map cert_origin ?xs)" by (rule distinct_map_filter)
  have s: "sum_list (map (stake_by_id c) (map cert_origin ?xs)) = sum (stake_by_id c) (set (map cert_origin ?xs))"
    using d by (rule sum_list_distinct_conv_sum_set)
  have "leader_support c row lead = u64_wrapping_sum (map (stake_by_id c) (map cert_origin ?xs))"
    by (simp add: leader_support_def filter_map comp_def case_prod_unfold)
  also have "\<dots> = sum (stake_by_id c) (set (map cert_origin ?xs))"
    using s stakes_fit [OF assms(3), of "set (map cert_origin ?xs)"] by (simp del: map_map)
  also have "set (map cert_origin ?xs) = cert_origin ` {x \<in> set (dag_round dag (r + 1)). ?P x}"
    using assms(2) by (simp add: dag_round_def)
  finally show ?thesis unfolding in_dag_round [OF assms(1)] by (simp add: conj_assoc)
qed

lemma finite_parents: "wf_dag dag \<Longrightarrow> finite {y. parent_in dag x y}"
  by (rule finite_subset [OF _ finite_in_dag(1)]) (auto simp: parent_in_def)

lemma quorum_parents_step:
  assumes "wf_committee c" "wf_dag dag" "quorum_parents c dag gc" "in_dag dag x" "gc + 1 < cert_round x"
  obtains y where "parent_in dag x y"
proof -
  have "cm_quorum_threshold c \<le> sum (stake_by_id c) (cert_origin ` {y. parent_in dag x y})"
    using assms(3-5) by (simp add: quorum_parents_def)
  moreover have "0 < cm_quorum_threshold c" using assms(1) by (simp add: wf_committee_def)
  ultimately have "sum (stake_by_id c) (cert_origin ` {y. parent_in dag x y}) \<noteq> 0" by linarith
  then have "{y. parent_in dag x y} \<noteq> {}" by (metis image_empty sum.empty)
  then show ?thesis using that by blast
qed

lemma descend:
  assumes "wf_committee c" "wf_dag dag" "quorum_parents c dag gc" "in_dag dag x" "gc < r" "r \<le> cert_round x"
  shows "\<exists>y. (parent_in dag)\<^sup>*\<^sup>* x y \<and> in_dag dag y \<and> cert_round y = r"
  using assms(4,6)
proof (induction "cert_round x - r" arbitrary: x)
  case 0
  then show ?case by auto
next
  case (Suc n)
  then have "gc + 1 < cert_round x" using assms(5) by linarith
  from quorum_parents_step [OF assms(1-3) Suc.prems(1) this] obtain y where y: "parent_in dag x y" .
  then have "n = cert_round y - r" "in_dag dag y" "r \<le> cert_round y"
    using Suc.hyps(2) Suc.prems(2) by (auto simp: parent_in_def)
  from Suc.hyps(1) [OF this] obtain z where z: "(parent_in dag)\<^sup>*\<^sup>* y z" "in_dag dag z" "cert_round z = r"
    by blast
  have "(parent_in dag)\<^sup>*\<^sup>* x z" using y z(1) by (rule converse_rtranclp_into_rtranclp)
  with z(2,3) show ?case by blast
qed

text \<open>A leader with enough support in one node's DAG is reached from every later certificate of
  every other node's DAG.\<close>

lemma supported_leader_reached:
  assumes c: "wf_committee c"
    and d1: "wf_dag dag1" "in_dag dag1 lead" "map_of dag1 (cert_round lead + 1) = Some row"
      "cm_validity_threshold c \<le> leader_support c row lead"
    and d2: "wf_dag dag2" "complete_history dag2 gc" "quorum_parents c dag2 gc"
    and same: "same_history dag1 dag2"
    and x: "in_dag dag2 x" "cert_round lead + 2 \<le> cert_round x" "gc < cert_round lead"
  shows "\<exists>y. in_dag dag2 y \<and> cert_header y = cert_header lead \<and> (parent_in dag2)\<^sup>*\<^sup>* x y"
proof -
  let ?S = "{z. in_dag dag1 z \<and> cert_round z = cert_round lead + 1 \<and> cert_digest lead \<in> set (cert_parents z)}"
  from descend [OF c d2(1,3) x(1) _ x(2)] x(3) obtain w where
    w: "(parent_in dag2)\<^sup>*\<^sup>* x w" "in_dag dag2 w" "cert_round w = cert_round lead + 2" by auto
  have q: "cm_quorum_threshold c \<le> sum (stake_by_id c) (cert_origin ` {y. parent_in dag2 w y})"
    using d2(3) w(2,3) x(3) by (simp add: quorum_parents_def)
  have v: "cm_validity_threshold c \<le> sum (stake_by_id c) (cert_origin ` ?S)"
    using d1(4) unfolding leader_support_sum [OF d1(1,3) c] .
  have fin: "finite (cert_origin ` ?S)"
    using finite_in_dag(1) [OF d1(1)] by (intro finite_imageI) (auto elim: rev_finite_subset)
  obtain a where a: "a \<in> cert_origin ` {y. parent_in dag2 w y}" "a \<in> cert_origin ` ?S"
    by (rule narwhal_quorum.quorum_meets_validity [OF c finite_imageI [OF finite_parents [OF d2(1)]] fin q v])
  then obtain z z1 where z: "parent_in dag2 w z" "z1 \<in> ?S" "cert_origin z = cert_origin z1" by auto
  have rz: "in_dag dag2 z" "cert_round z = cert_round lead + 1" using z(1) w(3) by (auto simp: parent_in_def)
  have "cert_header z1 = cert_header z"
    using same_historyD(1) [OF same _ rz(1), of z1] z(2,3) rz(2) by simp
  then have lead: "cert_digest lead \<in> set (cert_parents z)" using z(2) by simp
  obtain y where y: "y \<in> set (dag_round dag2 (cert_round z - 1))" "cert_digest y = cert_digest lead"
    using complete_historyD(2) [OF d2(2) rz(1) _ lead] rz(2) x(3) by auto
  then have ry: "in_dag dag2 y" "cert_round y = cert_round lead" using in_dag_round [OF d2(1)] rz(2) by auto
  have "parent_in dag2 z y" using ry rz(2) lead y(2) by (simp add: parent_in_def)
  with rtranclp.rtrancl_into_rtrancl [OF w(1) z(1)] have "(parent_in dag2)\<^sup>*\<^sup>* x y"
    by (rule rtranclp.rtrancl_into_rtrancl)
  moreover have "cert_header lead = cert_header y" by (rule same_historyD(2) [OF same d1(2) ry(1) y(2) [symmetric]])
  ultimately show ?thesis using ry(1) by auto
qed

end
