(* ===== verification/Narwhal_Leader_Chain.thy ===== *)
theory Narwhal_Leader_Chain
  imports Narwhal_Bullshark
begin

text \<open>
  The leaders one commit orders (\<open>order_leaders\<close> of
  \<open>src/narwhal/primary/src/consensus/bullshark.rs\<close>): the walk visits every even round between the
  committed one and the leader's, downwards, and the leaders it collects form a chain of paths.
  Two nodes that follow the same schedule collect the same leaders, the safety of Bullshark.
\<close>

section \<open>The rounds of the walk\<close>

lemma step_by_2_rev_upt:
  "a \<le> b \<Longrightarrow> step_by_2 (rev [a..<Suc (Suc b)]) = Suc b # step_by_2 (rev [a..<b])"
  by simp

lemma set_step_by_2: "set (step_by_2 (rev [a..<b])) = {r. a \<le> r \<and> r < b \<and> even (b - 1 - r)}"
proof (induction b rule: less_induct)
  case (less b)
  show ?case
  proof (cases "a + 2 \<le> b")
    case True
    then obtain k where b: "b = Suc (Suc k)" "a \<le> k" by (metis Suc_le_D add_2_eq_Suc' Suc_le_mono)
    have "r < k \<and> even (k - 1 - r) \<or> r = Suc k \<longleftrightarrow> r < b \<and> even (b - 1 - r)" if "a \<le> r" for r
    proof -
      have "even (b - 1 - r) \<longleftrightarrow> even (k - 1 - r)" if "r < k"
      proof -
        have "b - 1 - r = k - 1 - r + 2" using that b by simp
        then show ?thesis by simp
      qed
      then show ?thesis using b by (cases "r < k") (auto simp: less_Suc_eq)
    qed
    then show ?thesis
      unfolding b(1) step_by_2_rev_upt [OF b(2)] list.set less.IH [of k, unfolded b(1), simplified]
      using b by auto
  next
    case False
    then consider "b \<le> a" | "b = Suc a" by linarith
    then show ?thesis by cases (auto simp: less_Suc_eq)
  qed
qed

lemma sorted_step_by_2: "sorted_wrt (>) (step_by_2 (rev [a..<b]))"
proof (induction b rule: less_induct)
  case (less b)
  show ?case
  proof (cases "a + 2 \<le> b")
    case True
    then obtain k where b: "b = Suc (Suc k)" "a \<le> k" by (metis Suc_le_D add_2_eq_Suc' Suc_le_mono)
    have "r < Suc k" if "r \<in> set (step_by_2 (rev [a..<k]))" for r
      using that unfolding set_step_by_2 by simp
    then show ?thesis unfolding b(1) step_by_2_rev_upt [OF b(2)] using less.IH [of k] b by simp
  next
    case False
    then consider "b \<le> a" | "b = Suc a" by linarith
    then show ?thesis by cases auto
  qed
qed

lemma step_by_2_split:
  assumes "even (b - l)" "a \<le> l" "l \<le> b"
  shows "\<exists>pre. step_by_2 (rev [a..<Suc b]) = pre @ l # step_by_2 (rev [a..<l - 1])
    \<and> (\<forall>r \<in> set pre. l < r)"
  using assms
proof (induction b rule: less_induct)
  case (less b)
  show ?case
  proof (cases "b = l")
    case True
    show ?thesis
    proof (cases "a < l")
      case lt: True
      then obtain k where k: "l = Suc k" "a \<le> k" by (metis less_Suc_eq_le lessE)
      then show ?thesis using True by (intro exI [of _ "[]"]) (simp add: step_by_2_rev_upt del: upt_Suc)
    next
      case False
      then show ?thesis using True less.prems by (intro exI [of _ "[]"]) simp
    qed
  next
    case False
    then have "l + 2 \<le> b" using less.prems by presburger
    then obtain k where b: "b = Suc (Suc k)" "l \<le> k" by (metis Suc_le_D add_2_eq_Suc' Suc_le_mono)
    have "even (k - l)" using less.prems(1) b by (simp add: Suc_diff_le)
    from less.IH [OF _ this less.prems(2) b(2)] obtain pre where
      "step_by_2 (rev [a..<Suc k]) = pre @ l # step_by_2 (rev [a..<l - 1])" "\<forall>r \<in> set pre. l < r"
      using b by auto
    moreover have "step_by_2 (rev [a..<Suc b]) = b # step_by_2 (rev [a..<Suc k])"
      unfolding b(1) using b(2) less.prems(2) by (intro step_by_2_rev_upt) simp
    ultimately show ?thesis using b by (intro exI [of _ "b # pre"]) auto
  qed
qed

section \<open>The walk\<close>

definition sound_schedule :: "leader_rng \<Rightarrow> leader_schedule \<Rightarrow> bool" where
  "sound_schedule rng ls \<longleftrightarrow>
     wf_committee (ls_committee ls) \<and> lawful_rng rng
     \<and> wf_table (ls_committee ls) (ls_leader_swap_table ls) \<and> swappable (ls_leader_swap_table ls)"

text \<open>The elected authority does not depend on the DAG, and only its certificate of the round
  counts.\<close>

definition elected :: "leader_rng \<Rightarrow> leader_schedule \<Rightarrow> round \<Rightarrow> authority_identifier" where
  "elected rng ls r = auth_id (the (leader rng ls r))"

abbreviation elected_cert :: "leader_rng \<Rightarrow> leader_schedule \<Rightarrow> dag \<Rightarrow> round \<Rightarrow> certificate \<Rightarrow> bool" where
  "elected_cert rng ls dag r y \<equiv> in_dag dag y \<and> cert_round y = r \<and> cert_origin y = elected rng ls r"

lemma hostname_member:
  "wf_committee c \<Longrightarrow> a \<in> set (authorities c) \<Longrightarrow> \<exists>h. authority_hostname a = Some h"
  by (auto simp: wf_committee_def list_all_iff authority_getter_defs)

lemma elected_slot:
  assumes "sound_schedule rng ls" "even r" "wf_dag dag"
  obtains a h x where "leader_certificate rng ls r dag = Some (a, x)" "authority_hostname a = Some h"
    and "\<forall>y. x = Some y \<longleftrightarrow> elected_cert rng ls dag r y"
proof -
  have r: "r mod 2 = 0" using assms(2) by presburger
  obtain a x where a: "leader_certificate rng ls r dag = Some (a, x)" "a \<in> set (authorities (ls_committee ls))"
      "\<forall>y. x = Some y \<longleftrightarrow> in_dag dag y \<and> cert_round y = r \<and> cert_origin y = auth_id a"
    using leader_certificate_spec [OF _ _ r _ _ assms(3), of ls rng] assms(1) [unfolded sound_schedule_def]
    by blast
  have "leader rng ls r = Some a" using a(1) by (auto simp: leader_certificate_def split: bind_splits)
  then have e: "elected rng ls r = auth_id a" by (simp add: elected_def)
  obtain h where "authority_hostname a = Some h"
    using hostname_member a(2) assms(1) by (auto simp: sound_schedule_def)
  then show thesis by (rule that [OF a(1)]) (use a(3) e in simp)
qed

lemma order_leaders_loop_step:
  assumes "sound_schedule rng ls" "wf_dag dag" "complete_history dag gc" "in_dag dag lead"
    and "even r" "gc < r" "r < cert_round lead"
  shows "elected_cert rng ls dag r p \<Longrightarrow> (parent_in dag)\<^sup>*\<^sup>* lead p \<Longrightarrow>
      order_leaders_loop rng ls dag (r # rs) lead acc = order_leaders_loop rng ls dag rs p (p # acc)"
    and "\<nexists>p. elected_cert rng ls dag r p \<and> (parent_in dag)\<^sup>*\<^sup>* lead p \<Longrightarrow>
      order_leaders_loop rng ls dag (r # rs) lead acc = order_leaders_loop rng ls dag rs lead acc"
proof -
  obtain a h x where a: "leader_certificate rng ls r dag = Some (a, x)" "authority_hostname a = Some h"
      "\<forall>y. x = Some y \<longleftrightarrow> elected_cert rng ls dag r y"
    by (rule elected_slot [OF assms(1,5,2)])
  have linked: "linked lead p dag = Some ((parent_in dag)\<^sup>*\<^sup>* lead p)" if "x = Some p" for p
    using linked_spec [OF assms(2-4), of p] a(3) [rule_format, of p] that assms(6,7) by simp
  show "order_leaders_loop rng ls dag (r # rs) lead acc = order_leaders_loop rng ls dag rs p (p # acc)"
    if "elected_cert rng ls dag r p" "(parent_in dag)\<^sup>*\<^sup>* lead p"
    using a(1) a(3) [rule_format, of p] linked [of p] that by simp
  show "order_leaders_loop rng ls dag (r # rs) lead acc = order_leaders_loop rng ls dag rs lead acc"
    if "\<nexists>p. elected_cert rng ls dag r p \<and> (parent_in dag)\<^sup>*\<^sup>* lead p"
  proof (cases x)
    case (Some p)
    then show ?thesis using a(1,2) a(3) [rule_format, of p] linked [of p] that by auto
  qed (use a(1,2) in simp)
qed

text \<open>The walk never panics. Its leaders have increasing rounds and are all reached from the
  leader it starts with; a longer walk goes on from the last leader found.\<close>

lemma order_leaders_loop_spec:
  assumes sound: "sound_schedule rng ls" and dag: "wf_dag dag" "complete_history dag gc"
    and "in_dag dag lead" "sorted_wrt (>) rs" "\<forall>r \<in> set rs. even r \<and> gc < r \<and> r < cert_round lead"
  shows "\<exists>ys. order_leaders_loop rng ls dag rs lead acc = Some (ys @ acc)
    \<and> sorted_wrt (\<lambda>x y. cert_round x < cert_round y) (ys @ [lead])
    \<and> (\<forall>y \<in> set ys. in_dag dag y \<and> cert_round y \<in> set rs \<and> (parent_in dag)\<^sup>*\<^sup>* lead y)
    \<and> (\<forall>rs'. order_leaders_loop rng ls dag (rs @ rs') lead acc
        = order_leaders_loop rng ls dag rs' (hd (ys @ [lead])) (ys @ acc))"
  using assms(4-6)
proof (induction rs arbitrary: lead acc)
  case (Cons r rs)
  have r: "even r" "gc < r" "r < cert_round lead" using Cons.prems(3) by auto
  note step = order_leaders_loop_step [OF sound dag Cons.prems(1) r]
  have tail: "sorted_wrt (>) rs" "\<forall>r' \<in> set rs. even r' \<and> gc < r' \<and> r' < r \<and> r' < cert_round lead"
    using Cons.prems(2,3) by auto
  show ?case
  proof (cases "\<exists>p. elected_cert rng ls dag r p \<and> (parent_in dag)\<^sup>*\<^sup>* lead p")
    case True
    then obtain p where p: "in_dag dag p" "cert_round p = r" "cert_origin p = elected rng ls r"
        "(parent_in dag)\<^sup>*\<^sup>* lead p" by blast
    from Cons.IH [OF p(1) tail(1), of "p # acc"] tail(2) p(2) obtain ys where
      ys: "order_leaders_loop rng ls dag rs p (p # acc) = Some (ys @ p # acc)"
        "sorted_wrt (\<lambda>x y. cert_round x < cert_round y) (ys @ [p])"
        "\<forall>y \<in> set ys. in_dag dag y \<and> cert_round y \<in> set rs \<and> (parent_in dag)\<^sup>*\<^sup>* p y"
        "\<And>rs'. order_leaders_loop rng ls dag (rs @ rs') p (p # acc)
          = order_leaders_loop rng ls dag rs' (hd (ys @ [p])) (ys @ p # acc)"
      by auto
    have "\<forall>y \<in> set (ys @ [p]). in_dag dag y \<and> cert_round y \<in> set (r # rs) \<and> (parent_in dag)\<^sup>*\<^sup>* lead y"
      using ys(3) p by (auto intro: rtranclp_trans)
    moreover have "sorted_wrt (\<lambda>x y. cert_round x < cert_round y) ((ys @ [p]) @ [lead])"
      using ys(2) p(2) r(3) by (fastforce simp: sorted_wrt_append)
    moreover have "hd (ys @ [p]) = hd ((ys @ [p]) @ [lead])" by (cases ys) simp_all
    ultimately show ?thesis
      using ys(1,4) step(1) p by (intro exI [of _ "ys @ [p]"]) (simp del: order_leaders_loop.simps)
  next
    case False
    from Cons.IH [OF Cons.prems(1) tail(1), of acc] tail(2) step(2) [OF False]
    show ?thesis by (fastforce simp del: order_leaders_loop.simps)
  qed
qed simp

text \<open>Two nodes whose walks start at the same certificate collect the same leaders.\<close>

lemma path_transfer:
  assumes "wf_dag dag2" "complete_history dag2 gc2" "same_history dag1 dag2"
    and "in_dag dag1 x1" "in_dag dag2 x2" "cert_header x1 = cert_header x2"
    and "(parent_in dag1)\<^sup>*\<^sup>* x1 y1" "gc2 < cert_round y1"
  shows "\<exists>y2. in_dag dag2 y2 \<and> cert_header y2 = cert_header y1 \<and> (parent_in dag2)\<^sup>*\<^sup>* x2 y2"
  using assms(7,8)
proof (induction rule: rtranclp_induct)
  case base
  then show ?case using assms(5,6) by auto
next
  case (step y1 z1)
  have z1: "in_dag dag1 z1" "cert_round y1 = cert_round z1 + 1" "cert_digest z1 \<in> set (cert_parents y1)"
    using step.hyps(2) by (auto simp: parent_in_def)
  then have "gc2 < cert_round y1" using step.prems by simp
  with step.IH obtain y2 where y2: "in_dag dag2 y2" "cert_header y2 = cert_header y1"
      "(parent_in dag2)\<^sup>*\<^sup>* x2 y2" by blast
  have ry: "cert_round y2 = cert_round z1 + 1" using header_fields(1) [OF y2(2)] z1(2) by simp
  have par: "cert_digest z1 \<in> set (cert_parents y2)" using z1(3) y2(2) by simp
  obtain z2 where "z2 \<in> set (dag_round dag2 (cert_round y2 - 1))" "cert_digest z2 = cert_digest z1"
    using complete_historyD(2) [OF assms(2) y2(1) _ par] ry step.prems by auto
  then have z2: "in_dag dag2 z2" "cert_round z2 = cert_round z1" "cert_digest z2 = cert_digest z1"
    using in_dag_round [OF assms(1)] ry by auto
  have "parent_in dag2 y2 z2" using z2 ry par by (simp add: parent_in_def)
  with y2(3) have "(parent_in dag2)\<^sup>*\<^sup>* x2 z2" by (rule rtranclp.rtrancl_into_rtrancl)
  moreover have "cert_header z1 = cert_header z2"
    by (rule same_historyD(2) [OF assms(3) z1(1) z2(1) z2(3) [symmetric]])
  ultimately show ?case using z2(1) by auto
qed

lemma elected_transfer:
  assumes "wf_dag dag2" "complete_history dag2 gc2" "same_history dag1 dag2"
    and "in_dag dag1 x1" "in_dag dag2 x2" "cert_header x1 = cert_header x2" "gc2 < r"
    and "elected_cert rng ls dag1 r p1" "(parent_in dag1)\<^sup>*\<^sup>* x1 p1"
  shows "\<exists>p2. elected_cert rng ls dag2 r p2 \<and> (parent_in dag2)\<^sup>*\<^sup>* x2 p2 \<and> cert_header p2 = cert_header p1"
proof -
  have "gc2 < cert_round p1" using assms(7,8) by simp
  from path_transfer [OF assms(1-6,9) this] obtain p2 where
    p2: "in_dag dag2 p2" "cert_header p2 = cert_header p1" "(parent_in dag2)\<^sup>*\<^sup>* x2 p2" by blast
  with header_fields(1,2) [OF p2(2)] assms(8) show ?thesis by auto
qed

lemma walks_agree:
  assumes sound: "sound_schedule rng ls"
    and dag1: "wf_dag dag1" "complete_history dag1 gc1" and dag2: "wf_dag dag2" "complete_history dag2 gc2"
    and same: "same_history dag1 dag2"
    and "in_dag dag1 lead1" "in_dag dag2 lead2" "cert_header lead1 = cert_header lead2" "sorted_wrt (>) rs"
    and "\<forall>r \<in> set rs. even r \<and> gc1 < r \<and> gc2 < r \<and> r < cert_round lead1"
  shows "\<exists>ys1 ys2. order_leaders_loop rng ls dag1 rs lead1 acc1 = Some (ys1 @ acc1)
    \<and> order_leaders_loop rng ls dag2 rs lead2 acc2 = Some (ys2 @ acc2)
    \<and> map cert_header ys1 = map cert_header ys2"
  using assms(7-11)
proof (induction rs arbitrary: lead1 lead2 acc1 acc2)
  case (Cons r rs)
  have r: "even r" "gc1 < r" "gc2 < r" "r < cert_round lead1" "r < cert_round lead2"
    using Cons.prems(5) header_fields(1) [OF Cons.prems(3)] by auto
  note step1 = order_leaders_loop_step [OF sound dag1 Cons.prems(1) r(1,2,4)]
    and step2 = order_leaders_loop_step [OF sound dag2 Cons.prems(2) r(1,3,5)]
    and to2 = elected_transfer [OF dag2 same Cons.prems(1-3) r(3)]
    and to1 = elected_transfer [OF dag1 same_history_sym [OF same] Cons.prems(2,1) Cons.prems(3) [symmetric] r(2)]
  have tail: "sorted_wrt (>) rs" "\<forall>r' \<in> set rs. even r' \<and> gc1 < r' \<and> gc2 < r' \<and> r' < cert_round lead1"
      "\<forall>r' \<in> set rs. even r' \<and> gc1 < r' \<and> gc2 < r' \<and> r' < r"
    using Cons.prems(4,5) by auto
  show ?case
  proof (cases "\<exists>p. elected_cert rng ls dag1 r p \<and> (parent_in dag1)\<^sup>*\<^sup>* lead1 p")
    case True
    then obtain p1 where p1: "elected_cert rng ls dag1 r p1" "(parent_in dag1)\<^sup>*\<^sup>* lead1 p1" by blast
    from to2 [OF p1] obtain p2 where p2: "elected_cert rng ls dag2 r p2" "(parent_in dag2)\<^sup>*\<^sup>* lead2 p2"
        "cert_header p2 = cert_header p1" by blast
    have "\<exists>ys1 ys2. order_leaders_loop rng ls dag1 rs p1 (p1 # acc1) = Some (ys1 @ p1 # acc1)
        \<and> order_leaders_loop rng ls dag2 rs p2 (p2 # acc2) = Some (ys2 @ p2 # acc2)
        \<and> map cert_header ys1 = map cert_header ys2"
      by (rule Cons.IH) (use p1 p2 tail in auto)
    then obtain ys1 ys2 where ys: "order_leaders_loop rng ls dag1 rs p1 (p1 # acc1) = Some ((ys1 @ [p1]) @ acc1)"
        "order_leaders_loop rng ls dag2 rs p2 (p2 # acc2) = Some ((ys2 @ [p2]) @ acc2)"
        "map cert_header (ys1 @ [p1]) = map cert_header (ys2 @ [p2])" using p2(3) by auto
    show ?thesis unfolding step1(1) [OF p1] step2(1) [OF p2(1,2)] using ys by blast
  next
    case False
    have none: "\<nexists>p. elected_cert rng ls dag2 r p \<and> (parent_in dag2)\<^sup>*\<^sup>* lead2 p"
      using to1 False by blast
    show ?thesis unfolding step1(2) [OF False] step2(2) [OF none]
      by (intro Cons.IH [OF Cons.prems(1-3) tail(1,2)])
  qed
qed simp

section \<open>Ordering the leaders\<close>

lemma order_leaders_eq:
  assumes "wf_committee (bs_committee b)" "even (cert_round lead)" "2 \<le> cert_round lead"
    and "order_leaders_loop rng (bs_leader_schedule b) (st_dag st)
      (step_by_2 (rev [cr_committed_round (st_last_round st) + 2..<cert_round lead - 1])) lead [lead] = Some xs"
    and "\<forall>x \<in> set xs. cert_origin x \<in> committee_ids (bs_committee b)"
  shows "order_leaders rng b lead st = Some xs"
proof -
  let ?f = "\<lambda>x. do { a \<leftarrow> authority_lookup (bs_committee b) (cert_origin x); authority_hostname a }"
  have "\<exists>h. ?f x = Some h" if "x \<in> set xs" for x
    using lookup_ids(1,2) [OF assms(1), of "cert_origin x"] hostname_member [OF assms(1)] assms(5) that
    by (metis bind.bind_lunit)
  then have hs: "those (map ?f xs) = Some (map (\<lambda>x. the (?f x)) xs)" by (intro those_eq_map) force
  have top: "cert_round lead - 2 + 1 = cert_round lead - 1" using assms(3) by simp
  have sub: "u64_checked_sub (cert_round lead) 2 = Some (cert_round lead - 2)" using assms(3) by simp
  have "cert_round lead mod 2 = 0" using assms(2) by presburger
  then have ok: "rust_assert (cert_round lead mod 2 = 0) = Some ()" by simp
  show ?thesis
    unfolding order_leaders_def ok sub bind.bind_lunit Let_def top assms(4) hs by (rule refl)
qed

definition members_only :: "committee \<Rightarrow> dag \<Rightarrow> bool" where
  "members_only c dag \<longleftrightarrow> (\<forall>x. in_dag dag x \<longrightarrow> cert_origin x \<in> committee_ids c)"

definition bs_env :: "leader_rng \<Rightarrow> bullshark \<Rightarrow> bool" where
  "bs_env rng b \<longleftrightarrow> sound_schedule rng (bs_leader_schedule b)
     \<and> ls_committee (bs_leader_schedule b) = bs_committee b"

lemma bs_env_committee: "bs_env rng b \<Longrightarrow> wf_committee (bs_committee b)"
  by (auto simp: bs_env_def sound_schedule_def)

abbreviation walk_rounds :: "consensus_state \<Rightarrow> certificate \<Rightarrow> round list" where
  "walk_rounds st lead \<equiv>
     step_by_2 (rev [cr_committed_round (st_last_round st) + 2..<cert_round lead - 1])"

lemma walk_rounds_spec:
  assumes "st_inv st" "even (cert_round lead)" "r \<in> set (walk_rounds st lead)"
  shows "even r" "cr_committed_round (st_last_round st) < r" "cr_gc_round (st_last_round st) < r"
    "r < cert_round lead"
proof -
  have r: "cr_committed_round (st_last_round st) + 2 \<le> r" "r < cert_round lead - 1"
      "even (cert_round lead - 1 - 1 - r)"
    using assms(3) unfolding set_step_by_2 by auto
  then show "even r" "cr_committed_round (st_last_round st) < r" "r < cert_round lead"
    using assms(2) by presburger+
  then show "cr_gc_round (st_last_round st) < r" using st_invD(5) [OF assms(1)] by linarith
qed

lemma order_leaders_spec:
  assumes env: "bs_env rng b" and inv: "st_inv st" "members_only (bs_committee b) (st_dag st)"
    and lead: "in_dag (st_dag st) lead" "even (cert_round lead)" "2 \<le> cert_round lead"
  shows "\<exists>ys. order_leaders rng b lead st = Some (ys @ [lead])
    \<and> order_leaders_loop rng (bs_leader_schedule b) (st_dag st) (walk_rounds st lead) lead [lead]
      = Some (ys @ [lead])
    \<and> sorted_wrt (\<lambda>x y. cert_round x < cert_round y) (ys @ [lead])
    \<and> (\<forall>y \<in> set ys. in_dag (st_dag st) y \<and> even (cert_round y)
        \<and> cr_committed_round (st_last_round st) < cert_round y \<and> (parent_in (st_dag st))\<^sup>*\<^sup>* lead y)"
proof -
  note rounds = walk_rounds_spec [OF inv(1) lead(2)]
  have sound: "sound_schedule rng (bs_leader_schedule b)" using env by (simp add: bs_env_def)
  have "\<forall>r \<in> set (walk_rounds st lead). even r \<and> cr_gc_round (st_last_round st) < r \<and> r < cert_round lead"
    by (intro ballI conjI; rule rounds)
  note order_leaders_loop_spec [OF sound st_invD(1,2) [OF inv(1)] lead(1) sorted_step_by_2 this, of "[lead]"]
  then obtain ys where ys:
      "order_leaders_loop rng (bs_leader_schedule b) (st_dag st) (walk_rounds st lead) lead [lead]
        = Some (ys @ [lead])"
      "sorted_wrt (\<lambda>x y. cert_round x < cert_round y) (ys @ [lead])"
      "\<forall>y \<in> set ys. in_dag (st_dag st) y \<and> cert_round y \<in> set (walk_rounds st lead)
          \<and> (parent_in (st_dag st))\<^sup>*\<^sup>* lead y" by blast
  have "order_leaders rng b lead st = Some (ys @ [lead])"
    by (rule order_leaders_eq [OF bs_env_committee [OF env] lead(2,3) ys(1)])
      (use inv(2) ys(3) lead(1) in \<open>auto simp: members_only_def\<close>)
  moreover have "\<forall>y \<in> set ys. in_dag (st_dag st) y \<and> even (cert_round y)
      \<and> cr_committed_round (st_last_round st) < cert_round y \<and> (parent_in (st_dag st))\<^sup>*\<^sup>* lead y"
    using ys(3) rounds by blast
  ultimately show ?thesis using ys(1,2) by blast
qed

lemma head_of_walk:
  assumes "in_dag dag lead" "even (cert_round lead)" "l < cert_round lead"
    and "\<forall>y \<in> set ys. in_dag dag y \<and> even (cert_round y) \<and> l < cert_round y" "even l"
  shows "in_dag dag (hd (ys @ [lead]))" "l + 2 \<le> cert_round (hd (ys @ [lead]))"
proof -
  define L where "L = hd (ys @ [lead])"
  have L: "in_dag dag L \<and> even (cert_round L) \<and> l < cert_round L"
    unfolding L_def using assms(1-4) by (cases ys) auto
  then have "even (cert_round L)" "l < cert_round L" by simp_all
  then have "l + 2 \<le> cert_round L" using assms(5) by presburger
  then show "in_dag dag (hd (ys @ [lead]))" "l + 2 \<le> cert_round (hd (ys @ [lead]))"
    using L unfolding L_def by simp_all
qed

lemma order_leaders_agree:
  assumes env: "bs_env rng b" and inv1: "st_inv st1" and inv2: "st_inv st2"
    and same: "same_history (st_dag st1) (st_dag st2)"
    and c: "cr_committed_round (st_last_round st1) = cr_committed_round (st_last_round st2)"
    and lead1: "elected_cert rng (bs_leader_schedule b) (st_dag st1) l lead1" "even l"
      "cr_committed_round (st_last_round st1) + 2 \<le> l"
    and support: "map_of (st_dag st1) (l + 1) = Some row"
      "cm_validity_threshold (bs_committee b) \<le> leader_support (bs_committee b) row lead1"
    and quorum: "quorum_parents (bs_committee b) (st_dag st2) (cr_gc_round (st_last_round st2))"
    and lead2: "in_dag (st_dag st2) lead2" "even (cert_round lead2)" "l < cert_round lead2"
  shows "\<exists>xs1 xs2 zs.
    order_leaders_loop rng (bs_leader_schedule b) (st_dag st1) (walk_rounds st1 lead1) lead1 [lead1] = Some xs1
    \<and> order_leaders_loop rng (bs_leader_schedule b) (st_dag st2) (walk_rounds st2 lead2) lead2 [lead2] = Some xs2
    \<and> map cert_header xs2 = map cert_header xs1 @ zs"
proof -
  let ?ls = "bs_leader_schedule b" and ?loop = "order_leaders_loop rng (bs_leader_schedule b)"
  let ?c = "cr_committed_round (st_last_round st2)"
  have sound: "sound_schedule rng ?ls" using env by (simp add: bs_env_def)
  have l: "cert_round lead1 = l" "in_dag (st_dag st1) lead1" using lead1(1) by auto
  have gc: "cr_gc_round (st_last_round st2) < l" using st_invD(5) [OF inv2] lead1(3) c by linarith
  have "even (cert_round lead2 - 2 - l)" "l \<le> cert_round lead2 - 2" "Suc (cert_round lead2 - 2) = cert_round lead2 - 1"
    using lead1(2) lead2(2,3) by presburger+
  with step_by_2_split [OF this(1) _ this(2), of "?c + 2"] lead1(3) c obtain pre where
    pre: "walk_rounds st2 lead2 = pre @ l # walk_rounds st1 lead1" "\<forall>r \<in> set pre. l < r"
    unfolding l(1) by auto
  note rounds = walk_rounds_spec [OF inv2 lead2(2), unfolded pre(1)]
  have sorted: "sorted_wrt (>) (pre @ l # walk_rounds st1 lead1)"
    using sorted_step_by_2 [of "?c + 2" "cert_round lead2 - 1"] unfolding pre(1) .
  have "sorted_wrt (>) pre" using sorted by (simp add: sorted_wrt_append)
  moreover have "\<forall>r \<in> set pre. even r \<and> cr_gc_round (st_last_round st2) < r \<and> r < cert_round lead2"
    by (intro ballI conjI; rule rounds) simp_all
  ultimately have "\<exists>ys. (\<forall>y \<in> set ys. in_dag (st_dag st2) y \<and> cert_round y \<in> set pre)
      \<and> (\<forall>rs'. ?loop (st_dag st2) (pre @ rs') lead2 [lead2]
          = ?loop (st_dag st2) rs' (hd (ys @ [lead2])) (ys @ [lead2]))"
    using order_leaders_loop_spec [OF sound st_invD(1,2) [OF inv2] lead2(1), of pre "[lead2]"]
    by blast
  then obtain ys where ys: "\<forall>y \<in> set ys. in_dag (st_dag st2) y \<and> cert_round y \<in> set pre"
      "\<And>rs'. ?loop (st_dag st2) (pre @ rs') lead2 [lead2]
        = ?loop (st_dag st2) rs' (hd (ys @ [lead2])) (ys @ [lead2])" by blast
  have "\<forall>y \<in> set ys. in_dag (st_dag st2) y \<and> even (cert_round y) \<and> l < cert_round y"
    using ys(1) pre(2) rounds(1) by auto
  note L = head_of_walk [OF lead2 this lead1(2)]
  from supported_leader_reached [OF bs_env_committee [OF env] st_invD(1) [OF inv1] l(2) _ support(2)
      st_invD(1,2) [OF inv2] quorum same L(1)] obtain p where
    p: "in_dag (st_dag st2) p" "cert_header p = cert_header lead1" "(parent_in (st_dag st2))\<^sup>*\<^sup>* (hd (ys @ [lead2])) p"
    using support(1) L(2) gc unfolding l(1) by auto
  have "elected_cert rng ?ls (st_dag st2) l p" using header_fields(1,2) [OF p(2)] p(1) lead1(1) by simp
  note step = order_leaders_loop_step(1) [OF sound st_invD(1,2) [OF inv2] L(1) lead1(2) gc _ this p(3)]
  have "\<forall>r \<in> set (walk_rounds st1 lead1). even r \<and> cr_gc_round (st_last_round st1) < r
      \<and> cr_gc_round (st_last_round st2) < r \<and> r < cert_round lead1"
    using walk_rounds_spec [OF inv1, of lead1] lead1(2) rounds(3) unfolding l(1) by auto
  from walks_agree [OF sound st_invD(1,2) [OF inv1] st_invD(1,2) [OF inv2] same l(2) p(1) p(2) [symmetric]
      sorted_step_by_2 this, of "[lead1]" "p # ys @ [lead2]"]
  obtain ys1 ys2 where w: "?loop (st_dag st1) (walk_rounds st1 lead1) lead1 [lead1] = Some (ys1 @ [lead1])"
      "?loop (st_dag st2) (walk_rounds st1 lead1) p (p # ys @ [lead2]) = Some (ys2 @ p # ys @ [lead2])"
      "map cert_header ys1 = map cert_header ys2" by blast
  have "?loop (st_dag st2) (walk_rounds st2 lead2) lead2 [lead2] = Some (ys2 @ p # ys @ [lead2])"
    unfolding pre(1) ys(2) using step L(2) w(2) by simp
  with w(1) w(3) p(2) show ?thesis by (intro exI conjI) auto
qed

lemma elected_leader_certificate:
  assumes "bs_env rng b" "even r" "wf_dag dag"
    and "leader_certificate rng (bs_leader_schedule b) r dag = Some (a, Some x)"
  shows "elected_cert rng (bs_leader_schedule b) dag r x"
proof -
  have "sound_schedule rng (bs_leader_schedule b)" using assms(1) by (simp add: bs_env_def)
  then show ?thesis by (rule elected_slot [OF _ assms(2,3)]) (use assms(4) in auto)
qed

text \<open>C22: \<open>linked\<close> never panics on two certificates of a well-formed state and answers whether the
  later one reaches the earlier one through parents.\<close>

theorem linked_correct:
  assumes "st_inv st" "in_dag (st_dag st) lead" "in_dag (st_dag st) prev" "cert_round prev \<le> cert_round lead"
  shows "linked lead prev (st_dag st) = Some ((parent_in (st_dag st))\<^sup>*\<^sup>* lead prev)"
  using linked_spec [OF st_invD(1,2) [OF assms(1)] assms(2,3) _ assms(4)] st_inv_above_gc [OF assms(1,3)]
  by blast

theorem linked_correct_witness:
  "linked (example_certificate 2 2 [100, 101, 102] []) (example_certificate 1 0 [] []) example_dag
    = Some ((parent_in example_dag)\<^sup>*\<^sup>* (example_certificate 2 2 [100, 101, 102] []) (example_certificate 1 0 [] []))"
  using linked_correct [OF example_state_inv(1), of "example_certificate 2 2 [100, 101, 102] []"
      "example_certificate 1 0 [] []"]
  by (simp add: example_state_def in_dag_def example_dag_def)

section \<open>Agreement\<close>

lemma quorum_parents_code:
  assumes "wf_dag dag"
  shows "quorum_parents c dag gc \<longleftrightarrow> list_all (\<lambda>x. gc + 1 < cert_round x \<longrightarrow>
    cm_quorum_threshold c \<le> sum_list (map (stake_by_id c) (remdups (map cert_origin (filter
      (\<lambda>y. cert_round x = cert_round y + 1 \<and> cert_digest y \<in> set (cert_parents x)) (dag_certs dag))))))
    (dag_certs dag)"
proof -
  have *: "sum (stake_by_id c) (cert_origin ` {y. parent_in dag x y})
      = sum_list (map (stake_by_id c) (remdups (map cert_origin (filter
      (\<lambda>y. cert_round x = cert_round y + 1 \<and> cert_digest y \<in> set (cert_parents x)) (dag_certs dag)))))" for x
    by (subst sum_list_distinct_conv_sum_set)
      (simp_all add: parent_in_def [abs_def] in_dag_certs [OF assms])
  show ?thesis unfolding quorum_parents_def list_all_iff * in_dag_certs [OF assms] by blast
qed

lemma same_history_code:
  assumes "wf_dag dag" "wf_dag dag'"
  shows "same_history dag dag' \<longleftrightarrow> list_all (\<lambda>x. list_all (\<lambda>y.
      cert_round x = cert_round y \<and> cert_origin x = cert_origin y \<or> cert_digest x = cert_digest y \<longrightarrow>
      cert_header x = cert_header y) (dag_certs dag')) (dag_certs dag)"
  unfolding same_history_def list_all_iff in_dag_certs [OF assms(1)] in_dag_certs [OF assms(2)] by blast

text \<open>Rounds in which authorities 0, 1 and 2 reference each other's certificates.\<close>

definition chain_row :: "round \<Rightarrow> dag_row" where
  "chain_row r = map (\<lambda>a. (a, 100 * r + a, example_certificate r a
     (if r \<le> 1 then [] else [100 * (r - 1), 100 * (r - 1) + 1, 100 * (r - 1) + 2]) [])) [0, 1, 2]"

definition chain_state :: "round list \<Rightarrow> consensus_state" where
  "chain_state rs = (consensus_state_new 50)\<lparr>st_dag := map (\<lambda>r. (r, chain_row r)) rs\<rparr>"

definition example_bullshark :: bullshark where
  "example_bullshark = bullshark_new example_committee (consensus_store_new [] []) 33 300
     (leader_schedule_new example_committee leader_swap_table_default)"

lemma example_bs_env: "bs_env example_rng example_bullshark" "bs_committee example_bullshark = example_committee"
  "bs_leader_schedule example_bullshark = leader_schedule_new example_committee leader_swap_table_default"
  by (simp_all add: bs_env_def sound_schedule_def example_bullshark_def bullshark_new_def
      leader_schedule_new_def example_committee_wf lawful_example_rng wf_table_default)

lemma chain_wf: "wf_dag (st_dag (chain_state [1, 2, 3]))" "wf_dag (st_dag (chain_state [1, 2, 3, 4]))"
  by (simp_all add: chain_state_def wf_dag_def wf_row_def chain_row_def)

lemma chain_dag: "st_dag (chain_state rs) = map (\<lambda>r. (r, chain_row r)) rs"
  "cr_gc_round (st_last_round (chain_state rs)) = 0"
  "cr_committed_round (st_last_round (chain_state rs)) = 0"
  by (simp_all add: chain_state_def consensus_state_new_def consensus_round_default_def)

lemma chain_inv: "st_inv (chain_state [1, 2, 3])" "st_inv (chain_state [1, 2, 3, 4])"
proof -
  have h: "complete_history (st_dag (chain_state [1, 2, 3])) 0" "complete_history (st_dag (chain_state [1, 2, 3, 4])) 0"
    unfolding complete_history_code [OF chain_wf(1)] complete_history_code [OF chain_wf(2)]
    by (simp_all add: chain_dag chain_row_def dag_round_def)
  show "st_inv (chain_state [1, 2, 3])" "st_inv (chain_state [1, 2, 3, 4])"
    unfolding st_inv_def chain_dag(2,3) using chain_wf h
    by (simp_all add: gc_round_def chain_state_def consensus_state_new_def)
qed

text \<open>Ordering the leaders of a commit never panics. The leaders have increasing even rounds
  above the committed round, end with the leader that triggered the commit, and are all reached
  from it.\<close>

theorem order_leaders_correct:
  assumes "bs_env rng b" "st_inv st" "members_only (bs_committee b) (st_dag st)"
    and "in_dag (st_dag st) lead" "even (cert_round lead)" "2 \<le> cert_round lead"
  shows "\<exists>xs. order_leaders rng b lead st = Some xs \<and> last xs = lead
    \<and> sorted_wrt (\<lambda>x y. cert_round x < cert_round y) xs
    \<and> (\<forall>x \<in> set xs. in_dag (st_dag st) x \<and> even (cert_round x) \<and> (parent_in (st_dag st))\<^sup>*\<^sup>* lead x
        \<and> (x = lead \<or> cr_committed_round (st_last_round st) < cert_round x))"
proof -
  from order_leaders_spec [OF assms] obtain ys where "order_leaders rng b lead st = Some (ys @ [lead])"
      "sorted_wrt (\<lambda>x y. cert_round x < cert_round y) (ys @ [lead])"
      "\<forall>y \<in> set ys. in_dag (st_dag st) y \<and> even (cert_round y)
        \<and> cr_committed_round (st_last_round st) < cert_round y \<and> (parent_in (st_dag st))\<^sup>*\<^sup>* lead y" by blast
  with assms(4,5) show ?thesis by (intro exI [of _ "ys @ [lead]"]) auto
qed

lemma chain_members: "members_only example_committee (st_dag (chain_state [1, 2, 3, 4]))"
    "members_only example_committee (st_dag (chain_state [1, 2, 3]))"
  unfolding members_only_def in_dag_certs [OF chain_wf(1)] in_dag_certs [OF chain_wf(2)] ids_example
  by (auto simp: chain_dag chain_row_def)

abbreviation chain_cert :: "round \<Rightarrow> authority_identifier \<Rightarrow> certificate" where
  "chain_cert r a \<equiv> example_certificate r a [100 * (r - 1), 100 * (r - 1) + 1, 100 * (r - 1) + 2] []"

theorem order_leaders_correct_witness:
  "\<exists>xs. order_leaders example_rng example_bullshark (chain_cert 4 2) (chain_state [1, 2, 3, 4]) = Some xs
    \<and> last xs = chain_cert 4 2 \<and> sorted_wrt (\<lambda>x y. cert_round x < cert_round y) xs"
proof -
  have "in_dag (st_dag (chain_state [1, 2, 3, 4])) (chain_cert 4 2)"
    by (simp add: chain_dag chain_row_def in_dag_def)
  then show ?thesis
    using order_leaders_correct [OF example_bs_env(1) chain_inv(2) _, of "chain_cert 4 2"] chain_members(1)
    unfolding example_bs_env(2) by fastforce
qed

text \<open>C1: Two nodes agree on the leaders they commit. Let two nodes follow the same schedule from
  the same committed round, with certificates that do not equivocate, and let a leader have
  validity stake behind it in the first node's DAG. Then neither node panics when it orders its
  leaders, and if the second node starts from a later leader, the list it commits begins with
  the first node's list.\<close>

theorem leader_commits_agree:
  assumes "bs_env rng b" "st_inv st1" "st_inv st2"
    and "members_only (bs_committee b) (st_dag st1)" "members_only (bs_committee b) (st_dag st2)"
    and "same_history (st_dag st1) (st_dag st2)"
    and "cr_committed_round (st_last_round st1) = cr_committed_round (st_last_round st2)"
    and "leader_certificate rng (bs_leader_schedule b) l (st_dag st1) = Some (a, Some lead1)" "even l"
      "cr_committed_round (st_last_round st1) + 2 \<le> l"
    and "map_of (st_dag st1) (l + 1) = Some row"
      "cm_validity_threshold (bs_committee b) \<le> leader_support (bs_committee b) row lead1"
    and "quorum_parents (bs_committee b) (st_dag st2) (cr_gc_round (st_last_round st2))"
    and "in_dag (st_dag st2) lead2" "even (cert_round lead2)" "l < cert_round lead2"
  shows "\<exists>xs1 xs2 zs. order_leaders rng b lead1 st1 = Some xs1 \<and> order_leaders rng b lead2 st2 = Some xs2
    \<and> map cert_header xs2 = map cert_header xs1 @ zs"
proof -
  have e: "elected_cert rng (bs_leader_schedule b) (st_dag st1) l lead1"
    by (rule elected_leader_certificate [OF assms(1,9) st_invD(1) [OF assms(2)] assms(8)])
  note order_leaders_agree [OF assms(1-3,6,7) e assms(9-16)]
  moreover have "\<exists>ys. order_leaders rng b lead1 st1 = Some ys
      \<and> order_leaders_loop rng (bs_leader_schedule b) (st_dag st1) (walk_rounds st1 lead1) lead1 [lead1] = Some ys"
    using order_leaders_spec [OF assms(1,2,4), of lead1] e assms(9,10) by auto
  moreover have "\<exists>ys. order_leaders rng b lead2 st2 = Some ys
      \<and> order_leaders_loop rng (bs_leader_schedule b) (st_dag st2) (walk_rounds st2 lead2) lead2 [lead2] = Some ys"
    using order_leaders_spec [OF assms(1,3,5,14,15)] assms(10,16) by auto
  ultimately show ?thesis by fastforce
qed

lemma chain_quorum: "quorum_parents example_committee (st_dag (chain_state [1, 2, 3, 4])) 0"
  unfolding quorum_parents_code [OF chain_wf(2)]
  by (simp add: chain_dag chain_row_def thresholds_example stake_example)

lemma chain_same: "same_history (st_dag (chain_state [1, 2, 3])) (st_dag (chain_state [1, 2, 3, 4]))"
  unfolding same_history_code [OF chain_wf] by (simp add: chain_dag chain_row_def)

lemma chain_leader:
  "\<exists>a. leader_certificate example_rng (leader_schedule_new example_committee leader_swap_table_default) 2
    (st_dag (chain_state [1, 2, 3])) = Some (a, Some (chain_cert 2 1))"
  by (simp add: leader_certificate_def leader_def committee_leader_def leader_schedule_new_def
      authorities_example example_rng_def swap_def leader_swap_table_default_def chain_dag chain_row_def
      authority_id_def authority_initialise_def authority_get_def example_builder_def add_authority_def
      committee_builder_new_def authority_new_def Let_def)

theorem leader_commits_agree_witness:
  "\<exists>xs1 xs2 zs.
    order_leaders example_rng example_bullshark (chain_cert 2 1) (chain_state [1, 2, 3]) = Some xs1
    \<and> order_leaders example_rng example_bullshark (chain_cert 4 2) (chain_state [1, 2, 3, 4]) = Some xs2
    \<and> map cert_header xs2 = map cert_header xs1 @ zs"
proof -
  obtain a where a: "leader_certificate example_rng (bs_leader_schedule example_bullshark) 2
      (st_dag (chain_state [1, 2, 3])) = Some (a, Some (chain_cert 2 1))"
    using chain_leader unfolding example_bs_env(3) by blast
  have row: "map_of (st_dag (chain_state [1, 2, 3])) (2 + 1) = Some (chain_row 3)" by (simp add: chain_dag)
  have support: "cm_validity_threshold (bs_committee example_bullshark)
      \<le> leader_support (bs_committee example_bullshark) (chain_row 3) (chain_cert 2 1)"
    unfolding example_bs_env(2) thresholds_example by (simp add: leader_support_def chain_row_def stake_example u64_wrapping_sum_def u64_size_def)
  have "in_dag (st_dag (chain_state [1, 2, 3, 4])) (chain_cert 4 2)"
    by (simp add: chain_dag chain_row_def in_dag_def)
  from leader_commits_agree [OF example_bs_env(1) chain_inv _ _ chain_same _ a _ _ row support _ this]
  show ?thesis using chain_members chain_quorum
    unfolding chain_dag(2,3) example_bs_env(2) by simp
qed

end
