(* ===== verification/Narwhal_Commit.thy ===== *)
theory Narwhal_Commit
  imports Narwhal_Leader_Chain
begin

text \<open>
  What a commit does to the consensus state (\<open>commit_leader\<close> and \<open>process_certificate\<close> of
  \<open>src/narwhal/primary/src/consensus/bullshark.rs\<close>, \<open>run_inner\<close> of \<open>state.rs\<close>): the operations never
  panic on a well-formed state, the retry after a schedule change ends within its fuel, and the
  sequence of sub-dags a node outputs refines an append-only log in which no certificate
  appears twice.
\<close>

section \<open>Committing one sequence\<close>

text \<open>The round up to which an authority's certificates are committed.\<close>

definition lcr :: "consensus_state \<Rightarrow> authority_identifier \<Rightarrow> round" where
  "lcr st a = (case map_of (st_last_committed st) a of None \<Rightarrow> 0 | Some r \<Rightarrow> r)"

abbreviation committed_round :: "consensus_state \<Rightarrow> round" where
  "committed_round st \<equiv> cr_committed_round (st_last_round st)"

abbreviation last_timestamp :: "consensus_state \<Rightarrow> timestamp_ms" where
  "last_timestamp st \<equiv> (case st_last_committed_sub_dag st of None \<Rightarrow> 0 | Some s \<Rightarrow> sd_commit_timestamp s)"

lemma lcr_update: "lcr (state_update st x) a = (if a = cert_origin x then max (lcr st a) (cert_round x) else lcr st a)"
  by (simp add: lcr_def last_committed_update split: option.split)

lemma lcr_le: "st_inv st \<Longrightarrow> lcr st a \<le> committed_round st"
  using st_inv_last_committed by (auto simp: lcr_def split: option.split)

lemma not_committed_lcr:
  "\<not> committed_before (st_last_committed st) x \<Longrightarrow> 0 < cert_round x \<Longrightarrow> lcr st (cert_origin x) < cert_round x"
  by (auto simp: committed_before_def lcr_def split: option.splits)

lemma updates_st_inv: "st_inv st \<Longrightarrow> st_inv (foldl state_update st xs)"
  by (induction xs arbitrary: st) (simp_all add: st_inv_update)

lemma st_inv_last_sub_dag [simp]: "st_inv (st\<lparr>st_last_committed_sub_dag := s\<rparr>) = st_inv st"
  by (simp add: st_inv_def)

lemma updates_simps [simp]:
  "st_gc_depth (foldl state_update st xs) = st_gc_depth st"
  "st_last_committed_sub_dag (foldl state_update st xs) = st_last_committed_sub_dag st"
  by (induction xs arbitrary: st) simp_all

lemma updates_lcr_mono: "lcr st a \<le> lcr (foldl state_update st xs) a"
  by (induction xs rule: rev_induct) (auto simp: lcr_update)

lemma updates_lcr: "x \<in> set xs \<Longrightarrow> cert_round x \<le> lcr (foldl state_update st xs) (cert_origin x)"
  by (induction xs rule: rev_induct) (auto simp: lcr_update)

lemma updates_committed_round:
  assumes "committed_round st \<le> r" "\<And>x. x \<in> set xs \<Longrightarrow> cert_round x \<le> r" "x \<in> set xs" "cert_round x = r"
  shows "committed_round (foldl state_update st xs) = r"
proof (rule antisym)
  show "committed_round (foldl state_update st xs) \<le> r"
    using assms(1,2) by (induction xs rule: rev_induct) auto
  show "r \<le> committed_round (foldl state_update st xs)"
    using assms(3,4) by (induction xs rule: rev_induct) auto
qed

lemma updates_in_dag:
  assumes "st_inv st" "committed_round (foldl state_update st xs) = r"
  shows "in_dag (st_dag (foldl state_update st xs)) y \<longrightarrow> in_dag (st_dag st) y"
    and "r < cert_round y \<Longrightarrow> in_dag (st_dag (foldl state_update st xs)) y \<longleftrightarrow> in_dag (st_dag st) y"
proof -
  have "in_dag (st_dag (foldl state_update st xs)) y \<longrightarrow> in_dag (st_dag st) y"
      "committed_round (foldl state_update st xs) < cert_round y \<longrightarrow>
        in_dag (st_dag st) y \<longrightarrow> in_dag (st_dag (foldl state_update st xs)) y"
    by (induction xs rule: rev_induct) (auto simp: state_update_dag in_dag_filter gc_round_def)
  then show "in_dag (st_dag (foldl state_update st xs)) y \<longrightarrow> in_dag (st_dag st) y"
    and "r < cert_round y \<Longrightarrow> in_dag (st_dag (foldl state_update st xs)) y \<longleftrightarrow> in_dag (st_dag st) y"
    using assms(2) by blast+
qed

text \<open>Two certificates of an authority are committed in the order of their rounds.\<close>

abbreviation in_round_order :: "certificate \<Rightarrow> certificate \<Rightarrow> bool" where
  "in_round_order x y \<equiv> cert_origin x = cert_origin y \<longrightarrow> cert_round x < cert_round y"

lemma ordered_in_round_order:
  assumes "distinct xs" "sorted (map cert_round xs)" "\<And>x. x \<in> set xs \<Longrightarrow> in_dag dag x"
  shows "sorted_wrt in_round_order xs"
  using assms
proof (induction xs)
  case (Cons x xs)
  have "in_round_order x y" if "y \<in> set xs" for y
  proof
    assume o: "cert_origin x = cert_origin y"
    have "x \<noteq> y" "cert_round x \<le> cert_round y" using Cons.prems(1,2) that by auto
    moreover have "cert_round x \<noteq> cert_round y"
      using in_dag_unique [of dag x y] Cons.prems(3) that o \<open>x \<noteq> y\<close> by auto
    ultimately show "cert_round x < cert_round y" by simp
  qed
  then show ?case using Cons by simp
qed simp

lemma order_dag_fresh:
  assumes "st_inv st" "in_dag (st_dag st) lead" "committed_round st < cert_round lead"
    and "distinct_digests (st_dag st)" "0 < st_gc_depth st"
  shows "\<exists>xs. order_dag lead st = Some xs \<and> lead \<in> set xs \<and> last xs = lead
    \<and> sorted (map cert_round xs) \<and> sorted_wrt in_round_order xs
    \<and> (\<forall>x \<in> set xs. in_dag (st_dag st) x \<and> cert_round x \<le> cert_round lead
        \<and> lcr st (cert_origin x) < cert_round x)"
proof -
  obtain xs where xs: "order_dag lead st = Some xs" "set xs = sub_dag_of st lead" "distinct xs"
      "sorted (map cert_round xs)" using order_dag_spec [OF assms] by blast
  note mem = sub_dag_of_mem [OF _ assms(2)]
  have "lcr st (cert_origin x) < cert_round x" if x: "x \<in> sub_dag_of st lead" for x
  proof (cases "x = lead")
    case True
    then show ?thesis using lcr_le [OF assms(1)] assms(3) by (metis le_less_trans)
  next
    case False
    have "0 < cert_round x" using st_inv_above_gc [OF assms(1) mem(1) [OF x]] by simp
    then show ?thesis using mem(2) [OF x] False not_committed_lcr by blast
  qed
  moreover have "sorted_wrt in_round_order xs"
    by (rule ordered_in_round_order [OF xs(3,4)]) (use mem(1) xs(2) in blast)
  ultimately show ?thesis
    using xs mem(1) sub_dag_of_round [OF _ assms(2)] order_dag_last [OF xs(2,4) assms(2)] by auto
qed

section \<open>The log a node outputs\<close>

text \<open>
  The abstract specification of committing: between two states, a node outputs sub-dags with
  consecutive indices, increasing leader rounds and non-decreasing timestamps, whose certificates
  were not committed before, are committed after, and follow the round order of each authority.
\<close>

definition flat_sub_dag :: "committed_sub_dag \<Rightarrow> bool" where
  "flat_sub_dag s \<longleftrightarrow> sd_certificates s \<noteq> [] \<and> last (sd_certificates s) = sd_leader s
     \<and> sorted (map cert_round (sd_certificates s))"

definition extends_log :: "consensus_state \<Rightarrow> committed_sub_dag list \<Rightarrow> consensus_state \<Rightarrow> bool" where
  "extends_log st subs st' \<longleftrightarrow>
     map sd_sub_dag_index subs = [next_sub_dag_index st..<next_sub_dag_index st']
     \<and> next_sub_dag_index st \<le> next_sub_dag_index st'
     \<and> sorted_wrt in_round_order (concat (map sd_certificates subs))
     \<and> (\<forall>s \<in> set subs. \<forall>x \<in> set (sd_certificates s).
          lcr st (cert_origin x) < cert_round x \<and> cert_round x \<le> lcr st' (cert_origin x))
     \<and> (\<forall>a. lcr st a \<le> lcr st' a)
     \<and> list_all flat_sub_dag subs
     \<and> sorted_wrt (<) (committed_round st # map leader_round subs)
     \<and> committed_round st' = last (committed_round st # map leader_round subs)
     \<and> sorted (last_timestamp st # map sd_commit_timestamp subs)
     \<and> last_timestamp st' = last (last_timestamp st # map sd_commit_timestamp subs)"

lemma extends_log_refl: "extends_log st [] st"
  by (simp add: extends_log_def)

lemma chain_append:
  assumes "transp R" "sorted_wrt R (a # xs)" "sorted_wrt R (last (a # xs) # ys)"
  shows "sorted_wrt R (a # xs @ ys)"
proof -
  have "R x y" if "x \<in> set (a # xs)" "y \<in> set ys" for x y
  proof -
    obtain us where us: "a # xs = us @ [last (a # xs)]" by (metis append_butlast_last_id list.distinct(1))
    have last: "R (last (a # xs)) y" using assms(3) that(2) by simp
    have "x = last (a # xs) \<or> R x (last (a # xs))"
      using assms(2) that(1) us by (metis Un_iff insert_iff list.set set_append sorted_wrt_append empty_iff)
    then show ?thesis using last assms(1) by (auto dest: transpD)
  qed
  then have "sorted_wrt R ((a # xs) @ ys)" using assms(2,3) by (subst sorted_wrt_append) auto
  then show ?thesis by simp
qed

lemma last_append_last: "last (a # xs @ ys) = last (last (a # xs) # ys)"
  by (cases ys) simp_all

lemma extends_log_append:
  assumes "extends_log st subs st'" "extends_log st' subs' st''"
  shows "extends_log st (subs @ subs') st''"
proof -
  note a = assms(1) [unfolded extends_log_def] and b = assms(2) [unfolded extends_log_def]
  have "[next_sub_dag_index st..<next_sub_dag_index st'] @ [next_sub_dag_index st'..<next_sub_dag_index st'']
      = [next_sub_dag_index st..<next_sub_dag_index st'']"
    using a b upt_add_eq_append [of "next_sub_dag_index st" "next_sub_dag_index st'"]
    by (metis le_add_diff_inverse)
  then have "map sd_sub_dag_index (subs @ subs') = [next_sub_dag_index st..<next_sub_dag_index st'']"
    using a b by simp
  moreover have "in_round_order x y"
    if s: "s \<in> set subs" "x \<in> set (sd_certificates s)" "s' \<in> set subs'" "y \<in> set (sd_certificates s')"
    for s x s' y
  proof
    assume o: "cert_origin x = cert_origin y"
    have "cert_round x \<le> lcr st' (cert_origin x)" using a s by blast
    also have "\<dots> < cert_round y" unfolding o using b s by blast
    finally show "cert_round x < cert_round y" .
  qed
  then have "sorted_wrt in_round_order (concat (map sd_certificates (subs @ subs')))"
    using a b by (auto simp: sorted_wrt_append)
  moreover have "\<forall>s \<in> set (subs @ subs'). \<forall>x \<in> set (sd_certificates s).
      lcr st (cert_origin x) < cert_round x \<and> cert_round x \<le> lcr st'' (cert_origin x)"
  proof (intro ballI)
    fix s x
    assume s: "s \<in> set (subs @ subs')" "x \<in> set (sd_certificates s)"
    have le: "lcr st (cert_origin x) \<le> lcr st' (cert_origin x)" "lcr st' (cert_origin x) \<le> lcr st'' (cert_origin x)"
      using a b by blast+
    show "lcr st (cert_origin x) < cert_round x \<and> cert_round x \<le> lcr st'' (cert_origin x)"
    proof (cases "s \<in> set subs")
      case True
      then have "lcr st (cert_origin x) < cert_round x \<and> cert_round x \<le> lcr st' (cert_origin x)" using a s by blast
      with le show ?thesis by linarith
    next
      case False
      then have "lcr st' (cert_origin x) < cert_round x \<and> cert_round x \<le> lcr st'' (cert_origin x)" using b s by auto
      with le show ?thesis by linarith
    qed
  qed
  moreover have "\<forall>a. lcr st a \<le> lcr st'' a" using a b order_trans by blast
  moreover have "sorted_wrt (<) (committed_round st # map leader_round (subs @ subs'))"
    unfolding map_append by (rule chain_append) (use a b in auto)
  moreover have "sorted (last_timestamp st # map sd_commit_timestamp (subs @ subs'))"
    unfolding map_append by (rule chain_append) (use a b in auto)
  moreover have "committed_round st'' = last (committed_round st # map leader_round (subs @ subs'))"
      "last_timestamp st'' = last (last_timestamp st # map sd_commit_timestamp (subs @ subs'))"
    unfolding map_append last_append_last using a b by metis+
  moreover have "list_all flat_sub_dag (subs @ subs')" using a b by simp
  moreover have "next_sub_dag_index st \<le> next_sub_dag_index st''" using a b by linarith
  ultimately show ?thesis unfolding extends_log_def by blast
qed

text \<open>The committed round after some commits is the round of the last leader.\<close>

lemma extends_log_committed:
  assumes "extends_log st subs st'"
  shows "committed_round st \<le> committed_round st'"
    and "subs \<noteq> [] \<Longrightarrow> committed_round st' = cert_round (sd_leader (last subs))"
    and "subs \<noteq> [] \<Longrightarrow> committed_round st < committed_round st'"
proof -
  show eq: "committed_round st' = cert_round (sd_leader (last subs))" if "subs \<noteq> []"
    using assms that by (simp add: extends_log_def leader_round_def last_map)
  show lt: "committed_round st < committed_round st'" if "subs \<noteq> []"
    using assms that unfolding eq [OF that] by (simp add: extends_log_def leader_round_def)
  show "committed_round st \<le> committed_round st'"
    by (cases "subs = []") (use assms lt in \<open>auto simp: extends_log_def less_imp_le\<close>)
qed

section \<open>The invariant of a running node\<close>

text \<open>What is in the store is what a restarted node needs: the last committed rounds and the last
  sub-dag, whose leader has the committed round.\<close>

definition persisted :: "consensus_store \<Rightarrow> consensus_state \<Rightarrow> bool" where
  "persisted store st \<longleftrightarrow>
     map_of (cs_last_committed store) = map_of (st_last_committed st)
     \<and> get_latest_sub_dag store = map_option (\<lambda>s. V2 (v2_from_sub_dag s)) (st_last_committed_sub_dag st)
     \<and> (committed_round st = 0 \<or> (\<exists>a. map_of (st_last_committed st) a = Some (committed_round st)))
     \<and> (\<forall>s. st_last_committed_sub_dag st = Some s \<longrightarrow> leader_round s = committed_round st)"

definition commit_inv :: "leader_rng \<Rightarrow> bullshark \<Rightarrow> consensus_state \<Rightarrow> bool" where
  "commit_inv rng b st \<longleftrightarrow>
     st_inv st \<and> distinct_digests (st_dag st) \<and> 0 < st_gc_depth st \<and> even (committed_round st)
     \<and> bs_env rng b \<and> members_only (bs_committee b) (st_dag st)
     \<and> 0 < bs_num_sub_dags_per_schedule b \<and> bs_bad_nodes_stake_threshold b \<le> 33
     \<and> (\<forall>i. stake_by_id (bs_committee b) i
          \<le> (bs_bad_nodes_stake_threshold b * total_stake (bs_committee b)) div 100)
     \<and> (\<forall>s. st_last_committed_sub_dag st = Some s \<longrightarrow> wf_scores (bs_committee b) (sd_reputation_score s))
     \<and> wf_store (bs_store b)
     \<and> (\<forall>k \<in> fst ` set (cs_committed_sub_dags (bs_store b)). k < next_sub_dag_index st)
     \<and> persisted (bs_store b) st"

lemma resolve_reputation_score_spec:
  assumes "wf_committee (bs_committee b)" "0 < bs_num_sub_dags_per_schedule b"
    and "\<And>s. st_last_committed_sub_dag st = Some s \<Longrightarrow> wf_scores (bs_committee b) (sd_reputation_score s)"
    and "\<forall>x \<in> set xs. cert_origin x \<in> committee_ids (bs_committee b)"
    and "st_last_committed_sub_dag st = None \<Longrightarrow> i = 1"
  shows "\<exists>rs. resolve_reputation_score b st xs i = Some rs \<and> wf_scores (bs_committee b) rs
    \<and> final_of_schedule rs = ((i + 1) mod bs_num_sub_dags_per_schedule b = 0)"
proof -
  let ?c = "bs_committee b" and ?n = "bs_num_sub_dags_per_schedule b"
  let ?base = "if i = 1 \<or> i mod ?n = 0 then reputation_scores_new ?c
    else map_option sd_reputation_score (st_last_committed_sub_dag st)"
  have "\<exists>base. ?base = Some base \<and> wf_scores ?c base"
    using wf_scores_new [OF assms(1)] assms(3,5) by (cases "st_last_committed_sub_dag st") auto
  then obtain base where base: "?base = Some base" "wf_scores ?c base" by blast
  define up where "up P scores x = (if P x then add_score scores (cert_origin x) 1 else scores)"
    for P and scores and x :: certificate
  have up: "wf_scores ?c (foldl (up P) scores xs)" if "wf_scores ?c scores" for P scores
    using that assms(4) by (induction xs arbitrary: scores) (auto simp: up_def wf_scores_add_score)
  define rs where "rs = (case st_last_committed_sub_dag st of None \<Rightarrow> base
    | Some prev \<Rightarrow> foldl (up (\<lambda>x. list_ex (\<lambda>d. d = cert_digest (sd_leader prev)) (cert_parents x))) base xs)
      \<lparr>final_of_schedule := ((i + 1) mod ?n = 0)\<rparr>"
  have wf: "wf_scores ?c rs"
    using base(2) up by (simp add: rs_def wf_scores_def split: option.split)
  have "resolve_reputation_score b st xs i = do {
      rust_assert (total_authorities rs = committee_size ?c); Some rs }"
    using assms(2) base(1) unfolding resolve_reputation_score_def rs_def up_def
    by (simp add: Let_def)
  then show ?thesis using wf total_authorities_wf [OF assms(1) wf] by (simp add: rs_def)
qed

lemma commit_invD:
  assumes "commit_inv rng b st"
  shows "st_inv st" "distinct_digests (st_dag st)" "0 < st_gc_depth st" "even (committed_round st)"
    and "bs_env rng b" "members_only (bs_committee b) (st_dag st)" "wf_committee (bs_committee b)"
    and "0 < bs_num_sub_dags_per_schedule b" "bs_bad_nodes_stake_threshold b \<le> 33"
    and "\<And>i. stake_by_id (bs_committee b) i
      \<le> (bs_bad_nodes_stake_threshold b * total_stake (bs_committee b)) div 100"
    and "\<And>s. st_last_committed_sub_dag st = Some s \<Longrightarrow> wf_scores (bs_committee b) (sd_reputation_score s)"
    and "wf_store (bs_store b)"
    and "\<forall>k \<in> fst ` set (cs_committed_sub_dags (bs_store b)). k < next_sub_dag_index st"
    and "persisted (bs_store b) st"
  using assms bs_env_committee unfolding commit_inv_def by blast+

lemma update_leader_schedule_spec:
  assumes "bs_env rng b" "wf_scores (bs_committee b) rs" "bs_bad_nodes_stake_threshold b \<le> 33"
    and "\<And>i. stake_by_id (bs_committee b) i
      \<le> (bs_bad_nodes_stake_threshold b * total_stake (bs_committee b)) div 100"
  shows "\<exists>ls. update_leader_schedule b r rs = Some (final_of_schedule rs, b\<lparr>bs_leader_schedule := ls\<rparr>)
    \<and> bs_env rng (b\<lparr>bs_leader_schedule := ls\<rparr>)"
proof (cases "final_of_schedule rs")
  case True
  let ?c = "bs_committee b" and ?thr = "bs_bad_nodes_stake_threshold b"
  note c = bs_env_committee [OF assms(1)]
  obtain t where t: "leader_swap_table_new ?c r rs ?thr = Some t"
    using leader_swap_table_new_eq [OF c assms(2)] assms(3) True by auto
  let ?ls = "update_leader_swap_table (bs_leader_schedule b) t"
  have "wf_table ?c t" "swappable t"
    using wf_table_new [OF c assms(2) t] swappable_new [OF c assms(2) t assms(4)] by blast+
  then have "bs_env rng (b\<lparr>bs_leader_schedule := ?ls\<rparr>)"
    using assms(1) c by (simp add: bs_env_def sound_schedule_def update_leader_swap_table_def)
  then show ?thesis using t True by (auto simp: update_leader_schedule_def)
next
  case False
  then show ?thesis
    using assms(1) by (intro exI [of _ "bs_leader_schedule b"]) (simp add: update_leader_schedule_def)
qed

text \<open>What committing leaves unchanged: the configuration, and the DAG above the committed round.\<close>

definition same_above :: "bullshark \<Rightarrow> consensus_state \<Rightarrow> bullshark \<Rightarrow> consensus_state \<Rightarrow> bool" where
  "same_above b st b' st' \<longleftrightarrow>
     bs_committee b' = bs_committee b
     \<and> (\<forall>y. committed_round st' < cert_round y \<longrightarrow> in_dag (st_dag st') y = in_dag (st_dag st) y)
     \<and> (\<forall>y. in_dag (st_dag st') y \<longrightarrow> in_dag (st_dag st) y)"

lemma same_above_refl: "same_above b st b st"
  by (simp add: same_above_def)

lemma same_above_trans:
  "same_above b st b' st' \<Longrightarrow> same_above b' st' b'' st'' \<Longrightarrow> committed_round st' \<le> committed_round st'' \<Longrightarrow>
    same_above b st b'' st''"
  unfolding same_above_def by (metis le_less_trans)

text \<open>The state after the certificates \<open>xs\<close> have been committed as the sub-dag \<open>s\<close>.\<close>

abbreviation commit_state :: "consensus_state \<Rightarrow> certificate list \<Rightarrow> committed_sub_dag \<Rightarrow> consensus_state" where
  "commit_state st xs s \<equiv> (foldl state_update st xs)\<lparr>st_last_committed_sub_dag := Some s\<rparr>"

definition committable :: "consensus_state \<Rightarrow> certificate \<Rightarrow> certificate list \<Rightarrow> bool" where
  "committable st lead xs \<longleftrightarrow> lead \<in> set xs \<and> last xs = lead \<and> sorted (map cert_round xs)
     \<and> sorted_wrt in_round_order xs
     \<and> (\<forall>x \<in> set xs. in_dag (st_dag st) x \<and> cert_round x \<le> cert_round lead
          \<and> lcr st (cert_origin x) < cert_round x)"

definition sub_dag_for :: "consensus_state \<Rightarrow> certificate \<Rightarrow> certificate list \<Rightarrow> reputation_scores \<Rightarrow> committed_sub_dag" where
  "sub_dag_for st lead xs rs =
     committed_sub_dag_new xs lead (next_sub_dag_index st) rs (st_last_committed_sub_dag st)"

lemma commit_state_simps:
  assumes "committable st lead xs" "committed_round st < cert_round lead"
  shows "committed_round (commit_state st xs s) = cert_round lead"
    and "lcr (commit_state st xs s) = lcr (foldl state_update st xs)"
    and "last_timestamp (commit_state st xs (sub_dag_for st lead xs rs))
      = max (last_timestamp st) (hdr_created_at (cert_header lead))"
    and "next_sub_dag_index (commit_state st xs (sub_dag_for st lead xs rs)) = next_sub_dag_index st + 1"
proof -
  have "committed_round (foldl state_update st xs) = cert_round lead"
    by (rule updates_committed_round) (use assms in \<open>auto simp: committable_def\<close>)
  then show "committed_round (commit_state st xs s) = cert_round lead" by simp
  show "lcr (commit_state st xs s) = lcr (foldl state_update st xs)" by (simp add: lcr_def fun_eq_iff)
qed (simp_all add: sub_dag_for_def committed_sub_dag_new_def next_sub_dag_index_def Let_def)

lemma commit_state_extends:
  assumes "committable st lead xs" "committed_round st < cert_round lead"
  shows "extends_log st [sub_dag_for st lead xs rs] (commit_state st xs (sub_dag_for st lead xs rs))"
proof -
  let ?s = "sub_dag_for st lead xs rs"
  have s: "sd_certificates ?s = xs" "leader_round ?s = cert_round lead" "sd_leader ?s = lead"
      "sd_sub_dag_index ?s = next_sub_dag_index st"
      "sd_commit_timestamp ?s = max (last_timestamp st) (hdr_created_at (cert_header lead))"
    by (simp_all add: sub_dag_for_def committed_sub_dag_new_def leader_round_def Let_def)
  have "xs \<noteq> []" using assms(1) by (auto simp: committable_def)
  then have "flat_sub_dag ?s" using assms(1) by (simp add: flat_sub_dag_def s committable_def)
  then show ?thesis
    unfolding extends_log_def commit_state_simps [OF assms] list.map s
    using assms updates_lcr_mono updates_lcr by (simp add: committable_def s)
qed

lemma commit_state_same_above:
  assumes "committable st lead xs" "committed_round st < cert_round lead" "st_inv st"
    "bs_committee b' = bs_committee b"
  shows "same_above b st b' (commit_state st xs s)"
proof -
  have "committed_round (foldl state_update st xs) = cert_round lead"
    using commit_state_simps(1) [OF assms(1,2)] by simp
  from updates_in_dag [OF assms(3) this] show ?thesis
    unfolding same_above_def commit_state_simps(1) [OF assms(1,2)] using assms(4) by simp
qed

lemma updates_dom: "dom (map_of (st_last_committed st)) \<subseteq> dom (map_of (st_last_committed (foldl state_update st xs)))"
  by (induction xs rule: rev_induct) (auto simp: last_committed_update)

lemma commit_state_persisted:
  assumes old: "persisted store st" "wf_store store" "st_inv st"
      "\<forall>k \<in> fst ` set (cs_committed_sub_dags store). k < next_sub_dag_index st"
    and lead: "committable st lead xs" "committed_round st < cert_round lead"
    and store: "write_consensus_state True store (st_last_committed (foldl state_update st xs))
      (sub_dag_for st lead xs rs) = Inr store'"
  shows "persisted store' (commit_state st xs (sub_dag_for st lead xs rs))"
proof -
  let ?s = "sub_dag_for st lead xs rs" and ?lc = "st_last_committed (foldl state_update st xs)"
  have s: "sd_sub_dag_index ?s = next_sub_dag_index st" "leader_round ?s = cert_round lead"
    by (simp_all add: sub_dag_for_def committed_sub_dag_new_def leader_round_def Let_def)
  have cr: "committed_round (foldl state_update st xs) = cert_round lead"
    using commit_state_simps(1) [OF lead] by simp
  note inv' = updates_st_inv [OF old(3), of xs]
  have "map_of (cs_last_committed store') = map_of (cs_last_committed store) ++ map_of ?lc"
    using store map_of_foldl_bt_insert [OF st_invD(4) [OF inv'], of "cs_last_committed store"]
    by (auto simp: write_consensus_state_def)
  moreover have "\<dots> = map_of ?lc"
    using updates_dom [of st xs] old(1) by (intro map_add_subsumed2 ext) (auto simp: map_add_def persisted_def split: option.splits)
  moreover have "get_latest_sub_dag store' = Some (V2 (v2_from_sub_dag ?s))"
    using write_appends [OF old(2) _ store] old(4) s(1) by (simp add: get_latest_sub_dag_def)
  moreover have "map_of ?lc (cert_origin lead) = Some (cert_round lead)"
  proof -
    have "cert_round lead \<le> lcr (foldl state_update st xs) (cert_origin lead)"
      using lead(1) updates_lcr by (simp add: committable_def)
    with lcr_le [OF inv', of "cert_origin lead"] cr lead(2) show ?thesis
      by (auto simp: lcr_def split: option.splits)
  qed
  ultimately show ?thesis using s(2) cr by (auto simp: persisted_def)
qed

lemma commit_state_inv:
  assumes inv: "commit_inv rng b st" and lead: "committable st lead xs" "committed_round st < cert_round lead"
      "even (cert_round lead)"
    and rs: "wf_scores (bs_committee b) rs"
    and b': "bs_env rng (b\<lparr>bs_store := store, bs_leader_schedule := ls\<rparr>)"
    and store: "write_consensus_state True (bs_store b) (st_last_committed (foldl state_update st xs))
      (sub_dag_for st lead xs rs) = Inr store"
  shows "commit_inv rng (b\<lparr>bs_store := store, bs_leader_schedule := ls\<rparr>)
    (commit_state st xs (sub_dag_for st lead xs rs))"
proof -
  note D = commit_invD [OF inv]
  let ?s = "sub_dag_for st lead xs rs" and ?st = "commit_state st xs (sub_dag_for st lead xs rs)"
  have i: "sd_sub_dag_index ?s = next_sub_dag_index st" "sd_reputation_score ?s = rs"
    by (simp_all add: sub_dag_for_def committed_sub_dag_new_def Let_def)
  have above: "same_above b st b ?st" by (rule commit_state_same_above [OF lead(1,2) D(1) refl])
  have "st_inv ?st" using updates_st_inv [OF D(1), of xs] by simp
  moreover have "distinct_digests (st_dag ?st)"
    by (rule distinct_digests_mono [OF D(2)]) (use above in \<open>auto simp: same_above_def\<close>)
  moreover have "members_only (bs_committee b) (st_dag ?st)"
    using D(6) above by (auto simp: members_only_def same_above_def)
  moreover have "fst ` set (cs_committed_sub_dags store)
      = insert (next_sub_dag_index st) (fst ` set (cs_committed_sub_dags (bs_store b)))"
    using write_appends [OF D(12) _ store] D(13) i(1) by simp
  then have "\<forall>k \<in> fst ` set (cs_committed_sub_dags store). k < next_sub_dag_index st + 1"
    using D(13) by auto
  ultimately show ?thesis
    unfolding commit_inv_def commit_state_simps [OF lead(1,2)]
    using D(3,8-10) b' lead(3) rs i(2) write_consensus_state_wf [OF D(12) store]
      commit_state_persisted [OF D(14,12,1,13) lead(1,2) store] by simp
qed

lemma commit_leaders_step:
  assumes inv: "commit_inv rng b st" and w: "\<forall>s. written s"
    and lead: "in_dag (st_dag st) lead" "committed_round st < cert_round lead" "even (cert_round lead)"
  shows "\<exists>s changed b' st'. (\<forall>leaders acc. commit_leaders written b st (lead # leaders) acc =
      (if changed \<and> leaders \<noteq> [] then Some (Inr (ScheduleChanged, acc @ [s]), b', st')
       else commit_leaders written b' st' leaders (acc @ [s])))
    \<and> commit_inv rng b' st' \<and> sd_leader s = lead \<and> extends_log st [s] st' \<and> same_above b st b' st'"
proof -
  note D = commit_invD [OF inv]
  obtain xs where xs: "order_dag lead st = Some xs" "committable st lead xs"
    using order_dag_fresh [OF D(1) lead(1,2) D(2,3)] unfolding committable_def by blast
  have "\<exists>rs. resolve_reputation_score b (foldl state_update st xs) xs (next_sub_dag_index st) = Some rs
      \<and> wf_scores (bs_committee b) rs
      \<and> final_of_schedule rs = ((next_sub_dag_index st + 1) mod bs_num_sub_dags_per_schedule b = 0)"
    by (rule resolve_reputation_score_spec [OF D(7,8)])
      (use D(6,11) xs(2) in \<open>auto simp: members_only_def committable_def next_sub_dag_index_def\<close>)
  then obtain rs where rs: "resolve_reputation_score b (foldl state_update st xs) xs (next_sub_dag_index st) = Some rs"
      "wf_scores (bs_committee b) rs" by blast
  define s where "s = sub_dag_for st lead xs rs"
  obtain store where store: "write_consensus_state True (bs_store b) (st_last_committed (foldl state_update st xs)) s
      = Inr store" by (simp add: write_consensus_state_def)
  obtain ls where ls: "update_leader_schedule (b\<lparr>bs_store := store\<rparr>) (cert_round lead) rs
        = Some (final_of_schedule rs, b\<lparr>bs_store := store, bs_leader_schedule := ls\<rparr>)"
      "bs_env rng (b\<lparr>bs_store := store, bs_leader_schedule := ls\<rparr>)"
    using update_leader_schedule_spec [of rng "b\<lparr>bs_store := store\<rparr>" rs] D(5,9,10) rs(2)
    by (fastforce simp: bs_env_def)
  let ?b = "b\<lparr>bs_store := store, bs_leader_schedule := ls\<rparr>" and ?st = "commit_state st xs s"
  have "commit_leaders written b st (lead # leaders) acc =
      (if final_of_schedule rs \<and> leaders \<noteq> [] then Some (Inr (ScheduleChanged, acc @ [s]), ?b, ?st)
       else commit_leaders written ?b ?st leaders (acc @ [s]))" for leaders acc
    using xs(1) rs(1) store w ls(1) by (simp add: Let_def s_def sub_dag_for_def)
  moreover have "sd_leader s = lead" by (simp add: s_def sub_dag_for_def committed_sub_dag_new_def Let_def)
  moreover have "extends_log st [s] ?st" unfolding s_def by (rule commit_state_extends [OF xs(2) lead(2)])
  moreover have "same_above b st ?b ?st" by (rule commit_state_same_above [OF xs(2) lead(2) D(1)]) simp
  moreover have "commit_inv rng ?b ?st"
    using commit_state_inv [OF inv xs(2) lead(2,3) rs(2) ls(2) store [unfolded s_def]] unfolding s_def .
  ultimately show ?thesis by blast
qed

section \<open>Committing leaders\<close>

text \<open>Committing a list of leaders commits all of them, or stops at a schedule change after at
  least one.\<close>

lemma commit_leaders_spec:
  assumes "commit_inv rng b st" and w: "\<forall>s. written s"
    and "\<forall>x \<in> set leaders. in_dag (st_dag st) x \<and> committed_round st < cert_round x \<and> even (cert_round x)"
    and "sorted_wrt (\<lambda>x y. cert_round x < cert_round y) leaders"
  shows "\<exists>out subs b' st'. commit_leaders written b st leaders acc = Some (Inr (out, acc @ subs), b', st')
    \<and> commit_inv rng b' st' \<and> extends_log st subs st' \<and> same_above b st b' st'
    \<and> (if out = ScheduleChanged then subs \<noteq> [] \<and> (\<exists>x rest. leaders = map sd_leader subs @ x # rest)
       else out = Commit \<and> map sd_leader subs = leaders)"
  using assms(1,3,4)
proof (induction leaders arbitrary: b st acc)
  case Nil
  have "commit_leaders written b st [] acc = Some (Inr (Commit, acc @ []), b, st)" by simp
  with Nil.prems(1) extends_log_refl same_above_refl show ?case by fastforce
next
  case (Cons lead leaders)
  have lead: "in_dag (st_dag st) lead" "committed_round st < cert_round lead" "even (cert_round lead)"
    using Cons.prems(2) by auto
  obtain s changed b1 st1 where s: "\<And>leaders acc. commit_leaders written b st (lead # leaders) acc =
        (if changed \<and> leaders \<noteq> [] then Some (Inr (ScheduleChanged, acc @ [s]), b1, st1)
         else commit_leaders written b1 st1 leaders (acc @ [s]))"
      "commit_inv rng b1 st1" "sd_leader s = lead" "extends_log st [s] st1" "same_above b st b1 st1"
    using commit_leaders_step [OF Cons.prems(1) w lead] by blast
  show ?case
  proof (cases "changed \<and> leaders \<noteq> []")
    case True
    then obtain x rest where "lead # leaders = map sd_leader [s] @ x # rest" using s(3) by (cases leaders) auto
    moreover have "commit_leaders written b st (lead # leaders) acc = Some (Inr (ScheduleChanged, acc @ [s]), b1, st1)"
      unfolding s(1) using True by simp
    ultimately show ?thesis using s(2,4,5)
      by (intro exI [of _ ScheduleChanged] exI [of _ "[s]"] exI [of _ b1] exI [of _ st1]) (simp del: commit_leaders.simps)
  next
    case False
    have cr: "committed_round st1 = cert_round lead" using s(3,4) by (simp add: extends_log_def leader_round_def)
    have "\<forall>x \<in> set leaders. in_dag (st_dag st1) x \<and> committed_round st1 < cert_round x \<and> even (cert_round x)"
      using Cons.prems(2,3) s(5) unfolding cr same_above_def by auto
    from Cons.IH [OF s(2) this, of "acc @ [s]"] Cons.prems(3) obtain out subs b2 st2 where
      r: "commit_leaders written b1 st1 leaders (acc @ [s]) = Some (Inr (out, (acc @ [s]) @ subs), b2, st2)"
        "commit_inv rng b2 st2" "extends_log st1 subs st2" "same_above b1 st1 b2 st2"
        "if out = ScheduleChanged then subs \<noteq> [] \<and> (\<exists>x rest. leaders = map sd_leader subs @ x # rest)
         else out = Commit \<and> map sd_leader subs = leaders" by auto
    have "commit_leaders written b st (lead # leaders) acc = Some (Inr (out, acc @ (s # subs)), b2, st2)"
      unfolding s(1) using False r(1) by auto
    moreover have "extends_log st (s # subs) st2" using extends_log_append [OF s(4) r(3)] by simp
    moreover have "same_above b st b2 st2"
      by (rule same_above_trans [OF s(5) r(4) extends_log_committed(1) [OF r(3)]])
    moreover have "if out = ScheduleChanged then s # subs \<noteq> [] \<and> (\<exists>x rest. lead # leaders = map sd_leader (s # subs) @ x # rest)
         else out = Commit \<and> map sd_leader (s # subs) = lead # leaders" using r(5) s(3) by (auto split: if_splits)
    ultimately show ?thesis using r(2) by blast
  qed
qed

text \<open>What one attempt to commit the leader of round \<open>r\<close> achieves.\<close>

definition commit_post ::
    "leader_rng \<Rightarrow> round \<Rightarrow> bullshark \<Rightarrow> consensus_state \<Rightarrow> outcome \<Rightarrow> committed_sub_dag list \<Rightarrow>
     bullshark \<Rightarrow> consensus_state \<Rightarrow> bool" where
  "commit_post rng r b st out subs b' st' \<longleftrightarrow>
     commit_inv rng b' st' \<and> extends_log st subs st' \<and> same_above b st b' st'
     \<and> (if out = ScheduleChanged then subs \<noteq> [] \<and> committed_round st' < r
        else if out = Commit then subs \<noteq> [] \<and> committed_round st' = r else subs = [])"

lemma commit_supported_leader:
  assumes inv: "commit_inv rng b st" and w: "\<forall>s. written s"
    and r: "even r" "committed_round st < r"
    and lead: "leader_certificate rng (bs_leader_schedule b) r (st_dag st) = Some (a, Some lead)"
    and row: "map_of (st_dag st) (r + 1) = Some row"
      "\<not> leader_support (bs_committee b) row lead < cm_validity_threshold (bs_committee b)"
  shows "\<exists>out subs b' st'. commit_leader rng written b r st = Some (Inr (out, subs), b', st')
    \<and> commit_post rng r b st out subs b' st' \<and> out \<in> {ScheduleChanged, Commit}
    \<and> (out = Commit \<longrightarrow> sd_leader (last subs) = lead)"
proof -
  note D = commit_invD [OF inv]
  have l: "in_dag (st_dag st) lead" "cert_round lead = r"
    using elected_leader_certificate [OF D(5) r(1) st_invD(1) [OF D(1)] lead] by auto
  have "2 \<le> cert_round lead" "even (cert_round lead)" using r D(4) l(2) by presburger+
  with order_leaders_spec [OF D(5,1,6) l(1)] obtain ys where
    ys: "order_leaders rng b lead st = Some (ys @ [lead])"
      "sorted_wrt (\<lambda>x y. cert_round x < cert_round y) (ys @ [lead])"
      "\<forall>y \<in> set ys. in_dag (st_dag st) y \<and> even (cert_round y) \<and> committed_round st < cert_round y"
    by blast
  have "\<forall>x \<in> set (ys @ [lead]). in_dag (st_dag st) x \<and> committed_round st < cert_round x \<and> even (cert_round x)"
    using ys(3) l r by auto
  from commit_leaders_spec [OF inv w this ys(2), of "[]"] obtain out subs b' st' where
    c: "commit_leaders written b st (ys @ [lead]) [] = Some (Inr (out, subs), b', st')"
      "commit_inv rng b' st'" "extends_log st subs st'" "same_above b st b' st'"
      "if out = ScheduleChanged then subs \<noteq> [] \<and> (\<exists>x rest. ys @ [lead] = map sd_leader subs @ x # rest)
       else out = Commit \<and> map sd_leader subs = ys @ [lead]" by auto
  have eq: "commit_leader rng written b r st = Some (Inr (out, subs), b', st')"
    using c(1) ys(1) row(2) by (simp add: commit_leader_def lead row(1) [simplified])
  show ?thesis
  proof (cases "out = ScheduleChanged")
    case True
    then obtain x rest where sub: "subs \<noteq> []" "ys @ [lead] = map sd_leader subs @ x # rest" using c(5) by auto
    have "ys = map sd_leader subs @ butlast (x # rest)"
      using arg_cong [OF sub(2), of butlast] by (simp add: butlast_append)
    then have "set (map sd_leader subs) \<subseteq> set ys" by (metis Un_upper1 set_append)
    then have "sd_leader (last subs) \<in> set ys" using sub(1) by auto
    then have "committed_round st' < r"
      using extends_log_committed(2) [OF c(3) sub(1)] ys(2) l(2) by (auto simp: sorted_wrt_append)
    then show ?thesis using True sub(1) c(2-4) eq by (auto simp: commit_post_def)
  next
    case False
    then have sub: "out = Commit" "subs \<noteq> []" "last (map sd_leader subs) = lead" using c(5) by auto
    then have "sd_leader (last subs) = lead" by (simp add: last_map)
    with sub(1,2) extends_log_committed(2) [OF c(3)] l(2) c(2-4) eq show ?thesis
      by (auto simp: commit_post_def)
  qed
qed

lemma commit_leader_spec:
  assumes inv: "commit_inv rng b st" and w: "\<forall>s. written s"
    and r: "even r" "committed_round st < r" and top: "in_dag (st_dag st) x" "cert_round x = r + 1"
  shows "\<exists>out subs b' st'. commit_leader rng written b r st = Some (Inr (out, subs), b', st')
    \<and> commit_post rng r b st out subs b' st'"
proof -
  note D = commit_invD [OF inv]
  have sound: "sound_schedule rng (bs_leader_schedule b)" using D(5) by (simp add: bs_env_def)
  obtain a h y where a: "leader_certificate rng (bs_leader_schedule b) r (st_dag st) = Some (a, y)"
    by (rule elected_slot [OF sound r(1) st_invD(1) [OF D(1)]])
  obtain row where row: "map_of (st_dag st) (r + 1) = Some row"
    using rows_below [OF st_invD(1,2) [OF D(1)] top(1), of "r + 1"] top(2) st_invD(5) [OF D(1)] r(2) by auto
  have idle: "commit_post rng r b st out [] b st" if "out \<noteq> ScheduleChanged" "out \<noteq> Commit" for out
    using that inv extends_log_refl same_above_refl by (simp add: commit_post_def)
  consider "y = None"
    | lead where "y = Some lead" "leader_support (bs_committee b) row lead < cm_validity_threshold (bs_committee b)"
    | lead where "y = Some lead" "\<not> leader_support (bs_committee b) row lead < cm_validity_threshold (bs_committee b)"
    by (cases y) auto
  then show ?thesis
  proof cases
    case 1
    then have "commit_leader rng written b r st = Some (Inr (LeaderNotFound, []), b, st)"
      by (simp add: commit_leader_def a)
    then show ?thesis using idle by blast
  next
    case 2
    then have "commit_leader rng written b r st = Some (Inr (NotEnoughSupportForLeader, []), b, st)"
      by (simp add: commit_leader_def a row [simplified])
    then show ?thesis using idle by blast
  next
    case 3
    with commit_supported_leader [OF inv w r _ row 3(2)] a show ?thesis by blast
  qed
qed

text \<open>Every retry commits at least one more leader below the round, so the rounds between the
  committed one and the leader's bound the number of retries.\<close>

lemma commit_retry_spec:
  assumes "commit_inv rng b st" and w: "\<forall>s. written s"
    and "even r" "committed_round st < r" "in_dag (st_dag st) x" "cert_round x = r + 1" "r < committed_round st + n"
  shows "\<exists>out subs b' st'. commit_retry n rng written b r st acc = Some (Inr (out, acc @ subs), b', st')
    \<and> out \<noteq> ScheduleChanged
    \<and> commit_inv rng b' st' \<and> extends_log st subs st' \<and> same_above b st b' st'
    \<and> (if out = Commit then committed_round st' = r else committed_round st' < r)"
  using assms(1,4,5,7)
proof (induction n arbitrary: b st acc)
  case (Suc n)
  obtain out subs b1 st1 where c: "commit_leader rng written b r st = Some (Inr (out, subs), b1, st1)"
      "commit_post rng r b st out subs b1 st1"
    using commit_leader_spec [OF Suc.prems(1) w assms(3) Suc.prems(2,3) assms(6)] by blast
  note post = c(2) [unfolded commit_post_def]
  show ?case
  proof (cases "out = ScheduleChanged")
    case True
    then have s: "subs \<noteq> []" "committed_round st1 < r" using post by auto
    have lt: "committed_round st < committed_round st1" using extends_log_committed(3) post s(1) by blast
    have x: "in_dag (st_dag st1) x" using post Suc.prems(3) s(2) assms(6) by (simp add: same_above_def)
    have "r < committed_round st1 + n" using lt Suc.prems(4) by simp
    from Suc.IH [OF _ s(2) x this, of b1 "acc @ subs"] post obtain out' subs' b' st' where
      r: "commit_retry n rng written b1 r st1 (acc @ subs) = Some (Inr (out', (acc @ subs) @ subs'), b', st')"
        "out' \<noteq> ScheduleChanged" "commit_inv rng b' st'" "extends_log st1 subs' st'" "same_above b1 st1 b' st'"
        "if out' = Commit then committed_round st' = r else committed_round st' < r" by blast
    have "commit_retry (Suc n) rng written b r st acc = Some (Inr (out', acc @ (subs @ subs')), b', st')"
      using c(1) True r(1) by simp
    moreover have "extends_log st (subs @ subs') st'" using extends_log_append post r(4) by blast
    moreover have "same_above b st b' st'"
      using same_above_trans extends_log_committed(1) [OF r(4)] post r(5) by blast
    ultimately show ?thesis using r(2,3,6) by blast
  next
    case False
    have "commit_retry (Suc n) rng written b r st acc = Some (Inr (out, acc @ subs), b1, st1)"
      using c(1) False by simp
    moreover have "if out = Commit then committed_round st1 = r else committed_round st1 < r"
      using post False Suc.prems(2) by (auto simp: extends_log_def split: if_splits)
    ultimately show ?thesis using False post by blast
  qed
qed simp

section \<open>Processing a certificate\<close>

text \<open>What the primary guarantees of a certificate it hands to consensus: it was made by a member
  of the committee, its parents are in the DAG unless they are garbage collected, and its digest
  is not that of a certificate of another slot.\<close>

definition acceptable :: "committee \<Rightarrow> consensus_state \<Rightarrow> certificate \<Rightarrow> bool" where
  "acceptable c st x \<longleftrightarrow>
     cert_origin x \<in> committee_ids c
     \<and> (cert_round x \<le> cr_gc_round (st_last_round st)
        \<or> check_parents x (st_dag st) (cr_gc_round (st_last_round st)) = Some ())
     \<and> (\<forall>y. in_dag (st_dag st) y \<longrightarrow> cert_digest y = cert_digest x \<longrightarrow>
          cert_round y = cert_round x \<and> cert_origin y = cert_origin x)"

definition equivocates :: "consensus_state \<Rightarrow> certificate \<Rightarrow> bool" where
  "equivocates st x \<longleftrightarrow> cr_gc_round (st_last_round st) < cert_round x
     \<and> (\<exists>y. in_dag (st_dag st) y \<and> cert_round y = cert_round x \<and> cert_origin y = cert_origin x
        \<and> cert_digest y \<noteq> cert_digest x)"

lemma commit_inv_dag:
  assumes "commit_inv rng b st" "st_inv (st\<lparr>st_dag := dag\<rparr>)" "distinct_digests dag"
    "members_only (bs_committee b) dag"
  shows "commit_inv rng b (st\<lparr>st_dag := dag\<rparr>)"
  using assms by (simp add: commit_inv_def next_sub_dag_index_def persisted_def)

lemma extends_log_dag [simp]: "extends_log (st\<lparr>st_dag := dag\<rparr>) subs st' = extends_log st subs st'"
  by (simp add: extends_log_def next_sub_dag_index_def lcr_def)

lemma commit_inv_max_inserted [simp]:
  "commit_inv rng (b\<lparr>bs_max_inserted_certificate_round := m\<rparr>) st = commit_inv rng b st"
  by (simp add: commit_inv_def bs_env_def)

lemma try_insert_commit_inv:
  assumes inv: "commit_inv rng b st" and x: "acceptable (bs_committee b) st x" "\<not> equivocates st x"
  shows "\<exists>i dag. try_insert st x = Some (Inr i, st\<lparr>st_dag := dag\<rparr>) \<and> commit_inv rng b (st\<lparr>st_dag := dag\<rparr>)
    \<and> (i \<longrightarrow> in_dag dag x \<and> 0 < cert_round x)"
proof -
  note D = commit_invD [OF inv]
  let ?gc = "cr_gc_round (st_last_round st)"
  have par: "cert_round x \<le> ?gc \<or> check_parents x (st_dag st) ?gc = Some ()"
    and digests: "\<And>y. in_dag (st_dag st) y \<Longrightarrow> cert_digest y = cert_digest x \<Longrightarrow>
      cert_round y = cert_round x \<and> cert_origin y = cert_origin x"
    and member: "cert_origin x \<in> committee_ids (bs_committee b)"
    using x(1) by (auto simp: acceptable_def)
  show ?thesis
  proof (cases "cert_round x \<le> ?gc")
    case True
    then have "try_insert st x = Some (Inr False, st\<lparr>st_dag := st_dag st\<rparr>)"
      by (simp add: try_insert_def try_insert_in_dag_def)
    with inv show ?thesis by (intro exI [of _ False] exI [of _ "st_dag st"]) simp
  next
    case False
    obtain i dag where ins: "try_insert_in_dag (st_dag st) (st_last_committed st) ?gc x = Some (Inr i, dag)"
      using try_insert_in_dag_total [OF par _ st_invD(1) [OF D(1)]] x(2) False
      unfolding equivocates_def by (metis not_le)
    then have t: "try_insert st x = Some (Inr i, st\<lparr>st_dag := dag\<rparr>)" by (simp add: try_insert_def)
    have dag: "dag = dag_insert (st_dag st) x" using try_insert_in_dag_Ok [OF ins] False by simp
    note ind = in_dag_insert [where dag = "st_dag st" and x = x, folded dag]
    have "distinct_digests dag" using D(2) digests unfolding distinct_digests_def ind by metis
    moreover have "members_only (bs_committee b) dag"
      using D(6) member unfolding members_only_def ind by blast
    ultimately have "commit_inv rng b (st\<lparr>st_dag := dag\<rparr>)"
      using commit_inv_dag [OF inv st_inv_try_insert [OF D(1) t]] by blast
    then show ?thesis using t ind False by auto
  qed
qed

lemma report_leader_spec:
  assumes "commit_inv rng b st"
  shows "\<exists>m. report_leader_on_time_metrics rng b r = Some (b\<lparr>bs_max_inserted_certificate_round := m\<rparr>)"
proof -
  have s: "sound_schedule rng (bs_leader_schedule b)" using commit_invD(5) [OF assms] by (simp add: bs_env_def)
  have lead: "\<exists>a h. leader rng (bs_leader_schedule b) (r - 2) = Some a \<and> authority_hostname a = Some h"
    if "r mod 2 = 0" "2 < r"
  proof -
    have "(r - 2) mod 2 = 0" using that by presburger
    then obtain a where "leader rng (bs_leader_schedule b) (r - 2) = Some a"
        "a \<in> set (authorities (ls_committee (bs_leader_schedule b)))"
      using leader_total [of "bs_leader_schedule b" rng "r - 2"] s unfolding sound_schedule_def by auto
    then show ?thesis using hostname_member s by (auto simp: sound_schedule_def)
  qed
  have "report_leader_on_time_metrics rng b r
      = Some (b\<lparr>bs_max_inserted_certificate_round := max (bs_max_inserted_certificate_round b) r\<rparr>)"
    using lead by (cases "r mod 2 = 0 \<and> 2 < r") (auto simp: report_leader_on_time_metrics_def)
  then show ?thesis by blast
qed

lemma process_certificate_spec:
  assumes inv: "commit_inv rng b st" and w: "\<forall>s. written s"
    and x: "acceptable (bs_committee b) st x" "\<not> equivocates st x"
  shows "\<exists>out subs b' st'. process_certificate rng written b st x = Some (Inr (out, subs), b', st')
    \<and> commit_inv rng b' st' \<and> extends_log st subs st' \<and> bs_committee b' = bs_committee b"
proof -
  obtain i dag where t: "try_insert st x = Some (Inr i, st\<lparr>st_dag := dag\<rparr>)" "commit_inv rng b (st\<lparr>st_dag := dag\<rparr>)"
      "i \<longrightarrow> in_dag dag x \<and> 0 < cert_round x"
    using try_insert_commit_inv [OF inv x] by blast
  define st1 where "st1 = st\<lparr>st_dag := dag\<rparr>"
  note inv1 = t(2) [folded st1_def]
  have refl: "extends_log st [] st1" using extends_log_refl [of st1] unfolding st1_def by simp
  show ?thesis
  proof (cases i)
    case False
    then have "process_certificate rng written b st x = Some (Inr (CertificateBelowCommitRound, []), b, st1)"
      using t(1) by (simp add: process_certificate_def st1_def Let_def)
    with inv1 refl show ?thesis by blast
  next
    case True
    obtain m where m: "report_leader_on_time_metrics rng b (cert_round x)
        = Some (b\<lparr>bs_max_inserted_certificate_round := m\<rparr>)" using report_leader_spec [OF inv] by blast
    define b1 where "b1 = b\<lparr>bs_max_inserted_certificate_round := m\<rparr>"
    define r where "r = cert_round x - 1"
    have x1: "in_dag (st_dag st1) x" "cert_round x = r + 1" using True t(3) by (simp_all add: r_def st1_def)
    have invb: "commit_inv rng b1 st1" using inv1 by (simp add: b1_def)
    have cm: "bs_committee b1 = bs_committee b" by (simp add: b1_def)
    have sub: "u64_checked_sub (cert_round x) (Suc 0) = Some r" using x1(2) by simp
    have p: "process_certificate rng written b st x =
        (if r mod 2 \<noteq> 0 \<or> r < 2 then Some (Inr (NoLeaderElectedForOddRound, []), b1, st1)
         else if r \<le> committed_round st1 then Some (Inr (LeaderBelowCommitRound, []), b1, st1)
         else do {
           (res, b, st) \<leftarrow> commit_retry (r + 1) rng written b1 r st1 [];
           case res of Inl e \<Rightarrow> Some (Inl e, b, st)
           | Inr (outcome, committed) \<Rightarrow> Some (Inr (if committed = [] then outcome else Commit, committed), b, st) })"
      unfolding process_certificate_def Let_def t(1) bind.bind_lunit st1_def [symmetric] b1_def
      by (simp add: True m sub)
    show ?thesis
    proof (cases "r mod 2 \<noteq> 0 \<or> r < 2 \<or> r \<le> committed_round st1")
      case True
      then show ?thesis unfolding p using invb refl cm by auto
    next
      case False
      then have "even r" "committed_round st1 < r" "r < committed_round st1 + (r + 1)" by presburger+
      from commit_retry_spec [OF invb w this(1,2) x1 this(3), of "[]"] False
      show ?thesis unfolding p cm [symmetric] st1_def extends_log_dag same_above_def by fastforce
    qed
  qed
qed

lemma process_certificate_equivocation:
  assumes inv: "commit_inv rng b st" and x: "acceptable (bs_committee b) st x" "equivocates st x"
  shows "\<exists>y st'. process_certificate rng written b st x = Some (Inl (CertificateEquivocation x y), b, st')
    \<and> in_dag (st_dag st) y \<and> cert_round y = cert_round x \<and> cert_origin y = cert_origin x
    \<and> cert_digest y \<noteq> cert_digest x"
proof -
  obtain y where y: "in_dag (st_dag st) y" "cert_round y = cert_round x" "cert_origin y = cert_origin x"
      "cert_digest y \<noteq> cert_digest x" and gc: "cr_gc_round (st_last_round st) < cert_round x"
    using x(2) by (auto simp: equivocates_def)
  then obtain row where "map_of (st_dag st) (cert_round x) = Some row"
      "map_of row (cert_origin x) = Some (cert_digest y, y)"
    unfolding in_dag_def y(2,3) by (auto split: option.splits)
  then have "\<exists>st'. try_insert st x = Some (Inl (CertificateEquivocation x y), st')"
    using x(1) gc y(4) by (auto simp: try_insert_def try_insert_in_dag_def acceptable_def Let_def)
  then show ?thesis using y by (auto simp: process_certificate_def Let_def)
qed

end
