(* ===== verification/Narwhal_Consensus.thy ===== *)
theory Narwhal_Consensus
  imports Narwhal_Commit
begin

text \<open>
  The consensus task over time (\<open>run_inner\<close> of
  \<open>src/narwhal/primary/src/consensus/state.rs\<close>): what it outputs for a sequence of certificates,
  as a step relation, and the properties of the log it produces.
\<close>

section \<open>One turn of the loop\<close>

lemma flat_sub_dag_round:
  assumes "flat_sub_dag s" "x \<in> set (sd_certificates s)"
  shows "cert_round x \<le> leader_round s"
proof -
  obtain i where i: "i < length (sd_certificates s)" "sd_certificates s ! i = x"
    using assms(2) by (auto simp: in_set_conv_nth)
  have "cert_round (sd_certificates s ! i) \<le> cert_round (sd_certificates s ! (length (sd_certificates s) - 1))"
    using assms(1) sorted_nth_mono [of "map cert_round (sd_certificates s)" i "length (sd_certificates s) - 1"] i(1)
    by (simp add: flat_sub_dag_def)
  moreover have "sd_certificates s ! (length (sd_certificates s) - 1) = sd_leader s"
    using assms(1) last_conv_nth [of "sd_certificates s"] unfolding flat_sub_dag_def by metis
  ultimately show ?thesis using i(2) by (simp add: leader_round_def)
qed

text \<open>The greatest committed round is the round of the last leader, the committed round.\<close>

lemma extends_log_Max:
  assumes ext: "extends_log st subs st'" and ne: "subs \<noteq> []"
  shows "concat (map sd_certificates subs) \<noteq> []"
    and "Max (set (map cert_round (concat (map sd_certificates subs)))) = committed_round st'"
proof -
  let ?xs = "concat (map sd_certificates subs)"
  have flat: "flat_sub_dag s" if "s \<in> set subs" for s using ext that by (simp add: extends_log_def list_all_iff)
  have cr: "committed_round st' = leader_round (last subs)"
    using extends_log_committed(2) [OF ext ne] by (simp add: leader_round_def)
  have le: "leader_round s \<le> committed_round st'" if "s \<in> set subs" for s
  proof -
    have "sorted_wrt (<) (map leader_round (butlast subs @ [last subs]))"
      using ext ne by (simp add: extends_log_def)
    moreover have "s \<in> set (butlast subs) \<or> s = last subs" using that ne by (metis append_butlast_last_id in_set_conv_decomp rotate1.simps(2) set_ConsD set_rotate1)
    ultimately show ?thesis unfolding cr by (auto simp: sorted_wrt_append)
  qed
  have last: "sd_leader (last subs) \<in> set ?xs"
    using flat [of "last subs"] ne by (auto simp: flat_sub_dag_def) (metis last_in_set)
  then show "?xs \<noteq> []" by (metis empty_iff list.set(1))
  show "Max (set (map cert_round ?xs)) = committed_round st'"
  proof (rule Max_eqI)
    show "y \<le> committed_round st'" if y: "y \<in> set (map cert_round ?xs)" for y
    proof -
      obtain s x where "s \<in> set subs" "x \<in> set (sd_certificates s)" "y = cert_round x" using y by auto
      then show ?thesis using flat_sub_dag_round [OF flat] le by (meson order_trans)
    qed
    show "committed_round st' \<in> set (map cert_round ?xs)"
      using last unfolding cr leader_round_def by simp
  qed simp
qed

lemma run_step_spec:
  assumes inv: "commit_inv rng b st" and w: "\<forall>s. written s" and c: "bs_committee b = c"
    and x: "acceptable c st x" "\<not> equivocates st x"
  shows "\<exists>out b' st'. run_step rng written c b st x = Some (out, b', st')
    \<and> commit_inv rng b' st' \<and> extends_log st (out_sequence out) st' \<and> bs_committee b' = c
    \<and> (cert_epoch x \<noteq> cm_epoch c \<longrightarrow> st' = st)"
proof (cases "cert_epoch x = cm_epoch c")
  case False
  then show ?thesis using inv c extends_log_refl by (simp add: run_step_def)
next
  case True
  obtain out subs b' st' where p: "process_certificate rng written b st x = Some (Inr (out, subs), b', st')"
      "commit_inv rng b' st'" "extends_log st subs st'" "bs_committee b' = bs_committee b"
    using process_certificate_spec [OF inv w] x c by blast
  let ?xs = "concat (map sd_certificates subs)"
  show ?thesis
  proof (cases "?xs = []")
    case empty: True
    then have "subs = []" using extends_log_Max(1) [OF p(3)] by blast
    then show ?thesis using True p c by (simp add: run_step_def)
  next
    case ne: False
    then have "Max (set (map cert_round ?xs)) = committed_round st'"
      using extends_log_Max(2) [OF p(3)] by fastforce
    then show ?thesis using True p c ne by (simp add: run_step_def Let_def del: set_map set_concat concat_eq_Nil_conv)
  qed
qed

section \<open>Runs\<close>

text \<open>A run from a state: the task receives acceptable certificates, one after the other, and
  the log collects the sub-dags it outputs.\<close>

inductive node_run ::
    "leader_rng \<Rightarrow> (committed_sub_dag \<Rightarrow> bool) \<Rightarrow> committee \<Rightarrow> bullshark \<Rightarrow> consensus_state \<Rightarrow>
     committed_sub_dag list \<Rightarrow> bullshark \<Rightarrow> consensus_state \<Rightarrow> bool"
  for rng written c b0 st0 where
  node_start: "node_run rng written c b0 st0 [] b0 st0"
| node_receive: "node_run rng written c b0 st0 log b st \<Longrightarrow> acceptable c st x \<Longrightarrow> \<not> equivocates st x \<Longrightarrow>
    run_step rng written c b st x = Some (out, b', st') \<Longrightarrow>
    node_run rng written c b0 st0 (log @ out_sequence out) b' st'"

inductive_cases node_runE: "node_run rng written c b0 st0 log b st"

lemma node_run_inv:
  assumes "node_run rng written c b0 st0 log b st" "commit_inv rng b0 st0" "bs_committee b0 = c" "\<forall>s. written s"
  shows "commit_inv rng b st \<and> bs_committee b = c \<and> extends_log st0 log st"
  using assms
proof (induction rule: node_run.induct)
  case node_start
  then show ?case by (simp add: extends_log_refl)
next
  case (node_receive log b st x out b' st')
  then have IH: "commit_inv rng b st" "bs_committee b = c" "extends_log st0 log st" by blast+
  from run_step_spec [OF IH(1) node_receive.prems(3) IH(2) node_receive.hyps(2,3)] node_receive.hyps(4)
  have "commit_inv rng b' st'" "bs_committee b' = c" "extends_log st (out_sequence out) st'" by auto
  with extends_log_append [OF IH(3)] show ?case by blast
qed

lemma commit_inv_new:
  assumes "bs_env rng b" "0 < gc_depth" "bs_store b = consensus_store_new [] []"
    and "0 < bs_num_sub_dags_per_schedule b" "bs_bad_nodes_stake_threshold b \<le> 33"
    and "\<forall>i. stake_by_id (bs_committee b) i
      \<le> (bs_bad_nodes_stake_threshold b * total_stake (bs_committee b)) div 100"
  shows "commit_inv rng b (consensus_state_new gc_depth)"
  unfolding commit_inv_def using assms st_inv_new [of gc_depth]
  by (simp add: consensus_state_new_def consensus_round_default_def distinct_digests_def in_dag_def
      members_only_def wf_store_def consensus_store_new_def persisted_def get_latest_sub_dag_def)

section \<open>Failing writes\<close>

text \<open>A write may fail at any sub-dag. Up to the first failing one the commit goes on as if all writes
  succeeded; there it ends with a storage error.\<close>

definition as_written ::
    "(committed_sub_dag \<Rightarrow> bool) \<Rightarrow> committed_sub_dag list \<Rightarrow> commit_result \<times> bullshark \<times> consensus_state \<Rightarrow>
     (commit_result \<times> bullshark \<times> consensus_state) option \<Rightarrow> bool" where
  "as_written written new ok r \<longleftrightarrow>
     (if list_all written new then r = Some ok else \<exists>b st. r = Some (Inl ConsensusStoreError, b, st))"

lemma commit_leaders_written:
  "commit_leaders (\<lambda>_. True) b st leaders acc = Some (Inr (out, subs), b', st') \<Longrightarrow>
   \<exists>new. subs = acc @ new \<and> as_written written new (Inr (out, subs), b', st') (commit_leaders written b st leaders acc)"
proof (induction leaders arbitrary: b st acc)
  case (Cons lead leaders)
  let ?ndx = "next_sub_dag_index st"
  obtain sequence scores where s: "order_dag lead st = Some sequence"
      "resolve_reputation_score b (foldl state_update st sequence) sequence ?ndx = Some scores"
    using Cons.prems by (auto simp: Let_def split: bind_splits)
  define st1 where "st1 = foldl state_update st sequence"
  define s where "s = committed_sub_dag_new sequence lead ?ndx scores (st_last_committed_sub_dag st1)"
  obtain store where w: "write_consensus_state True (bs_store b) (st_last_committed st1) s = Inr store"
    by (simp add: write_consensus_state_def)
  obtain changed b1 where u: "update_leader_schedule (b\<lparr>bs_store := store\<rparr>) (cert_round lead) scores = Some (changed, b1)"
    using Cons.prems s w by (auto simp: Let_def st1_def s_def split: bind_splits)
  let ?st = "st1\<lparr>st_last_committed_sub_dag := Some s\<rparr>"
  let ?rest = "\<lambda>w. if changed \<and> leaders \<noteq> [] then Some (Inr (ScheduleChanged, acc @ [s]), b1, ?st)
    else commit_leaders w b1 ?st leaders (acc @ [s])"
  have run: "commit_leaders v b st (lead # leaders) acc
      = (if v s then ?rest v else Some (Inl ConsensusStoreError, b, st1))" for v
    using s w u by (simp add: Let_def st1_def s_def write_consensus_state_def)
  show ?case
  proof (cases "changed \<and> leaders \<noteq> []")
    case True
    then show ?thesis using Cons.prems unfolding run by (intro exI [of _ "[s]"]) (auto simp: as_written_def)
  next
    case False
    then obtain new where "subs = (acc @ [s]) @ new"
        "as_written written new (Inr (out, subs), b', st') (commit_leaders written b1 ?st leaders (acc @ [s]))"
      using Cons.prems Cons.IH [of b1 ?st "acc @ [s]"] unfolding run by auto
    then show ?thesis using False unfolding run by (intro exI [of _ "s # new"]) (auto simp: as_written_def)
  qed
qed (auto simp: as_written_def)

lemma commit_leader_written:
  assumes "commit_leader rng (\<lambda>_. True) b r st = Some (Inr (out, subs), b', st')"
  shows "as_written written subs (Inr (out, subs), b', st') (commit_leader rng written b r st)"
proof -
  have "as_written written subs (Inr (out, subs), b', st') (commit_leaders written b st leaders [])"
    if "commit_leaders (\<lambda>_. True) b st leaders [] = Some (Inr (out, subs), b', st')" for leaders
    using commit_leaders_written [OF that, of written] by simp
  with assms show ?thesis
    by (auto simp: commit_leader_def as_written_def split: bind_splits option.splits if_splits)
qed

lemma commit_retry_written:
  "commit_retry n rng (\<lambda>_. True) b r st acc = Some (Inr (out, subs), b', st') \<Longrightarrow>
   \<exists>new. subs = acc @ new \<and> as_written written new (Inr (out, subs), b', st') (commit_retry n rng written b r st acc)"
proof (induction n arbitrary: b st acc)
  case (Suc n)
  obtain o1 subs1 b1 st1 where one: "commit_leader rng (\<lambda>_. True) b r st = Some (Inr (o1, subs1), b1, st1)"
    using Suc.prems by (auto split: bind_splits sum.splits)
  note w = commit_leader_written [OF one, of written, unfolded as_written_def]
  show ?case
  proof (cases "o1 = ScheduleChanged")
    case True
    then obtain new where "subs = (acc @ subs1) @ new"
        "as_written written new (Inr (out, subs), b', st') (commit_retry n rng written b1 r st1 (acc @ subs1))"
      using Suc.IH [of b1 st1 "acc @ subs1"] Suc.prems one by auto
    then show ?thesis using True w
      by (intro exI [of _ "subs1 @ new"]) (auto simp: as_written_def split: if_splits)
  next
    case False
    then show ?thesis using Suc.prems one w by (auto simp: as_written_def split: if_splits)
  qed
qed simp

lemma process_certificate_written:
  assumes "process_certificate rng (\<lambda>_. True) b st x = Some (Inr (out, subs), b', st')"
  shows "as_written written subs (Inr (out, subs), b', st') (process_certificate rng written b st x)"
proof -
  obtain i st1 where t: "try_insert st x = Some (Inr i, st1)"
    using assms by (auto simp: process_certificate_def Let_def split: bind_splits sum.splits)
  show ?thesis
  proof (cases i)
    case True
    then obtain b1 r where c: "report_leader_on_time_metrics rng b (cert_round x) = Some b1"
        "u64_checked_sub (cert_round x) 1 = Some r"
      using assms t by (auto simp: process_certificate_def Let_def simp del: commit_retry.simps dest!: bind_eq_Some_conv [THEN iffD1])
    let ?early = "r mod 2 \<noteq> 0 \<or> r < 2 \<or> r \<le> committed_round st1"
    have go: "process_certificate rng v b st x = (if ?early
        then Some (Inr (if r mod 2 \<noteq> 0 \<or> r < 2 then NoLeaderElectedForOddRound else LeaderBelowCommitRound, []), b1, st1)
        else do {
          (res, b, st) \<leftarrow> commit_retry (r + 1) rng v b1 r st1 [];
          case res of Inl e \<Rightarrow> Some (Inl e, b, st)
          | Inr (outcome, committed) \<Rightarrow> Some (Inr (if committed = [] then outcome else Commit, committed), b, st) })" for v
      unfolding process_certificate_def Let_def t c bind.bind_lunit using True by (simp del: commit_retry.simps)
    show ?thesis
    proof (cases ?early)
      case False
      obtain o1 where c: "commit_retry (r + 1) rng (\<lambda>_. True) b1 r st1 [] = Some (Inr (o1, subs), b', st')"
          "out = (if subs = [] then o1 else Commit)"
        using assms False unfolding go by (auto simp del: commit_retry.simps split: bind_splits sum.splits)
      from commit_retry_written [OF c(1), of written] c(2) False show ?thesis
        unfolding go by (auto simp: as_written_def simp del: commit_retry.simps split: if_splits)
    qed (use assms in \<open>auto simp: go as_written_def\<close>)
  qed (use assms t in \<open>simp add: process_certificate_def as_written_def\<close>)
qed

text \<open>A step with failing writes gives the output of the step without, if the sub-dags of that
  output are all written, and panics otherwise.\<close>

lemma run_step_written:
  assumes "run_step rng (\<lambda>_. True) c b st x = Some (out, b', st')"
  shows "run_step rng written c b st x = (if list_all written (out_sequence out) then Some (out, b', st') else None)"
proof (cases "cert_epoch x = cm_epoch c")
  case True
  obtain o1 subs b1 st1 where p: "process_certificate rng (\<lambda>_. True) b st x = Some (Inr (o1, subs), b1, st1)"
    using assms True by (auto simp: run_step_def split: bind_splits sum.splits)
  have "out_sequence out = subs" using assms True p by (auto simp: run_step_def Let_def split: if_splits bind_splits)
  moreover note process_certificate_written [OF p, of written, unfolded as_written_def]
  ultimately show ?thesis using assms True p by (cases "list_all written subs") (auto simp: run_step_def)
qed (use assms in \<open>auto simp: run_step_def\<close>)

text \<open>So a run is also one in which no write fails.\<close>

lemma node_run_written:
  assumes "node_run rng written c b0 st0 log b st" "commit_inv rng b0 st0" "bs_committee b0 = c"
  shows "node_run rng (\<lambda>_. True) c b0 st0 log b st"
  using assms
proof (induction rule: node_run.induct)
  case node_start
  show ?case by (rule node_run.node_start)
next
  case (node_receive log b st x out b' st')
  then have run: "node_run rng (\<lambda>_. True) c b0 st0 log b st" by blast
  then have inv: "commit_inv rng b st" "bs_committee b = c"
    using node_run_inv [OF run node_receive.prems] by simp_all
  obtain out1 b1 st1 where one: "run_step rng (\<lambda>_. True) c b st x = Some (out1, b1, st1)"
    using run_step_spec [OF inv(1) _ inv(2) node_receive.hyps(2,3), of "\<lambda>_. True"] by blast
  then have "run_step rng (\<lambda>_. True) c b st x = Some (out, b', st')"
    using run_step_written [OF one, of written] node_receive.hyps(4) by (simp split: if_splits)
  with run node_receive.hyps(2,3) show ?case by (rule node_run.node_receive)
qed

section \<open>Properties\<close>

text \<open>C5: Processing a certificate never panics as long as writes succeed and the certificate is
  acceptable. If the DAG holds another certificate of its slot the result is the equivocation
  error; otherwise the state stays well-formed and the committed sub-dags extend the log: their
  indices are consecutive, their leaders' rounds increase, and each certificate is one that was
  not committed before.\<close>

theorem process_certificate_correct:
  assumes "commit_inv rng b st" "\<forall>s. written s" "acceptable (bs_committee b) st x"
  shows "\<exists>res b' st'. process_certificate rng written b st x = Some (res, b', st')
    \<and> (case res of
         Inl e \<Rightarrow> equivocates st x \<and> (\<exists>y. e = CertificateEquivocation x y)
       | Inr (out, subs) \<Rightarrow> \<not> equivocates st x \<and> commit_inv rng b' st' \<and> extends_log st subs st')"
proof (cases "equivocates st x")
  case True
  with process_certificate_equivocation [OF assms(1,3), of written] show ?thesis by fastforce
next
  case False
  with process_certificate_spec [OF assms] show ?thesis by fastforce
qed

lemma example_stake_cap:
  "stake_by_id example_committee i \<le> (33 * total_stake example_committee) div 100"
  by (simp add: stake_example total_stake_example)

lemma example_commit_inv:
  "commit_inv example_rng example_bullshark (consensus_state_new 50)" "bs_committee example_bullshark = example_committee"
proof -
  show "commit_inv example_rng example_bullshark (consensus_state_new 50)"
    by (rule commit_inv_new [OF example_bs_env(1)])
      (use example_stake_cap in \<open>simp_all add: example_bullshark_def bullshark_new_def\<close>)
qed (rule example_bs_env(2))

lemma example_chain_inv: "commit_inv example_rng example_bullshark (chain_state [1, 2])"
proof -
  have wf: "wf_dag (st_dag (chain_state [1, 2]))" by (simp add: chain_state_def wf_dag_def wf_row_def chain_row_def)
  have "complete_history (st_dag (chain_state [1, 2])) 0"
    unfolding complete_history_code [OF wf] by (simp add: chain_dag chain_row_def dag_round_def)
  then have "st_inv (chain_state [1, 2])"
    unfolding st_inv_def chain_dag(2,3) using wf
    by (simp add: gc_round_def chain_state_def consensus_state_new_def)
  moreover have "distinct_digests (st_dag (chain_state [1, 2]))"
    by (rule distinct_digests_code [OF wf]) (simp add: chain_dag chain_row_def)
  moreover have "members_only example_committee (st_dag (chain_state [1, 2]))"
    unfolding members_only_def in_dag_certs [OF wf] ids_example by (auto simp: chain_dag chain_row_def)
  ultimately show ?thesis
    using commit_inv_dag [OF example_commit_inv(1), of "st_dag (chain_state [1, 2])"]
    unfolding example_commit_inv(2) chain_state_def by simp
qed

lemma chain_acceptable: "acceptable example_committee (chain_state [1, 2]) (chain_cert 3 0)"
    "\<not> equivocates (chain_state [1, 2]) (chain_cert 3 0)"
proof -
  have wf: "wf_dag (st_dag (chain_state [1, 2]))" by (simp add: chain_state_def wf_dag_def wf_row_def chain_row_def)
  have "check_parents (chain_cert 3 0) (st_dag (chain_state [1, 2])) 0 = Some ()"
    by (simp add: check_parents_def chain_dag chain_row_def)
  then show "acceptable example_committee (chain_state [1, 2]) (chain_cert 3 0)"
    unfolding acceptable_def in_dag_certs [OF wf] ids_example chain_dag(2)
    by (auto simp: chain_dag chain_row_def)
  show "\<not> equivocates (chain_state [1, 2]) (chain_cert 3 0)"
    unfolding equivocates_def in_dag_certs [OF wf] by (auto simp: chain_dag chain_row_def)
qed

theorem process_certificate_correct_witness:
  "\<exists>out subs b' st'. process_certificate example_rng (\<lambda>_. True) example_bullshark (chain_state [1, 2]) (chain_cert 3 0)
      = Some (Inr (out, subs), b', st')
    \<and> commit_inv example_rng b' st' \<and> extends_log (chain_state [1, 2]) subs st'"
proof -
  define x where "x = chain_cert 3 0"
  note ok = chain_acceptable [folded x_def]
  from process_certificate_correct [OF example_chain_inv, of "\<lambda>_. True" x] ok(1)
  obtain res b' st' where p: "process_certificate example_rng (\<lambda>_. True) example_bullshark (chain_state [1, 2]) x
      = Some (res, b', st')" "case res of Inl e \<Rightarrow> equivocates (chain_state [1, 2]) x \<and> (\<exists>y. e = CertificateEquivocation x y)
       | Inr (out, subs) \<Rightarrow> \<not> equivocates (chain_state [1, 2]) x \<and> commit_inv example_rng b' st'
           \<and> extends_log (chain_state [1, 2]) subs st'"
    unfolding example_commit_inv(2) by blast
  then obtain out subs where "res = Inr (out, subs)" using ok(2) by (cases res) auto
  with p show ?thesis unfolding x_def by auto
qed

text \<open>C13: When the consensus task panics. Take any run whose first state satisfies the commit
  invariant; among its conditions are a bad-node threshold of at most 33 percent and that no authority
  holds more than the threshold's share of stake. For every next acceptable certificate of the
  committee's epoch, the task panics exactly if the certificate equivocates or one of the sub-dags it
  commits cannot be written to the store. In all other cases it takes its step, the same as if no write
  could fail: the assertion that the greatest committed round is the state's committed round
  holds, and the certificates handed back to the primary are those of the sub-dags it outputs.\<close>

theorem run_step_panics_exactly:
  assumes "node_run rng written c b0 st0 log b st" "commit_inv rng b0 st0" "bs_committee b0 = c" "acceptable c st x"
  shows "if cert_epoch x = cm_epoch c \<and> equivocates st x then run_step rng written c b st x = None
    else \<exists>out b' st'. run_step rng (\<lambda>_. True) c b st x = Some (out, b', st')
      \<and> run_step rng written c b st x = (if list_all written (out_sequence out) then Some (out, b', st') else None)
      \<and> (case out_committed out of
           None \<Rightarrow> out_sequence out = []
         | Some (r, certs) \<Rightarrow> r = cr_committed_round (st_last_round st') \<and> certs \<noteq> []
             \<and> certs = concat (map sd_certificates (out_sequence out)))"
proof -
  have inv: "commit_inv rng b st" "bs_committee b = c"
    using node_run_inv [OF node_run_written [OF assms(1-3)] assms(2,3)] by simp_all
  show ?thesis
  proof (cases "cert_epoch x = cm_epoch c \<and> equivocates st x")
    case True
    then show ?thesis
      using process_certificate_equivocation [OF inv(1), of x written] assms(4) inv(2) by (auto simp: run_step_def)
  next
    case False
    obtain out b' st' where r: "run_step rng (\<lambda>_. True) c b st x = Some (out, b', st')"
        "extends_log st (out_sequence out) st'"
    proof (cases "cert_epoch x = cm_epoch c")
      case True
      then show thesis using False that run_step_spec [OF inv(1) _ inv(2) assms(4), of "\<lambda>_. True"] by blast
    qed (use that extends_log_refl in \<open>auto simp: run_step_def\<close>)
    have "case out_committed out of
           None \<Rightarrow> concat (map sd_certificates (out_sequence out)) = []
         | Some (r, certs) \<Rightarrow> r = cr_committed_round (st_last_round st') \<and> certs \<noteq> []
             \<and> certs = concat (map sd_certificates (out_sequence out))"
      using r(1) by (auto simp: run_step_def Let_def split: if_splits sum.splits bind_splits option.splits)
    then show ?thesis
      using False r(1) run_step_written [OF r(1), of written] extends_log_Max(1) [OF r(2)]
      by (auto split: option.splits)
  qed
qed

theorem run_step_panics_exactly_witness:
  "\<exists>out b' st'. run_step example_rng (\<lambda>_. True) example_committee example_bullshark (chain_state [1, 2]) (chain_cert 3 0)
    = Some (out, b', st')"
  using run_step_panics_exactly [OF node_start example_chain_inv example_commit_inv(2), of "chain_cert 3 0" "\<lambda>_. True"]
    chain_acceptable by auto

text \<open>C3: The log of a run is append-only and has no duplicates. From an empty state, the sub-dags
  a node outputs are numbered 1, 2, 3, ..., their leaders' rounds increase, their timestamps do
  not decrease, each ends with its leader, and over the whole log the certificates of an
  authority appear in the order of their rounds, none of them twice.\<close>

theorem committed_log_correct:
  assumes "node_run rng written c b0 (consensus_state_new gc_depth) log b st"
    and "commit_inv rng b0 (consensus_state_new gc_depth)" "bs_committee b0 = c" "\<forall>s. written s"
  shows "map sd_sub_dag_index log = [1..<length log + 1]
    \<and> sorted_wrt (<) (map leader_round log)
    \<and> sorted (map sd_commit_timestamp log)
    \<and> list_all (\<lambda>s. last (sd_certificates s) = sd_leader s) log
    \<and> sorted_wrt (\<lambda>x y. cert_origin x = cert_origin y \<longrightarrow> cert_round x < cert_round y)
        (concat (map sd_certificates log))
    \<and> distinct (concat (map sd_certificates log))"
proof -
  have e: "extends_log (consensus_state_new gc_depth) log st" using node_run_inv [OF assms] by blast
  have i: "next_sub_dag_index (consensus_state_new gc_depth) = 1"
    by (simp add: next_sub_dag_index_def consensus_state_new_def)
  have idx: "map sd_sub_dag_index log = [1..<next_sub_dag_index st]" "1 \<le> next_sub_dag_index st"
    using e unfolding extends_log_def i by blast+
  have "length log = next_sub_dag_index st - 1" using arg_cong [OF idx(1), of length] by simp
  then have "map sd_sub_dag_index log = [1..<length log + 1]" using idx by simp
  moreover have order: "sorted_wrt in_round_order (concat (map sd_certificates log))"
    using e by (simp add: extends_log_def)
  moreover have "distinct xs" if "sorted_wrt in_round_order xs" for xs
    using that by (induction xs) auto
  moreover have "list_all (\<lambda>s. last (sd_certificates s) = sd_leader s) log"
    using e by (auto simp: extends_log_def list_all_iff flat_sub_dag_def)
  ultimately show ?thesis using e by (auto simp: extends_log_def)
qed

theorem committed_log_correct_witness:
  "\<exists>out b st. run_step example_rng (\<lambda>_. True) example_committee example_bullshark (consensus_state_new 50)
      (example_certificate 1 0 [] []) = Some (out, b, st)
    \<and> map sd_sub_dag_index (out_sequence out) = [1..<length (out_sequence out) + 1]"
proof -
  define x where "x = example_certificate 1 0 [] []"
  let ?st = "consensus_state_new 50"
  have x: "cert_round x = 1" "cert_origin x = 0" by (simp_all add: x_def)
  have st: "st_dag ?st = []" "cr_gc_round (st_last_round ?st) = 0"
    by (simp_all add: consensus_state_new_def consensus_round_default_def)
  have ok: "acceptable example_committee ?st x" "\<not> equivocates ?st x"
    unfolding acceptable_def equivocates_def st ids_example by (simp_all add: x in_dag_def check_parents_def)
  from run_step_spec [OF example_commit_inv(1) _ example_commit_inv(2) ok, of "\<lambda>_. True"]
  obtain out b st' where r: "run_step example_rng (\<lambda>_. True) example_committee example_bullshark ?st x = Some (out, b, st')"
    by blast
  have "node_run example_rng (\<lambda>_. True) example_committee example_bullshark ?st ([] @ out_sequence out) b st'"
    by (rule node_receive [OF node_start ok r])
  from committed_log_correct [OF this example_commit_inv] r show ?thesis unfolding x_def by auto
qed

text \<open>C11: A leader with enough support is committed at once. If the elected leader's certificate
  is in the DAG and certificates with validity stake in the next round reference it, then
  \<open>commit_leader\<close> commits at least one sub-dag: either all pending leaders, the last of which is
  this one, or a part of them up to a change of schedule, after which the caller tries again.\<close>

theorem supported_leader_commits:
  assumes "commit_inv rng b st" "\<forall>s. written s" "even r" "cr_committed_round (st_last_round st) < r"
    and "leader_certificate rng (bs_leader_schedule b) r (st_dag st) = Some (a, Some lead)"
    and "map_of (st_dag st) (r + 1) = Some row"
    and "cm_validity_threshold (bs_committee b) \<le> leader_support (bs_committee b) row lead"
  shows "\<exists>out subs b' st'. commit_leader rng written b r st = Some (Inr (out, subs), b', st') \<and> subs \<noteq> []
    \<and> (out = Commit \<and> sd_leader (last subs) = lead \<and> cr_committed_round (st_last_round st') = r
       \<or> out = ScheduleChanged \<and> cr_committed_round (st_last_round st') < r)"
proof -
  from assms(7) have "\<not> leader_support (bs_committee b) row lead < cm_validity_threshold (bs_committee b)" by simp
  from commit_supported_leader [OF assms(1-6) this] show ?thesis
    unfolding commit_post_def by (fastforce split: if_splits)
qed

theorem supported_leader_commits_witness:
  "\<exists>out subs b' st'. commit_leader example_rng (\<lambda>_. True) example_bullshark 2 (chain_state [1, 2, 3])
      = Some (Inr (out, subs), b', st') \<and> subs \<noteq> []"
proof -
  obtain a where a: "leader_certificate example_rng (bs_leader_schedule example_bullshark) 2
      (st_dag (chain_state [1, 2, 3])) = Some (a, Some (chain_cert 2 1))"
    using chain_leader unfolding example_bs_env(3) by blast
  have row: "map_of (st_dag (chain_state [1, 2, 3])) (2 + 1) = Some (chain_row 3)" by (simp add: chain_dag)
  have support: "cm_validity_threshold (bs_committee example_bullshark)
      \<le> leader_support (bs_committee example_bullshark) (chain_row 3) (chain_cert 2 1)"
    unfolding example_bs_env(2) thresholds_example by (simp add: leader_support_def chain_row_def stake_example u64_wrapping_sum_def u64_size_def)
  have inv: "commit_inv example_rng example_bullshark (chain_state [1, 2, 3])"
  proof -
    have "distinct_digests (st_dag (chain_state [1, 2, 3]))"
      by (rule distinct_digests_code [OF chain_wf(1)]) (simp add: chain_dag chain_row_def)
    then show ?thesis
      using commit_inv_dag [OF example_commit_inv(1), of "st_dag (chain_state [1, 2, 3])"] chain_inv(1) chain_members(2)
      unfolding example_commit_inv(2) chain_state_def by simp
  qed
  have "even (2::nat)" "cr_committed_round (st_last_round (chain_state [1, 2, 3])) < 2"
    by (simp_all add: chain_dag)
  from supported_leader_commits [OF inv _ this a row support, of "\<lambda>_. True"] show ?thesis by blast
qed

end
