(* ===== verification/Narwhal_Recovery.thy ===== *)
theory Narwhal_Recovery
  imports Narwhal_Consensus
begin

text \<open>
  Restarting a node (\<open>Consensus::spawn\<close> and \<open>ConsensusState::new_from_store\<close> of
  \<open>src/narwhal/primary/src/consensus/state.rs\<close>): the state rebuilt from the consensus store and the
  certificate store is the state the node had, with the stored certificates above the
  garbage-collection round in its DAG.
\<close>

section \<open>The DAG of the stored certificates\<close>

definition stored :: "'k certificate_store \<Rightarrow> certificate \<Rightarrow> bool" where
  "stored cs x \<longleftrightarrow>
     map_of (certificate_id_by_round cs) (cert_round x, cert_origin x) = Some (cert_digest x)
     \<and> map_of (certificates_by_id cs) (cert_digest x) = Some x"

text \<open>A primary stores a certificate after its parents.\<close>

definition closed_store :: "'k certificate_store \<Rightarrow> round \<Rightarrow> bool" where
  "closed_store cs gc \<longleftrightarrow>
     (\<forall>x. stored cs x \<longrightarrow> gc + 1 < cert_round x \<longrightarrow>
       (\<exists>y. stored cs y \<and> cert_round y = cert_round x - 1)
       \<and> (\<forall>p \<in> set (cert_parents x). \<exists>y. stored cs y \<and> cert_round y = cert_round x - 1 \<and> cert_digest y = p))"

abbreviation slot :: "certificate \<Rightarrow> round \<times> authority_identifier" where
  "slot x \<equiv> (cert_round x, cert_origin x)"

lemma insert_certificates_spec:
  assumes "sorted_wrt (<) (map slot (old @ xs))"
    and "\<forall>x \<in> set (old @ xs). gc < cert_round x \<and> (gc + 1 < cert_round x \<longrightarrow>
      (\<exists>y \<in> set (old @ xs). cert_round y = cert_round x - 1)
      \<and> (\<forall>p \<in> set (cert_parents x). \<exists>y \<in> set (old @ xs). cert_round y = cert_round x - 1 \<and> cert_digest y = p))"
    and "wf_dag dag" "complete_history dag gc" "\<forall>x. in_dag dag x \<longleftrightarrow> x \<in> set old"
  shows "\<exists>dag'. insert_certificates dag lc gc xs = Some (Inr dag') \<and> wf_dag dag' \<and> complete_history dag' gc
    \<and> (\<forall>x. in_dag dag' x \<longleftrightarrow> x \<in> set (old @ xs))"
  using assms
proof (induction xs arbitrary: old dag)
  case (Cons x xs)
  have before: "slot y < slot x" if "y \<in> set old" for y
    using Cons.prems(1) that by (simp add: sorted_wrt_append)
  have earlier: "y \<in> set old" if "y \<in> set (old @ x # xs)" "cert_round y < cert_round x" for y
    using Cons.prems(1) that by (auto simp: sorted_wrt_append)
  have dag: "y \<in> set (dag_round dag r) \<longleftrightarrow> y \<in> set old \<and> cert_round y = r" for y r
    using in_dag_round [OF Cons.prems(3)] Cons.prems(5) by simp
  have parents: "check_parents x dag gc = Some ()"
    unfolding check_parents_Some [OF Cons.prems(3)]
  proof (intro impI conjI ballI)
    assume gc: "gc + 1 < cert_round x"
    then have lt: "cert_round x - 1 < cert_round x" by simp
    obtain y where y: "y \<in> set (old @ x # xs)" "cert_round y = cert_round x - 1"
      using Cons.prems(2) gc by (metis in_set_conv_decomp)
    then have "y \<in> set (dag_round dag (cert_round x - 1))" using dag earlier [OF y(1)] lt by simp
    then show "map_of dag (cert_round x - 1) \<noteq> None"
      by (cases "map_of dag (cert_round x - 1)") (simp_all add: dag_round_def)
    fix p
    assume "p \<in> set (cert_parents x)"
    then obtain z where z: "z \<in> set (old @ x # xs)" "cert_round z = cert_round x - 1" "cert_digest z = p"
      using Cons.prems(2) gc by (metis in_set_conv_decomp)
    then have "z \<in> set (dag_round dag (cert_round x - 1))" using dag earlier [OF z(1)] lt by simp
    with z(3) show "\<exists>y \<in> set (dag_round dag (cert_round x - 1)). cert_digest y = p" by blast
  qed
  have free: "cert_digest y = cert_digest x"
    if "in_dag dag y" "cert_round y = cert_round x" "cert_origin y = cert_origin x" for y
    using before [of y] that Cons.prems(5) by simp
  obtain b dag' where ins: "try_insert_in_dag dag lc gc x = Some (Inr b, dag')"
    using try_insert_in_dag_total [OF _ free Cons.prems(3)] parents by blast
  have "gc < cert_round x" using Cons.prems(2) by simp
  then have dag': "dag' = dag_insert dag x" using try_insert_in_dag_Ok [OF ins] by simp
  have "wf_dag dag'" unfolding dag' by (rule wf_dag_insert [OF Cons.prems(3)])
  moreover have "complete_history dag' gc" unfolding dag'
    by (rule complete_history_insert [OF Cons.prems(3,4) parents]) (rule free)
  moreover have "\<forall>y. in_dag dag' y \<longleftrightarrow> y \<in> set (old @ [x])"
    unfolding dag' in_dag_insert using Cons.prems(5) less_irrefl [of "slot x"] before
    by (metis Un_iff empty_iff insert_iff list.set set_append)
  moreover have app: "(old @ [x]) @ xs = old @ x # xs" by simp
  ultimately show ?case using Cons.IH [of "old @ [x]" dag'] Cons.prems(1,2) ins unfolding app by simp
qed simp

lemma construct_dag_spec:
  assumes "cs_inv peek cs" "closed_store cs gc"
  shows "\<exists>dag. construct_dag_from_cert_store cs lc gc = Some (Inr dag) \<and> wf_dag dag \<and> complete_history dag gc
    \<and> (\<forall>x. in_dag dag x \<longleftrightarrow> stored cs x \<and> gc < cert_round x)"
proof -
  obtain xs where xs: "after_round cs (gc + 1) = Inr xs" "sorted_wrt (<) (map slot xs)"
      "\<forall>x. x \<in> set xs \<longleftrightarrow> gc + 1 \<le> cert_round x
        \<and> map_of (certificate_id_by_round cs) (slot x) = Some (cert_digest x)
        \<and> map_of (certificates_by_id cs) (cert_digest x) = Some x"
    using after_round_spec [OF assms(1), of "gc + 1"] by blast
  have mem: "x \<in> set xs \<longleftrightarrow> stored cs x \<and> gc < cert_round x" for x
    using xs(3) by (auto simp: stored_def Suc_le_eq)
  have "gc < cert_round x \<and> (gc + 1 < cert_round x \<longrightarrow>
      (\<exists>y \<in> set xs. cert_round y = cert_round x - 1)
      \<and> (\<forall>p \<in> set (cert_parents x). \<exists>y \<in> set xs. cert_round y = cert_round x - 1 \<and> cert_digest y = p))"
    if x: "x \<in> set xs" for x
  proof (intro conjI impI ballI)
    show "gc < cert_round x" using x mem by blast
    assume gc: "gc + 1 < cert_round x"
    then have lt: "gc < cert_round x - 1" by simp
    have closed: "(\<exists>y. stored cs y \<and> cert_round y = cert_round x - 1)
        \<and> (\<forall>p \<in> set (cert_parents x). \<exists>y. stored cs y \<and> cert_round y = cert_round x - 1 \<and> cert_digest y = p)"
      using assms(2) [unfolded closed_store_def] x [unfolded mem] gc by blast
    have up: "y \<in> set xs" if "stored cs y" "cert_round y = cert_round x - 1" for y
      unfolding mem using that lt by simp
    show "\<exists>y \<in> set xs. cert_round y = cert_round x - 1" using closed up by blast
    fix p
    assume "p \<in> set (cert_parents x)"
    then show "\<exists>y \<in> set xs. cert_round y = cert_round x - 1 \<and> cert_digest y = p" using closed up by blast
  qed
  then have "\<exists>dag. insert_certificates [] lc gc xs = Some (Inr dag) \<and> wf_dag dag \<and> complete_history dag gc
      \<and> (\<forall>x. in_dag dag x \<longleftrightarrow> x \<in> set ([] @ xs))"
    by (intro insert_certificates_spec) (use xs(2) in \<open>simp_all add: wf_dag_def complete_history_def in_dag_def\<close>)
  then show ?thesis using xs(1) mem by (simp add: construct_dag_from_cert_store_def)
qed

section \<open>The last sub-dag\<close>

lemma read_certificates_spec:
  assumes "coherent_cache ops peek" "cs_inv peek cs"
    and "\<forall>x \<in> set xs. map_of (certificates_by_id cs) (cert_digest x) = Some x"
  shows "\<exists>cs'. read_certificates ops cs (map cert_digest xs) = Some (xs, cs')
    \<and> cs_inv peek cs' \<and> certificates_by_id cs' = certificates_by_id cs"
  using assms(2,3)
proof (induction xs arbitrary: cs)
  case (Cons x xs)
  note db = coherent_cache.cert_read_db [OF assms(1) Cons.prems(1), of "cert_digest x"]
  obtain cs1 where r: "cert_read ops cs (cert_digest x) = (Some x, cs1)" "cs_inv peek cs1"
      "certificates_by_id cs1 = certificates_by_id cs"
    using db Cons.prems(2) by (cases "cert_read ops cs (cert_digest x)") auto
  from Cons.IH [OF r(2)] Cons.prems(2) r(1,3) show ?case by auto
qed simp

lemma fold_max_eq:
  assumes "\<forall>x \<in> set xs. x \<le> m" "m = 0 \<or> m \<in> set xs"
  shows "fold max xs 0 = (m :: nat)"
proof -
  have "fold max xs 0 = Max (set (0 # xs))" by (subst Max.set_eq_fold) simp
  also have "\<dots> = m" using assms by (intro Max_eqI) auto
  finally show ?thesis .
qed

lemma rows_nonempty:
  assumes "wf_dag dag" "(r, row) \<in> set dag"
  shows "\<exists>x. in_dag dag x \<and> cert_round x = r"
proof -
  have m: "map_of dag r = Some row"
    using assms bt_wf_distinct by (auto simp: wf_dag_def intro!: map_of_is_SomeI)
  have "row \<noteq> []" using wf_dag_row [OF assms(1) m] by (simp add: wf_row_def)
  then obtain v where "v \<in> set row" by (cases row) auto
  then have "snd (snd v) \<in> set (dag_round dag r)" using m by (force simp: dag_round_def)
  then show ?thesis using in_dag_round [OF assms(1)] by blast
qed

lemma recovered_round:
  assumes "commit_inv rng b st"
  shows "map_of (read_last_committed (bs_store b)) = map_of (st_last_committed st)"
    and "distinct (map fst (read_last_committed (bs_store b)))"
    and "fold max (map snd (read_last_committed (bs_store b))) 0 = committed_round st"
proof -
  note D = commit_invD [OF assms]
  let ?r = "read_last_committed (bs_store b)"
  have r: "?r = cs_last_committed (bs_store b)"
    using D(12) by (simp add: read_last_committed_def wf_store_def bt_wf_distinct)
  then show m: "map_of ?r = map_of (st_last_committed st)" using D(14) by (simp add: persisted_def)
  show d: "distinct (map fst ?r)" by (simp add: read_last_committed_def)
  show "fold max (map snd ?r) 0 = committed_round st"
  proof (rule fold_max_eq)
    show "\<forall>x \<in> set (map snd ?r). x \<le> committed_round st"
      using st_inv_last_committed [OF D(1)] map_of_is_SomeI [OF d] m by fastforce
    show "committed_round st = 0 \<or> committed_round st \<in> set (map snd ?r)"
      using D(14) unfolding persisted_def m [symmetric] by (force dest: map_of_SomeD)
  qed
qed

lemma recovered_sub_dag:
  assumes "commit_inv rng b st" "coherent_cache ops peek" "cs_inv peek cs"
    and "\<forall>s. st_last_committed_sub_dag st = Some s \<longrightarrow>
      (\<forall>x \<in> set (sd_leader s # sd_certificates s). map_of (certificates_by_id cs) (cert_digest x) = Some x)"
  shows "(case get_latest_sub_dag (bs_store b) of
      None \<Rightarrow> Some None
    | Some commit \<Rightarrow> do {
        (xs, cs) \<leftarrow> read_certificates ops cs (commit_certificates commit);
        case fst (cert_read ops cs (commit_leader_digest commit)) of
          None \<Rightarrow> None
        | Some lead \<Rightarrow> Some (Some (from_commit commit xs lead))
      }) = Some (st_last_committed_sub_dag st)"
    and "(case get_latest_sub_dag (bs_store b) of
      None \<Rightarrow> Some ()
    | Some commit \<Rightarrow> rust_assert (commit_leader_round commit = committed_round st)) = Some ()"
proof -
  have pers: "persisted (bs_store b) st" by (rule commit_invD(14) [OF assms(1)])
  have latest: "get_latest_sub_dag (bs_store b) = map_option (\<lambda>s. V2 (v2_from_sub_dag s)) (st_last_committed_sub_dag st)"
    using pers by (simp add: persisted_def)
  show "(case get_latest_sub_dag (bs_store b) of
      None \<Rightarrow> Some ()
    | Some commit \<Rightarrow> rust_assert (commit_leader_round commit = committed_round st)) = Some ()"
    using pers by (auto simp: latest persisted_def v2_from_sub_dag_def leader_round_def split: option.split)
  show "(case get_latest_sub_dag (bs_store b) of
      None \<Rightarrow> Some None
    | Some commit \<Rightarrow> do {
        (xs, cs) \<leftarrow> read_certificates ops cs (commit_certificates commit);
        case fst (cert_read ops cs (commit_leader_digest commit)) of
          None \<Rightarrow> None
        | Some lead \<Rightarrow> Some (Some (from_commit commit xs lead))
      }) = Some (st_last_committed_sub_dag st)"
  proof (cases "st_last_committed_sub_dag st")
    case (Some s)
    have db: "map_of (certificates_by_id cs) (cert_digest x) = Some x" if "x \<in> set (sd_leader s # sd_certificates s)" for x
      using assms(4) Some that by blast
    obtain cs' where r: "read_certificates ops cs (map cert_digest (sd_certificates s)) = Some (sd_certificates s, cs')"
        "cs_inv peek cs'" "certificates_by_id cs' = certificates_by_id cs"
      using read_certificates_spec [OF assms(2,3), of "sd_certificates s"] db by auto
    have "fst (cert_read ops cs' (cert_digest (sd_leader s))) = Some (sd_leader s)"
      using coherent_cache.cert_read_db(1) [OF assms(2) r(2)] r(3) db by simp
    moreover have "commit_certificates (V2 (v2_from_sub_dag s)) = map cert_digest (sd_certificates s)"
        "commit_leader_digest (V2 (v2_from_sub_dag s)) = cert_digest (sd_leader s)"
      by (simp_all add: v2_from_sub_dag_def)
    ultimately show ?thesis using r(1) Some from_commit_from_sub_dag by (simp add: latest)
  qed (simp add: latest)
qed

lemma in_dag_above_gc: "st_inv st \<Longrightarrow> in_dag (st_dag st) x \<Longrightarrow> cr_gc_round (st_last_round st) < cert_round x"
  by (auto simp: st_inv_def in_dag_def list_all_iff dest!: map_of_SomeD split: option.splits)

lemma commit_inv_same_dag:
  assumes "commit_inv rng b st" "st_inv st'"
    and "st_last_round st' = st_last_round st" "st_gc_depth st' = st_gc_depth st"
    and "map_of (st_last_committed st') = map_of (st_last_committed st)"
    and "st_last_committed_sub_dag st' = st_last_committed_sub_dag st"
    and "in_dag (st_dag st') = in_dag (st_dag st)"
  shows "commit_inv rng b st'"
proof -
  have "next_sub_dag_index st' = next_sub_dag_index st" using assms(6) by (simp add: next_sub_dag_index_def)
  then show ?thesis
    using assms unfolding commit_inv_def distinct_digests_def members_only_def persisted_def by simp
qed

text \<open>C8: A restart loses nothing. Let the certificate store have the certificates of the node's
  DAG and of its last sub-dag, and be closed under parents above the garbage-collection round.
  Then a node restarted from its two stores does not panic. It has the rounds, the last committed
  rounds of all authorities and the last sub-dag that the running node had. Its DAG is well-formed and
  holds exactly the stored certificates above the garbage-collection round: all those of the
  running node's DAG, and the stored ones that the consensus task had not received yet. If there
  are none of the latter, the DAG holds the same certificates as before and the commit invariant
  holds again.\<close>

theorem recovery_correct:
  assumes "commit_inv rng b st" "coherent_cache ops peek" "cs_inv peek cs"
    and "closed_store cs (cr_gc_round (st_last_round st))"
    and "\<forall>s. st_last_committed_sub_dag st = Some s \<longrightarrow>
      (\<forall>x \<in> set (sd_leader s # sd_certificates s). map_of (certificates_by_id cs) (cert_digest x) = Some x)"
    and "\<forall>x. in_dag (st_dag st) x \<longrightarrow> stored cs x"
  shows "\<exists>st'. consensus_spawn ops (st_gc_depth st) (bs_store b) cs = Some st' \<and> st_inv st'
    \<and> st_last_round st' = st_last_round st \<and> st_gc_depth st' = st_gc_depth st
    \<and> map_of (st_last_committed st') = map_of (st_last_committed st)
    \<and> st_last_committed_sub_dag st' = st_last_committed_sub_dag st
    \<and> (\<forall>x. in_dag (st_dag st') x \<longleftrightarrow> stored cs x \<and> cr_gc_round (st_last_round st) < cert_round x)
    \<and> (\<forall>x. in_dag (st_dag st) x \<longrightarrow> in_dag (st_dag st') x)
    \<and> ((\<forall>x. stored cs x \<and> cr_gc_round (st_last_round st) < cert_round x \<longrightarrow> in_dag (st_dag st) x)
        \<longrightarrow> in_dag (st_dag st') = in_dag (st_dag st) \<and> commit_inv rng b st')"
proof -
  note D = commit_invD [OF assms(1)] and r = recovered_round [OF assms(1)]
    and sub = recovered_sub_dag [OF assms(1-3,5)]
  let ?gc = "cr_gc_round (st_last_round st)" and ?lc = "read_last_committed (bs_store b)"
  obtain dag where dag: "construct_dag_from_cert_store cs ?lc ?gc = Some (Inr dag)" "wf_dag dag"
      "complete_history dag ?gc" "\<forall>x. in_dag dag x \<longleftrightarrow> stored cs x \<and> ?gc < cert_round x"
    using construct_dag_spec [OF assms(3,4)] by blast
  have round: "new_with_gc_depth (committed_round st) (st_gc_depth st) = st_last_round st"
    using st_invD(3) [OF D(1)] by (simp add: new_with_gc_depth_def)
  define st' where "st' = \<lparr>st_last_round = st_last_round st, st_gc_depth = st_gc_depth st, st_last_committed = ?lc,
    st_last_committed_sub_dag = st_last_committed_sub_dag st, st_dag = dag\<rparr>"
  have "consensus_spawn ops (st_gc_depth st) (bs_store b) cs = Some st'"
    unfolding consensus_spawn_def new_from_store_def Let_def r(3) sub(2) round dag(1) bind.bind_lunit
    by (simp add: sub(1) st'_def)
  moreover have "\<forall>(a, r) \<in> set ?lc. r \<le> committed_round st"
    using st_inv_last_committed [OF D(1)] map_of_is_SomeI [OF r(2)] r(1) by fastforce
  then have "st_inv st'"
    unfolding st_inv_def st'_def using dag(2-4) rows_nonempty [OF dag(2)] r(2) st_invD(3) [OF D(1)]
    by (fastforce simp: list_all_iff)
  ultimately have st': "consensus_spawn ops (st_gc_depth st) (bs_store b) cs = Some st'" "st_inv st'"
      "\<forall>x. in_dag (st_dag st') x \<longleftrightarrow> stored cs x \<and> ?gc < cert_round x"
      "st_last_round st' = st_last_round st" "st_gc_depth st' = st_gc_depth st"
      "map_of (st_last_committed st') = map_of (st_last_committed st)"
      "st_last_committed_sub_dag st' = st_last_committed_sub_dag st"
    using dag(4) r(1) by (simp_all add: st'_def)
  have kept: "in_dag (st_dag st') x" if "in_dag (st_dag st) x" for x
    using that assms(6) in_dag_above_gc [OF D(1) that] st'(3) by blast
  then have "in_dag (st_dag st') = in_dag (st_dag st)"
    if "\<forall>x. stored cs x \<and> ?gc < cert_round x \<longrightarrow> in_dag (st_dag st) x"
    using that st'(3) by blast
  then show ?thesis
    using st' kept commit_inv_same_dag [OF assms(1) st'(2,4-7)] by blast
qed

definition chain_store :: "(digest \<times> certificate) list certificate_store" where
  "chain_store = snd (cert_write_all example_lru True (certificate_store_new []) (dag_certs (st_dag (chain_state [1, 2]))))"

theorem recovery_correct_witness:
  "\<exists>st'. consensus_spawn example_lru 50 (bs_store example_bullshark) chain_store = Some st'
    \<and> in_dag (st_dag st') (chain_cert 2 1)
    \<and> in_dag (st_dag st') = in_dag (st_dag (chain_state [1, 2])) \<and> commit_inv example_rng example_bullshark st'"
proof -
  let ?st = "chain_state [1, 2]" and ?xs = "dag_certs (st_dag (chain_state [1, 2]))"
  have xs: "?xs = map (\<lambda>a. example_certificate 1 a [] []) [0, 1, 2] @ map (chain_cert 2) [0, 1, 2]"
    by (simp add: chain_dag chain_row_def)
  have wf: "wf_dag (st_dag ?st)" by (simp add: chain_state_def wf_dag_def wf_row_def chain_row_def)
  have "cs_inv map_of ((batch_write (certificate_store_new []) ?xs)
      \<lparr>cert_cache := cache_write_all example_lru (cert_cache (certificate_store_new [])) ?xs\<rparr>)"
  proof (rule coherent_cache.cs_inv_write_all [OF example_lru_coherent cs_inv_new])
    show "no_collision (certificate_store_new []) x" for x
      by (simp add: no_collision_def certificate_store_new_def)
    show "cert_round x = cert_round y \<and> cert_origin x = cert_origin y"
      if "x \<in> set ?xs" "y \<in> set ?xs" "cert_digest x = cert_digest y" for x y
      using that unfolding xs by auto
  qed simp
  then have inv: "cs_inv map_of chain_store"
    by (simp add: chain_store_def cert_write_all_def Let_def batch_write_def)
  have tables: "map_of (certificates_by_id chain_store) = map_of (map (\<lambda>x. (cert_digest x, x)) ?xs)"
      "map_of (certificate_id_by_round chain_store) = map_of (map (\<lambda>x. (slot x, cert_digest x)) ?xs)"
    unfolding chain_store_def cert_write_all_def batch_write_def certificate_store_new_def xs by simp_all
  have stored: "stored chain_store y \<longleftrightarrow> y \<in> set ?xs" for y
  proof -
    have d: "distinct (map fst (map (\<lambda>x. (cert_digest x, x)) ?xs))" "distinct (map fst (map (\<lambda>x. (slot x, cert_digest x)) ?xs))"
      unfolding xs by simp_all
    show ?thesis unfolding stored_def tables map_of_eq_Some_iff [OF d(1)] map_of_eq_Some_iff [OF d(2)] by auto
  qed
  have st: "cr_gc_round (st_last_round ?st) = 0" "st_gc_depth ?st = 50" "st_last_committed_sub_dag ?st = None"
    by (simp_all add: chain_state_def consensus_state_new_def consensus_round_default_def)
  have "\<forall>x \<in> set ?xs. 0 + 1 < cert_round x \<longrightarrow> (\<exists>y \<in> set ?xs. cert_round y = cert_round x - 1)
      \<and> (\<forall>p \<in> set (cert_parents x). \<exists>y \<in> set ?xs. cert_round y = cert_round x - 1 \<and> cert_digest y = p)"
    unfolding xs by simp
  then have closed: "closed_store chain_store (cr_gc_round (st_last_round ?st))"
    unfolding closed_store_def stored st by blast
  have dag: "in_dag (st_dag ?st) x \<longleftrightarrow> stored chain_store x" for x
    unfolding in_dag_certs [OF wf] stored ..
  have x: "in_dag (st_dag ?st) (chain_cert 2 1)"
    unfolding in_dag_certs [OF wf] xs by simp
  have "\<forall>s. st_last_committed_sub_dag ?st = Some s \<longrightarrow>
      (\<forall>x \<in> set (sd_leader s # sd_certificates s). map_of (certificates_by_id chain_store) (cert_digest x) = Some x)"
    unfolding st by simp
  from recovery_correct [OF example_chain_inv example_lru_coherent inv closed this] dag x
  show ?thesis unfolding st by blast
qed

end
