(* ===== verification/Narwhal_Aggregators.thy ===== *)
theory Narwhal_Aggregators
  imports Narwhal_Types
begin

text \<open>
  The primary's aggregators, \<open>src/narwhal/primary/src/aggregators.rs\<close>: votes for a header are
  collected until they form a certificate, certificates of a round until they are a quorum of
  parents. Both are instances of the counter of \<open>Quorum_System\<close>. A hash set is a finite set.
\<close>

section \<open>Votes\<close>

record vote =
  vote_header_digest :: digest
  vote_round :: round
  vote_epoch :: epoch
  vote_origin :: authority_identifier
  vote_author :: authority_identifier
  vote_signature :: signature

record votes_aggregator =
  va_weight :: stake
  va_votes :: "vote_entry list"
  va_used :: "authority_identifier set"

definition votes_aggregator_new :: votes_aggregator where
  "votes_aggregator_new = \<lparr>va_weight = 0, va_votes = [], va_used = {}\<rparr>"

text \<open>\<open>retain\<close> keeps the votes whose own signature verifies and takes the stake of the others
  off the weight.\<close>

fun retain_valid ::
    "crypto \<Rightarrow> committee \<Rightarrow> digest \<Rightarrow> vote_entry list \<Rightarrow> stake \<Rightarrow> (vote_entry list \<times> stake) option" where
  "retain_valid C c d [] weight = Some ([], weight)"
| "retain_valid C c d ((i, sig) # votes) weight = do {
     a \<leftarrow> authority_safe c i;
     pk \<leftarrow> authority_protocol_key a;
     if verify_one C sig d pk
     then do {
       (kept, w) \<leftarrow> retain_valid C c d votes weight;
       Some ((i, sig) # kept, w)
     }
     else retain_valid C c d votes (u64_wrapping_sub weight (committee_stake c pk))
   }"

text \<open>Once the votes weigh a quorum, \<open>append\<close> forms the certificate and checks its signature.\<close>

definition try_certificate ::
    "crypto \<Rightarrow> votes_aggregator \<Rightarrow> committee \<Rightarrow> header \<Rightarrow>
     (certificate option dag_result \<times> votes_aggregator) option" where
  "try_certificate C ag c h = do {
     r \<leftarrow> new_unverified C c h (va_votes ag);
     case r of
       Inl e \<Rightarrow> Some (Inl e, ag)
     | Inr cert \<Rightarrow> do {
         (_, pks) \<leftarrow> signed_by cert c;
         case aggregated_signature cert of
           None \<Rightarrow> Some (Inl InvalidSignature, ag)
         | Some bytes \<Rightarrow>
             (case aggregate_try_from C bytes of
                None \<Rightarrow> Some (Inl InvalidSignature, ag)
              | Some s \<Rightarrow>
                  if verify_secure C s (cert_digest cert) pks
                  then Some (Inr (Some (cert\<lparr>cert_state := VerifiedDirectly bytes\<rparr>)), ag)
                  else do {
                    (votes, weight) \<leftarrow>
                      retain_valid C c (cert_digest cert) (va_votes ag) (va_weight ag);
                    Some (Inr None, ag\<lparr>va_votes := votes, va_weight := weight\<rparr>)
                  })
       }
   }"

definition votes_append ::
    "crypto \<Rightarrow> votes_aggregator \<Rightarrow> vote \<Rightarrow> committee \<Rightarrow> header \<Rightarrow>
     (certificate option dag_result \<times> votes_aggregator) option" where
  "votes_append C ag v c h =
     (let author = vote_author v in
      if author \<in> va_used ag then Some (Inl (AuthorityReuse author), ag)
      else
        let ag = \<lparr>va_weight = u64_wrapping_add (va_weight ag) (stake_by_id c author),
                  va_votes = va_votes ag @ [(author, vote_signature v)],
                  va_used = insert author (va_used ag)\<rparr>
        in if cm_quorum_threshold c \<le> va_weight ag then try_certificate C ag c h
           else Some (Inr None, ag))"

section \<open>Certificates\<close>

record certificates_aggregator =
  ca_weight :: stake
  ca_certificates :: "certificate list"
  ca_used :: "authority_identifier set"

definition certificates_aggregator_new :: certificates_aggregator where
  "certificates_aggregator_new = \<lparr>ca_weight = 0, ca_certificates = [], ca_used = {}\<rparr>"

definition certificates_append ::
    "certificates_aggregator \<Rightarrow> certificate \<Rightarrow> committee \<Rightarrow>
     certificate list option \<times> certificates_aggregator" where
  "certificates_append ag x c =
     (let origin = cert_origin x in
      if origin \<in> ca_used ag then (None, ag)
      else
        let ag = \<lparr>ca_weight = u64_wrapping_add (ca_weight ag) (stake_by_id c origin),
                  ca_certificates = ca_certificates ag @ [x],
                  ca_used = insert origin (ca_used ag)\<rparr>
        in if cm_quorum_threshold c \<le> ca_weight ag
           then (Some (ca_certificates ag), ag\<lparr>ca_certificates := []\<rparr>)
           else (None, ag))"

section \<open>The aggregators weigh each voter once\<close>

definition va_inv :: "committee \<Rightarrow> votes_aggregator \<Rightarrow> bool" where
  "va_inv c ag \<longleftrightarrow>
     distinct (map fst (va_votes ag)) \<and> fst ` set (va_votes ag) \<subseteq> va_used ag
     \<and> va_weight ag = sum (stake_by_id c) (fst ` set (va_votes ag))"

definition ca_inv :: "committee \<Rightarrow> certificates_aggregator \<Rightarrow> bool" where
  "ca_inv c ag \<longleftrightarrow>
     finite (ca_used ag) \<and> ca_weight ag = sum (stake_by_id c) (ca_used ag)
     \<and> distinct (map cert_origin (ca_certificates ag))
     \<and> (if ca_weight ag < cm_quorum_threshold c
        then cert_origin ` set (ca_certificates ag) = ca_used ag else ca_certificates ag = [])"

abbreviation va_voters :: "votes_aggregator \<Rightarrow> authority_identifier set" where
  "va_voters ag \<equiv> fst ` set (va_votes ag)"

interpretation vote_counter:
  quorum_counter committee_ids stake_by_id cm_quorum_threshold cm_validity_threshold wf_committee
    va_weight va_voters va_inv
  by unfold_locales (simp_all add: va_inv_def)

interpretation certificate_counter:
  quorum_counter committee_ids stake_by_id cm_quorum_threshold cm_validity_threshold wf_committee
    ca_weight ca_used ca_inv
  by unfold_locales (simp_all add: ca_inv_def)

text \<open>The builder files an authority under its own key; the retained weight relies on it.\<close>

definition keyed_committee :: "committee \<Rightarrow> bool" where
  "keyed_committee c \<longleftrightarrow> list_all (\<lambda>(k, a). auth_protocol_key a = k) (cm_authorities c)"

lemma committee_stake_keyed:
  assumes "wf_committee c" "keyed_committee c" "a \<in> set (authorities c)"
  shows "committee_stake c (auth_protocol_key a) = auth_stake a"
proof -
  have "(auth_protocol_key a, a) \<in> set (cm_authorities c)"
    using assms(2,3) by (auto simp: keyed_committee_def authorities_def list_all_iff)
  then have "map_of (cm_authorities c) (auth_protocol_key a) = Some a"
    using assms(1) bt_wf_distinct [of "cm_authorities c"] by (simp add: wf_committee_def)
  then show ?thesis by (simp add: committee_stake_def)
qed

text \<open>A vote whose own signature verifies.\<close>

definition own_valid :: "crypto \<Rightarrow> committee \<Rightarrow> digest \<Rightarrow> vote_entry \<Rightarrow> bool" where
  "own_valid C c d v = (case authority_lookup c (fst v) of
     None \<Rightarrow> False | Some a \<Rightarrow> verify_one C (snd v) d (auth_protocol_key a))"

lemma retain_valid_eq:
  assumes "wf_committee c" "keyed_committee c"
    and "distinct (map fst votes)" "fst ` set votes \<subseteq> committee_ids c"
    and "w + sum (stake_by_id c) (fst ` set votes) < u64_size"
  shows "retain_valid C c d votes (w + sum (stake_by_id c) (fst ` set votes))
      = Some (filter (own_valid C c d) votes, w + sum (stake_by_id c) (fst ` set (filter (own_valid C c d) votes)))"
  using assms(3-5)
proof (induction votes arbitrary: w)
  case (Cons v votes)
  obtain i sig where v: "v = (i, sig)" by (cases v)
  have "i < committee_size c"
    using Cons.prems(2) v wf_committee_ids(2) [OF assms(1)] by simp
  then obtain a where a: "authority_safe c i = Some a" "authority_lookup c i = Some a"
    using authority_lookup_dom [OF assms(1), of i] by (auto simp: authority_safe_def authority_lookup_def)
  note mem = authority_lookup_id [OF assms(1) a(2)]
  note pk = initialised_getters(2) [OF assms(1) mem(2)]
  have st: "committee_stake c (auth_protocol_key a) = stake_by_id c i"
    using committee_stake_keyed [OF assms(1,2) mem(2)] stake_by_id_auth [OF assms(1) mem(2)] mem(1)
    by simp
  have new: "i \<notin> fst ` set votes" using Cons.prems(1) v by simp
  then have split: "w + sum (stake_by_id c) (fst ` set (v # votes)) = (w + stake_by_id c i) + sum (stake_by_id c) (fst ` set votes)"
    using v by simp
  have own: "own_valid C c d v \<longleftrightarrow> verify_one C sig d (auth_protocol_key a)" using a v by (simp add: own_valid_def)
  show ?case
  proof (cases "own_valid C c d v")
    case True
    have "i \<notin> fst ` set (filter (own_valid C c d) votes)" using new by auto
    then show ?thesis
      using Cons.IH [of "w + stake_by_id c i"] Cons.prems v a pk True own unfolding split by simp
  next
    case False
    have "u64_wrapping_sub (w + stake_by_id c i + sum (stake_by_id c) (fst ` set votes)) (stake_by_id c i)
        = w + sum (stake_by_id c) (fst ` set votes)"
      using Cons.prems(3) split by simp
    then show ?thesis
      using Cons.IH [of w] Cons.prems v a pk st False own unfolding split by simp
  qed
qed simp

lemma va_inv_new [simp]: "va_inv c votes_aggregator_new"
  by (simp add: va_inv_def votes_aggregator_new_def)

lemma ca_inv_new: "wf_committee c \<Longrightarrow> ca_inv c certificates_aggregator_new"
  by (simp add: ca_inv_def certificates_aggregator_new_def quorum_positive)

lemma va_inv_add:
  assumes "wf_committee c" "va_inv c ag" "i \<notin> va_used ag"
  shows "u64_wrapping_add (va_weight ag) (stake_by_id c i) = sum (stake_by_id c) (fst ` set (va_votes ag @ [(i, s)]))"
    and "va_inv c \<lparr>va_weight = u64_wrapping_add (va_weight ag) (stake_by_id c i), va_votes = va_votes ag @ [(i, s)],
      va_used = insert i (va_used ag)\<rparr>"
proof -
  have new: "i \<notin> fst ` set (va_votes ag)" using assms by (auto simp: va_inv_def)
  show w: "u64_wrapping_add (va_weight ag) (stake_by_id c i) = sum (stake_by_id c) (fst ` set (va_votes ag @ [(i, s)]))"
    using assms(2) new stakes_fit [OF assms(1), of "insert i (fst ` set (va_votes ag))"] by (simp add: va_inv_def add.commute)
  show "va_inv c \<lparr>va_weight = u64_wrapping_add (va_weight ag) (stake_by_id c i), va_votes = va_votes ag @ [(i, s)],
      va_used = insert i (va_used ag)\<rparr>"
    unfolding w using assms(2) new by (auto simp: va_inv_def)
qed

lemma consistent_distinct: "distinct (map fst votes) \<Longrightarrow> consistent_votes votes"
  by (auto simp: consistent_votes_def dest: eq_key_imp_eq_value)

text \<open>The keys of the voters, and the check of the aggregate of their signatures under them: no answer if they
  cannot be aggregated or the aggregate cannot be read back.\<close>

definition voter_keys :: "committee \<Rightarrow> vote_entry list \<Rightarrow> public_key list" where
  "voter_keys c votes = map auth_protocol_key (filter (\<lambda>a. auth_id a \<in> fst ` set votes) (authorities c))"

definition aggregate_check :: "crypto \<Rightarrow> committee \<Rightarrow> header \<Rightarrow> vote_entry list \<Rightarrow> bool option" where
  "aggregate_check C c h votes = do {
     agg \<leftarrow> aggregate C (map snd (remdups_adj (sort_key fst votes)));
     s \<leftarrow> aggregate_try_from C agg;
     Some (verify_secure C s (hdr_digest h) (voter_keys c votes))
   }"

text \<open>What \<open>append\<close> does once the held votes are known: its result and the aggregator it leaves.\<close>

definition votes_append_post ::
    "crypto \<Rightarrow> committee \<Rightarrow> header \<Rightarrow> vote_entry list \<Rightarrow> certificate option dag_result \<Rightarrow> votes_aggregator \<Rightarrow> bool" where
  "votes_append_post C c h held r ag' \<longleftrightarrow> va_inv c ag' \<and>
     (if sum (stake_by_id c) (fst ` set held) < cm_quorum_threshold c then r = Inr None \<and> va_votes ag' = held
      else if \<not> fst ` set held \<subseteq> committee_ids c then (\<exists>e. r = Inl e) \<and> va_votes ag' = held
      else (case aggregate_check C c h held of
          None \<Rightarrow> (\<exists>e. r = Inl e) \<and> va_votes ag' = held
        | Some False \<Rightarrow> r = Inr None \<and> va_votes ag' = filter (own_valid C c (hdr_digest h)) held
        | Some True \<Rightarrow> va_votes ag' = held \<and> (\<exists>x bytes. r = Inr (Some x) \<and> cert_header x = h
            \<and> signed_by x c = Some (sum (stake_by_id c) (fst ` set held), voter_keys c held)
            \<and> cert_state x = VerifiedDirectly bytes
            \<and> aggregate C (map snd (remdups_adj (sort_key fst held))) = Some bytes)))"

lemma retain_valid_inv:
  assumes "wf_committee c" "keyed_committee c" "va_inv c ag" "va_voters ag \<subseteq> committee_ids c"
  shows "\<exists>w. retain_valid C c d (va_votes ag) (va_weight ag) = Some (filter (own_valid C c d) (va_votes ag), w)
    \<and> va_inv c (ag\<lparr>va_votes := filter (own_valid C c d) (va_votes ag), va_weight := w\<rparr>)"
proof -
  have "retain_valid C c d (va_votes ag) (va_weight ag)
      = Some (filter (own_valid C c d) (va_votes ag), sum (stake_by_id c) (fst ` set (filter (own_valid C c d) (va_votes ag))))"
    using retain_valid_eq [OF assms(1,2) _ assms(4), of 0 C d] stakes_fit [OF assms(1), of "va_voters ag"] assms(3) by (simp add: va_inv_def)
  then show ?thesis using assms(3) by (force simp: va_inv_def distinct_map_filter)
qed

lemma signed_by_state [simp]: "signed_by (x\<lparr>cert_state := s\<rparr>) c = signed_by x c"
  by (simp add: signed_by_def)

lemma try_certificate_correct:
  assumes "wf_committee c" "lawful_bitmap C" "keyed_committee c" "va_inv c ag"
    and "cm_quorum_threshold c \<le> va_weight ag"
  shows "\<exists>r ag'. try_certificate C ag c h = Some (r, ag') \<and> votes_append_post C c h (va_votes ag) r ag'
    \<and> va_used ag' = va_used ag"
proof -
  have q: "cm_quorum_threshold c \<le> sum (stake_by_id c) (va_voters ag)" using assms(4,5) by (simp add: va_inv_def)
  obtain r where r: "new_unverified C c h (va_votes ag) = Some r"
      "case r of Inl _ \<Rightarrow> \<not> certifiable C c (va_votes ag)
       | Inr x \<Rightarrow> certifiable C c (va_votes ag) \<and> cert_header x = h
         \<and> signed_by x c = Some (sum (stake_by_id c) (va_voters ag), voter_keys c (va_votes ag))"
    using new_unverified_signed_by [OF assms(1,2)] unfolding voter_keys_def by blast
  have "consistent_votes (va_votes ag)" using assms(4) by (simp add: va_inv_def consistent_distinct)
  note cert = certifiable_def [of C c "va_votes ag"] this q
  show ?thesis
  proof (cases r)
    case (Inl e)
    then have "va_voters ag \<subseteq> committee_ids c \<Longrightarrow> aggregate_check C c h (va_votes ag) = None"
      using r(2) cert by (auto simp: aggregate_check_def split: option.splits)
    with Inl r(1) q assms(4) show ?thesis by (auto simp: try_certificate_def votes_append_post_def)
  next
    case (Inr x)
    with r have x: "cert_header x = h" "va_voters ag \<subseteq> committee_ids c" "cert_digest x = hdr_digest h"
        "signed_by x c = Some (sum (stake_by_id c) (va_voters ag), voter_keys c (va_votes ag))"
      by (simp_all add: certifiable_def cert_digest_def)
    obtain agg where agg: "aggregate C (map snd (remdups_adj (sort_key fst (va_votes ag)))) = Some agg" "cert_state x = Unverified agg"
      using new_unverified_state [OF assms(1,2)] r(1) Inr by blast
    obtain w where k: "retain_valid C c (hdr_digest h) (va_votes ag) (va_weight ag) = Some (filter (own_valid C c (hdr_digest h)) (va_votes ag), w)"
        "va_inv c (ag\<lparr>va_votes := filter (own_valid C c (hdr_digest h)) (va_votes ag), va_weight := w\<rparr>)"
      using retain_valid_inv [OF assms(1,3,4) x(2)] by blast
    have "aggregated_signature x = Some agg" using agg(2) by (simp add: aggregated_signature_def)
    then show ?thesis
      using r(1) Inr x k q agg(1) assms(4)
      by (auto simp: try_certificate_def votes_append_post_def aggregate_check_def split: option.split)
  qed
qed

text \<open>C26: Appending a vote never panics and keeps the aggregator's weight equal to the stake
  of the distinct voters whose votes it holds. A second vote of the same authority is refused
  and changes nothing. Otherwise the result depends on the held votes, the new one included. Below a
  quorum of stake nothing comes out. If a voter is not a member, or the signatures cannot be
  aggregated, the result is an error. If the aggregate verifies under the voters' keys, a
  certificate comes out: it is for the given header, carries the aggregate, and its signers are
  exactly the voters. If the aggregate does not verify, exactly the votes whose own signature is
  bad are dropped, and no certificate comes out at this call even if the others are a quorum.\<close>

theorem votes_append_correct:
  assumes "wf_committee c" "lawful_bitmap C" "keyed_committee c" "va_inv c ag"
  shows "\<exists>r ag'. votes_append C ag v c h = Some (r, ag')
    \<and> (if vote_author v \<in> va_used ag then r = Inl (AuthorityReuse (vote_author v)) \<and> ag' = ag
       else va_used ag' = insert (vote_author v) (va_used ag)
         \<and> votes_append_post C c h (va_votes ag @ [(vote_author v, vote_signature v)]) r ag')"
proof (cases "vote_author v \<in> va_used ag")
  case True
  then show ?thesis by (simp add: votes_append_def)
next
  case False
  note inv = va_inv_add [OF assms(1,4) False, of "vote_signature v"]
  let ?w = "u64_wrapping_add (va_weight ag) (stake_by_id c (vote_author v))"
  show ?thesis
  proof (cases "cm_quorum_threshold c \<le> ?w")
    case True
    from try_certificate_correct [OF assms(1-3) inv(2), of h] False True show ?thesis
      by (auto simp: votes_append_def Let_def)
  next
    case not_yet: False
    then show ?thesis using False inv by (auto simp: votes_append_def votes_append_post_def Let_def)
  qed
qed

definition example_vote :: "authority_identifier \<Rightarrow> vote" where
  "example_vote i = \<lparr>vote_header_digest = 301, vote_round = 3, vote_epoch = 1, vote_origin = 1,
     vote_author = i, vote_signature = 301\<rparr>"

lemma keyed_example: "keyed_committee example_committee"
  by (simp add: keyed_committee_def example_committee_eq load_identifiers_def example_builder_def
      add_authority_def committee_builder_new_def authority_new_def authority_initialise_def upt_rec)

theorem votes_append_correct_witness:
  "\<exists>x ag'. votes_append example_crypto
       \<lparr>va_weight = 2, va_votes = [(0, 301), (2, 301)], va_used = {0, 2}\<rparr>
       (example_vote 3) example_committee (header_new example_crypto 7 1 3 1 [] [] []) = Some (Inr (Some x), ag')
    \<and> signed_by x example_committee = Some (3, [10, 30, 40]) \<and> va_used ag' = {0, 2, 3}"
proof -
  let ?ag = "\<lparr>va_weight = 2, va_votes = [(0, 301), (2, 301)], va_used = {0, 2}\<rparr>"
    and ?h = "header_new example_crypto 7 1 3 1 [] [] []" and ?held = "[(0, 301), (2, 301), (3, 301)] :: vote_entry list"
  have "va_inv example_committee ?ag" by (simp add: va_inv_def stake_example)
  from votes_append_correct [OF example_committee_wf lawful_example_crypto keyed_example this, of "example_vote 3" ?h]
  obtain r ag' where run: "votes_append example_crypto ?ag (example_vote 3) example_committee ?h = Some (r, ag')"
    "va_used ag' = {0, 2, 3}" "votes_append_post example_crypto example_committee ?h ?held r ag'"
    by (auto simp: example_vote_def insert_commute)
  have keys: "voter_keys example_committee ?held = [10, 30, 40]"
    by (simp add: voter_keys_def authorities_example authority_initialise_def example_builder_def add_authority_def
        committee_builder_new_def authority_new_def)
  have sum: "sum (stake_by_id example_committee) (fst ` set ?held) = 3" by (simp add: stake_example)
  have "fst ` set ?held \<subseteq> committee_ids example_committee" unfolding ids_example by simp
  moreover have "aggregate_check example_crypto example_committee ?h ?held = Some True"
    unfolding aggregate_check_def keys by (simp add: example_crypto_def header_new_def Let_def)
  ultimately show ?thesis using run sum keys unfolding votes_append_post_def thresholds_example by (auto simp: Let_def)
qed

lemma ca_add_exact:
  assumes "wf_committee c" "ca_inv c ag" "i \<notin> ca_used ag"
  shows "u64_wrapping_add (ca_weight ag) (stake_by_id c i) = ca_weight ag + stake_by_id c i"
  using assms stakes_fit [OF assms(1), of "insert i (ca_used ag)"] by (simp add: ca_inv_def add.commute)

lemma ca_inv_append:
  assumes "wf_committee c" "ca_inv c ag" "certificates_append ag x c = (out, ag')"
  shows "ca_inv c ag'"
proof (cases "cert_origin x \<in> ca_used ag")
  case False
  then have "cert_origin x \<notin> cert_origin ` set (ca_certificates ag)"
    using assms(2) by (auto simp: ca_inv_def split: if_splits)
  with False assms ca_add_exact [OF assms(1,2) False] show ?thesis
    by (auto simp: certificates_append_def ca_inv_def Let_def split: if_splits) blast+
qed (use assms in \<open>simp add: certificates_append_def\<close>)

text \<open>Appending a certificate keeps the weight equal to the stake of the distinct authors
  seen. The certificates are handed out for the first time exactly when their authors reach a
  quorum, all of them at once and one per author; from then on every certificate of a new
  author is handed out on its own, and a second certificate of an author never counts.\<close>

theorem certificates_append_correct:
  assumes "wf_committee c" "ca_inv c ag" "certificates_append ag x c = (out, ag')"
  shows "ca_inv c ag'
    \<and> (cert_origin x \<in> ca_used ag \<longrightarrow> out = None \<and> ag' = ag)
    \<and> (cert_origin x \<notin> ca_used ag \<longrightarrow> ca_used ag' = insert (cert_origin x) (ca_used ag)
        \<and> (if cm_quorum_threshold c \<le> ca_weight ag then out = Some [x]
           else if cm_quorum_threshold c \<le> ca_weight ag'
           then \<exists>xs. out = Some xs \<and> distinct (map cert_origin xs)
             \<and> cm_quorum_threshold c \<le> sum (stake_by_id c) (cert_origin ` set xs)
           else out = None))"
proof (cases "cert_origin x \<in> ca_used ag")
  case True
  then show ?thesis using assms by (simp add: certificates_append_def)
next
  case False
  then have new: "cert_origin x \<notin> cert_origin ` set (ca_certificates ag)"
    using assms(2) by (auto simp: ca_inv_def split: if_splits)
  show ?thesis
    using False new assms ca_inv_append [OF assms] ca_add_exact [OF assms(1,2) False]
    by (auto simp: certificates_append_def ca_inv_def Let_def not_le split: if_splits)
qed

theorem certificates_append_correct_witness:
  "\<exists>xs ag'. certificates_append
      \<lparr>ca_weight = 2, ca_certificates = [example_certificate 3 0 [] [], example_certificate 3 1 [] []],
       ca_used = {0, 1}\<rparr> (example_certificate 3 3 [] []) example_committee = (Some xs, ag')
    \<and> distinct (map cert_origin xs)
    \<and> 3 \<le> sum (stake_by_id example_committee) (cert_origin ` set xs)"
proof -
  let ?ag = "\<lparr>ca_weight = 2, ca_certificates = [example_certificate 3 0 [] [], example_certificate 3 1 [] []],
       ca_used = {0, 1}\<rparr>"
  have o: "cert_origin (example_certificate r i p s) = i" for r i p s
    by (simp add: example_certificate_simps)
  have "ca_inv example_committee ?ag"
    unfolding ca_inv_def thresholds_example by (simp add: stake_example o)
  moreover obtain out ag' where run: "certificates_append ?ag (example_certificate 3 3 [] []) example_committee
      = (out, ag')" by (cases "certificates_append ?ag (example_certificate 3 3 [] []) example_committee")
  moreover have "ca_weight ag' = 3"
    using run unfolding certificates_append_def thresholds_example by (auto simp: stake_example o Let_def u64_size_def)
  ultimately show ?thesis
    using certificates_append_correct [OF example_committee_wf, of ?ag _ out ag']
    by (auto simp: o thresholds_example)
qed

end
