(* ===== verification/Sui_Committee.thy ===== *)
theory Sui_Committee
  imports Quorum_System "HOL-Library.Multiset"
begin

text \<open>
  The validator committee of an epoch, \<open>crates/sui-types/src/committee.rs\<close>, with the voting
  power fixed to 10000 and the binary search that looks up an authority's weight.

  \<open>binary_search_by_key\<close> is the standard library's loop. Expanding an authority's name to a
  public key and the weighted choice of the \<open>rand\<close> crate are parameters. The main facts: the
  constructor establishes \<open>wf_sui_committee\<close>, the binary search computes the lookup in the
  table, indices and names are inverse to each other, a shuffle is a permutation of the members
  it may use with the preferred ones first, and the committee is a \<open>quorum_system\<close>.
\<close>

section \<open>The model\<close>

type_synonym authority_name = nat
type_synonym voting_right = "authority_name \<times> nat"

datatype sui_error =
    InvalidCommittee authority_name nat
  | WrongEpoch nat nat
  | UnknownSigner "authority_name option" "nat option"
  | InvalidAuthenticator
  | InvalidAddress
  | InvalidSignature string
  | CertificateRequiresQuorum
  | StakeAggregatorRepeatedSigner authority_name bool

definition TOTAL_VOTING_POWER :: nat where "TOTAL_VOTING_POWER = 10000"

definition QUORUM_THRESHOLD :: nat where "QUORUM_THRESHOLD = 6667"

definition VALIDITY_THRESHOLD :: nat where "VALIDITY_THRESHOLD = 3334"

lemmas voting_power_defs = TOTAL_VOTING_POWER_def QUORUM_THRESHOLD_def VALIDITY_THRESHOLD_def

record sui_committee =
  sc_epoch :: nat
  voting_rights :: "voting_right list"
  expanded_keys :: "(authority_name \<times> nat) list"
  index_map :: "(authority_name \<times> nat) list"

text \<open>\<open>load_inner\<close> panics when a name is not the encoding of a key.\<close>

definition load_inner ::
    "(authority_name \<Rightarrow> nat option) \<Rightarrow> voting_right list
      \<Rightarrow> ((authority_name \<times> nat) list \<times> (authority_name \<times> nat) list) option" where
  "load_inner key_of rights = do {
     keys \<leftarrow> those (map (\<lambda>(addr, _). do { k \<leftarrow> key_of addr; Some (addr, k) }) rights);
     Some (hash_collect keys, hash_collect (map (\<lambda>(index, (addr, _)). (addr, index)) (enumerate 0 rights)))
   }"

definition sui_committee_new ::
    "(authority_name \<Rightarrow> nat option) \<Rightarrow> nat \<Rightarrow> voting_right list \<Rightarrow> sui_committee option" where
  "sui_committee_new key_of epoch rights = do {
     rust_assert (rights \<noteq> []);
     rust_assert (list_ex (\<lambda>(_, s). s \<noteq> 0) rights);
     let rights = sort_by (\<lambda>a b. fst a \<le> fst b) rights;
     rust_assert (u64_wrapping_sum (map snd rights) = TOTAL_VOTING_POWER);
     (keys, index) \<leftarrow> load_inner key_of rights;
     Some \<lparr>sc_epoch = epoch, voting_rights = rights, expanded_keys = keys, index_map = index\<rparr>
   }"

definition authority_index :: "sui_committee \<Rightarrow> authority_name \<Rightarrow> nat option" where
  "authority_index c author = map_option (\<lambda>i. i mod 2 ^ 32) (map_of (index_map c) author)"

definition authority_by_index :: "sui_committee \<Rightarrow> nat \<Rightarrow> authority_name option" where
  "authority_by_index c i = (if i < length (voting_rights c) then Some (fst (voting_rights c ! i)) else None)"

definition sc_public_key :: "sui_committee \<Rightarrow> authority_name \<Rightarrow> (sui_error, nat) result" where
  "sc_public_key c authority =
     (case map_of (expanded_keys c) authority of
        Some v \<Rightarrow> Inr v
      | None \<Rightarrow> Inl (InvalidCommittee authority (length (expanded_keys c))))"

text \<open>The random generator's state is threaded; \<open>pick\<close> is the \<open>rand\<close> crate's
  \<open>choose_multiple_weighted\<close>, which may refuse its weights.\<close>

type_synonym 'r weighted_choice = "voting_right list \<Rightarrow> nat \<Rightarrow> 'r \<Rightarrow> (voting_right list \<times> 'r) option"

definition choose_multiple_weighted ::
    "'r weighted_choice \<Rightarrow> voting_right list \<Rightarrow> nat \<Rightarrow> 'r \<Rightarrow> (authority_name list \<times> 'r) option" where
  "choose_multiple_weighted pick slice amount rng = do {
     (chosen, rng) \<leftarrow> pick slice amount rng;
     Some (map fst chosen, rng)
   }"

definition sample :: "'r weighted_choice \<Rightarrow> sui_committee \<Rightarrow> 'r \<Rightarrow> (authority_name \<times> 'r) option" where
  "sample pick c rng = do {
     (chosen, rng) \<leftarrow> choose_multiple_weighted pick (voting_rights c) 1 rng;
     case chosen of [] \<Rightarrow> None | a # _ \<Rightarrow> Some (a, rng)
   }"

definition shuffle_by_stake_with_rng ::
    "'r weighted_choice \<Rightarrow> sui_committee \<Rightarrow> authority_name list option \<Rightarrow> authority_name list option
      \<Rightarrow> 'r \<Rightarrow> (authority_name list \<times> 'r) option" where
  "shuffle_by_stake_with_rng pick c preferences restrict_to rng =
     (let restricted = filter (\<lambda>(name, _). case restrict_to of Some rs \<Rightarrow> name \<in> set rs | None \<Rightarrow> True)
            (voting_rights c);
          (preferred, rest) = (case preferences of
              Some ps \<Rightarrow> partition (\<lambda>(name, _). name \<in> set ps) restricted
            | None \<Rightarrow> ([], restricted))
      in do {
        (xs, rng) \<leftarrow> choose_multiple_weighted pick preferred (length preferred) rng;
        (ys, rng) \<leftarrow> choose_multiple_weighted pick rest (length rest) rng;
        Some (xs @ ys, rng)
      })"

text \<open>\<open>slice::binary_search_by_key\<close>: \<open>Inr\<close> the index found, or \<open>Inl\<close> the place to insert.\<close>

function binary_search_loop :: "('k::linorder \<times> 'v) list \<Rightarrow> 'k \<Rightarrow> nat \<Rightarrow> nat \<Rightarrow> (nat, nat) result" where
  "binary_search_loop xs k left right =
     (if left < right then
        let mid = left + (right - left) div 2 in
        if fst (xs ! mid) < k then binary_search_loop xs k (mid + 1) right
        else if k < fst (xs ! mid) then binary_search_loop xs k left mid
        else Inr mid
      else Inl left)"
  by auto

termination by (relation "measure (\<lambda>(xs, k, left, right). right - left)") auto

definition binary_search_by_key :: "('k::linorder \<times> 'v) list \<Rightarrow> 'k \<Rightarrow> (nat, nat) result" where
  "binary_search_by_key xs k = binary_search_loop xs k 0 (length xs)"

definition weight :: "sui_committee \<Rightarrow> authority_name \<Rightarrow> nat" where
  "weight c author =
     (case binary_search_by_key (voting_rights c) author of
        Inl _ \<Rightarrow> 0
      | Inr idx \<Rightarrow> snd (voting_rights c ! idx))"

definition sc_quorum_threshold :: "sui_committee \<Rightarrow> nat" where
  "sc_quorum_threshold c = QUORUM_THRESHOLD"

definition sc_validity_threshold :: "sui_committee \<Rightarrow> nat" where
  "sc_validity_threshold c = VALIDITY_THRESHOLD"

definition threshold :: "bool \<Rightarrow> sui_committee \<Rightarrow> nat" where
  "threshold STRENGTH c = (if STRENGTH then QUORUM_THRESHOLD else VALIDITY_THRESHOLD)"

definition num_members :: "sui_committee \<Rightarrow> nat" where
  "num_members c = length (voting_rights c)"

definition authority_names :: "sui_committee \<Rightarrow> authority_name list" where
  "authority_names c = map fst (voting_rights c)"

definition stakes :: "sui_committee \<Rightarrow> nat list" where
  "stakes c = map snd (voting_rights c)"

definition authority_exists :: "sui_committee \<Rightarrow> authority_name \<Rightarrow> bool" where
  "authority_exists c name = (case binary_search_by_key (voting_rights c) name of Inl _ \<Rightarrow> False | Inr _ \<Rightarrow> True)"

definition sui_committee_eq :: "sui_committee \<Rightarrow> sui_committee \<Rightarrow> bool" where
  "sui_committee_eq c d \<longleftrightarrow> sc_epoch c = sc_epoch d \<and> voting_rights c = voting_rights d"

section \<open>Binary search\<close>

declare binary_search_loop.simps [simp del]

lemma sorted_keys_nth_less_iff:
  "bt_wf xs \<Longrightarrow> i < length xs \<Longrightarrow> j < length xs \<Longrightarrow> fst (xs ! i) < fst (xs ! j) \<longleftrightarrow> i < j"
  using sorted_wrt_nth_less [of "(<)" "map fst xs"] by (metis length_map linorder_neqE_nat not_less_iff_gr_or_eq nth_map)

text \<open>What the documentation of the search promises on a slice sorted by key.\<close>

definition search_result :: "('k::linorder \<times> 'v) list \<Rightarrow> 'k \<Rightarrow> (nat, nat) result \<Rightarrow> bool" where
  "search_result xs k res \<longleftrightarrow>
     (case res of
        Inr i \<Rightarrow> i < length xs \<and> fst (xs ! i) = k
      | Inl i \<Rightarrow> i \<le> length xs \<and> (\<forall>j < i. fst (xs ! j) < k)
          \<and> (\<forall>j. i \<le> j \<and> j < length xs \<longrightarrow> k < fst (xs ! j)))"

lemma binary_search_loop_spec:
  assumes "bt_wf xs" "right \<le> length xs" "left \<le> right"
    and "\<forall>i < left. fst (xs ! i) < k" "\<forall>i. right \<le> i \<and> i < length xs \<longrightarrow> k < fst (xs ! i)"
  shows "search_result xs k (binary_search_loop xs k left right)"
  using assms
proof (induction xs k left right rule: binary_search_loop.induct)
  case (1 xs k left right)
  show ?case
  proof (cases "left < right")
    case True
    define mid where "mid = left + (right - left) div 2"
    have mid: "mid < right" "left \<le> mid" using True by (auto simp: mid_def)
    have step: "binary_search_loop xs k left right =
        (if fst (xs ! mid) < k then binary_search_loop xs k (mid + 1) right
         else if k < fst (xs ! mid) then binary_search_loop xs k left mid else Inr mid)"
      using True by (subst binary_search_loop.simps) (simp add: mid_def Let_def)
    consider (below) "fst (xs ! mid) < k" | (above) "k < fst (xs ! mid)" | (found) "fst (xs ! mid) = k"
      by force
    then show ?thesis
    proof cases
      case below
      have "\<forall>i < mid + 1. fst (xs ! i) < k"
        using below sorted_keys_nth_less_iff [OF 1(3), of _ mid] mid 1(4) by (metis add.commute less_Suc_eq less_le_trans less_trans plus_1_eq_Suc)
      then have "search_result xs k (binary_search_loop xs k (mid + 1) right)"
        using 1(1) [OF True mid_def] below 1(3,4,7) mid by auto
      then show ?thesis
        using below by (simp add: step)
    next
      case above
      have "\<forall>i. mid \<le> i \<and> i < length xs \<longrightarrow> k < fst (xs ! i)"
        using above sorted_keys_nth_less_iff [OF 1(3), of mid] mid 1(4) by (metis le_neq_implies_less less_le_trans less_trans)
      then have "search_result xs k (binary_search_loop xs k left mid)"
        using 1(2) [OF True mid_def] above 1(3,4,6) mid by auto
      then show ?thesis
        using above by (auto simp: step)
    next
      case found
      then show ?thesis
        using mid 1(4) by (simp add: step search_result_def)
    qed
  next
    case False
    then show ?thesis using 1(4-7) by (subst binary_search_loop.simps) (simp add: search_result_def)
  qed
qed


lemma binary_search_spec: "bt_wf xs \<Longrightarrow> search_result xs k (binary_search_by_key xs k)"
  unfolding binary_search_by_key_def by (rule binary_search_loop_spec) auto

lemma binary_search_lookup:
  assumes "bt_wf xs"
  shows "map_of xs k = (case binary_search_by_key xs k of Inl _ \<Rightarrow> None | Inr i \<Rightarrow> Some (snd (xs ! i)))"
proof (cases "binary_search_by_key xs k")
  case (Inl i)
  then have "fst (xs ! j) \<noteq> k" if "j < length xs" for j
    using binary_search_spec [OF assms, of k] that by (auto simp: search_result_def not_less) (metis not_le order.irrefl)
  then have "map_of xs k = None" by (auto simp: map_of_eq_None_iff in_set_conv_nth) (metis fst_conv)
  then show ?thesis by (simp add: Inl)
next
  case (Inr i)
  then have i: "i < length xs" "fst (xs ! i) = k"
    using binary_search_spec [OF assms, of k] by (auto simp: search_result_def)
  then have "(k, snd (xs ! i)) \<in> set xs" by (metis nth_mem prod.collapse)
  then show ?thesis using Inr bt_wf_distinct [OF assms] by simp
qed

section \<open>Well-formed committees\<close>

definition wf_sui_committee :: "sui_committee \<Rightarrow> bool" where
  "wf_sui_committee c \<longleftrightarrow>
     bt_wf (voting_rights c) \<and> sum_list (map snd (voting_rights c)) = TOTAL_VOTING_POWER
     \<and> length (voting_rights c) \<le> 2 ^ 32
     \<and> map fst (expanded_keys c) = map fst (voting_rights c)
     \<and> index_map c = zip (map fst (voting_rights c)) [0..<length (voting_rights c)]"

lemma weight_lookup: "bt_wf (voting_rights c) \<Longrightarrow> weight c a = (case map_of (voting_rights c) a of None \<Rightarrow> 0 | Some s \<Rightarrow> s)"
  by (simp add: weight_def binary_search_lookup split: sum.split)

lemma authority_exists_iff:
  "bt_wf (voting_rights c) \<Longrightarrow> authority_exists c a \<longleftrightarrow> a \<in> set (authority_names c)"
  by (simp add: authority_exists_def authority_names_def flip: dom_map_of_conv_image_fst)
    (auto simp: binary_search_lookup dom_def split: sum.splits)

lemma sum_weight_members:
  assumes "bt_wf (voting_rights c)"
  shows "sum (weight c) (set (authority_names c)) = sum_list (stakes c)"
proof -
  have d: "distinct (authority_names c)" using bt_wf_distinct [OF assms] by (simp add: authority_names_def)
  have "map (weight c) (authority_names c) = stakes c"
    using bt_wf_distinct [OF assms] by (auto simp: authority_names_def stakes_def weight_lookup [OF assms])
  then show ?thesis using d by (simp add: sum_list_distinct_conv_sum_set [symmetric])
qed

interpretation sui_quorum:
  quorum_system "\<lambda>c. set (authority_names c)" weight sc_quorum_threshold sc_validity_threshold wf_sui_committee
proof unfold_locales
  fix c a assume wf: "wf_sui_committee c"
  then have bt: "bt_wf (voting_rights c)" by (simp add: wf_sui_committee_def)
  show "finite (set (authority_names c))" by simp
  show "weight c a = 0" if "a \<notin> set (authority_names c)"
    using that by (simp add: weight_lookup [OF bt] authority_names_def map_of_eq_None_iff [THEN iffD2])
  have total: "sum (weight c) (set (authority_names c)) = 10000"
    using wf sum_weight_members [OF bt] by (simp add: wf_sui_committee_def stakes_def voting_power_defs)
  show "sum (weight c) (set (authority_names c)) < sc_quorum_threshold c + sc_validity_threshold c"
    "sum (weight c) (set (authority_names c)) + sc_validity_threshold c \<le> 2 * sc_quorum_threshold c"
    "sc_quorum_threshold c \<le> sum (weight c) (set (authority_names c))" "0 < sc_validity_threshold c"
    by (simp_all add: total sc_quorum_threshold_def sc_validity_threshold_def voting_power_defs)
qed

lemma those_map_bind_Some:
  "those (map (\<lambda>(a, s). do { k \<leftarrow> f a; Some (a, k) }) xs) = Some ys \<Longrightarrow> map fst ys = map fst xs"
proof (induction xs arbitrary: ys)
  case (Cons x xs)
  then show ?case by (cases x) (auto split: option.splits Option.bind_splits)
qed simp

lemma those_map_bind_None:
  "those (map (\<lambda>(a, s). do { k \<leftarrow> f a; Some (a, k) }) xs) = None \<longleftrightarrow> (\<exists>a \<in> set (map fst xs). f a = None)"
  by (induction xs) (auto split: option.splits Option.bind_splits)

lemma those_map_bind_lookup:
  "those (map (\<lambda>(a, s). do { k \<leftarrow> f a; Some (a, k) }) xs) = Some ys \<Longrightarrow>
   map_of ys a = (if a \<in> set (map fst xs) then f a else None)"
proof (induction xs arbitrary: ys)
  case (Cons x xs)
  then show ?case by (cases x) (auto split: option.splits Option.bind_splits; force)
qed simp

lemma load_inner_spec:
  assumes "bt_wf rights"
  shows "load_inner key_of rights = None \<longleftrightarrow> (\<exists>a \<in> set (map fst rights). key_of a = None)"
    and "load_inner key_of rights = Some (keys, index) \<Longrightarrow>
      map fst keys = map fst rights \<and> index = zip (map fst rights) [0..<length rights]"
    and "load_inner key_of rights = Some (keys, index) \<Longrightarrow>
      map_of keys a = (if a \<in> set (map fst rights) then key_of a else None)"
proof -
  have d: "distinct (map fst rights)" using assms by (rule bt_wf_distinct)
  have index: "map (\<lambda>(index, (addr, _)). (addr, index)) (enumerate 0 rights) = zip (map fst rights) [0..<length rights]"
    by (rule nth_equalityI) (auto simp: nth_enumerate_eq split_beta)
  show "load_inner key_of rights = None \<longleftrightarrow> (\<exists>a \<in> set (map fst rights). key_of a = None)"
    unfolding load_inner_def those_map_bind_None [symmetric] by (auto split: Option.bind_splits)
  show "map fst keys = map fst rights \<and> index = zip (map fst rights) [0..<length rights]"
    if "load_inner key_of rights = Some (keys, index)"
    using that d unfolding load_inner_def index
    by (auto split: Option.bind_splits dest!: those_map_bind_Some simp: map_fst_zip)
  show "map_of keys a = (if a \<in> set (map fst rights) then key_of a else None)"
    if l: "load_inner key_of rights = Some (keys, index)"
  proof -
    obtain ys where ys: "those (map (\<lambda>(a, s). do { k \<leftarrow> key_of a; Some (a, k) }) rights) = Some ys" "keys = hash_collect ys"
      using l unfolding load_inner_def by (auto simp: bind_eq_Some_conv)
    have "distinct (map fst ys)" unfolding those_map_bind_Some [OF ys(1)] by (rule d)
    then show ?thesis unfolding ys(2) by (simp only: hash_collect_distinct those_map_bind_lookup [OF ys(1)])
  qed
qed

lemma sorted_sort_rights: "bt_wf rights \<Longrightarrow> sort_by (\<lambda>a b. fst a \<le> fst b) rights = (rights :: voting_right list)"
proof (induction rights)
  case (Cons x xs)
  then show ?case by (cases xs) (auto simp: sort_by_def)
qed (simp add: sort_by_def)

lemma sui_committee_new_spec:
  assumes "bt_wf rights" "sum_list (map snd rights) < u64_size" "length rights \<le> 2 ^ 32"
  shows "sui_committee_new key_of epoch rights = None \<longleftrightarrow>
      sum_list (map snd rights) \<noteq> TOTAL_VOTING_POWER \<or> (\<exists>a \<in> set (map fst rights). key_of a = None)"
    and "sui_committee_new key_of epoch rights = Some c \<Longrightarrow>
      wf_sui_committee c \<and> voting_rights c = rights \<and> sc_epoch c = epoch
      \<and> (\<forall>a. map_of (expanded_keys c) a = (if a \<in> set (map fst rights) then key_of a else None))"
proof -
  have ne: "rights \<noteq> [] \<and> list_ex (\<lambda>(_, s). s \<noteq> 0) rights" if "sum_list (map snd rights) = TOTAL_VOTING_POWER"
  proof -
    have "sum_list (map snd rights) \<noteq> 0" using that by (simp add: voting_power_defs)
    then show ?thesis by (auto simp: list_ex_iff split_beta)
  qed
  have new: "sui_committee_new key_of epoch rights =
      (if sum_list (map snd rights) = TOTAL_VOTING_POWER then do {
         (keys, index) \<leftarrow> load_inner key_of rights;
         Some \<lparr>sc_epoch = epoch, voting_rights = rights, expanded_keys = keys, index_map = index\<rparr>
       } else None)"
    using ne assms(2) by (simp add: sui_committee_new_def sorted_sort_rights [OF assms(1)] Let_def)
  show "sui_committee_new key_of epoch rights = None \<longleftrightarrow>
      sum_list (map snd rights) \<noteq> TOTAL_VOTING_POWER \<or> (\<exists>a \<in> set (map fst rights). key_of a = None)"
    unfolding new load_inner_spec(1) [OF assms(1), symmetric] by (auto split: Option.bind_splits)
  show "wf_sui_committee c \<and> voting_rights c = rights \<and> sc_epoch c = epoch
      \<and> (\<forall>a. map_of (expanded_keys c) a = (if a \<in> set (map fst rights) then key_of a else None))"
    if some: "sui_committee_new key_of epoch rights = Some c"
  proof -
    obtain keys index where l: "load_inner key_of rights = Some (keys, index)"
      "c = \<lparr>sc_epoch = epoch, voting_rights = rights, expanded_keys = keys, index_map = index\<rparr>"
      "sum_list (map snd rights) = TOTAL_VOTING_POWER"
      using some unfolding new by (auto split: Option.bind_splits if_splits)
    show ?thesis using assms load_inner_spec(2,3) [OF assms(1) l(1)] l(3) by (simp add: l(2) wf_sui_committee_def)
  qed
qed

lemma wf_sui_committeeD:
  assumes "wf_sui_committee c"
  shows "bt_wf (voting_rights c)" "sum_list (map snd (voting_rights c)) = TOTAL_VOTING_POWER"
    "length (voting_rights c) \<le> 2 ^ 32" "map fst (expanded_keys c) = map fst (voting_rights c)"
    "index_map c = zip (map fst (voting_rights c)) [0..<length (voting_rights c)]"
  using assms by (simp_all add: wf_sui_committee_def)

lemma authority_index_iff:
  assumes "wf_sui_committee c"
  shows "authority_index c a = Some i \<longleftrightarrow> authority_by_index c i = Some a"
proof -
  note wf = wf_sui_committeeD [OF assms]
  have d: "distinct (map fst (index_map c))" using bt_wf_distinct [OF wf(1)] by (simp add: wf(5))
  have lookup: "map_of (index_map c) a = Some i \<longleftrightarrow> authority_by_index c i = Some a" for i
    using d by (auto simp: map_of_eq_Some_iff wf(5) in_set_zip authority_by_index_def intro!: exI [of _ i])
  have small: "i mod 2 ^ 32 = i" if "map_of (index_map c) a = Some i" for i
    using that wf(3) unfolding lookup by (auto simp: authority_by_index_def split: if_splits)
  show ?thesis
    using small by (cases "map_of (index_map c) a") (auto simp: authority_index_def simp flip: lookup)
qed

lemma authority_index_None:
  assumes "wf_sui_committee c"
  shows "authority_index c a = None \<longleftrightarrow> a \<notin> set (authority_names c)"
  using bt_wf_distinct [OF wf_sui_committeeD(1) [OF assms]]
  by (simp add: authority_index_def authority_names_def wf_sui_committeeD(5) [OF assms] map_of_eq_None_iff)
    (metis (no_types) list.set_map map_fst_zip length_map length_upt minus_nat.diff_0)

lemma sc_public_key_iff:
  assumes "wf_sui_committee c"
  shows "(\<exists>k. sc_public_key c a = Inr k) \<longleftrightarrow> a \<in> set (authority_names c)"
proof -
  have "map_of (expanded_keys c) a = None \<longleftrightarrow> a \<notin> set (authority_names c)"
    unfolding map_of_eq_None_iff authority_names_def wf_sui_committeeD(4) [OF assms, symmetric] by simp
  then show ?thesis by (auto simp: sc_public_key_def split: option.splits)
qed

lemma weight_le_total_power:
  assumes "wf_sui_committee c" "finite A"
  shows "sum (weight c) A \<le> TOTAL_VOTING_POWER"
  using sui_quorum.sum_stake_le_total [OF assms] sum_weight_members [OF wf_sui_committeeD(1) [OF assms(1)]]
    wf_sui_committeeD(2) [OF assms(1)] by (simp add: stakes_def)

section \<open>Shuffling\<close>

text \<open>Documented behaviour of \<open>choose_multiple_weighted\<close> with non-negative finite weights: asked for
  as many elements as the slice has, it returns all of them in some order.\<close>

definition fair_choice :: "'r weighted_choice \<Rightarrow> bool" where
  "fair_choice pick \<longleftrightarrow> (\<forall>slice rng. \<exists>xs rng'. pick slice (length slice) rng = Some (xs, rng') \<and> mset xs = mset slice)"

lemma choose_all:
  assumes "fair_choice pick"
  obtains xs rng' where "choose_multiple_weighted pick slice (length slice) rng = Some (xs, rng')"
    "mset xs = mset (map fst slice)"
proof -
  obtain xs rng' where "pick slice (length slice) rng = Some (xs, rng')" "mset xs = mset slice"
    using assms unfolding fair_choice_def by blast
  then show ?thesis using that [of "map fst xs" rng'] by (simp add: choose_multiple_weighted_def)
qed

lemma mset_names_filter:
  "mset (map fst (filter (\<lambda>(name, _). P name) xs)) = mset (filter P (map fst xs))"
  by (simp add: filter_map comp_def split_beta)

definition usable :: "authority_name list option \<Rightarrow> authority_name \<Rightarrow> bool" where
  "usable restrict_to a \<longleftrightarrow> (case restrict_to of Some rs \<Rightarrow> a \<in> set rs | None \<Rightarrow> True)"

definition preferred_by :: "authority_name list option \<Rightarrow> authority_name \<Rightarrow> bool" where
  "preferred_by preferences a \<longleftrightarrow> (case preferences of Some ps \<Rightarrow> a \<in> set ps | None \<Rightarrow> False)"

lemma shuffle_by_stake_spec:
  assumes "fair_choice pick"
  shows "\<exists>xs ys rng'. shuffle_by_stake_with_rng pick c preferences restrict_to rng = Some (xs @ ys, rng')
    \<and> mset xs = mset (filter (\<lambda>a. usable restrict_to a \<and> preferred_by preferences a) (authority_names c))
    \<and> mset ys = mset (filter (\<lambda>a. usable restrict_to a \<and> \<not> preferred_by preferences a) (authority_names c))"
proof -
  define members where "members = filter (\<lambda>(name, _). usable restrict_to name) (voting_rights c)"
  define xs where "xs = filter (\<lambda>(name, _). preferred_by preferences name) members"
  define ys where "ys = filter (\<lambda>(name, _). \<not> preferred_by preferences name) members"
  obtain xs' rng1 where 1: "choose_multiple_weighted pick xs (length xs) rng = Some (xs', rng1)"
    "mset xs' = mset (map fst xs)" by (rule choose_all [OF assms])
  obtain ys' rng2 where 2: "choose_multiple_weighted pick ys (length ys) rng1 = Some (ys', rng2)"
    "mset ys' = mset (map fst ys)" by (rule choose_all [OF assms])
  have members: "filter (\<lambda>(name, _). case restrict_to of Some rs \<Rightarrow> name \<in> set rs | None \<Rightarrow> True) (voting_rights c) = members"
    by (simp add: members_def usable_def [abs_def])
  have "(case preferences of Some ps \<Rightarrow> partition (\<lambda>(name, _). name \<in> set ps) members | None \<Rightarrow> ([], members)) = (xs, ys)"
    by (cases preferences) (simp_all add: xs_def ys_def preferred_by_def comp_def split_beta case_prod_unfold)
  then have "shuffle_by_stake_with_rng pick c preferences restrict_to rng = Some (xs' @ ys', rng2)"
    by (simp add: shuffle_by_stake_with_rng_def Let_def members 1(1) 2(1))
  moreover have "mset (map fst xs) = mset (filter (\<lambda>a. usable restrict_to a \<and> preferred_by preferences a) (authority_names c))"
    "mset (map fst ys) = mset (filter (\<lambda>a. usable restrict_to a \<and> \<not> preferred_by preferences a) (authority_names c))"
    unfolding xs_def ys_def members_def authority_names_def filter_filter
    by (simp_all add: filter_map comp_def split_beta conj_commute)
  ultimately show ?thesis using 1(2) 2(2) by metis
qed

section \<open>Properties\<close>

text \<open>C31: \<open>Committee::new\<close>, for voting rights in the order of their names whose sum fits 64 bits, panics
  exactly when the voting power does not add up to 10000 or a name is not a key. Otherwise the
  committee is well-formed, has the given epoch and voting rights, and its lookups agree with
  them: the binary search of \<open>weight\<close> finds each authority's power, exactly the members exist,
  the public key of a member is the key its name decodes to and other names have none, and
  \<open>authority_index\<close> and \<open>authority_by_index\<close> are inverse to each other.\<close>

theorem sui_committee_new_correct:
  assumes "bt_wf rights" "sum_list (map snd rights) < u64_size" "length rights \<le> 2 ^ 32"
  shows "(sui_committee_new key_of epoch rights = None \<longleftrightarrow>
      sum_list (map snd rights) \<noteq> TOTAL_VOTING_POWER \<or> (\<exists>a \<in> set (map fst rights). key_of a = None))
    \<and> (\<forall>c. sui_committee_new key_of epoch rights = Some c \<longrightarrow>
        wf_sui_committee c \<and> sc_epoch c = epoch \<and> voting_rights c = rights
        \<and> (\<forall>a. weight c a = (case map_of rights a of None \<Rightarrow> 0 | Some s \<Rightarrow> s)
            \<and> authority_exists c a = (a \<in> set (map fst rights))
            \<and> (\<forall>k. sc_public_key c a = Inr k \<longleftrightarrow> a \<in> set (map fst rights) \<and> key_of a = Some k)
            \<and> (\<forall>i. authority_index c a = Some i \<longleftrightarrow> authority_by_index c i = Some a)))"
proof (intro conjI allI impI)
  show "sui_committee_new key_of epoch rights = None \<longleftrightarrow>
      sum_list (map snd rights) \<noteq> TOTAL_VOTING_POWER \<or> (\<exists>a \<in> set (map fst rights). key_of a = None)"
    by (rule sui_committee_new_spec(1) [OF assms])
  fix c a
  assume "sui_committee_new key_of epoch rights = Some c"
  note c = sui_committee_new_spec(2) [OF assms this]
  then show wf: "wf_sui_committee c" and "sc_epoch c = epoch" and rights: "voting_rights c = rights" by simp_all
  show "weight c a = (case map_of rights a of None \<Rightarrow> 0 | Some s \<Rightarrow> s)" "authority_exists c a = (a \<in> set (map fst rights))"
    "authority_index c a = Some i \<longleftrightarrow> authority_by_index c i = Some a" for i
    using assms(1) by (simp_all add: weight_lookup authority_exists_iff authority_index_iff [OF wf] rights authority_names_def)
  show "sc_public_key c a = Inr k \<longleftrightarrow> a \<in> set (map fst rights) \<and> key_of a = Some k" for k
    using c by (auto simp: sc_public_key_def split: option.splits)
qed

definition example_rights :: "voting_right list" where
  "example_rights = [(1, 2500), (2, 2500), (3, 2500), (4, 2500)]"

theorem sui_committee_new_correct_witness:
  "bt_wf example_rights \<and> (\<exists>c. sui_committee_new (\<lambda>a. Some (100 + a)) 7 example_rights = Some c
     \<and> wf_sui_committee c \<and> weight c 3 = 2500 \<and> weight c 9 = 0 \<and> sc_public_key c 3 = Inr 103)"
proof -
  have *: "bt_wf example_rights" "sum_list (map snd example_rights) = 10000"
    "sum_list (map snd example_rights) < u64_size" "length example_rights \<le> 2 ^ 32"
    by (simp_all add: example_rights_def u64_size_def)
  note new = sui_committee_new_correct [OF *(1,3,4), of "\<lambda>a. Some (100 + a)" 7]
  obtain c where c: "sui_committee_new (\<lambda>a. Some (100 + a)) 7 example_rights = Some c"
    using new *(2) by (cases "sui_committee_new (\<lambda>a. Some (100 + a)) 7 example_rights") (auto simp: voting_power_defs)
  with new have "wf_sui_committee c \<and> weight c 3 = 2500 \<and> weight c 9 = 0 \<and> sc_public_key c 3 = Inr 103"
    by (simp add: example_rights_def)
  then show ?thesis using c *(1) by blast
qed

text \<open>\<open>shuffle_by_stake\<close> returns each usable member exactly once: first all usable members among the
  preferences, then all others. It never panics when the weighted choice returns the whole slice
  it is asked for.\<close>

theorem shuffle_by_stake_correct:
  assumes "wf_sui_committee c" "fair_choice pick"
  shows "\<exists>xs ys rng'. shuffle_by_stake_with_rng pick c preferences restrict_to rng = Some (xs @ ys, rng')
    \<and> distinct (xs @ ys)
    \<and> set xs = {a. authority_exists c a \<and> usable restrict_to a \<and> preferred_by preferences a}
    \<and> set ys = {a. authority_exists c a \<and> usable restrict_to a \<and> \<not> preferred_by preferences a}"
proof -
  obtain xs ys rng' where *: "shuffle_by_stake_with_rng pick c preferences restrict_to rng = Some (xs @ ys, rng')"
    "mset xs = mset (filter (\<lambda>a. usable restrict_to a \<and> preferred_by preferences a) (authority_names c))"
    "mset ys = mset (filter (\<lambda>a. usable restrict_to a \<and> \<not> preferred_by preferences a) (authority_names c))"
    using shuffle_by_stake_spec [OF assms(2)] by blast
  have d: "distinct (authority_names c)"
    using bt_wf_distinct [OF wf_sui_committeeD(1) [OF assms(1)]] by (simp add: authority_names_def)
  have "distinct xs" "distinct ys" using d by (simp_all add: mset_eq_imp_distinct_iff [OF *(2)] mset_eq_imp_distinct_iff [OF *(3)])
  moreover have "set xs = {a. authority_exists c a \<and> usable restrict_to a \<and> preferred_by preferences a}"
    "set ys = {a. authority_exists c a \<and> usable restrict_to a \<and> \<not> preferred_by preferences a}"
    using mset_eq_setD [OF *(2)] mset_eq_setD [OF *(3)]
    by (auto simp: authority_exists_iff [OF wf_sui_committeeD(1) [OF assms(1)]])
  ultimately show ?thesis using *(1) by (intro exI [of _ xs] exI [of _ ys] exI [of _ rng']) auto
qed

definition example_sui_committee :: sui_committee where
  "example_sui_committee = \<lparr>sc_epoch = 7, voting_rights = example_rights,
     expanded_keys = map (\<lambda>(a, _). (a, 100 + a)) example_rights, index_map = [(1, 0), (2, 1), (3, 2), (4, 3)]\<rparr>"

lemma example_sui_committee_wf [simp]: "wf_sui_committee example_sui_committee"
  by (simp add: wf_sui_committee_def example_sui_committee_def example_rights_def voting_power_defs upt_rec)

theorem shuffle_by_stake_correct_witness:
  "\<exists>xs ys rng'. shuffle_by_stake_with_rng (\<lambda>slice n r. Some (rev (take n slice), r)) example_sui_committee (Some [2, 3, 9]) (Some [1, 2, 3]) (0 :: nat)
      = Some (xs @ ys, rng') \<and> distinct (xs @ ys) \<and> 2 \<in> set xs \<and> 1 \<in> set ys"
proof -
  have "fair_choice (\<lambda>slice n (r :: nat). Some (rev (take n slice), r))" by (simp add: fair_choice_def)
  from shuffle_by_stake_correct [OF example_sui_committee_wf this, of "Some [2, 3, 9]" "Some [1, 2, 3]" 0]
  obtain xs ys rng' where *: "shuffle_by_stake_with_rng (\<lambda>slice n (r :: nat). Some (rev (take n slice), r))
      example_sui_committee (Some [2, 3, 9]) (Some [1, 2, 3]) 0 = Some (xs @ ys, rng')" "distinct (xs @ ys)"
    and xs: "set xs = {a. authority_exists example_sui_committee a \<and> usable (Some [1, 2, 3]) a \<and> preferred_by (Some [2, 3, 9]) a}"
    and ys: "set ys = {a. authority_exists example_sui_committee a \<and> usable (Some [1, 2, 3]) a \<and> \<not> preferred_by (Some [2, 3, 9]) a}"
    by blast
  have "authority_exists example_sui_committee 1" "authority_exists example_sui_committee 2"
    unfolding authority_exists_iff [OF wf_sui_committeeD(1) [OF example_sui_committee_wf]]
    by (simp_all add: authority_names_def example_sui_committee_def example_rights_def)
  then have "2 \<in> set xs" "1 \<in> set ys" unfolding xs ys by (simp_all add: usable_def preferred_by_def)
  then show ?thesis using * by (intro exI conjI)
qed

end
