(* ===== verification/Sui_Sign_Info.thy ===== *)
theory Sui_Sign_Info
  imports Sui_Committee
begin

text \<open>
  Authority signatures and quorum certificates, \<open>AuthoritySignInfo\<close>,
  \<open>AuthorityQuorumSignInfo\<close> and \<open>VerificationObligation\<close> of
  \<open>crates/sui-types/src/crypto.rs\<close>.

  The BLS signatures of \<open>fastcrypto\<close> and the \<open>bcs\<close> encoding are the fields of a record
  \<open>bls\<close> of functions, the type \<open>'g\<close> is that of aggregate signatures and \<open>'d\<close> that of the signed
  data. A roaring bitmap is a strictly sorted list of indices. The outer option of the
  verification functions is the panic of a failed serialisation.

  Shown: a certificate that verifies has the committee's epoch, known signers with a quorum of
  stake and a verified aggregate over exactly their keys, so that two of them share an honest
  signer; a certificate built from the signatures of distinct members has exactly these signers.
\<close>

section \<open>The model\<close>

record intent =
  intent_scope :: nat
  intent_version :: nat
  intent_app_id :: nat

definition sui_app :: "nat \<Rightarrow> intent" where
  "sui_app scope = \<lparr>intent_scope = scope, intent_version = 0, intent_app_id = 0\<rparr>"

record ('g, 'd) bls =
  agg_default :: 'g
  agg_add_signature :: "'g \<Rightarrow> nat \<Rightarrow> 'g option"
  agg_add_aggregate :: "'g \<Rightarrow> 'g \<Rightarrow> 'g option"
  agg_aggregate :: "nat list \<Rightarrow> (string, 'g) result"
  agg_batch_verify :: "'g list \<Rightarrow> nat list list \<Rightarrow> nat list list \<Rightarrow> (string, unit) result"
  bcs_intent_message :: "intent \<Rightarrow> 'd \<Rightarrow> nat list option"
  bcs_epoch :: "nat \<Rightarrow> nat list"

record authority_sign_info =
  si_epoch :: nat
  si_authority :: authority_name
  si_signature :: nat

definition sign_info_eq :: "authority_sign_info \<Rightarrow> authority_sign_info \<Rightarrow> bool" where
  "sign_info_eq a b \<longleftrightarrow> si_epoch a = si_epoch b \<and> si_authority a = si_authority b"

record 'g quorum_sign_info =
  qs_epoch :: nat
  qs_signature :: 'g
  signers_map :: "nat list"

record 'g verification_obligation =
  ob_messages :: "nat list list"
  ob_signatures :: "'g list"
  ob_public_keys :: "nat list list"

definition verification_obligation_new :: "'g verification_obligation" where
  "verification_obligation_new = \<lparr>ob_messages = [], ob_signatures = [], ob_public_keys = []\<rparr>"

definition add_message ::
    "('g, 'd) bls \<Rightarrow> 'g verification_obligation \<Rightarrow> 'd \<Rightarrow> nat \<Rightarrow> intent \<Rightarrow> (nat \<times> 'g verification_obligation) option" where
  "add_message B ob message_value epoch i = do {
     bytes \<leftarrow> bcs_intent_message B i message_value;
     let ob = ob\<lparr>ob_signatures := ob_signatures ob @ [agg_default B],
                 ob_public_keys := ob_public_keys ob @ [[]],
                 ob_messages := ob_messages ob @ [bytes @ bcs_epoch B epoch]\<rparr>;
     Some (length (ob_messages ob) - 1, ob)
   }"

definition add_signature_and_public_key ::
    "('g, 'd) bls \<Rightarrow> 'g verification_obligation \<Rightarrow> nat \<Rightarrow> nat \<Rightarrow> nat
      \<Rightarrow> (sui_error, 'g verification_obligation) result" where
  "add_signature_and_public_key B ob signature public_key idx =
     (if length (ob_public_keys ob) \<le> idx then Inl InvalidAuthenticator
      else if length (ob_signatures ob) \<le> idx then Inl InvalidAuthenticator
      else case agg_add_signature B (ob_signatures ob ! idx) signature of
          None \<Rightarrow> Inl (InvalidSignature ''Failed to add signature to obligation'')
        | Some g \<Rightarrow> Inr (ob\<lparr>ob_public_keys := (ob_public_keys ob)[idx := ob_public_keys ob ! idx @ [public_key]],
                           ob_signatures := (ob_signatures ob)[idx := g]\<rparr>))"

definition verify_all :: "('g, 'd) bls \<Rightarrow> 'g verification_obligation \<Rightarrow> (sui_error, unit) result" where
  "verify_all B ob =
     (case agg_batch_verify B (ob_signatures ob) (ob_public_keys ob) (ob_messages ob) of
        Inl e \<Rightarrow> Inl (InvalidSignature (''Failed to batch verify aggregated auth sig: '' @ e))
      | Inr u \<Rightarrow> Inr u)"

definition sign_info_obligation ::
    "('g, 'd) bls \<Rightarrow> authority_sign_info \<Rightarrow> sui_committee \<Rightarrow> 'g verification_obligation \<Rightarrow> nat
      \<Rightarrow> (sui_error, 'g verification_obligation) result" where
  "sign_info_obligation B si c ob message_index =
     (if si_epoch si \<noteq> sc_epoch c then Inl (WrongEpoch (sc_epoch c) (si_epoch si))
      else if \<not> 0 < weight c (si_authority si) then Inl (UnknownSigner (Some (si_authority si)) None)
      else if length (ob_public_keys ob) \<le> message_index then Inl InvalidAddress
      else case sc_public_key c (si_authority si) of
          Inl e \<Rightarrow> Inl e
        | Inr pk \<Rightarrow>
            (if length (ob_signatures ob) \<le> message_index then Inl InvalidAddress
             else case agg_add_signature B (ob_signatures ob ! message_index) (si_signature si) of
                 None \<Rightarrow> Inl (InvalidSignature ''Fail to aggregator auth sig'')
               | Some g \<Rightarrow> Inr (ob\<lparr>
                   ob_public_keys := (ob_public_keys ob)[message_index := ob_public_keys ob ! message_index @ [pk]],
                   ob_signatures := (ob_signatures ob)[message_index := g]\<rparr>)))"

definition sign_info_verify_secure ::
    "('g, 'd) bls \<Rightarrow> authority_sign_info \<Rightarrow> 'd \<Rightarrow> intent \<Rightarrow> sui_committee \<Rightarrow> (sui_error, unit) result option" where
  "sign_info_verify_secure B si d i c = do {
     (idx, ob) \<leftarrow> add_message B verification_obligation_new d (si_epoch si) i;
     Some (case sign_info_obligation B si c ob idx of Inl e \<Rightarrow> Inl e | Inr ob \<Rightarrow> verify_all B ob)
   }"

text \<open>The loop of \<open>add_to_verification_obligation\<close> over the bitmap: it sums the stake and collects
  the public keys.\<close>

fun add_signers ::
    "sui_committee \<Rightarrow> nat list \<Rightarrow> nat \<Rightarrow> nat list \<Rightarrow> (sui_error, nat \<times> nat list) result" where
  "add_signers c [] w keys = Inr (w, keys)"
| "add_signers c (i # is) w keys =
     (case authority_by_index c i of
        None \<Rightarrow> Inl (UnknownSigner None (Some i))
      | Some authority \<Rightarrow>
          (if \<not> 0 < weight c authority then Inl (UnknownSigner (Some authority) (Some i))
           else case sc_public_key c authority of
               Inl e \<Rightarrow> Inl e
             | Inr pk \<Rightarrow> add_signers c is (u64_wrapping_add w (weight c authority)) (keys @ [pk])))"

definition quorum_obligation ::
    "('g, 'd) bls \<Rightarrow> bool \<Rightarrow> 'g quorum_sign_info \<Rightarrow> sui_committee \<Rightarrow> 'g verification_obligation \<Rightarrow> nat
      \<Rightarrow> (sui_error, 'g verification_obligation) result" where
  "quorum_obligation B STRONG q c ob message_index =
     (if qs_epoch q \<noteq> sc_epoch c then Inl (WrongEpoch (sc_epoch c) (qs_epoch q))
      else if length (ob_signatures ob) \<le> message_index then Inl InvalidAuthenticator
      else case agg_add_aggregate B (ob_signatures ob ! message_index) (qs_signature q) of
          None \<Rightarrow> Inl (InvalidSignature ''Signature Aggregation failed'')
        | Some g \<Rightarrow>
            (if length (ob_public_keys ob) \<le> message_index then Inl InvalidAuthenticator
             else case add_signers c (signers_map q) 0 (ob_public_keys ob ! message_index) of
                 Inl e \<Rightarrow> Inl e
               | Inr (w, keys) \<Rightarrow>
                   (if \<not> threshold STRONG c \<le> w then Inl CertificateRequiresQuorum
                    else Inr (ob\<lparr>ob_signatures := (ob_signatures ob)[message_index := g],
                                 ob_public_keys := (ob_public_keys ob)[message_index := keys]\<rparr>))))"

definition quorum_verify_secure ::
    "('g, 'd) bls \<Rightarrow> bool \<Rightarrow> 'g quorum_sign_info \<Rightarrow> 'd \<Rightarrow> intent \<Rightarrow> sui_committee \<Rightarrow> (sui_error, unit) result option" where
  "quorum_verify_secure B STRONG q d i c = do {
     (idx, ob) \<leftarrow> add_message B verification_obligation_new d (qs_epoch q) i;
     Some (case quorum_obligation B STRONG q c ob idx of Inl e \<Rightarrow> Inl e | Inr ob \<Rightarrow> verify_all B ob)
   }"

fun signers_bitmap :: "sui_committee \<Rightarrow> authority_name list \<Rightarrow> nat list \<Rightarrow> (sui_error, nat list) result" where
  "signers_bitmap c [] bits = Inr bits"
| "signers_bitmap c (pk # pks) bits =
     (case authority_index c pk of
        None \<Rightarrow> Inl (UnknownSigner (Some pk) None)
      | Some i \<Rightarrow> signers_bitmap c pks (insort_insert i bits))"

definition new_from_auth_sign_infos ::
    "('g, 'd) bls \<Rightarrow> bool \<Rightarrow> authority_sign_info list \<Rightarrow> sui_committee \<Rightarrow> (sui_error, 'g quorum_sign_info) result" where
  "new_from_auth_sign_infos B STRONG infos c =
     (if \<not> list_all (\<lambda>a. si_epoch a = sc_epoch c) infos
      then Inl (InvalidSignature ''All signatures must be from the same epoch as the committee'')
      else if \<not> threshold STRONG c \<le> u64_wrapping_sum (map (\<lambda>a. weight c (si_authority a)) infos)
      then Inl (InvalidSignature ''Signatures don't have enough stake to form a quorum'')
      else let signatures = bt_of_list (map (\<lambda>a. (si_authority a, si_signature a)) infos) in
        case signers_bitmap c (map fst signatures) [] of
          Inl e \<Rightarrow> Inl e
        | Inr bits \<Rightarrow>
            (case agg_aggregate B (map snd signatures) of
               Inl e \<Rightarrow> Inl (InvalidSignature e)
             | Inr g \<Rightarrow> Inr \<lparr>qs_epoch = sc_epoch c, qs_signature = g, signers_map = bits\<rparr>))"

definition qs_authorities ::
    "'g quorum_sign_info \<Rightarrow> sui_committee \<Rightarrow> (sui_error, authority_name) result list" where
  "qs_authorities q c = map (\<lambda>i. case authority_by_index c i of None \<Rightarrow> Inl InvalidAuthenticator | Some a \<Rightarrow> Inr a)
     (signers_map q)"

definition qs_len :: "'g quorum_sign_info \<Rightarrow> nat" where
  "qs_len q = length (signers_map q)"

definition qs_is_empty :: "'g quorum_sign_info \<Rightarrow> bool" where
  "qs_is_empty q = (signers_map q = [])"

section \<open>Signers of a certificate\<close>

definition signers :: "sui_committee \<Rightarrow> 'g quorum_sign_info \<Rightarrow> authority_name list" where
  "signers c q = map (\<lambda>i. fst (voting_rights c ! i)) (signers_map q)"

definition known_signers :: "sui_committee \<Rightarrow> 'g quorum_sign_info \<Rightarrow> bool" where
  "known_signers c q \<longleftrightarrow> list_all (\<lambda>i. i < num_members c) (signers_map q)
     \<and> list_all (\<lambda>a. 0 < weight c a) (signers c q)"

definition key_of_member :: "sui_committee \<Rightarrow> authority_name \<Rightarrow> nat" where
  "key_of_member c a = the (map_of (expanded_keys c) a)"

lemma nth_name_in: "i < num_members c \<Longrightarrow> fst (voting_rights c ! i) \<in> set (authority_names c)"
  by (auto simp: num_members_def authority_names_def)

lemma member_index:
  assumes "a \<in> set (authority_names c)"
  obtains i where "authority_by_index c i = Some a"
proof -
  obtain i where "i < length (authority_names c)" "authority_names c ! i = a"
    using assms unfolding in_set_conv_nth by blast
  then show ?thesis using that [of i] by (simp add: authority_names_def authority_by_index_def)
qed

lemma sc_public_key_member:
  assumes "wf_sui_committee c" "a \<in> set (authority_names c)"
  shows "sc_public_key c a = Inr (key_of_member c a)"
  using sc_public_key_iff [OF assms(1), of a] assms(2)
  by (auto simp: sc_public_key_def key_of_member_def split: option.splits)

lemma qs_authorities_known:
  assumes "known_signers c q"
  shows "qs_authorities q c = map Inr (signers c q)"
  using assms by (auto simp: qs_authorities_def signers_def known_signers_def authority_by_index_def
      num_members_def list_all_iff)

lemma bitmap_names_sorted:
  assumes "wf_sui_committee c" "sorted_wrt (<) bits" "list_all (\<lambda>i. i < num_members c) bits"
  shows "sorted_wrt (<) (map (\<lambda>i. fst (voting_rights c ! i)) bits)"
  unfolding sorted_wrt_map
proof (rule sorted_wrt_mono_rel [OF _ assms(2)])
  fix i j assume "i \<in> set bits" "j \<in> set bits" "i < j"
  then show "fst (voting_rights c ! i) < fst (voting_rights c ! j)"
    using assms(3) by (simp add: sorted_keys_nth_less_iff [OF wf_sui_committeeD(1) [OF assms(1)]] num_members_def list_all_iff)
qed

lemma add_signers_spec:
  assumes "wf_sui_committee c"
    and "w + sum_list (map (\<lambda>i. weight c (fst (voting_rights c ! i))) bits) < u64_size"
  shows "add_signers c bits w keys = Inr (w', keys') \<longleftrightarrow>
      list_all (\<lambda>i. i < num_members c \<and> 0 < weight c (fst (voting_rights c ! i))) bits
      \<and> w' = w + sum_list (map (\<lambda>i. weight c (fst (voting_rights c ! i))) bits)
      \<and> keys' = keys @ map (\<lambda>i. key_of_member c (fst (voting_rights c ! i))) bits"
  using assms(2)
proof (induction bits arbitrary: w keys)
  case (Cons i bits)
  show ?case
  proof (cases "i < num_members c \<and> 0 < weight c (fst (voting_rights c ! i))")
    case True
    then have "sc_public_key c (fst (voting_rights c ! i)) = Inr (key_of_member c (fst (voting_rights c ! i)))"
      by (intro sc_public_key_member [OF assms(1)] nth_name_in) simp
    moreover have "u64_wrapping_add w (weight c (fst (voting_rights c ! i))) = w + weight c (fst (voting_rights c ! i))"
      using Cons.prems by simp
    moreover have "authority_by_index c i = Some (fst (voting_rights c ! i))"
      using True by (simp add: authority_by_index_def num_members_def)
    ultimately show ?thesis using True Cons.prems by (auto simp: Cons.IH add.assoc)
  next
    case False
    then show ?thesis by (auto simp: authority_by_index_def num_members_def split: option.splits)
  qed
qed auto

lemma sum_signers_le:
  assumes "wf_sui_committee c" "distinct names"
  shows "sum_list (map (weight c) names) = sum (weight c) (set names)" "sum (weight c) (set names) < u64_size"
proof -
  show "sum_list (map (weight c) names) = sum (weight c) (set names)"
    using assms(2) by (rule sum_list_distinct_conv_sum_set)
  have "sum (weight c) (set names) \<le> TOTAL_VOTING_POWER" using assms(1) by (rule weight_le_total_power) simp
  then show "sum (weight c) (set names) < u64_size" by (simp add: voting_power_defs u64_size_def)
qed

lemma quorum_verify_iff:
  assumes "wf_sui_committee c" "sorted_wrt (<) (signers_map q)"
  shows "quorum_verify_secure B STRONG q d i c = Some (Inr ()) \<longleftrightarrow>
      qs_epoch q = sc_epoch c \<and> known_signers c q
      \<and> threshold STRONG c \<le> sum (weight c) (set (signers c q))
      \<and> (\<exists>msg g. bcs_intent_message B i d = Some msg
          \<and> agg_add_aggregate B (agg_default B) (qs_signature q) = Some g
          \<and> agg_batch_verify B [g] [map (key_of_member c) (signers c q)] [msg @ bcs_epoch B (sc_epoch c)] = Inr ())"
    (is "?v \<longleftrightarrow> ?ok")
proof (cases "list_all (\<lambda>i. i < num_members c) (signers_map q)")
  case True
  have d: "distinct (signers c q)"
    unfolding signers_def by (rule sorted_less_distinct [OF bitmap_names_sorted [OF assms True]])
  have sum: "sum_list (map (\<lambda>i. weight c (fst (voting_rights c ! i))) (signers_map q)) = sum (weight c) (set (signers c q))"
    using sum_signers_le(1) [OF assms(1) d] by (simp add: signers_def comp_def)
  have add: "add_signers c (signers_map q) 0 [] = Inr (w, keys) \<longleftrightarrow>
      known_signers c q \<and> w = sum (weight c) (set (signers c q)) \<and> keys = map (key_of_member c) (signers c q)" for w keys
    using True sum_signers_le(2) [OF assms(1) d]
    by (subst add_signers_spec [OF assms(1)])
      (auto simp: sum known_signers_def signers_def list_all_iff)
  show ?thesis
  proof (cases "add_signers c (signers_map q) 0 []")
    case (Inl e)
    then have "\<not> known_signers c q" using add by fastforce
    then show ?thesis using Inl
      by (auto simp: quorum_verify_secure_def quorum_obligation_def add_message_def verification_obligation_new_def
          Let_def split: Option.bind_splits option.splits if_splits)
  next
    case (Inr r)
    obtain w keys where r: "r = (w, keys)" by (cases r)
    have "known_signers c q \<and> w = sum (weight c) (set (signers c q)) \<and> keys = map (key_of_member c) (signers c q)"
      using Inr add by (simp add: r)
    then show ?thesis using Inr unfolding r
      by (auto simp: quorum_verify_secure_def quorum_obligation_def add_message_def verification_obligation_new_def
          verify_all_def Let_def split: Option.bind_splits option.splits if_splits sum.splits)
  qed
next
  case False
  have "add_signers c bits w keys \<noteq> Inr r" if "\<not> list_all (\<lambda>i. i < num_members c) bits" for bits w keys r
    using that by (induction c bits w keys rule: add_signers.induct)
      (auto simp: authority_by_index_def num_members_def split: option.splits sum.splits if_splits)
  then have "\<not> ?v" using False
    by (auto simp: quorum_verify_secure_def quorum_obligation_def add_message_def verification_obligation_new_def
        Let_def split: Option.bind_splits option.splits if_splits sum.splits)
  moreover have "\<not> known_signers c q" using False by (simp add: known_signers_def)
  ultimately show ?thesis by simp
qed

lemma positive_weight_member:
  assumes "wf_sui_committee c" "0 < weight c a"
  shows "a \<in> set (authority_names c)"
  using sui_quorum.stake_outside [OF assms(1), of a] assms(2) by force

lemma sign_info_verify_iff:
  assumes "wf_sui_committee c"
  shows "sign_info_verify_secure B si d i c = Some (Inr ()) \<longleftrightarrow>
      si_epoch si = sc_epoch c \<and> 0 < weight c (si_authority si)
      \<and> (\<exists>msg g. bcs_intent_message B i d = Some msg
          \<and> agg_add_signature B (agg_default B) (si_signature si) = Some g
          \<and> agg_batch_verify B [g] [[key_of_member c (si_authority si)]] [msg @ bcs_epoch B (sc_epoch c)] = Inr ())"
proof -
  have "sc_public_key c (si_authority si) = Inr (key_of_member c (si_authority si))" if "0 < weight c (si_authority si)"
    using positive_weight_member [OF assms that] by (rule sc_public_key_member [OF assms])
  then show ?thesis
    by (auto simp: sign_info_verify_secure_def sign_info_obligation_def add_message_def verification_obligation_new_def
        verify_all_def Let_def split: Option.bind_splits option.splits if_splits sum.splits)
qed

section \<open>Building certificates\<close>

lemma set_bt_of_list:
  assumes "distinct (map fst kvs)"
  shows "set (bt_of_list kvs) = set kvs"
proof -
  have "map_of (foldl (\<lambda>m (k, v). bt_insert k v m) m kvs) = map_of m ++ map_of kvs" for m
    using assms
  proof (induction kvs arbitrary: m)
    case (Cons kv kvs)
    then show ?case by (cases kv) (auto simp: map_of_bt_insert_apply map_add_def fun_eq_iff map_of_eq_None_iff [THEN iffD2]
        cong: option.case_cong)
  qed simp
  from this [of "[]"] have "map_of (bt_of_list kvs) = map_of kvs" by (simp add: bt_of_list_def)
  then show ?thesis
    using assms bt_wf_distinct [OF bt_wf_bt_of_list, of kvs] by (metis map_of_inject_set)
qed

lemma signers_bitmap_spec:
  assumes "wf_sui_committee c" "sorted_wrt (<) bits"
  shows "case signers_bitmap c names bits of
      Inl e \<Rightarrow> \<exists>a \<in> set names. e = UnknownSigner (Some a) None \<and> a \<notin> set (authority_names c)
    | Inr bits' \<Rightarrow> set names \<subseteq> set (authority_names c) \<and> sorted_wrt (<) bits'
        \<and> set bits' = set bits \<union> {i. \<exists>a \<in> set names. authority_by_index c i = Some a}"
  using assms(2)
proof (induction names arbitrary: bits)
  case (Cons a names)
  show ?case
  proof (cases "authority_index c a")
    case None
    then show ?thesis using authority_index_None [OF assms(1), of a] by simp
  next
    case (Some i)
    have "a \<in> set (authority_names c)" using authority_index_None [OF assms(1), of a] Some by auto
    moreover have "{j. authority_by_index c j = Some a} = {i}"
      using Some by (auto simp: authority_index_iff [OF assms(1), symmetric])
    moreover have "sorted_wrt (<) (insort_insert i bits)"
      using Cons.prems by (metis distinct_insort_insert sorted_insort_insert strict_sorted_iff)
    ultimately show ?thesis using Cons.IH [of "insort_insert i bits"] Some
      by (auto simp: set_insort_insert split: sum.splits)
  qed
qed auto

text \<open>A table sorted strictly by key is determined by its entries.\<close>

lemma sorted_key_list_unique:
  assumes "bt_wf xs" "bt_wf ys" "set xs = set ys"
  shows "xs = ys"
proof -
  have "sorted_wrt (\<lambda>a b. fst a < fst b) xs" "sorted_wrt (\<lambda>a b. fst a < fst b) ys"
    using assms by (simp_all add: sorted_wrt_map)
  then show ?thesis
    using assms(3) bt_wf_distinct [OF assms(1)] bt_wf_distinct [OF assms(2)]
    by (intro sorted_wrt_unique [of "\<lambda>a b. fst a < fst b"]) (auto dest: order.asym simp: distinct_map)
qed

text \<open>Collecting the signatures into an ordered map sorts them by authority.\<close>

lemma infos_by_authority:
  assumes "distinct (map si_authority infos)"
  shows "bt_of_list (map (\<lambda>a. (si_authority a, si_signature a)) infos)
      = map (\<lambda>a. (si_authority a, si_signature a)) (sort_key si_authority infos)"
    and "sorted_wrt (<) (map si_authority (sort_key si_authority infos))"
proof -
  let ?kvs = "map (\<lambda>a. (si_authority a, si_signature a)) infos"
  have d: "distinct (map fst ?kvs)" using assms by (simp add: comp_def)
  show sorted: "sorted_wrt (<) (map si_authority (sort_key si_authority infos))"
    using assms by (simp add: strict_sorted_iff distinct_map)
  show "bt_of_list ?kvs = map (\<lambda>a. (si_authority a, si_signature a)) (sort_key si_authority infos)"
    using bt_wf_bt_of_list [of ?kvs] sorted
    by (intro sorted_key_list_unique) (simp_all add: set_bt_of_list [OF d] comp_def)
qed

lemma new_from_auth_sign_infos_spec:
  assumes "wf_sui_committee c" "distinct (map si_authority infos)"
    and "new_from_auth_sign_infos B STRONG infos c = Inr q"
  shows "qs_epoch q = sc_epoch c" "sorted_wrt (<) (signers_map q)" "set (signers c q) = si_authority ` set infos"
    "list_all (\<lambda>i. i < num_members c) (signers_map q)"
    "threshold STRONG c \<le> sum (weight c) (set (signers c q))"
    "agg_aggregate B (map si_signature (sort_key si_authority infos)) = Inr (qs_signature q)"
    "signers c q = map si_authority (sort_key si_authority infos)"
proof -
  define sigs where "sigs = map (\<lambda>a. (si_authority a, si_signature a)) (sort_key si_authority infos)"
  note collected = infos_by_authority(1) [OF assms(2), folded sigs_def]
  obtain bits g where bits: "signers_bitmap c (map fst sigs) [] = Inr bits" and g: "agg_aggregate B (map snd sigs) = Inr g"
    and q: "q = \<lparr>qs_epoch = sc_epoch c, qs_signature = g, signers_map = bits\<rparr>"
    and stake: "threshold STRONG c \<le> u64_wrapping_sum (map (\<lambda>a. weight c (si_authority a)) infos)"
    using assms(3) by (auto simp: new_from_auth_sign_infos_def collected Let_def split: if_splits sum.splits)
  have names: "set (map fst sigs) = si_authority ` set infos"
    by (simp add: sigs_def image_image)
  note b = signers_bitmap_spec [OF assms(1), of "[]" "map fst sigs", unfolded bits, simplified]
  have idx: "set (signers_map q) = {i. \<exists>a \<in> si_authority ` set infos. authority_by_index c i = Some a}"
    using b unfolding names [symmetric] by (simp add: q)
  show "qs_epoch q = sc_epoch c" "sorted_wrt (<) (signers_map q)" using b by (simp_all add: q)
  show lt: "list_all (\<lambda>i. i < num_members c) (signers_map q)"
    using idx by (auto simp: list_all_iff authority_by_index_def num_members_def split: if_splits)
  have sub: "si_authority ` set infos \<subseteq> set (authority_names c)" using b names by simp
  show set: "set (signers c q) = si_authority ` set infos"
  proof
    show "set (signers c q) \<subseteq> si_authority ` set infos"
      using idx by (auto simp: signers_def authority_by_index_def split: if_splits)
    show "si_authority ` set infos \<subseteq> set (signers c q)"
    proof
      fix a assume a: "a \<in> si_authority ` set infos"
      then obtain i where i: "authority_by_index c i = Some a" using sub by (blast elim: member_index)
      then have "i \<in> set (signers_map q)" using a unfolding idx by blast
      moreover have "fst (voting_rights c ! i) = a" using i by (simp add: authority_by_index_def split: if_splits)
      ultimately show "a \<in> set (signers c q)" unfolding signers_def by force
    qed
  qed
  show "threshold STRONG c \<le> sum (weight c) (set (signers c q))"
    using stake sum_signers_le [OF assms(1,2)] by (simp add: set comp_def)
  show "agg_aggregate B (map si_signature (sort_key si_authority infos)) = Inr (qs_signature q)"
    using g by (simp add: q sigs_def comp_def)
  show "signers c q = map si_authority (sort_key si_authority infos)"
    using bitmap_names_sorted [OF assms(1) \<open>sorted_wrt (<) (signers_map q)\<close> lt] infos_by_authority(2) [OF assms(2)] set
    by (metis set_map set_sort signers_def strict_sorted_equal)
qed

lemma new_from_auth_sign_infos_ok:
  assumes "wf_sui_committee c" "distinct (map si_authority infos)" "\<forall>a \<in> set infos. si_epoch a = sc_epoch c"
    and "threshold STRONG c \<le> sum (weight c) (si_authority ` set infos)"
    and "si_authority ` set infos \<subseteq> set (authority_names c)"
    and "agg_aggregate B (map si_signature (sort_key si_authority infos)) = Inr g"
  shows "\<exists>q. new_from_auth_sign_infos B STRONG infos c = Inr q"
proof -
  note sigs = infos_by_authority(1) [OF assms(2)]
  obtain bits where bits: "signers_bitmap c (map si_authority (sort_key si_authority infos)) [] = Inr bits"
    using signers_bitmap_spec [OF assms(1), of "[]" "map si_authority (sort_key si_authority infos)"] assms(5)
    by (cases "signers_bitmap c (map si_authority (sort_key si_authority infos)) []") auto
  have stake: "u64_wrapping_sum (map (\<lambda>a. weight c (si_authority a)) infos) = sum (weight c) (si_authority ` set infos)"
    using sum_signers_le [OF assms(1,2)] by (simp add: comp_def)
  show ?thesis using assms(3,4,6) bits
    by (auto simp: new_from_auth_sign_infos_def stake sigs list_all_iff comp_def)
qed

text \<open>Documented behaviour of BLS aggregation: one or more signatures of one message that verify alone can
  be aggregated and the aggregate verifies under their keys. Of an empty list nothing is assumed.\<close>

definition bls_complete :: "('g, 'd) bls \<Rightarrow> bool" where
  "bls_complete B \<longleftrightarrow> (\<forall>keys sigs msg. sigs \<noteq> [] \<and> length keys = length sigs
     \<and> (\<forall>(k, s) \<in> set (zip keys sigs). \<exists>g. agg_add_signature B (agg_default B) s = Some g
          \<and> agg_batch_verify B [g] [[k]] [msg] = Inr ())
     \<longrightarrow> (\<exists>g g'. agg_aggregate B sigs = Inr g \<and> agg_add_aggregate B (agg_default B) g = Some g'
          \<and> agg_batch_verify B [g'] [keys] [msg] = Inr ()))"

lemma sorted_infos_aggregate:
  assumes "wf_sui_committee c" "bls_complete B"
    and valid: "\<forall>a \<in> set infos. sign_info_verify_secure B a d i c = Some (Inr ())"
    and msg: "bcs_intent_message B i d = Some msg" and ne: "infos \<noteq> []"
  obtains g g' where "agg_aggregate B (map si_signature infos) = Inr g" "agg_add_aggregate B (agg_default B) g = Some g'"
    "agg_batch_verify B [g'] [map (\<lambda>a. key_of_member c (si_authority a)) infos] [msg @ bcs_epoch B (sc_epoch c)] = Inr ()"
proof -
  have "\<forall>(k, s) \<in> set (zip (map (\<lambda>a. key_of_member c (si_authority a)) infos) (map si_signature infos)).
      \<exists>g. agg_add_signature B (agg_default B) s = Some g \<and> agg_batch_verify B [g] [[k]] [msg @ bcs_epoch B (sc_epoch c)] = Inr ()"
    using valid msg by (auto simp: sign_info_verify_iff [OF assms(1)] set_zip)
  moreover have "map si_signature infos \<noteq> [] \<and>
      length (map (\<lambda>a. key_of_member c (si_authority a)) infos) = length (map si_signature infos)" using ne by simp
  ultimately show ?thesis using that assms(2) unfolding bls_complete_def by blast
qed

lemma valid_signatures_spec:
  assumes "wf_sui_committee c" "bls_complete B" "distinct (map si_authority infos)"
    and valid: "\<forall>a \<in> set infos. sign_info_verify_secure B a d i c = Some (Inr ())"
    and "threshold STRONG c \<le> sum (weight c) (si_authority ` set infos)"
  obtains q where "new_from_auth_sign_infos B STRONG infos c = Inr q" "quorum_verify_secure B STRONG q d i c = Some (Inr ())"
    "qs_authorities q c = map Inr (map si_authority (sort_key si_authority infos))"
proof -
  have each: "si_epoch a = sc_epoch c \<and> 0 < weight c (si_authority a)" if "a \<in> set infos" for a
    using valid that by (simp add: sign_info_verify_iff [OF assms(1)])
  have ne: "infos \<noteq> []" using assms(5) by (auto simp: threshold_def voting_power_defs split: if_splits)
  then have sorted_ne: "sort_key si_authority infos \<noteq> []" by (metis length_0_conv length_sort)
  obtain a where "a \<in> set infos" using ne by (cases infos) auto
  with valid have "sign_info_verify_secure B a d i c = Some (Inr ())" by simp
  then obtain msg where msg: "bcs_intent_message B i d = Some msg"
    unfolding sign_info_verify_iff [OF assms(1)] by blast
  obtain g g' where g: "agg_aggregate B (map si_signature (sort_key si_authority infos)) = Inr g"
    "agg_add_aggregate B (agg_default B) g = Some g'"
    "agg_batch_verify B [g'] [map (\<lambda>a. key_of_member c (si_authority a)) (sort_key si_authority infos)] [msg @ bcs_epoch B (sc_epoch c)] = Inr ()"
    by (rule sorted_infos_aggregate [OF assms(1,2) _ msg sorted_ne]) (use valid in auto)
  have sub: "si_authority ` set infos \<subseteq> set (authority_names c)"
    using each positive_weight_member [OF assms(1)] by blast
  obtain q where q: "new_from_auth_sign_infos B STRONG infos c = Inr q"
    using new_from_auth_sign_infos_ok [OF assms(1,3) _ assms(5) sub g(1)] each by blast
  note spec = new_from_auth_sign_infos_spec [OF assms(1,3) q]
  have known: "known_signers c q" using spec(3,4) each by (auto simp: known_signers_def list_all_iff)
  have "qs_signature q = g" using spec(6) g(1) by simp
  then have "quorum_verify_secure B STRONG q d i c = Some (Inr ())"
    unfolding quorum_verify_iff [OF assms(1) spec(2)]
    using spec(1,5) known g(2,3) msg spec(7) by (simp add: comp_def)
  then show ?thesis using that q qs_authorities_known [OF known] spec(7) by simp
qed

section \<open>Properties\<close>

text \<open>A quorum certificate verifies exactly when it has the committee's epoch, all its signers
  are members with stake, their stake reaches the threshold, and the aggregate signature verifies
  on the message with its intent and epoch under exactly the signers' public keys.\<close>

theorem quorum_verify_correct:
  assumes "wf_sui_committee c" "sorted_wrt (<) (signers_map q)"
  shows "quorum_verify_secure B STRONG q d i c = Some (Inr ()) \<longleftrightarrow>
      qs_epoch q = sc_epoch c \<and> known_signers c q
      \<and> threshold STRONG c \<le> sum (weight c) (set (signers c q))
      \<and> (\<exists>msg g. bcs_intent_message B i d = Some msg
          \<and> agg_add_aggregate B (agg_default B) (qs_signature q) = Some g
          \<and> agg_batch_verify B [g] [map (key_of_member c) (signers c q)] [msg @ bcs_epoch B (sc_epoch c)] = Inr ())"
  by (rule quorum_verify_iff [OF assms])

text \<open>A signature scheme with the shape of the library's: a signature of a message is the key plus
  the message's sum, an aggregate is a list of signatures, and an empty list is neither aggregated nor verified.\<close>

definition toy_bls :: "(nat list, nat) bls" where
  "toy_bls = \<lparr>agg_default = [], agg_add_signature = (\<lambda>g s. Some (g @ [s])), agg_add_aggregate = (\<lambda>g h. Some (g @ h)),
     agg_aggregate = (\<lambda>sigs. if sigs = [] then Inl ''no signatures'' else Inr sigs),
     agg_batch_verify = (\<lambda>gs kss ms. if [] \<notin> set kss \<and> gs = map (\<lambda>(ks, m). map (\<lambda>k. k + sum_list m) ks) (zip kss ms)
        then Inr () else Inl ''bad signature''),
     bcs_intent_message = (\<lambda>i d. Some [intent_scope i, d]), bcs_epoch = (\<lambda>e. [e])\<rparr>"

lemma toy_bls_complete: "bls_complete toy_bls"
  unfolding bls_complete_def
proof (intro allI impI)
  fix keys sigs msg :: "nat list"
  assume a: "sigs \<noteq> [] \<and> length keys = length sigs \<and> (\<forall>(k, s) \<in> set (zip keys sigs).
      \<exists>g. agg_add_signature toy_bls (agg_default toy_bls) s = Some g \<and> agg_batch_verify toy_bls [g] [[k]] [msg] = Inr ())"
  then have "\<forall>(k, s) \<in> set (zip keys sigs). s = k + sum_list msg"
    by (auto simp: toy_bls_def split: if_splits)
  with a have "sigs = map (\<lambda>k. k + sum_list msg) keys" by (intro nth_equalityI) (auto simp: set_zip)
  then show "\<exists>g g'. agg_aggregate toy_bls sigs = Inr g \<and> agg_add_aggregate toy_bls (agg_default toy_bls) g = Some g'
      \<and> agg_batch_verify toy_bls [g'] [keys] [msg] = Inr ()"
    using a by (auto simp: toy_bls_def)
qed

definition example_cert :: "nat list quorum_sign_info" where
  "example_cert = \<lparr>qs_epoch = 7, qs_signature = [101 + 17, 102 + 17, 103 + 17], signers_map = [0, 1, 2]\<rparr>"

lemma example_sui_committee_sel [simp]:
  "sc_epoch example_sui_committee = 7"
  "voting_rights example_sui_committee = [(1, 2500), (2, 2500), (3, 2500), (4, 2500)]"
  "expanded_keys example_sui_committee = [(1, 101), (2, 102), (3, 103), (4, 104)]"
  by (simp_all add: example_sui_committee_def example_rights_def)

lemma example_weight:
  "weight example_sui_committee a = (if a \<in> {1, 2, 3, 4} then 2500 else 0)"
  unfolding weight_lookup [OF wf_sui_committeeD(1) [OF example_sui_committee_wf]]
  by simp

lemma example_cert_verifies: "quorum_verify_secure toy_bls True example_cert 6 (sui_app 4) example_sui_committee = Some (Inr ())"
proof -
  have "signers example_sui_committee example_cert = [1, 2, 3]" "known_signers example_sui_committee example_cert"
    by (simp_all add: known_signers_def signers_def example_weight example_cert_def num_members_def)
  then show ?thesis
    by (subst quorum_verify_iff [OF example_sui_committee_wf])
      (simp_all add: example_cert_def toy_bls_def sui_app_def threshold_def voting_power_defs example_weight
        key_of_member_def)
qed

theorem quorum_verify_correct_witness:
  "wf_sui_committee example_sui_committee \<and> sorted_wrt (<) (signers_map example_cert)
   \<and> known_signers example_sui_committee example_cert
   \<and> threshold True example_sui_committee \<le> sum (weight example_sui_committee) (set (signers example_sui_committee example_cert))"
proof -
  have "sorted_wrt (<) (signers_map example_cert)" by (simp add: example_cert_def)
  then show ?thesis
    using quorum_verify_correct [OF example_sui_committee_wf, of example_cert toy_bls True 6 "sui_app 4"] example_cert_verifies
    by simp
qed

text \<open>C9: Two certificates with a strong quorum that verify against the same committee have a common
  signer outside any set of authorities with less than the validity threshold of stake.\<close>

theorem certificates_share_honest_signer:
  assumes "wf_sui_committee c" "sorted_wrt (<) (signers_map q1)" "sorted_wrt (<) (signers_map q2)"
    and "quorum_verify_secure B True q1 d1 i1 c = Some (Inr ())" "quorum_verify_secure B True q2 d2 i2 c = Some (Inr ())"
    and "finite F" "sum (weight c) F < sc_validity_threshold c"
  shows "\<exists>a. Inr a \<in> set (qs_authorities q1 c) \<and> Inr a \<in> set (qs_authorities q2 c) \<and> a \<notin> F \<and> authority_exists c a"
proof -
  have "known_signers c q" "sc_quorum_threshold c \<le> sum (weight c) (set (signers c q))"
    if "quorum_verify_secure B True q d i c = Some (Inr ())" "sorted_wrt (<) (signers_map q)" for q d i
    using that(1) unfolding quorum_verify_iff [OF assms(1) that(2)] by (simp_all add: threshold_def sc_quorum_threshold_def)
  note 1 = this [OF assms(4,2)] and 2 = this [OF assms(5,3)]
  obtain a where "a \<in> set (signers c q1)" "a \<in> set (signers c q2)" "a \<notin> F" "a \<in> set (authority_names c)"
    by (rule sui_quorum.quorums_share_honest [OF assms(1) finite_set finite_set assms(6) 1(2) 2(2) assms(7)])
  then show ?thesis
    by (auto simp: qs_authorities_known [OF 1(1)] qs_authorities_known [OF 2(1)]
        authority_exists_iff [OF wf_sui_committeeD(1) [OF assms(1)]])
qed

theorem certificates_share_honest_signer_witness:
  "\<exists>a. Inr a \<in> set (qs_authorities example_cert example_sui_committee) \<and> a \<notin> {1} \<and> authority_exists example_sui_committee a"
  using certificates_share_honest_signer [OF example_sui_committee_wf _ _ example_cert_verifies example_cert_verifies, of "{1}"]
  by (auto simp: example_cert_def example_weight sc_validity_threshold_def voting_power_defs)

text \<open>C30: If one or more valid signatures can always be aggregated, then signatures of distinct authorities
  that each verify and together reach the threshold form a certificate, the certificate verifies, and its authorities are exactly the signers in the
  order of the committee.\<close>

theorem valid_signatures_form_certificate:
  assumes "wf_sui_committee c" "bls_complete B" "distinct (map si_authority infos)"
    and "\<forall>a \<in> set infos. sign_info_verify_secure B a d i c = Some (Inr ())"
    and "threshold STRONG c \<le> sum (weight c) (si_authority ` set infos)"
  shows "\<exists>q. new_from_auth_sign_infos B STRONG infos c = Inr q
    \<and> quorum_verify_secure B STRONG q d i c = Some (Inr ())
    \<and> qs_authorities q c = map Inr (sort (map si_authority infos))"
proof -
  have "map si_authority (sort_key si_authority infos) = sort (map si_authority infos)"
    by (rule properties_for_sort [symmetric]) simp_all
  then show ?thesis using valid_signatures_spec [OF assms] by metis
qed

definition example_infos :: "authority_sign_info list" where
  "example_infos = [\<lparr>si_epoch = 7, si_authority = 4, si_signature = 104 + 17\<rparr>,
     \<lparr>si_epoch = 7, si_authority = 1, si_signature = 101 + 17\<rparr>, \<lparr>si_epoch = 7, si_authority = 2, si_signature = 102 + 17\<rparr>]"

lemma example_infos_verify:
  "\<forall>a \<in> set example_infos. sign_info_verify_secure toy_bls a 6 (sui_app 4) example_sui_committee = Some (Inr ())"
  unfolding sign_info_verify_iff [OF example_sui_committee_wf]
  by (simp add: example_infos_def example_weight toy_bls_def sui_app_def key_of_member_def)

theorem valid_signatures_form_certificate_witness:
  "\<exists>q. new_from_auth_sign_infos toy_bls True example_infos example_sui_committee = Inr q
    \<and> qs_authorities q example_sui_committee = [Inr 1, Inr 2, Inr 4]"
proof -
  have "distinct (map si_authority example_infos)"
    "threshold True example_sui_committee \<le> sum (weight example_sui_committee) (si_authority ` set example_infos)"
    by (simp_all add: example_infos_def threshold_def voting_power_defs example_weight)
  from valid_signatures_form_certificate [OF example_sui_committee_wf toy_bls_complete this(1) example_infos_verify this(2)]
  show ?thesis by (auto simp: example_infos_def)
qed

end
