(* ===== verification/Sui_Stake_Aggregator.thy ===== *)
theory Sui_Stake_Aggregator
  imports Sui_Sign_Info
begin

text \<open>
  Aggregation of validators' votes and signatures, \<open>crates/sui-core/src/stake_aggregator.rs\<close>:
  the generic aggregator, its specialisation to signatures that forms a certificate, and the two
  aggregators that keep one aggregator per value.

  The constant parameter \<open>STRENGTH\<close> is an argument. \<open>S: Eq\<close> is the argument \<open>eq\<close> of
  \<open>insert_generic\<close>, because the equality of \<open>AuthoritySignInfo\<close> ignores the signature. The
  outer option of \<open>stake_insert\<close> is the panic of a failed serialisation.

  Shown: the counted votes are the stake of the recorded voters, a certificate is returned only if
  it verifies and always when the recorded signatures are valid and reach the threshold, a failed
  aggregate removes exactly the signatures that do not verify; and two weaknesses: after such a
  removal the remaining valid quorum is not returned, and the vote of a non-member blocks the
  aggregator.
\<close>

section \<open>The model\<close>

record 's stake_aggregator =
  ag_data :: "(authority_name \<times> 's) list"
  ag_total_votes :: nat
  ag_committee :: sui_committee

datatype 'c insert_result =
    QuorumReached 'c
  | Failed sui_error
  | NotEnoughVotes nat "authority_name list"

fun is_quorum_reached :: "'c insert_result \<Rightarrow> bool" where
  "is_quorum_reached (QuorumReached _) = True"
| "is_quorum_reached _ = False"

fun is_failed :: "'c insert_result \<Rightarrow> bool" where
  "is_failed (Failed _) = True"
| "is_failed _ = False"

definition stake_aggregator_new :: "sui_committee \<Rightarrow> 's stake_aggregator" where
  "stake_aggregator_new c = \<lparr>ag_data = [], ag_total_votes = 0, ag_committee = c\<rparr>"

definition insert_generic ::
    "('s \<Rightarrow> 's \<Rightarrow> bool) \<Rightarrow> bool \<Rightarrow> 's stake_aggregator \<Rightarrow> authority_name \<Rightarrow> 's
      \<Rightarrow> (authority_name \<times> 's) list insert_result \<times> 's stake_aggregator" where
  "insert_generic eq STRENGTH ag authority s =
     (case map_of (ag_data ag) authority of
        Some oc \<Rightarrow> (Failed (StakeAggregatorRepeatedSigner authority (eq oc s)), ag)
      | None \<Rightarrow>
          let ag = ag\<lparr>ag_data := AList.update authority s (ag_data ag)\<rparr>;
              votes = weight (ag_committee ag) authority
          in if 0 < votes then
               let ag = ag\<lparr>ag_total_votes := u64_wrapping_add (ag_total_votes ag) votes\<rparr>
               in (if threshold STRENGTH (ag_committee ag) \<le> ag_total_votes ag
                   then QuorumReached (ag_data ag) else NotEnoughVotes 0 [], ag)
             else (Failed InvalidAuthenticator, ag))"

definition stake_aggregator_from_iter ::
    "('s \<Rightarrow> 's \<Rightarrow> bool) \<Rightarrow> bool \<Rightarrow> sui_committee \<Rightarrow> (authority_name \<times> 's) list \<Rightarrow> 's stake_aggregator" where
  "stake_aggregator_from_iter eq STRENGTH c votes =
     foldl (\<lambda>this (authority, s). snd (insert_generic eq STRENGTH this authority s)) (stake_aggregator_new c) votes"

definition contains_key :: "'s stake_aggregator \<Rightarrow> authority_name \<Rightarrow> bool" where
  "contains_key ag authority = (map_of (ag_data ag) authority \<noteq> None)"

definition has_quorum :: "bool \<Rightarrow> 's stake_aggregator \<Rightarrow> bool" where
  "has_quorum STRENGTH ag = (threshold STRENGTH (ag_committee ag) \<le> ag_total_votes ag)"

definition validator_sig_count :: "'s stake_aggregator \<Rightarrow> nat" where
  "validator_sig_count ag = length (ag_data ag)"

record 'd envelope =
  en_data :: 'd
  en_auth_signature :: authority_sign_info

text \<open>The loop that verifies the signatures one by one after the aggregate failed: it runs over a
  copy of the table and removes the bad ones from the table.\<close>

fun remove_bad ::
    "('g, 'd) bls \<Rightarrow> 'd \<Rightarrow> intent \<Rightarrow> (authority_name \<times> authority_sign_info) list \<Rightarrow> authority_sign_info stake_aggregator
      \<Rightarrow> nat \<Rightarrow> authority_name list
      \<Rightarrow> (nat \<times> authority_name list \<times> authority_sign_info stake_aggregator) option" where
  "remove_bad B d i [] ag bad_votes bad_authorities = Some (bad_votes, bad_authorities, ag)"
| "remove_bad B d i ((name, sig) # rest) ag bad_votes bad_authorities = do {
     r \<leftarrow> sign_info_verify_secure B sig d i (ag_committee ag);
     case r of
       Inr _ \<Rightarrow> remove_bad B d i rest ag bad_votes bad_authorities
     | Inl _ \<Rightarrow>
         let votes = weight (ag_committee ag) name
         in remove_bad B d i rest
              (ag\<lparr>ag_data := AList.delete name (ag_data ag), ag_total_votes := u64_wrapping_sub (ag_total_votes ag) votes\<rparr>)
              (u64_wrapping_add bad_votes votes) (bad_authorities @ [name])
   }"

definition stake_insert ::
    "('g, 'd) bls \<Rightarrow> bool \<Rightarrow> nat \<Rightarrow> authority_sign_info stake_aggregator \<Rightarrow> 'd envelope
      \<Rightarrow> ('g quorum_sign_info insert_result \<times> authority_sign_info stake_aggregator) option" where
  "stake_insert B STRENGTH scope ag env =
     (let d = en_data env; sig = en_auth_signature env; c = ag_committee ag in
      if sc_epoch c \<noteq> si_epoch sig then Some (Failed (WrongEpoch (sc_epoch c) (si_epoch sig)), ag)
      else case insert_generic sign_info_eq STRENGTH ag (si_authority sig) sig of
          (QuorumReached _, ag) \<Rightarrow>
            (case new_from_auth_sign_infos B STRENGTH (map snd (ag_data ag)) c of
               Inr aggregated \<Rightarrow> do {
                 r \<leftarrow> quorum_verify_secure B STRENGTH aggregated d (sui_app scope) c;
                 case r of
                   Inr _ \<Rightarrow> Some (QuorumReached aggregated, ag)
                 | Inl _ \<Rightarrow> do {
                     (bad_votes, bad_authorities, ag) \<leftarrow> remove_bad B d (sui_app scope) (ag_data ag) ag 0 [];
                     Some (NotEnoughVotes bad_votes bad_authorities, ag)
                   }
               }
             | Inl e \<Rightarrow> Some (Failed e, ag))
        | (Failed e, ag) \<Rightarrow> Some (Failed e, ag)
        | (NotEnoughVotes bad_votes bad_authorities, ag) \<Rightarrow> Some (NotEnoughVotes bad_votes bad_authorities, ag))"

record ('k, 'v) multi_stake_aggregator =
  ms_committee :: sui_committee
  ms_stake_maps :: "('k \<times> 'v \<times> authority_sign_info stake_aggregator) list"

definition multi_stake_new :: "sui_committee \<Rightarrow> ('k, 'v) multi_stake_aggregator" where
  "multi_stake_new c = \<lparr>ms_committee = c, ms_stake_maps = []\<rparr>"

definition unique_key_count :: "('k, 'v) multi_stake_aggregator \<Rightarrow> nat" where
  "unique_key_count ms = length (ms_stake_maps ms)"

definition multi_total_votes :: "('k, 'v) multi_stake_aggregator \<Rightarrow> nat" where
  "multi_total_votes ms = u64_wrapping_sum (map (\<lambda>(_, _, ag). ag_total_votes ag) (ms_stake_maps ms))"

definition multi_insert ::
    "('g, 'v) bls \<Rightarrow> bool \<Rightarrow> nat \<Rightarrow> ('k, 'v) multi_stake_aggregator \<Rightarrow> 'k \<Rightarrow> 'v envelope
      \<Rightarrow> ('g quorum_sign_info insert_result \<times> ('k, 'v) multi_stake_aggregator) option" where
  "multi_insert B STRENGTH scope ms k env =
     (case map_of (ms_stake_maps ms) k of
        Some (v, ag) \<Rightarrow> do {
          (res, ag) \<leftarrow> stake_insert B STRENGTH scope ag env;
          Some (res, ms\<lparr>ms_stake_maps := AList.update k (v, ag) (ms_stake_maps ms)\<rparr>)
        }
      | None \<Rightarrow> do {
          (res, new_entry) \<leftarrow> stake_insert B STRENGTH scope (stake_aggregator_new (ms_committee ms)) env;
          Some (res, if \<not> is_failed res
            then ms\<lparr>ms_stake_maps := AList.update k (en_data env, new_entry) (ms_stake_maps ms)\<rparr> else ms)
        })"

definition get_all_unique_values ::
    "('k::linorder, 'v) multi_stake_aggregator \<Rightarrow> ('k \<times> authority_name list \<times> nat) list" where
  "get_all_unique_values ms =
     bt_of_list (map (\<lambda>(k, _, s). (k, map fst (ag_data s), ag_total_votes s)) (ms_stake_maps ms))"

record 'k generic_multi_aggregator =
  gm_committee :: sui_committee
  gm_stake_maps :: "('k \<times> unit stake_aggregator) list"
  gm_votes_per_authority :: "(authority_name \<times> nat) list"

definition generic_multi_new :: "sui_committee \<Rightarrow> 'k generic_multi_aggregator" where
  "generic_multi_new c = \<lparr>gm_committee = c, gm_stake_maps = [], gm_votes_per_authority = []\<rparr>"

definition generic_multi_insert ::
    "bool \<Rightarrow> 'k generic_multi_aggregator \<Rightarrow> authority_name \<Rightarrow> 'k
      \<Rightarrow> (authority_name \<times> unit) list insert_result \<times> 'k generic_multi_aggregator" where
  "generic_multi_insert STRENGTH gm authority k =
     (let agg = (case map_of (gm_stake_maps gm) k of Some ag \<Rightarrow> ag | None \<Rightarrow> stake_aggregator_new (gm_committee gm));
          votes = (if \<not> contains_key agg authority
            then AList.update authority
              (u64_wrapping_add (case map_of (gm_votes_per_authority gm) authority of Some n \<Rightarrow> n | None \<Rightarrow> 0) 1)
              (gm_votes_per_authority gm)
            else gm_votes_per_authority gm);
          (res, agg) = insert_generic (=) STRENGTH agg authority ()
      in (res, gm\<lparr>gm_stake_maps := AList.update k agg (gm_stake_maps gm), gm_votes_per_authority := votes\<rparr>))"

definition has_quorum_for_key :: "bool \<Rightarrow> 'k generic_multi_aggregator \<Rightarrow> 'k \<Rightarrow> bool" where
  "has_quorum_for_key STRENGTH gm k =
     (case map_of (gm_stake_maps gm) k of Some entry \<Rightarrow> has_quorum STRENGTH entry | None \<Rightarrow> False)"

definition votes_for_authority :: "'k generic_multi_aggregator \<Rightarrow> authority_name \<Rightarrow> nat" where
  "votes_for_authority gm authority =
     (case map_of (gm_votes_per_authority gm) authority of Some n \<Rightarrow> n | None \<Rightarrow> 0)"

section \<open>Counting votes\<close>

definition voters :: "'s stake_aggregator \<Rightarrow> authority_name set" where
  "voters ag = fst ` set (ag_data ag)"

definition agg_inv :: "'s stake_aggregator \<Rightarrow> bool" where
  "agg_inv ag \<longleftrightarrow> distinct (map fst (ag_data ag)) \<and> ag_total_votes ag = sum (weight (ag_committee ag)) (voters ag)"

definition record_vote :: "'s stake_aggregator \<Rightarrow> authority_name \<Rightarrow> 's \<Rightarrow> 's stake_aggregator" where
  "record_vote ag a s = ag\<lparr>ag_data := ag_data ag @ [(a, s)], ag_total_votes := ag_total_votes ag + weight (ag_committee ag) a\<rparr>"

lemma record_vote_sel [simp]:
  "ag_data (record_vote ag a s) = ag_data ag @ [(a, s)]" "ag_committee (record_vote ag a s) = ag_committee ag"
  "voters (record_vote ag a s) = insert a (voters ag)"
  by (auto simp: record_vote_def voters_def)

lemma finite_voters [simp]: "finite (voters ag)"
  by (simp add: voters_def)

lemma voter_lookup:
  assumes "a \<in> voters ag"
  obtains s where "map_of (ag_data ag) a = Some s"
  using assms by (cases "map_of (ag_data ag) a") (simp_all add: voters_def map_of_eq_None_iff)

lemma agg_inv_new [simp]: "agg_inv (stake_aggregator_new c)"
  by (simp add: agg_inv_def stake_aggregator_new_def voters_def)

lemma stake_aggregator_new_sel [simp]:
  "voters (stake_aggregator_new c) = {}" "ag_committee (stake_aggregator_new c) = c" "ag_data (stake_aggregator_new c) = []"
  by (simp_all add: stake_aggregator_new_def voters_def)

lemma agg_inv_record_vote: "agg_inv ag \<Longrightarrow> a \<notin> voters ag \<Longrightarrow> agg_inv (record_vote ag a s)"
  by (simp add: agg_inv_def) (auto simp: record_vote_def voters_def)

lemma total_votes_bound:
  assumes "wf_sui_committee (ag_committee ag)" "agg_inv ag" "a \<notin> voters ag"
  shows "ag_total_votes ag + weight (ag_committee ag) a < u64_size"
proof -
  have "ag_total_votes ag + weight (ag_committee ag) a = sum (weight (ag_committee ag)) (insert a (voters ag))"
    using assms(2,3) by (simp add: agg_inv_def)
  also have "\<dots> \<le> TOTAL_VOTING_POWER" using assms(1) by (rule weight_le_total_power) simp
  finally show ?thesis by (simp add: voting_power_defs u64_size_def)
qed

lemma update_new: "a \<notin> fst ` set m \<Longrightarrow> AList.update a s m = m @ [(a, s)]"
  by (induction m) auto

text \<open>Without wrap-around: a repeated voter changes nothing, every other vote is recorded.\<close>

lemma insert_generic_spec:
  assumes "wf_sui_committee (ag_committee ag)" "agg_inv ag"
  shows "insert_generic eq STRENGTH ag a s =
    (if a \<in> voters ag then (Failed (StakeAggregatorRepeatedSigner a (eq (the (map_of (ag_data ag) a)) s)), ag)
     else (if weight (ag_committee ag) a = 0 then Failed InvalidAuthenticator
           else if has_quorum STRENGTH (record_vote ag a s) then QuorumReached (ag_data ag @ [(a, s)])
           else NotEnoughVotes 0 [], record_vote ag a s))"
proof (cases "a \<in> voters ag")
  case True
  then obtain oc where "map_of (ag_data ag) a = Some oc"
    by (rule voter_lookup)
  then show ?thesis using True by (simp add: insert_generic_def)
next
  case False
  then have none: "map_of (ag_data ag) a = None" by (simp add: voters_def map_of_eq_None_iff)
  have upd: "AList.update a s (ag_data ag) = ag_data ag @ [(a, s)]"
    using False by (intro update_new) (simp add: voters_def)
  show ?thesis
    using False none total_votes_bound [OF assms False]
    by (simp add: insert_generic_def upd record_vote_def has_quorum_def Let_def)
qed

lemma insert_generic_inv:
  assumes "wf_sui_committee (ag_committee ag)" "agg_inv ag"
  shows "agg_inv (snd (insert_generic eq STRENGTH ag a s))"
    and "ag_committee (snd (insert_generic eq STRENGTH ag a s)) = ag_committee ag"
    and "voters (snd (insert_generic eq STRENGTH ag a s)) = insert a (voters ag)"
  using assms agg_inv_record_vote [OF assms(2), of a s] by (auto simp: insert_generic_spec)

text \<open>The aggregator counts stake towards the committee's thresholds.\<close>

interpretation stake_counter:
  quorum_counter "\<lambda>c. set (authority_names c)" weight sc_quorum_threshold sc_validity_threshold wf_sui_committee
    ag_total_votes voters "\<lambda>c ag. ag_committee ag = c \<and> agg_inv ag"
  by unfold_locales (simp_all add: agg_inv_def)

lemma from_iter_inv:
  assumes "wf_sui_committee c"
  shows "agg_inv (stake_aggregator_from_iter eq STRENGTH c votes)"
    and "ag_committee (stake_aggregator_from_iter eq STRENGTH c votes) = c"
    and "voters (stake_aggregator_from_iter eq STRENGTH c votes) = fst ` set votes"
proof -
  have "agg_inv (foldl (\<lambda>this (a, s). snd (insert_generic eq STRENGTH this a s)) ag votes)
      \<and> ag_committee (foldl (\<lambda>this (a, s). snd (insert_generic eq STRENGTH this a s)) ag votes) = c
      \<and> voters (foldl (\<lambda>this (a, s). snd (insert_generic eq STRENGTH this a s)) ag votes) = voters ag \<union> fst ` set votes"
    if "agg_inv ag" "ag_committee ag = c" for ag
    using that
  proof (induction votes arbitrary: ag)
    case (Cons v votes)
    then show ?case using assms by (cases v) (simp add: insert_generic_inv)
  qed simp
  from this [of "stake_aggregator_new c"] show
    "agg_inv (stake_aggregator_from_iter eq STRENGTH c votes)"
    "ag_committee (stake_aggregator_from_iter eq STRENGTH c votes) = c"
    "voters (stake_aggregator_from_iter eq STRENGTH c votes) = fst ` set votes"
    by (simp_all add: stake_aggregator_from_iter_def)
qed

section \<open>Removing bad signatures\<close>

abbreviation signature_ok :: "('g, 'd) bls \<Rightarrow> 'd \<Rightarrow> intent \<Rightarrow> sui_committee \<Rightarrow> authority_sign_info \<Rightarrow> bool" where
  "signature_ok B d i c si \<equiv> sign_info_verify_secure B si d i c = Some (Inr ())"

lemma agg_inv_delete:
  assumes "wf_sui_committee (ag_committee ag)" "agg_inv ag" "n \<in> voters ag"
  shows "agg_inv (ag\<lparr>ag_data := AList.delete n (ag_data ag),
    ag_total_votes := u64_wrapping_sub (ag_total_votes ag) (weight (ag_committee ag) n)\<rparr>)"
proof -
  have v: "fst ` set (AList.delete n (ag_data ag)) = voters ag - {n}"
    by (auto simp: voters_def AList.delete_eq)
  have total: "ag_total_votes ag = weight (ag_committee ag) n + sum (weight (ag_committee ag)) (voters ag - {n})"
    using assms(2,3) by (simp add: agg_inv_def sum.remove [of "voters ag" n])
  moreover have "ag_total_votes ag < u64_size"
    using assms(1,2) weight_le_total_power [OF assms(1) finite_voters, of ag]
    by (simp add: agg_inv_def voting_power_defs u64_size_def)
  ultimately have "u64_wrapping_sub (ag_total_votes ag) (weight (ag_committee ag) n) = sum (weight (ag_committee ag)) (voters ag - {n})"
    by simp
  then show ?thesis
    using assms(2) v unfolding agg_inv_def by (simp add: AList.distinct_delete) (simp add: voters_def)
qed

lemma sign_info_verify_total:
  assumes "bcs_intent_message B i d \<noteq> None"
  obtains r where "sign_info_verify_secure B si d i c = Some r"
  using assms by (auto simp: sign_info_verify_secure_def add_message_def Let_def)

lemma filter_delete:
  "filter (\<lambda>(k, _). k \<notin> S) (AList.delete n m) = filter (\<lambda>(k, _). k \<notin> insert n S) m"
  by (induction m) auto

lemma remove_bad_spec:
  assumes "bcs_intent_message B i d \<noteq> None" "wf_sui_committee (ag_committee ag)" "agg_inv ag"
    and "distinct (map fst rest)" "fst ` set rest \<subseteq> voters ag"
  defines "bad \<equiv> map fst (filter (\<lambda>(_, si). \<not> signature_ok B d i (ag_committee ag) si) rest)"
  assumes "bv + sum_list (map (weight (ag_committee ag)) bad) < u64_size"
  shows "\<exists>ag'. remove_bad B d i rest ag bv ba
      = Some (bv + sum_list (map (weight (ag_committee ag)) bad), ba @ bad, ag')
    \<and> ag_data ag' = filter (\<lambda>(n, _). n \<notin> set bad) (ag_data ag) \<and> ag_committee ag' = ag_committee ag \<and> agg_inv ag'"
  using assms(2-5,7) unfolding bad_def
proof (induction rest arbitrary: ag bv ba)
  case (Cons x rest)
  obtain n si where x: "x = (n, si)" by (cases x)
  obtain r where r: "sign_info_verify_secure B si d i (ag_committee ag) = Some r"
    by (rule sign_info_verify_total [OF assms(1)])
  show ?case
  proof (cases r)
    case (Inr u)
    then show ?thesis using Cons.IH [of ag bv ba] Cons.prems by (simp add: x r)
  next
    case (Inl e)
    define ag1 where "ag1 = ag\<lparr>ag_data := AList.delete n (ag_data ag),
      ag_total_votes := u64_wrapping_sub (ag_total_votes ag) (weight (ag_committee ag) n)\<rparr>"
    have inv: "agg_inv ag1"
      unfolding ag1_def using Cons.prems by (intro agg_inv_delete) (simp_all add: x)
    have c: "ag_committee ag1 = ag_committee ag" and data: "ag_data ag1 = AList.delete n (ag_data ag)"
      by (simp_all add: ag1_def)
    have "voters ag1 = voters ag - {n}" by (auto simp: voters_def data AList.delete_eq)
    then have sub: "fst ` set rest \<subseteq> voters ag1" using Cons.prems(3,4) by (auto simp: x)
    have add: "u64_wrapping_add bv (weight (ag_committee ag) n) = bv + weight (ag_committee ag) n"
      using Cons.prems(5) Inl r by (simp add: x)
    have step: "remove_bad B d i (x # rest) ag bv ba = remove_bad B d i rest ag1 (bv + weight (ag_committee ag) n) (ba @ [n])"
      using Inl by (simp add: x r add Let_def ag1_def)
    show ?thesis
      unfolding step using Cons.IH [of ag1 "bv + weight (ag_committee ag) n" "ba @ [n]"] Cons.prems inv sub Inl r
      by (simp add: x c data filter_delete add.assoc)
  qed
qed simp

definition sig_inv :: "authority_sign_info stake_aggregator \<Rightarrow> bool" where
  "sig_inv ag \<longleftrightarrow> agg_inv ag
     \<and> list_all (\<lambda>(n, si). si_authority si = n \<and> si_epoch si = sc_epoch (ag_committee ag)) (ag_data ag)"

lemma sig_inv_new [simp]: "sig_inv (stake_aggregator_new c)"
  by (simp add: sig_inv_def)

lemma sig_inv_authorities: "sig_inv ag \<Longrightarrow> map si_authority (map snd (ag_data ag)) = map fst (ag_data ag)"
  by (auto simp: sig_inv_def list_all_iff)

lemma sig_inv_record_vote:
  assumes "sig_inv ag" "si_epoch si = sc_epoch (ag_committee ag)" "si_authority si \<notin> voters ag"
  shows "sig_inv (record_vote ag (si_authority si) si)"
  using assms agg_inv_record_vote [of ag "si_authority si" si] by (simp add: sig_inv_def)

text \<open>After the removal only the signatures that verify are left.\<close>

lemma remove_bad_all:
  assumes "bcs_intent_message B i d \<noteq> None" "wf_sui_committee (ag_committee ag)" "sig_inv ag"
  defines "bad \<equiv> map fst (filter (\<lambda>(_, si). \<not> signature_ok B d i (ag_committee ag) si) (ag_data ag))"
  shows "\<exists>ag'. remove_bad B d i (ag_data ag) ag 0 [] = Some (sum_list (map (weight (ag_committee ag)) bad), bad, ag')
    \<and> ag_data ag' = filter (\<lambda>(_, si). signature_ok B d i (ag_committee ag) si) (ag_data ag)
    \<and> ag_committee ag' = ag_committee ag \<and> sig_inv ag'"
proof -
  have inv: "agg_inv ag" and d: "distinct (map fst (ag_data ag))"
    using assms(3) by (simp_all add: sig_inv_def agg_inv_def)
  from d have "distinct bad" unfolding bad_def by (rule distinct_keys_filter)
  then have "0 + sum_list (map (weight (ag_committee ag)) bad) < u64_size"
    using sum_signers_le [OF assms(2)] by simp
  from remove_bad_spec [OF assms(1,2) inv d _ this [unfolded bad_def], of "[]"]
  obtain ag' where ag': "remove_bad B d i (ag_data ag) ag 0 [] = Some (sum_list (map (weight (ag_committee ag)) bad), bad, ag')"
    "ag_data ag' = filter (\<lambda>(n, _). n \<notin> set bad) (ag_data ag)" "ag_committee ag' = ag_committee ag" "agg_inv ag'"
    by (auto simp: voters_def bad_def)
  have "n \<notin> set bad \<longleftrightarrow> signature_ok B d i (ag_committee ag) si" if "(n, si) \<in> set (ag_data ag)" for n si
    using that d unfolding bad_def by (auto simp: image_iff dest: eq_key_imp_eq_value)
  then have data: "ag_data ag' = filter (\<lambda>(_, si). signature_ok B d i (ag_committee ag) si) (ag_data ag)"
    unfolding ag'(2) by (intro filter_cong) auto
  moreover have "sig_inv ag'" using ag'(3,4) assms(3) by (auto simp: sig_inv_def list_all_iff data)
  ultimately show ?thesis using ag'(1,3) by (intro exI [of _ ag'] conjI)
qed

section \<open>Inserting a signature\<close>

lemma quorum_verify_total:
  assumes "bcs_intent_message B i d \<noteq> None"
  obtains r where "quorum_verify_secure B STRONG q d i c = Some r"
  using assms by (auto simp: quorum_verify_secure_def add_message_def Let_def)

lemma sig_inv_infos:
  assumes "sig_inv ag"
  shows "distinct (map si_authority (map snd (ag_data ag)))" "si_authority ` set (map snd (ag_data ag)) = voters ag"
    "\<forall>si \<in> set (map snd (ag_data ag)). si_epoch si = sc_epoch (ag_committee ag)"
    "ag_total_votes ag = sum (weight (ag_committee ag)) (voters ag)"
proof -
  note a = sig_inv_authorities [OF assms]
  show "distinct (map si_authority (map snd (ag_data ag)))" unfolding a using assms by (simp add: sig_inv_def agg_inv_def)
  show "si_authority ` set (map snd (ag_data ag)) = voters ag"
    unfolding set_map [symmetric] a by (simp add: voters_def)
  show "\<forall>si \<in> set (map snd (ag_data ag)). si_epoch si = sc_epoch (ag_committee ag)"
    using assms by (auto simp: sig_inv_def list_all_iff)
  show "ag_total_votes ag = sum (weight (ag_committee ag)) (voters ag)" using assms by (simp add: sig_inv_def agg_inv_def)
qed

lemma stake_insert_rejected:
  assumes "wf_sui_committee (ag_committee ag)" "sig_inv ag"
    and "si_epoch sig \<noteq> sc_epoch (ag_committee ag) \<or> si_authority sig \<in> voters ag"
  shows "stake_insert B STRENGTH scope ag \<lparr>en_data = d, en_auth_signature = sig\<rparr> =
    Some (Failed (if si_epoch sig \<noteq> sc_epoch (ag_committee ag) then WrongEpoch (sc_epoch (ag_committee ag)) (si_epoch sig)
      else StakeAggregatorRepeatedSigner (si_authority sig) True), ag)"
proof -
  have eq: "sign_info_eq (the (map_of (ag_data ag) a)) sig"
    if "a \<in> voters ag" "si_authority sig = a" "si_epoch sig = sc_epoch (ag_committee ag)" for a
  proof -
    from that(1) obtain si where "map_of (ag_data ag) a = Some si" by (rule voter_lookup)
    moreover from this have "(a, si) \<in> set (ag_data ag)" by (rule map_of_SomeD)
    ultimately show ?thesis using that(2,3) assms(2) by (auto simp: sig_inv_def list_all_iff sign_info_eq_def)
  qed
  have inv: "agg_inv ag" using assms(2) by (simp add: sig_inv_def)
  show ?thesis using assms(3) eq
    by (auto simp: stake_insert_def insert_generic_spec [OF assms(1) inv] Let_def)
qed

lemma stake_insert_recorded:
  assumes "wf_sui_committee (ag_committee ag)" "sig_inv ag"
    and "si_epoch sig = sc_epoch (ag_committee ag)" "si_authority sig \<notin> voters ag"
  defines "ag1 \<equiv> record_vote ag (si_authority sig) sig" and "c \<equiv> ag_committee ag"
  shows "stake_insert B STRENGTH scope ag \<lparr>en_data = d, en_auth_signature = sig\<rparr> =
    (if weight c (si_authority sig) = 0 then Some (Failed InvalidAuthenticator, ag1)
     else if \<not> has_quorum STRENGTH ag1 then Some (NotEnoughVotes 0 [], ag1)
     else case new_from_auth_sign_infos B STRENGTH (map snd (ag_data ag1)) c of
         Inl e \<Rightarrow> Some (Failed e, ag1)
       | Inr q \<Rightarrow> do {
           r \<leftarrow> quorum_verify_secure B STRENGTH q d (sui_app scope) c;
           case r of
             Inr _ \<Rightarrow> Some (QuorumReached q, ag1)
           | Inl _ \<Rightarrow> do {
               (bad_votes, bad_authorities, ag) \<leftarrow> remove_bad B d (sui_app scope) (ag_data ag1) ag1 0 [];
               Some (NotEnoughVotes bad_votes bad_authorities, ag)
             }
         })"
proof -
  have inv: "agg_inv ag" using assms(2) by (simp add: sig_inv_def)
  show ?thesis using assms(3,4)
    by (simp add: stake_insert_def insert_generic_spec [OF assms(1) inv] Let_def ag1_def c_def split: sum.splits)
qed

text \<open>What a caller learns from the result.\<close>

definition insert_outcome ::
    "('g, 'd) bls \<Rightarrow> bool \<Rightarrow> intent \<Rightarrow> 'd \<Rightarrow> authority_sign_info stake_aggregator \<Rightarrow> authority_sign_info
      \<Rightarrow> 'g quorum_sign_info insert_result \<Rightarrow> authority_sign_info stake_aggregator \<Rightarrow> bool" where
  "insert_outcome B STRENGTH i d ag sig res ag' \<longleftrightarrow>
     (let c = ag_committee ag; ag1 = record_vote ag (si_authority sig) sig in
      case res of
        QuorumReached q \<Rightarrow> ag' = ag1 \<and> quorum_verify_secure B STRENGTH q d i c = Some (Inr ())
          \<and> set (signers c q) = voters ag1
      | Failed e \<Rightarrow>
          ag' = ag \<and> (si_epoch sig \<noteq> sc_epoch c \<or> si_authority sig \<in> voters ag)
          \<or> ag' = ag1 \<and> (weight c (si_authority sig) = 0 \<or> \<not> voters ag1 \<subseteq> set (authority_names c)
             \<or> (\<forall>g. agg_aggregate B (map si_signature (sort_key si_authority (map snd (ag_data ag1)))) \<noteq> Inr g))
      | NotEnoughVotes bad_votes bad_authorities \<Rightarrow>
          ag' = ag1 \<and> \<not> has_quorum STRENGTH ag1 \<and> bad_votes = 0 \<and> bad_authorities = []
          \<or> has_quorum STRENGTH ag1 \<and> ag_data ag' = filter (\<lambda>(_, si). signature_ok B d i c si) (ag_data ag1)
            \<and> bad_authorities = map fst (filter (\<lambda>(_, si). \<not> signature_ok B d i c si) (ag_data ag1))
            \<and> bad_votes = sum_list (map (weight c) bad_authorities))"

lemma stake_insert_spec:
  assumes "wf_sui_committee (ag_committee ag)" "sig_inv ag" "bcs_intent_message B (sui_app scope) d \<noteq> None"
  shows "\<exists>res ag'. stake_insert B STRENGTH scope ag \<lparr>en_data = d, en_auth_signature = sig\<rparr> = Some (res, ag')
    \<and> sig_inv ag' \<and> ag_committee ag' = ag_committee ag \<and> insert_outcome B STRENGTH (sui_app scope) d ag sig res ag'"
proof (cases "si_epoch sig \<noteq> sc_epoch (ag_committee ag) \<or> si_authority sig \<in> voters ag")
  case True
  then show ?thesis using stake_insert_rejected [OF assms(1,2) True, of B STRENGTH scope d] assms(2)
    by (simp add: insert_outcome_def Let_def)
next
  case False
  define ag1 where "ag1 = record_vote ag (si_authority sig) sig"
  have inv1: "sig_inv ag1" unfolding ag1_def using False by (intro sig_inv_record_vote assms(2)) auto
  have c1: "ag_committee ag1 = ag_committee ag" by (simp add: ag1_def)
  note infos = sig_inv_infos [OF inv1, unfolded c1]
  note run = stake_insert_recorded [OF assms(1,2), of sig B STRENGTH scope d, folded ag1_def]
  consider (zero) "weight (ag_committee ag) (si_authority sig) = 0"
    | (low) "weight (ag_committee ag) (si_authority sig) \<noteq> 0" "\<not> has_quorum STRENGTH ag1"
    | (quorum) "weight (ag_committee ag) (si_authority sig) \<noteq> 0" "has_quorum STRENGTH ag1" by blast
  then show ?thesis
  proof cases
    case zero
    then show ?thesis using run False inv1 c1 by (auto simp: insert_outcome_def Let_def ag1_def)
  next
    case low
    then show ?thesis using run False inv1 c1 by (auto simp: insert_outcome_def Let_def ag1_def)
  next
    case quorum
    show ?thesis
    proof (cases "new_from_auth_sign_infos B STRENGTH (map snd (ag_data ag1)) (ag_committee ag)")
      case (Inl e)
      have "\<not> voters ag1 \<subseteq> set (authority_names (ag_committee ag))
          \<or> (\<forall>g. agg_aggregate B (map si_signature (sort_key si_authority (map snd (ag_data ag1)))) \<noteq> Inr g)"
        using new_from_auth_sign_infos_ok [OF assms(1) infos(1,3), of STRENGTH B] quorum(2) Inl infos(4)
        unfolding infos(2) by (auto simp: has_quorum_def c1)
      then show ?thesis using run False quorum Inl inv1 c1
        by (simp add: insert_outcome_def Let_def flip: ag1_def)
    next
      case (Inr q)
      have signers: "set (signers (ag_committee ag) q) = voters ag1"
        using new_from_auth_sign_infos_spec(3) [OF assms(1) infos(1) Inr] infos(2) by simp
      obtain r where r: "quorum_verify_secure B STRENGTH q d (sui_app scope) (ag_committee ag) = Some r"
        by (rule quorum_verify_total [OF assms(3)])
      show ?thesis
      proof (cases r)
        case (Inr u)
        then show ?thesis using run False quorum \<open>new_from_auth_sign_infos _ _ _ _ = _\<close> r inv1 c1 signers
          by (simp add: insert_outcome_def Let_def flip: ag1_def)
      next
        case (Inl e)
        then show ?thesis using run False quorum \<open>new_from_auth_sign_infos _ _ _ _ = _\<close> r c1
            remove_bad_all [OF assms(3) _ inv1, unfolded c1, OF assms(1)]
          by (auto simp: insert_outcome_def Let_def simp flip: ag1_def)
      qed
    qed
  qed
qed

text \<open>When the aggregate of the recorded signatures fails to verify, the valid ones stay recorded.\<close>

lemma stake_insert_fallback:
  assumes "wf_sui_committee (ag_committee ag)" "sig_inv ag" "bcs_intent_message B (sui_app scope) d \<noteq> None"
    and "si_epoch sig = sc_epoch (ag_committee ag)" "si_authority sig \<notin> voters ag" "0 < weight (ag_committee ag) (si_authority sig)"
  defines "ag1 \<equiv> record_vote ag (si_authority sig) sig"
  assumes "new_from_auth_sign_infos B STRENGTH (map snd (ag_data ag1)) (ag_committee ag) = Inr q"
    and "quorum_verify_secure B STRENGTH q d (sui_app scope) (ag_committee ag) = Some (Inl e)"
  obtains bad_votes bad_authorities ag' where
    "stake_insert B STRENGTH scope ag \<lparr>en_data = d, en_auth_signature = sig\<rparr> = Some (NotEnoughVotes bad_votes bad_authorities, ag')"
    "ag_data ag' = filter (\<lambda>(_, si). signature_ok B d (sui_app scope) (ag_committee ag) si) (ag_data ag1)"
    "ag_committee ag' = ag_committee ag" "sig_inv ag'"
proof -
  have inv1: "sig_inv ag1" unfolding ag1_def using assms(4,5) by (intro sig_inv_record_vote assms(2)) auto
  have c1: "ag_committee ag1 = ag_committee ag" by (simp add: ag1_def)
  note infos = sig_inv_infos [OF inv1, unfolded c1]
  have "has_quorum STRENGTH ag1"
    using new_from_auth_sign_infos_spec(3,5) [OF assms(1) infos(1) assms(8)] infos(2,4) by (simp add: has_quorum_def c1)
  then show ?thesis
    using stake_insert_recorded [OF assms(1,2,4,5), of B STRENGTH scope d] assms(6,8,9) that
      remove_bad_all [OF assms(3) _ inv1, unfolded c1, OF assms(1)] by (auto simp flip: ag1_def)
qed

section \<open>Votes for several values\<close>

definition count_votes :: "bool \<Rightarrow> sui_committee \<Rightarrow> (authority_name \<times> 'k) list \<Rightarrow> 'k generic_multi_aggregator" where
  "count_votes STRENGTH c votes = foldl (\<lambda>gm (a, k). snd (generic_multi_insert STRENGTH gm a k)) (generic_multi_new c) votes"

definition counts_key :: "sui_committee \<Rightarrow> (authority_name \<times> 'k) list \<Rightarrow> ('k \<times> unit stake_aggregator) list \<Rightarrow> 'k \<Rightarrow> bool" where
  "counts_key c votes maps k \<longleftrightarrow>
     (case map_of maps k of
        None \<Rightarrow> {a. (a, k) \<in> set votes} = {}
      | Some ag \<Rightarrow> ag_committee ag = c \<and> agg_inv ag \<and> voters ag = {a. (a, k) \<in> set votes})"

definition counts :: "sui_committee \<Rightarrow> (authority_name \<times> 'k) list \<Rightarrow> 'k generic_multi_aggregator \<Rightarrow> bool" where
  "counts c votes gm \<longleftrightarrow> gm_committee gm = c
     \<and> (\<forall>k. counts_key c votes (gm_stake_maps gm) k)
     \<and> (\<forall>a. votes_for_authority gm a = card {k. (a, k) \<in> set votes})"

lemma card_values_le: "card {k. (a, k) \<in> set votes} \<le> length votes"
proof -
  have "{k. (a, k) \<in> set votes} \<subseteq> snd ` set votes" by force
  then have "card {k. (a, k) \<in> set votes} \<le> card (snd ` set votes)" by (intro card_mono) auto
  also have "\<dots> \<le> length votes" by (rule order_trans [OF card_image_le card_length]) simp
  finally show ?thesis .
qed

lemma generic_multi_insert_counts:
  assumes "wf_sui_committee c" "counts c votes gm" "length votes + 1 < u64_size"
  shows "counts c (votes @ [(a, k)]) (snd (generic_multi_insert STRENGTH gm a k))"
proof -
  define agg where "agg = (case map_of (gm_stake_maps gm) k of Some ag \<Rightarrow> ag | None \<Rightarrow> stake_aggregator_new (gm_committee gm))"
  define gm' where "gm' = snd (generic_multi_insert STRENGTH gm a k)"
  have agg: "ag_committee agg = c" "agg_inv agg" "voters agg = {a. (a, k) \<in> set votes}"
  proof -
    have "counts_key c votes (gm_stake_maps gm) k" "gm_committee gm = c"
      using assms(2) by (simp_all add: counts_def)
    then show "ag_committee agg = c" "agg_inv agg" "voters agg = {a. (a, k) \<in> set votes}"
      by (auto simp: agg_def counts_key_def split: option.splits)
  qed
  have key: "contains_key agg a \<longleftrightarrow> (a, k) \<in> set votes"
    using agg(3) by (auto simp: contains_key_def voters_def map_of_eq_None_iff)
  define ins where "ins = insert_generic (=) STRENGTH agg a ()"
  have gm': "gm_committee gm' = c" "gm_stake_maps gm' = AList.update k (snd ins) (gm_stake_maps gm)"
    "gm_votes_per_authority gm' = (if (a, k) \<in> set votes then gm_votes_per_authority gm
       else AList.update a (u64_wrapping_add (votes_for_authority gm a) 1) (gm_votes_per_authority gm))"
    using assms(2) unfolding gm'_def generic_multi_insert_def Let_def agg_def [symmetric] ins_def [symmetric] key
    by (simp_all add: counts_def case_prod_unfold votes_for_authority_def)
  have ins: "ag_committee (snd ins) = c" "agg_inv (snd ins)" "voters (snd ins) = {b. (b, k) \<in> set (votes @ [(a, k)])}"
    using insert_generic_inv [of agg "(=)" STRENGTH a "()"] agg assms(1) by (auto simp: ins_def)
  have n: "votes_for_authority gm a + 1 < u64_size"
    using assms(2,3) card_values_le [of a votes] by (simp add: counts_def)
  have "votes_for_authority gm' b = card {j. (b, j) \<in> set (votes @ [(a, k)])}" for b
  proof (cases "b = a \<and> (a, k) \<notin> set votes")
    case True
    have fin: "finite {j. (a, j) \<in> set votes}" by (rule finite_subset [of _ "snd ` set votes"]) force+
    have "{j. (b, j) \<in> set (votes @ [(a, k)])} = insert k {j. (a, j) \<in> set votes}" using True by auto
    then have "card {j. (b, j) \<in> set (votes @ [(a, k)])} = votes_for_authority gm a + 1"
      using True fin assms(2) by (simp add: counts_def)
    then show ?thesis using True n by (simp add: votes_for_authority_def [of gm'] gm'(3) map_of_update)
  next
    case False
    have "{j. (b, j) \<in> set (votes @ [(a, k)])} = {j. (b, j) \<in> set votes}" using False by auto
    moreover have "votes_for_authority gm' b = votes_for_authority gm b"
      using False by (auto simp: votes_for_authority_def gm'(3) map_of_update)
    ultimately show ?thesis using assms(2) by (simp add: counts_def)
  qed
  moreover have "counts_key c (votes @ [(a, k)]) (gm_stake_maps gm') j" for j
  proof (cases "j = k")
    case True
    then show ?thesis using ins by (simp add: counts_key_def gm'(2) map_of_update)
  next
    case False
    then have eq: "{b. (b, j) \<in> set (votes @ [(a, k)])} = {b. (b, j) \<in> set votes}" by auto
    have "counts_key c votes (gm_stake_maps gm) j" using assms(2) by (simp add: counts_def)
    then show ?thesis using False unfolding counts_key_def gm'(2) map_of_update eq by simp
  qed
  ultimately show ?thesis unfolding gm'_def [symmetric] counts_def using gm'(1) by blast
qed

lemma count_votes_spec:
  assumes "wf_sui_committee c" "length votes < u64_size"
  shows "counts c votes (count_votes STRENGTH c votes)"
  using assms(2)
proof (induction votes rule: rev_induct)
  case Nil
  show ?case by (simp add: counts_def counts_key_def count_votes_def generic_multi_new_def votes_for_authority_def)
next
  case (snoc v votes)
  then show ?case
    using generic_multi_insert_counts [OF assms(1), of votes "count_votes STRENGTH c votes" "fst v" "snd v" STRENGTH]
    by (simp add: count_votes_def case_prod_unfold)
qed

lemma multi_insert_failed:
  assumes "multi_insert B STRENGTH scope ms k env = Some (Failed e, ms')" "map_of (ms_stake_maps ms) k = None"
  shows "ms' = ms"
  using assms by (auto simp: multi_insert_def split: Option.bind_splits)

lemma multi_insert_inv:
  assumes "wf_sui_committee (ms_committee ms)" "bcs_intent_message B (sui_app scope) (en_data env) \<noteq> None"
    and "\<forall>(k, v, ag) \<in> set (ms_stake_maps ms). ag_committee ag = ms_committee ms \<and> sig_inv ag"
  shows "\<exists>res ms'. multi_insert B STRENGTH scope ms k env = Some (res, ms') \<and> ms_committee ms' = ms_committee ms
    \<and> (\<forall>(k, v, ag) \<in> set (ms_stake_maps ms'). ag_committee ag = ms_committee ms \<and> sig_inv ag)"
proof -
  define ag where "ag = (case map_of (ms_stake_maps ms) k of Some (_, ag) \<Rightarrow> ag | None \<Rightarrow> stake_aggregator_new (ms_committee ms))"
  have ag: "ag_committee ag = ms_committee ms" "sig_inv ag"
    using assms(3) by (auto simp: ag_def split: option.splits dest!: map_of_SomeD)
  have env: "\<lparr>en_data = en_data env, en_auth_signature = en_auth_signature env\<rparr> = env" by simp
  obtain res ag' where run: "stake_insert B STRENGTH scope ag env = Some (res, ag')" "sig_inv ag'" "ag_committee ag' = ms_committee ms"
    using stake_insert_spec [of ag B scope "en_data env" STRENGTH "en_auth_signature env", unfolded env]
      ag assms(1,2) by auto
  have "set (AList.update k w m) \<subseteq> insert (k, w) (set m)" for w and m :: "('a \<times> 'b \<times> authority_sign_info stake_aggregator) list"
    by (induction m) auto
  then have "\<forall>(k, v, ag) \<in> set (AList.update k (v, ag') (ms_stake_maps ms)). ag_committee ag = ms_committee ms \<and> sig_inv ag" for v
    using assms(3) run(2,3) by fastforce
  then show ?thesis using run(1) assms(3)
    by (cases "map_of (ms_stake_maps ms) k") (auto simp: multi_insert_def ag_def)
qed

section \<open>Properties\<close>

text \<open>C10: Inserting a signature never panics as long as the data can be serialised, and keeps the
  recorded votes equal to the stake of the recorded signers. A certificate is returned only if it
  verifies and has exactly the recorded signers. A repeated signer or a wrong epoch changes
  nothing. If the aggregate does not verify, exactly the signatures that do not verify alone are
  removed and their stake is reported.\<close>

theorem stake_insert_correct:
  assumes "wf_sui_committee (ag_committee ag)" "sig_inv ag" "bcs_intent_message B (sui_app scope) d \<noteq> None"
  shows "\<exists>res ag'. stake_insert B STRENGTH scope ag \<lparr>en_data = d, en_auth_signature = sig\<rparr> = Some (res, ag')
    \<and> sig_inv ag' \<and> ag_committee ag' = ag_committee ag \<and> insert_outcome B STRENGTH (sui_app scope) d ag sig res ag'"
  by (rule stake_insert_spec [OF assms])

theorem stake_insert_correct_witness:
  "\<exists>res ag'. stake_insert toy_bls True 4 (stake_aggregator_new example_sui_committee)
      \<lparr>en_data = 6, en_auth_signature = hd example_infos\<rparr> = Some (res, ag') \<and> sig_inv ag'"
  using stake_insert_correct [of "stake_aggregator_new example_sui_committee" toy_bls 4 6 True "hd example_infos"]
  by (auto simp: toy_bls_def)

text \<open>C29: With valid signatures, one or more of which can always be aggregated, the aggregator is exact: if
  all recorded signatures and the new one verify, the insertion returns a certificate exactly when the stake of all signers reaches the
  threshold, and otherwise reports that there are not enough votes.\<close>

theorem stake_insert_quorum_exact:
  assumes "wf_sui_committee (ag_committee ag)" "sig_inv ag" "bls_complete B"
    and "\<forall>si \<in> set (sig # map snd (ag_data ag)). sign_info_verify_secure B si d (sui_app scope) (ag_committee ag) = Some (Inr ())"
    and "si_authority sig \<notin> voters ag"
  shows "\<exists>q. stake_insert B STRENGTH scope ag \<lparr>en_data = d, en_auth_signature = sig\<rparr>
      = Some (if threshold STRENGTH (ag_committee ag) \<le> sum (weight (ag_committee ag)) (insert (si_authority sig) (voters ag))
          then QuorumReached q else NotEnoughVotes 0 [], record_vote ag (si_authority sig) sig)"
proof -
  let ?c = "ag_committee ag" and ?ag1 = "record_vote ag (si_authority sig) sig"
  have sig: "si_epoch sig = sc_epoch ?c" "0 < weight ?c (si_authority sig)"
    using assms(4) by (simp_all add: sign_info_verify_iff [OF assms(1)])
  have inv1: "sig_inv ?ag1" using assms(2) sig(1) assms(5) by (rule sig_inv_record_vote)
  note infos = sig_inv_infos [OF inv1, unfolded record_vote_sel(2,3)]
  have quorum: "has_quorum STRENGTH ?ag1 \<longleftrightarrow> threshold STRENGTH ?c \<le> sum (weight ?c) (insert (si_authority sig) (voters ag))"
    using infos(4) by (simp add: has_quorum_def)
  show ?thesis
  proof (cases "has_quorum STRENGTH ?ag1")
    case True
    have "\<forall>si \<in> set (map snd (ag_data ?ag1)). sign_info_verify_secure B si d (sui_app scope) ?c = Some (Inr ())"
      using assms(4) by auto
    from valid_signatures_spec [OF assms(1,3) infos(1) this] True quorum infos(2)
    obtain q where "new_from_auth_sign_infos B STRENGTH (map snd (ag_data ?ag1)) ?c = Inr q"
      "quorum_verify_secure B STRENGTH q d (sui_app scope) ?c = Some (Inr ())" by metis
    then show ?thesis using True quorum sig(2) stake_insert_recorded [OF assms(1,2) sig(1) assms(5), of B STRENGTH scope d]
      by auto
  next
    case False
    then show ?thesis using quorum sig(2) stake_insert_recorded [OF assms(1,2) sig(1) assms(5), of B STRENGTH scope d] by auto
  qed
qed

lemma example_two_votes:
  defines "ag \<equiv> record_vote (record_vote (stake_aggregator_new example_sui_committee) 1 (example_infos ! 1)) 2 (example_infos ! 2)"
  shows "sig_inv ag" "voters ag = {1, 2}" "ag_committee ag = example_sui_committee"
    "map snd (ag_data ag) = [example_infos ! 1, example_infos ! 2]"
proof -
  have 1: "sig_inv (record_vote (stake_aggregator_new example_sui_committee) 1 (example_infos ! 1))"
    using sig_inv_record_vote [of "stake_aggregator_new example_sui_committee" "example_infos ! 1"] by (simp add: example_infos_def)
  show "sig_inv ag"
    using sig_inv_record_vote [OF 1, of "example_infos ! 2"] by (simp add: ag_def example_infos_def)
  show "voters ag = {1, 2}" "ag_committee ag = example_sui_committee" "map snd (ag_data ag) = [example_infos ! 1, example_infos ! 2]"
    by (auto simp: ag_def)
qed

theorem stake_insert_quorum_exact_witness:
  "\<exists>q ag'. stake_insert toy_bls True 4
      (record_vote (record_vote (stake_aggregator_new example_sui_committee) 1 (example_infos ! 1)) 2 (example_infos ! 2))
      \<lparr>en_data = 6, en_auth_signature = example_infos ! 0\<rparr> = Some (QuorumReached q, ag')"
proof -
  let ?ag = "record_vote (record_vote (stake_aggregator_new example_sui_committee) 1 (example_infos ! 1)) 2 (example_infos ! 2)"
  note ag = example_two_votes
  have set: "set (example_infos ! 0 # map snd (ag_data ?ag)) = set example_infos"
    unfolding ag(4) by (simp add: example_infos_def)
  have "\<forall>si \<in> set (example_infos ! 0 # map snd (ag_data ?ag)).
      sign_info_verify_secure toy_bls si 6 (sui_app 4) (ag_committee ?ag) = Some (Inr ())"
    unfolding set ag(3) by (rule example_infos_verify)
  moreover have "wf_sui_committee (ag_committee ?ag)" unfolding ag(3) by simp
  moreover have "si_authority (example_infos ! 0) \<notin> voters ?ag" unfolding ag(2) by (simp add: example_infos_def)
  ultimately obtain q where "stake_insert toy_bls True 4 ?ag \<lparr>en_data = 6, en_auth_signature = example_infos ! 0\<rparr>
      = Some (if threshold True (ag_committee ?ag) \<le> sum (weight (ag_committee ?ag)) (insert (si_authority (example_infos ! 0)) (voters ?ag))
          then QuorumReached q else NotEnoughVotes 0 [], record_vote ?ag (si_authority (example_infos ! 0)) (example_infos ! 0))"
    using stake_insert_quorum_exact [OF _ ag(1) toy_bls_complete] by blast
  moreover have "threshold True (ag_committee ?ag) \<le> sum (weight (ag_committee ?ag)) (insert (si_authority (example_infos ! 0)) (voters ?ag))"
    unfolding ag(2,3) by (simp add: example_infos_def example_weight threshold_def voting_power_defs)
  ultimately show ?thesis by simp
qed

text \<open>C33: A quorum of valid signatures may go unnoticed. If the aggregate over the recorded
  signatures does not verify but the signatures that do verify reach the threshold without the
  bad ones, the insertion still reports not enough votes, although afterwards the aggregator has
  a quorum and all its signatures verify: the certificate is only formed by a later insertion.\<close>

theorem stake_insert_misses_quorum:
  assumes "wf_sui_committee (ag_committee ag)" "sig_inv ag" "bcs_intent_message B (sui_app scope) d \<noteq> None"
    and "si_epoch sig = sc_epoch (ag_committee ag)" "si_authority sig \<notin> voters ag" "0 < weight (ag_committee ag) (si_authority sig)"
    and "new_from_auth_sign_infos B STRENGTH (map snd (ag_data (record_vote ag (si_authority sig) sig))) (ag_committee ag) = Inr q"
    and "quorum_verify_secure B STRENGTH q d (sui_app scope) (ag_committee ag) = Some (Inl e)"
    and "threshold STRENGTH (ag_committee ag)
      \<le> sum_list (map (\<lambda>(a, si). if signature_ok B d (sui_app scope) (ag_committee ag) si then weight (ag_committee ag) a else 0)
          (ag_data (record_vote ag (si_authority sig) sig)))"
  shows "\<exists>bad_votes bad_authorities ag'.
      stake_insert B STRENGTH scope ag \<lparr>en_data = d, en_auth_signature = sig\<rparr> = Some (NotEnoughVotes bad_votes bad_authorities, ag')
    \<and> has_quorum STRENGTH ag' \<and> list_all (\<lambda>(_, si). signature_ok B d (sui_app scope) (ag_committee ag) si) (ag_data ag')"
proof -
  let ?ok = "\<lambda>(_, si). signature_ok B d (sui_app scope) (ag_committee ag) si"
  obtain bad_votes bad_authorities ag' where ag':
    "stake_insert B STRENGTH scope ag \<lparr>en_data = d, en_auth_signature = sig\<rparr> = Some (NotEnoughVotes bad_votes bad_authorities, ag')"
    "ag_data ag' = filter ?ok (ag_data (record_vote ag (si_authority sig) sig))"
    "ag_committee ag' = ag_committee ag" "sig_inv ag'"
    by (rule stake_insert_fallback [OF assms(1-8)])
  have total: "ag_total_votes ag' = sum_list (map (weight (ag_committee ag)) (map fst (ag_data ag')))"
    using ag'(3,4) by (simp add: sig_inv_def agg_inv_def voters_def sum_list_distinct_conv_sum_set del: map_map)
  have ok: "sum_list (map (\<lambda>(a, si). if signature_ok B d (sui_app scope) (ag_committee ag) si then weight (ag_committee ag) a else 0) m)
      = sum_list (map (weight (ag_committee ag)) (map fst (filter ?ok m)))" for m
    by (induction m) auto
  have "has_quorum STRENGTH ag'"
    unfolding has_quorum_def ag'(3) total ag'(2) ok [symmetric] by (rule assms(9))
  then show ?thesis using ag'(1,2) by (auto simp: list_all_iff)
qed

definition uneven_committee :: sui_committee where
  "uneven_committee = \<lparr>sc_epoch = 7, voting_rights = [(1, 100), (2, 6500), (3, 500), (4, 2900)],
     expanded_keys = [(1, 101), (2, 102), (3, 103), (4, 104)], index_map = [(1, 0), (2, 1), (3, 2), (4, 3)]\<rparr>"

lemma uneven_committee_sel [simp]:
  "sc_epoch uneven_committee = 7" "voting_rights uneven_committee = [(1, 100), (2, 6500), (3, 500), (4, 2900)]"
  "expanded_keys uneven_committee = [(1, 101), (2, 102), (3, 103), (4, 104)]"
  "index_map uneven_committee = [(1, 0), (2, 1), (3, 2), (4, 3)]"
  by (simp_all add: uneven_committee_def)

lemma uneven_committee_wf [simp]: "wf_sui_committee uneven_committee"
  by (simp add: wf_sui_committee_def voting_power_defs upt_rec)

lemma uneven_weight:
  "weight uneven_committee a = (if a = 1 then 100 else if a = 2 then 6500 else if a = 3 then 500 else if a = 4 then 2900 else 0)"
  unfolding weight_lookup [OF wf_sui_committeeD(1) [OF uneven_committee_wf]] by simp

definition sign_as :: "nat \<Rightarrow> authority_name \<Rightarrow> nat \<Rightarrow> authority_sign_info" where
  "sign_as epoch a signature = \<lparr>si_epoch = epoch, si_authority = a, si_signature = signature\<rparr>"

text \<open>Authority 1 sent a bad signature, authority 2 a good one; then the good one of 3 arrives.\<close>

definition one_bad_vote :: "authority_sign_info stake_aggregator" where
  "one_bad_vote = record_vote (record_vote (stake_aggregator_new uneven_committee) 1 (sign_as 7 1 0)) 2 (sign_as 7 2 119)"

lemma one_bad_vote_sel [simp]:
  "ag_data one_bad_vote = [(1, sign_as 7 1 0), (2, sign_as 7 2 119)]" "ag_committee one_bad_vote = uneven_committee"
  "voters one_bad_vote = {1, 2}"
  by (auto simp: one_bad_vote_def)

lemma one_bad_vote_inv: "sig_inv one_bad_vote"
proof -
  have "sig_inv (record_vote (stake_aggregator_new uneven_committee) 1 (sign_as 7 1 0))"
    using sig_inv_record_vote [of "stake_aggregator_new uneven_committee" "sign_as 7 1 0"] by (simp add: sign_as_def)
  from sig_inv_record_vote [OF this, of "sign_as 7 2 119"] show ?thesis by (simp add: one_bad_vote_def sign_as_def)
qed

lemma toy_signature_ok:
  "signature_ok toy_bls 6 (sui_app 4) uneven_committee (sign_as 7 a s) \<longleftrightarrow> a \<in> {1, 2, 3, 4} \<and> s = a + 117"
proof -
  have "signature_ok toy_bls 6 (sui_app 4) uneven_committee (sign_as 7 a s)
      \<longleftrightarrow> 0 < weight uneven_committee a \<and> s = key_of_member uneven_committee a + 17"
    unfolding sign_info_verify_iff [OF uneven_committee_wf] by (auto simp: toy_bls_def sui_app_def sign_as_def)
  then show ?thesis by (auto simp: uneven_weight key_of_member_def)
qed

definition bad_cert :: "nat list quorum_sign_info" where
  "bad_cert = \<lparr>qs_epoch = 7, qs_signature = [0, 119, 120], signers_map = [0, 1, 2]\<rparr>"

lemma uneven_indices [simp]:
  "authority_index uneven_committee (Suc 0) = Some 0" "authority_index uneven_committee 2 = Some 1"
  "authority_index uneven_committee 3 = Some 2"
  by (simp_all add: authority_index_def)

lemma bad_cert_built:
  "new_from_auth_sign_infos toy_bls True (map snd (ag_data (record_vote one_bad_vote 3 (sign_as 7 3 120)))) uneven_committee = Inr bad_cert"
proof -
  have "u64_wrapping_sum [100, 6500, 500] = 7100" by (simp add: u64_size_def)
  moreover have "signers_bitmap uneven_committee [1, 2, 3] [] = Inr [0, 1, 2]" by (simp add: insort_insert_key_def)
  moreover have "bt_of_list [(1, 0), (2, 119), (3 :: nat, 120 :: nat)] = [(1, 0), (2, 119), (3, 120)]" by simp
  ultimately show ?thesis
    unfolding new_from_auth_sign_infos_def Let_def
    by (simp add: sign_as_def uneven_weight threshold_def voting_power_defs toy_bls_def bad_cert_def)
qed

lemma bad_cert_rejected:
  "\<exists>e. quorum_verify_secure toy_bls True bad_cert 6 (sui_app 4) uneven_committee = Some (Inl e)"
proof -
  have "\<not> (quorum_verify_secure toy_bls True bad_cert 6 (sui_app 4) uneven_committee = Some (Inr ()))"
    by (subst quorum_verify_iff [OF uneven_committee_wf])
      (simp_all add: bad_cert_def toy_bls_def signers_def key_of_member_def)
  moreover obtain r where "quorum_verify_secure toy_bls True bad_cert 6 (sui_app 4) uneven_committee = Some r"
    by (rule quorum_verify_total [of toy_bls "sui_app 4" 6]) (simp add: toy_bls_def)
  ultimately show ?thesis by (cases r) auto
qed

theorem stake_insert_misses_quorum_witness:
  "\<exists>bad_votes bad_authorities ag'.
      stake_insert toy_bls True 4 one_bad_vote \<lparr>en_data = 6, en_auth_signature = sign_as 7 3 120\<rparr>
        = Some (NotEnoughVotes bad_votes bad_authorities, ag') \<and> has_quorum True ag'"
proof -
  obtain e where e: "quorum_verify_secure toy_bls True bad_cert 6 (sui_app 4) uneven_committee = Some (Inl e)"
    using bad_cert_rejected by blast
  have sel: "si_authority (sign_as 7 3 120) = 3" "si_epoch (sign_as 7 3 120) = 7" by (simp_all add: sign_as_def)
  have ok: "threshold True uneven_committee
      \<le> sum_list (map (\<lambda>(a, si). if signature_ok toy_bls 6 (sui_app 4) uneven_committee si then weight uneven_committee a else 0)
          (ag_data (record_vote one_bad_vote 3 (sign_as 7 3 120))))"
    by (simp add: toy_signature_ok uneven_weight threshold_def voting_power_defs)
  have bcs: "bcs_intent_message toy_bls (sui_app 4) 6 \<noteq> None" by (simp add: toy_bls_def)
  have "3 \<notin> voters one_bad_vote" "0 < weight uneven_committee 3" by (simp_all add: uneven_weight)
  from stake_insert_misses_quorum [where sig = "sign_as 7 3 120", unfolded sel, OF _ one_bad_vote_inv bcs, unfolded one_bad_vote_sel(2),
      OF uneven_committee_wf _ this bad_cert_built e ok]
  show ?thesis by auto
qed

text \<open>C34: The vote of a non-member blocks a signature aggregator for good: it is recorded although
  its insertion fails, and from then on no insertion returns a certificate, because the
  aggregate cannot be built over an unknown signer and the vote is never removed.\<close>

theorem non_member_blocks_quorum:
  assumes "wf_sui_committee (ag_committee ag)" "sig_inv ag" "x \<notin> set (authority_names (ag_committee ag))"
  shows "(x \<in> voters ag \<longrightarrow> (\<exists>res ag'. stake_insert B STRENGTH scope ag \<lparr>en_data = d, en_auth_signature = sig\<rparr> = Some (res, ag')
          \<and> \<not> is_quorum_reached res \<and> x \<in> voters ag'))
    \<and> (x \<notin> voters ag \<and> si_authority sig = x \<and> si_epoch sig = sc_epoch (ag_committee ag)
        \<longrightarrow> stake_insert B STRENGTH scope ag \<lparr>en_data = d, en_auth_signature = sig\<rparr>
              = Some (Failed InvalidAuthenticator, record_vote ag x sig))"
proof (intro conjI impI)
  assume x: "x \<in> voters ag"
  let ?run = "stake_insert B STRENGTH scope ag \<lparr>en_data = d, en_auth_signature = sig\<rparr>"
  show "\<exists>res ag'. ?run = Some (res, ag') \<and> \<not> is_quorum_reached res \<and> x \<in> voters ag'"
  proof (cases "si_epoch sig \<noteq> sc_epoch (ag_committee ag) \<or> si_authority sig \<in> voters ag")
    case True
    then show ?thesis using stake_insert_rejected [OF assms(1,2) True, of B STRENGTH scope d] x by simp
  next
    case False
    let ?ag1 = "record_vote ag (si_authority sig) sig"
    have new: "si_epoch sig = sc_epoch (ag_committee ag)" "si_authority sig \<notin> voters ag" using False by auto
    note infos = sig_inv_infos [OF sig_inv_record_vote [OF assms(2) new], unfolded record_vote_sel(2,3)]
    have "new_from_auth_sign_infos B STRENGTH (map snd (ag_data ?ag1)) (ag_committee ag) \<noteq> Inr q" for q
    proof
      assume "new_from_auth_sign_infos B STRENGTH (map snd (ag_data ?ag1)) (ag_committee ag) = Inr q"
      note spec = new_from_auth_sign_infos_spec(3,4) [OF assms(1) infos(1) this]
      have "x \<in> set (signers (ag_committee ag) q)" using spec(1) infos(2) x by simp
      then show False using spec(2) assms(3) nth_name_in by (auto simp: signers_def list_all_iff)
    qed
    then obtain e where "new_from_auth_sign_infos B STRENGTH (map snd (ag_data ?ag1)) (ag_committee ag) = Inl e"
      by (meson sumE)
    then show ?thesis using stake_insert_recorded [OF assms(1,2) new, of B STRENGTH scope d] x by auto
  qed
next
  assume x: "x \<notin> voters ag \<and> si_authority sig = x \<and> si_epoch sig = sc_epoch (ag_committee ag)"
  have "weight (ag_committee ag) x = 0" using sui_quorum.stake_outside [OF assms(1,3)] .
  then show "stake_insert B STRENGTH scope ag \<lparr>en_data = d, en_auth_signature = sig\<rparr> = Some (Failed InvalidAuthenticator, record_vote ag x sig)"
    using stake_insert_recorded [OF assms(1,2), of sig B STRENGTH scope d] x by simp
qed

theorem non_member_blocks_quorum_witness:
  "stake_insert toy_bls True 4 one_bad_vote \<lparr>en_data = 6, en_auth_signature = sign_as 7 9 0\<rparr>
     = Some (Failed InvalidAuthenticator, record_vote one_bad_vote 9 (sign_as 7 9 0))"
proof -
  have "9 \<notin> set (authority_names (ag_committee one_bad_vote))" "wf_sui_committee (ag_committee one_bad_vote)"
    by (simp_all add: authority_names_def)
  from non_member_blocks_quorum [OF this(2) one_bad_vote_inv this(1), of toy_bls True 4 6 "sign_as 7 9 0"]
  show ?thesis by (simp add: sign_as_def)
qed

text \<open>C32: Counting votes for several values: after any sequence of votes a value has a quorum exactly
  when the distinct authorities that voted for it hold the threshold of stake, and the number of
  votes of an authority is the number of distinct values it voted for.\<close>

theorem count_votes_correct:
  assumes "wf_sui_committee c" "length votes < u64_size"
  shows "(has_quorum_for_key STRENGTH (count_votes STRENGTH c votes) k
      \<longleftrightarrow> threshold STRENGTH c \<le> sum (weight c) {a. (a, k) \<in> set votes})
    \<and> votes_for_authority (count_votes STRENGTH c votes) a = card {k. (a, k) \<in> set votes}"
proof -
  let ?gm = "count_votes STRENGTH c votes"
  have counts: "counts_key c votes (gm_stake_maps ?gm) k" "votes_for_authority ?gm a = card {k. (a, k) \<in> set votes}"
    using count_votes_spec [OF assms, of STRENGTH] by (simp_all add: counts_def)
  have "0 < threshold STRENGTH c" by (simp add: threshold_def voting_power_defs)
  then have "has_quorum_for_key STRENGTH ?gm k \<longleftrightarrow> threshold STRENGTH c \<le> sum (weight c) {a. (a, k) \<in> set votes}"
    using counts(1) by (auto simp: has_quorum_for_key_def counts_key_def has_quorum_def agg_inv_def split: option.splits)
  then show ?thesis using counts(2) by simp
qed

theorem count_votes_correct_witness:
  "has_quorum_for_key True (count_votes True uneven_committee [(2, ''x''), (3, ''y''), (3, ''x''), (2, ''x'')]) ''x''
   \<and> votes_for_authority (count_votes True uneven_committee [(2, ''x''), (3, ''y''), (3, ''x''), (2, ''x'')]) 3 = 2"
proof -
  let ?votes = "[(2, ''x''), (3, ''y''), (3, ''x''), (2, ''x'')] :: (nat \<times> string) list"
  have "{a. (a, ''x'') \<in> set ?votes} = {2, 3}" "{k. (3, k) \<in> set ?votes} = {''x'', ''y''}" by auto
  moreover have "length ?votes < u64_size" by (simp add: u64_size_def)
  ultimately show ?thesis
    using count_votes_correct [OF uneven_committee_wf, of ?votes True "''x''" 3]
    by (simp add: uneven_weight threshold_def voting_power_defs)
qed

end
