(* ===== verification/Sui_Multisig.thy ===== *)
theory Sui_Multisig
  imports Sui_Prelude "HOL-Library.Word"
begin

text \<open>
  User multi-signatures: \<open>crates/sui-types/src/multisig.rs\<close>, with the keys and signatures of
  \<open>crypto.rs\<close> it combines.

  A multi-signature is a list of signatures, a bitmap that says whose they are, and the public keys
  with their weights and a threshold. The bitmap, the weights and the threshold are words of the
  width they have in the code. Parsing, verifying and hashing are the cryptographic library's and
  stay parameters; bytes are natural numbers. Verification accepts exactly the multi-signatures
  whose checked signatures are valid for different keys that weigh the threshold, and combining
  signatures in the order of their keys gives one that verifies.
\<close>

unbundle bit_operations_syntax

section \<open>Keys and signatures\<close>

datatype signature_scheme = ED25519 | Secp256k1 | Secp256r1 | BLS12381 | MultiSigScheme | ZkLoginAuthenticator

fun scheme_flag :: "signature_scheme \<Rightarrow> nat" where
  "scheme_flag ED25519 = 0"
| "scheme_flag Secp256k1 = 1"
| "scheme_flag Secp256r1 = 2"
| "scheme_flag MultiSigScheme = 3"
| "scheme_flag BLS12381 = 4"
| "scheme_flag ZkLoginAuthenticator = 5"

datatype user_public_key =
    Ed25519Key (key_bytes: "nat list") | Secp256k1Key (key_bytes: "nat list") | Secp256r1Key (key_bytes: "nat list")

fun public_key_scheme :: "user_public_key \<Rightarrow> signature_scheme" where
  "public_key_scheme (Ed25519Key _) = ED25519"
| "public_key_scheme (Secp256k1Key _) = Secp256k1"
| "public_key_scheme (Secp256r1Key _) = Secp256r1"

datatype compressed_signature = CompressedEd25519 "nat list" | CompressedSecp256k1 "nat list" | CompressedSecp256r1 "nat list"

text \<open>A signature with its key: \<open>flag || signature || key\<close>.\<close>

datatype user_signature = Ed25519SuiSignature "nat list" | Secp256k1SuiSignature "nat list" | Secp256r1SuiSignature "nat list"

text \<open>What the cryptographic library and the serialiser do: the bytes of a parsed key or signature, whether a
  signature verifies, the length of a signature, the hash, and the bytes of a message.\<close>

record 'm user_crypto =
  uc_key_from :: "signature_scheme \<Rightarrow> nat list \<Rightarrow> nat list option"
  uc_sig_from :: "signature_scheme \<Rightarrow> nat list \<Rightarrow> nat list option"
  uc_verify :: "signature_scheme \<Rightarrow> nat list \<Rightarrow> nat list \<Rightarrow> nat list \<Rightarrow> bool"
  uc_sig_length :: "signature_scheme \<Rightarrow> nat"
  uc_hash :: "nat list \<Rightarrow> nat list"
  uc_message :: "'m \<Rightarrow> nat list option"

datatype signature_reason = Reason string | InvalidFor user_public_key | InsufficientWeight nat

datatype multisig_error = InvalidSignature signature_reason | IncorrectSigner user_public_key | KeyConversionError string

definition to_compressed :: "'m user_crypto \<Rightarrow> user_signature \<Rightarrow> (multisig_error, compressed_signature) result" where
  "to_compressed C s =
     (let parse = (\<lambda>scheme bytes wrap. case uc_sig_from C scheme (take (uc_sig_length C scheme) (drop 1 bytes)) of
            None \<Rightarrow> Inl (InvalidSignature (Reason ''Cannot parse sig'')) | Some sig \<Rightarrow> Inr (wrap sig))
      in case s of
           Ed25519SuiSignature bytes \<Rightarrow> parse ED25519 bytes CompressedEd25519
         | Secp256k1SuiSignature bytes \<Rightarrow> parse Secp256k1 bytes CompressedSecp256k1
         | Secp256r1SuiSignature bytes \<Rightarrow> parse Secp256r1 bytes CompressedSecp256r1)"

definition to_public_key :: "'m user_crypto \<Rightarrow> user_signature \<Rightarrow> (multisig_error, user_public_key) result" where
  "to_public_key C s =
     (let parse = (\<lambda>scheme bytes wrap. case uc_key_from C scheme (drop (uc_sig_length C scheme + 1) bytes) of
            None \<Rightarrow> Inl (KeyConversionError ''Cannot parse pk'') | Some key \<Rightarrow> Inr (wrap key))
      in case s of
           Ed25519SuiSignature bytes \<Rightarrow> parse ED25519 bytes Ed25519Key
         | Secp256k1SuiSignature bytes \<Rightarrow> parse Secp256k1 bytes Secp256k1Key
         | Secp256r1SuiSignature bytes \<Rightarrow> parse Secp256r1 bytes Secp256r1Key)"

section \<open>The public key of a multi-signature\<close>

abbreviation (input) MAX_SIGNER_IN_MULTISIG :: nat where "MAX_SIGNER_IN_MULTISIG \<equiv> 10"

abbreviation (input) MAX_BITMAP_VALUE :: "16 word" where "MAX_BITMAP_VALUE \<equiv> 1023"

record multisig_public_key =
  pk_map :: "(user_public_key \<times> 8 word) list"
  mk_threshold :: "16 word"

definition multisig_pk_new :: "user_public_key list \<Rightarrow> 8 word list \<Rightarrow> 16 word \<Rightarrow> (multisig_error, multisig_public_key) result" where
  "multisig_pk_new pks weights threshold =
     (if pks = [] \<or> weights = [] \<or> threshold = 0 \<or> length pks \<noteq> length weights \<or> length pks > MAX_SIGNER_IN_MULTISIG
         \<or> list_ex (\<lambda>w. w = 0) weights \<or> sum_list (map (\<lambda>w. ucast w) weights) < threshold
         \<or> list_ex (\<lambda>(i, pk). pk \<in> set (drop (i + 1) pks)) (enumerate 0 pks)
      then Inl (InvalidSignature (Reason ''Invalid multisig public key construction''))
      else Inr \<lparr>pk_map = zip pks weights, mk_threshold = threshold\<rparr>)"

definition get_index :: "multisig_public_key \<Rightarrow> user_public_key \<Rightarrow> nat option" where
  "get_index mpk pk = map_option (\<lambda>i. i mod 256) (position (\<lambda>x. fst x = pk) (pk_map mpk))"

definition multisig_pk_validate :: "multisig_public_key \<Rightarrow> (string, unit) result" where
  "multisig_pk_validate mpk =
     (if mk_threshold mpk = 0 \<or> pk_map mpk = [] \<or> length (pk_map mpk) > MAX_SIGNER_IN_MULTISIG
         \<or> list_ex (\<lambda>(_, w). w = 0) (pk_map mpk) \<or> sum_list (map (\<lambda>(_, w). ucast w) (pk_map mpk)) < mk_threshold mpk
         \<or> list_ex (\<lambda>(i, (pk, _)). pk \<in> set (map fst (drop (i + 1) (pk_map mpk)))) (enumerate 0 (pk_map mpk))
      then Inl ''InvalidInput'' else Inr ())"

text \<open>The address is the hash of the flag, the threshold and every key with its flag and weight.\<close>

definition multisig_address :: "'m user_crypto \<Rightarrow> multisig_public_key \<Rightarrow> nat list" where
  "multisig_address C mpk = uc_hash C ([scheme_flag MultiSigScheme] @ [unat (mk_threshold mpk) mod 256, unat (mk_threshold mpk) div 256]
     @ concat (map (\<lambda>(pk, w). [scheme_flag (public_key_scheme pk)] @ key_bytes pk @ [unat w]) (pk_map mpk)))"

section \<open>Multi-signatures\<close>

record multisig =
  ms_sigs :: "compressed_signature list"
  ms_bitmap :: "16 word"
  ms_pk :: multisig_public_key

definition multisig_validate :: "multisig \<Rightarrow> (string, unit) result" where
  "multisig_validate ms =
     (if length (ms_sigs ms) > length (pk_map (ms_pk ms)) \<or> ms_sigs ms = [] \<or> ms_bitmap ms > MAX_BITMAP_VALUE
      then Inl ''InvalidInput'' else multisig_pk_validate (ms_pk ms))"

definition as_indices :: "16 word \<Rightarrow> (multisig_error, nat list) result" where
  "as_indices bitmap =
     (if bitmap > MAX_BITMAP_VALUE then Inl (InvalidSignature (Reason ''Invalid bitmap''))
      else Inr (filter (\<lambda>i. bitmap AND push_bit i 1 \<noteq> 0) [0..<10]))"

text \<open>The scheme is the signature's: the bytes of the key are parsed under it.\<close>

definition verify_single :: "'m user_crypto \<Rightarrow> nat list \<Rightarrow> compressed_signature \<Rightarrow> user_public_key \<Rightarrow> (multisig_error, bool) result" where
  "verify_single C digest sig pk =
     (let (scheme, s) = (case sig of
            CompressedEd25519 s \<Rightarrow> (ED25519, s) | CompressedSecp256k1 s \<Rightarrow> (Secp256k1, s) | CompressedSecp256r1 s \<Rightarrow> (Secp256r1, s))
      in case uc_key_from C scheme (key_bytes pk) of
           None \<Rightarrow> Inl (InvalidSignature (Reason ''Invalid public key''))
         | Some key \<Rightarrow> (case uc_sig_from C scheme s of
               None \<Rightarrow> Inl (InvalidSignature (Reason ''Fail to verify single sig''))
             | Some sig \<Rightarrow> Inr (uc_verify C scheme key digest sig)))"

fun verify_sigs :: "'m user_crypto \<Rightarrow> nat list \<Rightarrow> (user_public_key \<times> 8 word) list \<Rightarrow> (compressed_signature \<times> nat) list \<Rightarrow> 16 word
    \<Rightarrow> (multisig_error, 16 word) result" where
  "verify_sigs C digest pks [] weight_sum = Inr weight_sum"
| "verify_sigs C digest pks ((sig, i) # rest) weight_sum =
     (if \<not> i < length pks then Inl (InvalidSignature (Reason ''Invalid public keys index''))
      else case pks ! i of (pk, weight) \<Rightarrow> (case verify_single C digest sig pk of
          Inl e \<Rightarrow> Inl e
        | Inr ok \<Rightarrow> if ok then verify_sigs C digest pks rest (weight_sum + ucast weight) else Inl (InvalidSignature (InvalidFor pk))))"

definition verify_claims :: "'m user_crypto \<Rightarrow> multisig \<Rightarrow> 'm \<Rightarrow> nat list \<Rightarrow> (multisig_error, unit) result option" where
  "verify_claims C ms value author =
     (case multisig_validate ms of
        Inl _ \<Rightarrow> Some (Inl (InvalidSignature (Reason ''Invalid multisig'')))
      | Inr _ \<Rightarrow>
          if multisig_address C (ms_pk ms) \<noteq> author then Some (Inl (InvalidSignature (Reason ''Invalid address'')))
          else do {
            message \<leftarrow> uc_message C value;
            let digest = uc_hash C message;
            Some (case as_indices (ms_bitmap ms) of
                Inl e \<Rightarrow> Inl e
              | Inr indices \<Rightarrow> (case verify_sigs C digest (pk_map (ms_pk ms)) (zip (ms_sigs ms) indices) 0 of
                    Inl e \<Rightarrow> Inl e
                  | Inr weight_sum \<Rightarrow>
                      if mk_threshold (ms_pk ms) \<le> weight_sum then Inr ()
                      else Inl (InvalidSignature (InsufficientWeight (unat weight_sum)))))
          })"

fun combine_sigs :: "'m user_crypto \<Rightarrow> multisig_public_key \<Rightarrow> user_signature list \<Rightarrow> 16 word \<Rightarrow> compressed_signature list
    \<Rightarrow> (multisig_error, 16 word \<times> compressed_signature list) result" where
  "combine_sigs C mpk [] bitmap sigs = Inr (bitmap, sigs)"
| "combine_sigs C mpk (s # rest) bitmap sigs =
     (case to_public_key C s of
        Inl e \<Rightarrow> Inl e
      | Inr pk \<Rightarrow> (case get_index mpk pk of
            None \<Rightarrow> Inl (IncorrectSigner pk)
          | Some index \<Rightarrow>
              if bitmap AND push_bit index 1 \<noteq> 0 then Inl (InvalidSignature (Reason ''Duplicate public key''))
              else case to_compressed C s of
                  Inl e \<Rightarrow> Inl e
                | Inr sig \<Rightarrow> combine_sigs C mpk rest (bitmap OR push_bit index 1) (sigs @ [sig])))"

definition combine :: "'m user_crypto \<Rightarrow> user_signature list \<Rightarrow> multisig_public_key \<Rightarrow> (multisig_error, multisig) result" where
  "combine C full_sigs mpk =
     (case multisig_pk_validate mpk of
        Inl _ \<Rightarrow> Inl (InvalidSignature (Reason ''Invalid multisig public key''))
      | Inr _ \<Rightarrow>
          if length full_sigs > length (pk_map mpk) \<or> full_sigs = [] then Inl (InvalidSignature (Reason ''Invalid number of signatures''))
          else case combine_sigs C mpk full_sigs 0 [] of
              Inl e \<Rightarrow> Inl e
            | Inr (bitmap, sigs) \<Rightarrow> Inr \<lparr>ms_sigs = sigs, ms_bitmap = bitmap, ms_pk = mpk\<rparr>)"

section \<open>Words as numbers\<close>

lemma unat_sum_weights:
  "length ws \<le> 256 \<Longrightarrow> unat (sum_list (map (\<lambda>w. ucast w) ws) :: 16 word) = sum_list (map unat (ws :: 8 word list)) \<and> sum_list (map unat ws) \<le> 255 * length ws"
proof (induction ws)
  case (Cons w ws)
  have "unat w < 2 ^ LENGTH(8)" by (rule unsigned_less)
  then have "unat w \<le> 255" by simp
  moreover have "unat (ucast w :: 16 word) = unat w" using calculation by (simp add: unsigned_ucast_eq take_bit_nat_eq_self)
  ultimately show ?case using Cons by (subst unat_word_ariths(1) | simp)+
qed simp

lemma and_push_bit: "(bitmap :: 16 word) AND push_bit i 1 \<noteq> 0 \<longleftrightarrow> bit bitmap i"
  by (simp add: push_bit_eq_mult and_exp_eq_0_iff_not_bit)

lemma repeated_enumerate: "list_ex (\<lambda>(i, pk). pk \<in> set (drop (i + 1) pks)) (enumerate 0 pks) \<longleftrightarrow> \<not> distinct pks"
proof -
  have "list_ex (\<lambda>(i, pk). pk \<in> set (drop (i + 1) pks)) (enumerate 0 pks) \<longleftrightarrow> (\<exists>i < length pks. pks ! i \<in> set (drop (i + 1) pks))"
    by (auto simp: list_ex_iff in_set_enumerate_eq)
  also have "\<dots> \<longleftrightarrow> \<not> distinct pks"
    by (induction pks) (auto simp: Ex_less_Suc2)
  finally show ?thesis .
qed

definition weight_of :: "multisig_public_key \<Rightarrow> nat \<Rightarrow> nat" where
  "weight_of mpk i = unat (snd (pk_map mpk ! i))"

lemma multisig_pk_validate_iff:
  "multisig_pk_validate mpk = Inr () \<longleftrightarrow> mk_threshold mpk \<noteq> 0 \<and> length (pk_map mpk) \<le> 10 \<and> (\<forall>x \<in> set (pk_map mpk). snd x \<noteq> 0)
     \<and> unat (mk_threshold mpk) \<le> sum (weight_of mpk) {..<length (pk_map mpk)} \<and> distinct (map fst (pk_map mpk))"
proof -
  let ?m = "pk_map mpk"
  have rep: "list_ex (\<lambda>(i, (pk, _)). pk \<in> set (map fst (drop (i + 1) ?m))) (enumerate 0 ?m) \<longleftrightarrow> \<not> distinct (map fst ?m)"
    using repeated_enumerate [of "map fst ?m"] unfolding enumerate_eq_zip zip_map2
    by (simp add: list_ex_iff drop_map case_prod_unfold bex_simps)
  have sum: "unat (sum_list (map (\<lambda>(_, w). ucast w) ?m) :: 16 word) = sum (weight_of mpk) {..<length ?m}" if "length ?m \<le> 10"
    using unat_sum_weights [of "map snd ?m"] that
    by (simp add: comp_def case_prod_unfold weight_of_def sum_list_sum_nth atLeast0LessThan)
  show ?thesis
    unfolding multisig_pk_validate_def rep using sum
    by (cases "?m = []") (auto simp: word_less_nat_alt list_ex_iff not_less case_prod_unfold weight_of_def unat_eq_0)
qed


lemma multisig_pk_new_valid:
  assumes "multisig_pk_new pks weights threshold = Inr mpk"
  shows "multisig_pk_validate mpk = Inr ()" "map fst (pk_map mpk) = pks" "map snd (pk_map mpk) = weights"
proof -
  have new: "pks \<noteq> []" "length pks \<le> 10" "threshold \<noteq> 0" "length pks = length weights" "\<forall>w \<in> set weights. w \<noteq> 0" "distinct pks"
    "threshold \<le> sum_list (map (\<lambda>w. ucast w) weights)" "mpk = \<lparr>pk_map = zip pks weights, mk_threshold = threshold\<rparr>"
    using assms unfolding multisig_pk_new_def repeated_enumerate by (auto simp: list_ex_iff split: if_splits)
  show keys: "map fst (pk_map mpk) = pks" "map snd (pk_map mpk) = weights" using new(4,8) by simp_all
  have "unat threshold \<le> sum_list (map unat weights)"
    using new(2,4,7) unat_sum_weights [of weights] by (simp add: word_le_nat_alt)
  also have "\<dots> = sum (weight_of mpk) {..<length (pk_map mpk)}"
    using new(4,8) by (simp add: sum_list_sum_nth atLeast0LessThan weight_of_def)
  finally show "multisig_pk_validate mpk = Inr ()"
    unfolding multisig_pk_validate_iff keys using new(2-6,8) by (auto dest: set_zip_rightD)
qed

lemma as_indices_eq:
  "as_indices bitmap = (if bitmap > MAX_BITMAP_VALUE then Inl (InvalidSignature (Reason ''Invalid bitmap'')) else Inr (filter (bit bitmap) [0..<10]))"
  unfolding as_indices_def and_push_bit ..

section \<open>Verification\<close>

lemma verify_sigs_Inr:
  "verify_sigs C digest pks pairs w = Inr w' \<longleftrightarrow>
     list_all (\<lambda>(sig, i). i < length pks \<and> verify_single C digest sig (fst (pks ! i)) = Inr True) pairs
     \<and> w' = w + sum_list (map (\<lambda>(_, i). ucast (snd (pks ! i))) pairs)"
  by (induction C digest pks pairs w rule: verify_sigs.induct) (auto split: prod.splits sum.splits if_splits)

lemma zip_short: "zip xs (take (length xs) ys) = zip xs ys"
  by (induction xs ys rule: list_induct2') simp_all

lemma snd_zip_take: "map snd (zip xs ys) = take (length xs) ys"
  by (induction xs ys rule: list_induct2') simp_all

text \<open>The keys whose signatures are checked: those of the bitmap, as many as there are signatures.\<close>

definition signers :: "multisig \<Rightarrow> nat list" where
  "signers ms = take (length (ms_sigs ms)) (filter (bit (ms_bitmap ms)) [0..<10])"

lemma signers_facts: "distinct (signers ms)" "length (signers ms) \<le> 10"
proof -
  show "distinct (signers ms)" by (simp add: signers_def distinct_take)
  have "length (filter (bit (ms_bitmap ms)) [0..<10]) \<le> 10" using length_filter_le [of "bit (ms_bitmap ms)" "[0..<10]"] by simp
  then show "length (signers ms) \<le> 10" by (simp add: signers_def)
qed

lemma unat_weight_sum:
  "unat (sum_list (map (\<lambda>(_, i). ucast (snd (pk_map (ms_pk ms) ! i))) (zip (ms_sigs ms) (filter (bit (ms_bitmap ms)) [0..<10]))) :: 16 word)
     = sum (weight_of (ms_pk ms)) (set (signers ms))"
proof -
  let ?ws = "map (\<lambda>i. snd (pk_map (ms_pk ms) ! i)) (signers ms)"
  have "map (\<lambda>(_, i). ucast (snd (pk_map (ms_pk ms) ! i)) :: 16 word) (zip (ms_sigs ms) (filter (bit (ms_bitmap ms)) [0..<10])) = map (\<lambda>w. ucast w) ?ws"
    by (simp add: signers_def comp_def case_prod_unfold flip: snd_zip_take)
  then show ?thesis using unat_sum_weights [of ?ws] signers_facts [of ms]
    by (simp add: sum_list_distinct_conv_sum_set comp_def weight_of_def)
qed

definition all_signed :: "'m user_crypto \<Rightarrow> nat list \<Rightarrow> multisig \<Rightarrow> bool" where
  "all_signed C digest ms \<longleftrightarrow> list_all (\<lambda>(sig, i). i < length (pk_map (ms_pk ms)) \<and> verify_single C digest sig (fst (pk_map (ms_pk ms) ! i)) = Inr True)
     (zip (ms_sigs ms) (signers ms))"

lemma checked_weight:
  "(\<exists>w. verify_sigs C digest (pk_map (ms_pk ms)) (zip (ms_sigs ms) (filter (bit (ms_bitmap ms)) [0..<10])) 0 = Inr w \<and> mk_threshold (ms_pk ms) \<le> w)
     \<longleftrightarrow> all_signed C digest ms \<and> unat (mk_threshold (ms_pk ms)) \<le> sum (weight_of (ms_pk ms)) (set (signers ms))"
proof -
  have "zip (ms_sigs ms) (filter (bit (ms_bitmap ms)) [0..<10]) = zip (ms_sigs ms) (signers ms)" by (simp add: signers_def zip_short)
  then show ?thesis using unat_weight_sum [of ms] by (simp add: verify_sigs_Inr all_signed_def word_le_nat_alt)
qed

lemma valid_bitmap: "multisig_validate ms = Inr u \<Longrightarrow> as_indices (ms_bitmap ms) = Inr (filter (bit (ms_bitmap ms)) [0..<10])"
  by (simp add: multisig_validate_def as_indices_eq split: if_splits)

text \<open>C16: Verifying a multi-signature never panics as long as the message can be serialised. It succeeds exactly if
  the multi-signature is well-formed and of the claimed address, every checked signature is valid
  for the key the bitmap gives it, and these keys, each counted once, weigh the threshold; the
  weights do not wrap around.\<close>

theorem multisig_verify_correct:
  assumes "uc_message C value = Some message"
  shows "\<exists>r. verify_claims C ms value author = Some r
    \<and> (r = Inr () \<longleftrightarrow> multisig_validate ms = Inr () \<and> multisig_address C (ms_pk ms) = author \<and> all_signed C (uc_hash C message) ms
        \<and> unat (mk_threshold (ms_pk ms)) \<le> sum (weight_of (ms_pk ms)) (set (signers ms)))"
proof (cases "multisig_validate ms")
  case (Inr u)
  let ?v = "verify_sigs C (uc_hash C message) (pk_map (ms_pk ms)) (zip (ms_sigs ms) (filter (bit (ms_bitmap ms)) [0..<10])) 0"
  show ?thesis using checked_weight [of C "uc_hash C message" ms, symmetric] Inr assms
    by (cases ?v) (simp_all add: verify_claims_def valid_bitmap [OF Inr])
qed (simp add: verify_claims_def)

text \<open>Signatures beyond the bits of the bitmap are not looked at.\<close>

lemma extra_signature_ignored:
  assumes "length (filter (bit (ms_bitmap ms)) [0..<10]) \<le> length (ms_sigs ms)" "length (ms_sigs ms) < length (pk_map (ms_pk ms))" "ms_sigs ms \<noteq> []"
  shows "verify_claims C (ms\<lparr>ms_sigs := ms_sigs ms @ [sig]\<rparr>) value author = verify_claims C ms value author"
proof -
  have "zip (ms_sigs ms @ [sig]) (filter (bit (ms_bitmap ms)) [0..<10]) = zip (ms_sigs ms) (filter (bit (ms_bitmap ms)) [0..<10])"
    using assms(1) by (simp add: zip_append1)
  moreover have "multisig_validate (ms\<lparr>ms_sigs := ms_sigs ms @ [sig]\<rparr>) = multisig_validate ms"
    using assms(2,3) by (simp add: multisig_validate_def)
  moreover have fields: "ms_sigs (ms\<lparr>ms_sigs := ms_sigs ms @ [sig]\<rparr>) = ms_sigs ms @ [sig]"
    "ms_bitmap (ms\<lparr>ms_sigs := ms_sigs ms @ [sig]\<rparr>) = ms_bitmap ms" "ms_pk (ms\<lparr>ms_sigs := ms_sigs ms @ [sig]\<rparr>) = ms_pk ms"
    by simp_all
  ultimately show ?thesis unfolding verify_claims_def fields by (simp add: as_indices_eq split: sum.split)
qed

section \<open>Combining signatures\<close>

lemma position_Some: "position P xs = Some i \<Longrightarrow> i < length xs \<and> P (xs ! i)"
  by (induction xs arbitrary: i) (auto split: if_splits)

lemma get_index_Some:
  assumes "multisig_pk_validate mpk = Inr ()" "get_index mpk pk = Some i"
  shows "i < length (pk_map mpk)" "i < 10" "fst (pk_map mpk ! i) = pk"
proof -
  obtain j where j: "position (\<lambda>x. fst x = pk) (pk_map mpk) = Some j" "i = j mod 256" using assms(2) by (auto simp: get_index_def)
  then have "i = j" "j < length (pk_map mpk)" "length (pk_map mpk) \<le> 10"
    using position_Some [OF j(1)] assms(1) by (simp_all add: multisig_pk_validate_iff)
  then show "i < length (pk_map mpk)" "i < 10" "fst (pk_map mpk ! i) = pk" using position_Some [OF j(1)] by simp_all
qed

lemma combine_sigs_ok:
  assumes "list_all2 (\<lambda>s (i, sig). \<exists>pk. to_public_key C s = Inr pk \<and> get_index mpk pk = Some i \<and> to_compressed C s = Inr sig) ss ps"
    and "distinct (map fst ps)" "\<forall>i \<in> fst ` set ps. i < 16 \<and> \<not> bit bitmap i"
  shows "\<exists>bitmap'. combine_sigs C mpk ss bitmap sigs = Inr (bitmap', sigs @ map snd ps) \<and> (\<forall>i. bit bitmap' i \<longleftrightarrow> bit bitmap i \<or> i \<in> fst ` set ps)"
  using assms
proof (induction ss ps arbitrary: bitmap sigs rule: list_all2_induct)
  case (Cons s ss p ps)
  obtain i sig pk where p: "p = (i, sig)" "to_public_key C s = Inr pk" "get_index mpk pk = Some i" "to_compressed C s = Inr sig"
    using Cons.hyps(1) by auto
  have fresh: "i < 16" "\<not> bit bitmap i" "i \<notin> fst ` set ps" using Cons.prems p(1) by auto
  define b where "b = bitmap OR push_bit i 1"
  have bit': "bit b j \<longleftrightarrow> bit bitmap j \<or> j = i" for j
    using fresh(1) by (auto simp: b_def bit_simps)
  obtain bitmap' where rest: "combine_sigs C mpk ss b (sigs @ [sig]) = Inr (bitmap', (sigs @ [sig]) @ map snd ps)"
    "\<forall>j. bit bitmap' j \<longleftrightarrow> bit b j \<or> j \<in> fst ` set ps"
    using Cons.IH [of b "sigs @ [sig]"] Cons.prems p(1) fresh by (auto simp: bit')
  have "combine_sigs C mpk (s # ss) bitmap sigs = combine_sigs C mpk ss b (sigs @ [sig])"
    using p(2-4) fresh(2) and_push_bit [of bitmap i] by (simp add: b_def)
  then show ?case using rest p(1) by (auto simp: bit')
qed simp

lemma bitmap_small:
  assumes "\<forall>i. bit (bitmap :: 16 word) i \<longrightarrow> i < 10"
  shows "\<not> bitmap > MAX_BITMAP_VALUE"
proof -
  have "take_bit 10 bitmap = bitmap" using assms by (intro bit_word_eqI) (auto simp: bit_simps)
  then have "unat bitmap = take_bit 10 (unat bitmap)" by (metis unsigned_take_bit_eq)
  then have "unat bitmap < 2 ^ 10" by (metis take_bit_nat_less_exp)
  then show ?thesis by (simp add: word_less_nat_alt)
qed

lemma signed_pairs:
  assumes "multisig_pk_validate mpk = Inr ()"
    and "list_all2 (\<lambda>s i. \<exists>pk sig. to_public_key C s = Inr pk \<and> get_index mpk pk = Some i \<and> to_compressed C s = Inr sig \<and> valid sig pk) ss idxs"
  shows "\<exists>ps. map fst ps = idxs
    \<and> list_all2 (\<lambda>s (i, sig). \<exists>pk. to_public_key C s = Inr pk \<and> get_index mpk pk = Some i \<and> to_compressed C s = Inr sig) ss ps
    \<and> (\<forall>(i, sig) \<in> set ps. i < length (pk_map mpk) \<and> i < 10 \<and> valid sig (fst (pk_map mpk ! i)))"
  using assms(2)
proof (induction ss idxs rule: list_all2_induct)
  case (Cons s ss i idxs)
  obtain pk sig where s: "to_public_key C s = Inr pk" "get_index mpk pk = Some i" "to_compressed C s = Inr sig" "valid sig pk" using Cons.hyps(1) by blast
  obtain ps where "map fst ps = idxs"
    "list_all2 (\<lambda>s (i, sig). \<exists>pk. to_public_key C s = Inr pk \<and> get_index mpk pk = Some i \<and> to_compressed C s = Inr sig) ss ps"
    "\<forall>(i, sig) \<in> set ps. i < length (pk_map mpk) \<and> i < 10 \<and> valid sig (fst (pk_map mpk ! i))" using Cons.IH by blast
  then show ?case using s get_index_Some [OF assms(1) s(2)] by (intro exI [of _ "(i, sig) # ps"]) auto
qed simp

text \<open>C40: Combining signatures gives a multi-signature that verifies. Let every signature be one of a key of a
  well-formed multi-signature key, in the order of the keys, and valid for the message, and let these
  keys weigh the threshold. Then \<open>combine\<close> succeeds, and its result verifies for the message and
  the address of the keys.\<close>

theorem multisig_combine_verifies:
  assumes "multisig_pk_validate mpk = Inr ()" "uc_message C value = Some message" "full_sigs \<noteq> []" "sorted_wrt (<) idxs"
    and "list_all2 (\<lambda>s i. \<exists>pk sig. to_public_key C s = Inr pk \<and> get_index mpk pk = Some i \<and> to_compressed C s = Inr sig
      \<and> verify_single C (uc_hash C message) sig pk = Inr True) full_sigs idxs"
    and "unat (mk_threshold mpk) \<le> sum (weight_of mpk) (set idxs)"
  shows "\<exists>ms. combine C full_sigs mpk = Inr ms \<and> ms_pk ms = mpk \<and> verify_claims C ms value (multisig_address C mpk) = Some (Inr ())"
proof -
  obtain ps where ps: "map fst ps = idxs"
    "list_all2 (\<lambda>s (i, sig). \<exists>pk. to_public_key C s = Inr pk \<and> get_index mpk pk = Some i \<and> to_compressed C s = Inr sig) full_sigs ps"
    "\<forall>(i, sig) \<in> set ps. i < length (pk_map mpk) \<and> i < 10 \<and> verify_single C (uc_hash C message) sig (fst (pk_map mpk ! i)) = Inr True"
    using signed_pairs [OF assms(1,5)] by blast
  have dist: "distinct (map fst ps)" using assms(4) ps(1) by (simp add: strict_sorted_iff)
  obtain bitmap where b: "combine_sigs C mpk full_sigs 0 [] = Inr (bitmap, map snd ps)" "\<forall>i. bit bitmap i \<longleftrightarrow> i \<in> fst ` set ps"
    using combine_sigs_ok [OF ps(2) dist, of 0 "[]"] ps(3) by fastforce
  let ?ms = "\<lparr>ms_sigs = map snd ps, ms_bitmap = bitmap, ms_pk = mpk\<rparr>"
  have len: "length full_sigs = length ps" using ps(2) by (rule list_all2_lengthD)
  have "fst ` set ps \<subseteq> {..<length (pk_map mpk)}" using ps(3) by auto
  then have "card (fst ` set ps) \<le> length (pk_map mpk)" using card_mono [of "{..<length (pk_map mpk)}"] by simp
  then have small: "length ps \<le> length (pk_map mpk)" using dist by (metis distinct_card length_map set_map)
  have bits: "bit bitmap i \<longleftrightarrow> i \<in> set idxs" "i \<in> set idxs \<Longrightarrow> i < 10" for i
    using b(2) ps(3) unfolding ps(1) [symmetric] by fastforce+
  have "set (filter (bit bitmap) [0..<10]) = set idxs" using bits by auto
  then have "filter (bit bitmap) [0..<10] = idxs" using assms(4) by (intro bs_wf_unique) (simp_all add: sorted_wrt_filter)
  then have signers: "signers ?ms = idxs" using length_map [of fst ps] ps(1) by (simp add: signers_def)
  have "combine C full_sigs mpk = Inr ?ms" using assms(1,3) len small b(1) by (simp add: combine_def)
  moreover have valid: "multisig_validate ?ms = Inr ()"
    using assms(1,3) len small bitmap_small [of bitmap] bits by (auto simp: multisig_validate_def)
  moreover have "all_signed C (uc_hash C message) ?ms"
    using ps(3) unfolding all_signed_def signers ps(1) [symmetric] by (auto simp: list_all_iff zip_map_map zip_same_conv_map)
  ultimately show ?thesis using checked_weight [of C "uc_hash C message" ?ms] assms(2,6) signers
    by (auto simp: verify_claims_def valid_bitmap [OF valid, simplified])
qed

text \<open>An example in which a signature verifies if it equals its key.\<close>

definition example_crypto :: "unit user_crypto" where
  "example_crypto = \<lparr>uc_key_from = (\<lambda>_. Some), uc_sig_from = (\<lambda>_. Some), uc_verify = (\<lambda>_ key _ sig. sig = key), uc_sig_length = (\<lambda>_. 1),
     uc_hash = (\<lambda>bytes. bytes), uc_message = (\<lambda>_. Some [])\<rparr>"

definition example_keys :: multisig_public_key where
  "example_keys = \<lparr>pk_map = [(Ed25519Key [7], 1), (Secp256k1Key [8], 1), (Ed25519Key [9], 1)], mk_threshold = 2\<rparr>"

theorem multisig_verify_correct_witness:
  "\<exists>r. verify_claims example_crypto \<lparr>ms_sigs = [CompressedEd25519 [7], CompressedEd25519 [9]], ms_bitmap = 5, ms_pk = example_keys\<rparr> ()
         (multisig_address example_crypto example_keys) = Some r \<and> r = Inr ()"
proof -
  let ?ms = "\<lparr>ms_sigs = [CompressedEd25519 [7], CompressedEd25519 [9]], ms_bitmap = 5, ms_pk = example_keys\<rparr>"
  have signers: "signers ?ms = [0, 2]" by (simp add: signers_def upt_rec)
  have "multisig_validate ?ms = Inr ()" by (simp add: multisig_validate_def multisig_pk_validate_def example_keys_def)
  moreover have "all_signed example_crypto (uc_hash example_crypto []) ?ms"
    unfolding all_signed_def signers by (simp add: example_keys_def example_crypto_def verify_single_def)
  moreover have "unat (mk_threshold example_keys) \<le> sum (weight_of example_keys) (set (signers ?ms))"
    unfolding signers by (simp add: weight_of_def example_keys_def)
  ultimately show ?thesis
    using multisig_verify_correct [of example_crypto "()" "[]" ?ms "multisig_address example_crypto example_keys"] by (simp add: example_crypto_def)
qed

theorem multisig_combine_verifies_witness:
  "\<exists>ms. combine example_crypto [Ed25519SuiSignature [0, 7, 7], Secp256k1SuiSignature [1, 8, 8]] example_keys = Inr ms
     \<and> verify_claims example_crypto ms () (multisig_address example_crypto example_keys) = Some (Inr ())"
proof -
  have "multisig_pk_validate example_keys = Inr ()" by (simp add: multisig_pk_validate_def example_keys_def)
  moreover have "unat (mk_threshold example_keys) \<le> sum (weight_of example_keys) (set [0, 1])" by (simp add: weight_of_def example_keys_def)
  ultimately show ?thesis
    using multisig_combine_verifies [of example_keys example_crypto "()" "[]" "[Ed25519SuiSignature [0, 7, 7], Secp256k1SuiSignature [1, 8, 8]]" "[0, 1]"]
    by (auto simp: example_crypto_def example_keys_def to_public_key_def to_compressed_def get_index_def verify_single_def)
qed

end
