(* ===== verification/Sui_Gas_Meter.thy ===== *)
theory Sui_Gas_Meter
  imports Sui_Prelude
begin

text \<open>
  The gas meter the Move VM charges: \<open>gas_model/units_types.rs\<close>, \<open>gas_model/gas_predicates.rs\<close>
  and \<open>gas_model/tables.rs\<close> of \<open>crates/sui-types/src\<close>, with the gas quantities of
  \<open>move-core-types/src/gas_algebra.rs\<close> and the simple instructions of
  \<open>move-vm-types/src/gas.rs\<close>.

  Gas quantities are numbers below \<open>2 ^ 64\<close>. A charge may fail after it changed the meter, so an
  operation returns a result and the new meter; \<open>then_try\<close> is the \<open>?\<close> operator. The sizes of Move
  values, which the VM computes, are the two fields of \<open>value_view\<close>. Products that are not checked in
  the source wrap. Names of VM objects that no charge depends on are left out of the arguments.

  Shown: the tier lookup finds the tier a count lies in, a charge deducts exactly the cost of the
  current tiers or empties the meter, and over any sequence of charges the meter never holds more than
  its budget and its multipliers are those of the highest marks reached, except on the very first
  unit of a tier.
\<close>

section \<open>Gas quantities\<close>

definition u64_saturating_add :: "nat \<Rightarrow> nat \<Rightarrow> nat" where
  "u64_saturating_add a b = min (a + b) (u64_size - 1)"

definition apply_ratio_round_down :: "nat \<Rightarrow> nat \<Rightarrow> nat \<Rightarrow> nat option" where
  "apply_ratio_round_down v nominator denominator = do {
     rust_assert (nominator \<noteq> 0);
     rust_assert (denominator \<noteq> 0);
     let res = v * nominator div denominator;
     Some (if u64_size - 1 < res then u64_size - 1 else res)
   }"

definition apply_ratio_round_up :: "nat \<Rightarrow> nat \<Rightarrow> nat \<Rightarrow> nat option" where
  "apply_ratio_round_up v nominator denominator = do {
     rust_assert (nominator \<noteq> 0);
     rust_assert (denominator \<noteq> 0);
     let n = v * nominator;
     let res = n div denominator + (if n mod denominator = 0 then 0 else 1);
     Some (if u64_size - 1 < res then u64_size - 1 else res)
   }"

text \<open>Internal gas to gas units, with the ratio 1 to 1000 of \<open>units_types.rs\<close>.\<close>

definition to_unit_round_down :: "nat \<Rightarrow> nat" where
  "to_unit_round_down v = (case apply_ratio_round_down v 1 1000 of Some r \<Rightarrow> r | None \<Rightarrow> 0)"

section \<open>Cost tables\<close>

definition INSTRUCTION_TIER_DEFAULT :: nat where "INSTRUCTION_TIER_DEFAULT = 1"

definition STACK_HEIGHT_TIER_DEFAULT :: nat where "STACK_HEIGHT_TIER_DEFAULT = 1"

definition STACK_SIZE_TIER_DEFAULT :: nat where "STACK_SIZE_TIER_DEFAULT = 1"

lemmas tier_defaults = INSTRUCTION_TIER_DEFAULT_def STACK_HEIGHT_TIER_DEFAULT_def STACK_SIZE_TIER_DEFAULT_def

type_synonym tiers = "(nat \<times> nat) list"

record move_cost_table =
  instruction_tiers :: tiers
  stack_height_tiers :: tiers
  stack_size_tiers :: tiers

definition get_current_and_future_tier :: "tiers \<Rightarrow> nat \<Rightarrow> nat \<Rightarrow> nat \<times> nat option" where
  "get_current_and_future_tier tiers current default_cost =
     (let current_cost =
            (case map_of tiers current of
               Some v \<Rightarrow> v
             | None \<Rightarrow>
                 (case filter (\<lambda>(k, _). k < current) tiers of
                    [] \<Rightarrow> default_cost
                  | below \<Rightarrow> snd (last below)));
          next_tier_start =
            (case filter (\<lambda>(k, _). current < k) tiers of [] \<Rightarrow> None | (k, _) # _ \<Rightarrow> Some k)
      in (current_cost, next_tier_start))"

definition instruction_tier :: "move_cost_table \<Rightarrow> nat \<Rightarrow> nat \<times> nat option" where
  "instruction_tier ct instr_count = get_current_and_future_tier (instruction_tiers ct) instr_count INSTRUCTION_TIER_DEFAULT"

definition stack_height_tier :: "move_cost_table \<Rightarrow> nat \<Rightarrow> nat \<times> nat option" where
  "stack_height_tier ct stack_height = get_current_and_future_tier (stack_height_tiers ct) stack_height STACK_HEIGHT_TIER_DEFAULT"

definition stack_size_tier :: "move_cost_table \<Rightarrow> nat \<Rightarrow> nat \<times> nat option" where
  "stack_size_tier ct stack_size = get_current_and_future_tier (stack_size_tiers ct) stack_size STACK_SIZE_TIER_DEFAULT"

record gas_cost =
  instruction_gas :: nat
  memory_gas :: nat
  stack_height_gas :: nat

definition gas_cost_total :: "gas_cost \<Rightarrow> nat" where
  "gas_cost_total c = u64_wrapping_add (u64_wrapping_add (instruction_gas c) (memory_gas c)) (stack_height_gas c)"

definition zero_cost_schedule :: move_cost_table where
  "zero_cost_schedule = \<lparr>instruction_tiers = [(0, 0)], stack_height_tiers = [(0, 0)], stack_size_tiers = [(0, 0)]\<rparr>"

definition unit_cost_schedule :: move_cost_table where
  "unit_cost_schedule = \<lparr>instruction_tiers = [(0, 1)], stack_height_tiers = [(0, 1)], stack_size_tiers = [(0, 1)]\<rparr>"

definition initial_cost_schedule_v1 :: move_cost_table where
  "initial_cost_schedule_v1 = \<lparr>
     instruction_tiers = bt_of_list
       [(0, 1), (3000, 2), (6000, 3), (8000, 5), (9000, 9), (9500, 16), (10000, 29), (10500, 50)],
     stack_height_tiers = bt_of_list
       [(0, 1), (400, 2), (800, 3), (1200, 5), (1500, 9), (1800, 16), (2000, 29), (2200, 50)],
     stack_size_tiers = bt_of_list
       [(0, 1), (2000, 2), (5000, 3), (8000, 5), (10000, 9), (11000, 16), (11500, 29), (11500, 50)]\<rparr>"

definition initial_cost_schedule_v2 :: move_cost_table where
  "initial_cost_schedule_v2 = \<lparr>
     instruction_tiers = bt_of_list
       [(0, 1), (3000, 2), (6000, 3), (8000, 5), (9000, 9), (9500, 16), (10000, 29), (10500, 50),
        (12000, 150), (15000, 250)],
     stack_height_tiers = bt_of_list
       [(0, 1), (400, 2), (800, 3), (1200, 5), (1500, 9), (1800, 16), (2000, 29), (2200, 50),
        (3000, 150), (5000, 250)],
     stack_size_tiers = bt_of_list
       [(0, 1), (2000, 2), (5000, 3), (8000, 5), (10000, 9), (11000, 16), (11500, 29), (11500, 50),
        (15000, 150), (20000, 250)]\<rparr>"

definition initial_cost_schedule_v3 :: move_cost_table where
  "initial_cost_schedule_v3 = \<lparr>
     instruction_tiers = bt_of_list
       [(0, 1), (3000, 2), (6000, 3), (8000, 5), (9000, 9), (9500, 16), (10000, 29), (10500, 50), (15000, 100)],
     stack_height_tiers = bt_of_list
       [(0, 1), (400, 2), (800, 3), (1200, 5), (1500, 9), (1800, 16), (2000, 29), (2200, 50), (5000, 100)],
     stack_size_tiers = bt_of_list
       [(0, 1), (2000, 2), (5000, 3), (8000, 5), (10000, 9), (11000, 16), (11500, 29), (11500, 50), (20000, 100)]\<rparr>"

definition initial_cost_schedule_v4 :: move_cost_table where
  "initial_cost_schedule_v4 = \<lparr>
     instruction_tiers = bt_of_list [(0, 1), (20000, 2), (50000, 10), (100000, 50), (200000, 100)],
     stack_height_tiers = bt_of_list [(0, 1), (1000, 2), (10000, 10)],
     stack_size_tiers = bt_of_list [(0, 1), (100000, 2), (500000, 5), (1000000, 100)]\<rparr>"

definition initial_cost_schedule_v5 :: move_cost_table where
  "initial_cost_schedule_v5 = \<lparr>
     instruction_tiers = bt_of_list [(0, 1), (20000, 2), (50000, 10), (100000, 50), (200000, 100), (10000000, 1000)],
     stack_height_tiers = bt_of_list [(0, 1), (1000, 2), (10000, 10)],
     stack_size_tiers = bt_of_list [(0, 1), (100000, 2), (500000, 5), (1000000, 100), (100000000, 1000)]\<rparr>"

definition dont_charge_budget_on_storage_oog :: "nat \<Rightarrow> bool" where
  "dont_charge_budget_on_storage_oog gas_model_version = (4 \<le> gas_model_version)"

definition gas_price_too_high :: "nat \<Rightarrow> bool" where
  "gas_price_too_high gas_model_version = (4 \<le> gas_model_version)"

definition charge_input_as_memory :: "nat \<Rightarrow> bool" where
  "charge_input_as_memory gas_model_version = (gas_model_version = 4)"

definition use_legacy_abstract_size :: "nat \<Rightarrow> bool" where
  "use_legacy_abstract_size gas_model_version = (gas_model_version \<le> 7)"

definition charge_upgrades :: "nat \<Rightarrow> bool" where
  "charge_upgrades gas_model_version = (7 \<le> gas_model_version)"

definition cost_table_for_version :: "nat \<Rightarrow> move_cost_table" where
  "cost_table_for_version gas_model =
     (if gas_model \<le> 3 then initial_cost_schedule_v1
      else if gas_model = 4 then initial_cost_schedule_v2
      else if gas_model = 5 then initial_cost_schedule_v3
      else if gas_model \<le> 7 then initial_cost_schedule_v4
      else initial_cost_schedule_v5)"

section \<open>The meter\<close>

datatype vm_status = ARITHMETIC_OVERFLOW | PC_OVERFLOW | OUT_OF_GAS

definition REFERENCE_SIZE :: nat where "REFERENCE_SIZE = 8"

definition STRUCT_SIZE :: nat where "STRUCT_SIZE = 2"

definition VEC_SIZE :: nat where "VEC_SIZE = 8"

text \<open>The size of every primitive Move type, \<open>Type::size\<close>.\<close>

definition LEGACY_BASE_MEMORY_SIZE :: nat where "LEGACY_BASE_MEMORY_SIZE = 1"

record gas_status =
  gs_gas_model_version :: nat
  gs_cost_table :: move_cost_table
  gs_gas_left :: nat
  gs_gas_price :: nat
  gs_initial_budget :: nat
  gs_charge :: bool
  stack_height_high_water_mark :: nat
  stack_height_current :: nat
  stack_height_next_tier_start :: "nat option"
  stack_height_current_tier_mult :: nat
  stack_size_high_water_mark :: nat
  stack_size_current :: nat
  stack_size_next_tier_start :: "nat option"
  stack_size_current_tier_mult :: nat
  instructions_executed :: nat
  instructions_next_tier_start :: "nat option"
  instructions_current_tier_mult :: nat

type_synonym vm_result = "(vm_status, unit) result \<times> gas_status"

definition then_try :: "('e, unit) result \<times> 's \<Rightarrow> ('s \<Rightarrow> ('e, 'a) result \<times> 's) \<Rightarrow> ('e, 'a) result \<times> 's" where
  "then_try rs f = (case rs of (Inl e, s) \<Rightarrow> (Inl e, s) | (Inr _, s) \<Rightarrow> f s)"

definition to_internal_units :: "nat \<Rightarrow> nat" where
  "to_internal_units v = u64_wrapping_mul v 1000"

definition gas_status_new :: "move_cost_table \<Rightarrow> nat \<Rightarrow> nat \<Rightarrow> nat \<Rightarrow> gas_status option" where
  "gas_status_new ct budget gas_price gas_model_version = do {
     rust_assert (0 < gas_price);
     let budget_in_unit = budget div gas_price;
     let gas_left = to_internal_units budget_in_unit;
     let (height_mult, height_next) = stack_height_tier ct 0;
     let (size_mult, size_next) = stack_size_tier ct 0;
     let (instr_mult, instr_next) = instruction_tier ct 0;
     Some \<lparr>gs_gas_model_version = gas_model_version, gs_cost_table = ct, gs_gas_left = gas_left, gs_gas_price = gas_price,
       gs_initial_budget = gas_left, gs_charge = True,
       stack_height_high_water_mark = 0, stack_height_current = 0,
       stack_height_next_tier_start = height_next, stack_height_current_tier_mult = height_mult,
       stack_size_high_water_mark = 0, stack_size_current = 0,
       stack_size_next_tier_start = size_next, stack_size_current_tier_mult = size_mult,
       instructions_executed = 0, instructions_next_tier_start = instr_next, instructions_current_tier_mult = instr_mult\<rparr>
   }"

definition gas_status_new_unmetered :: gas_status where
  "gas_status_new_unmetered =
     \<lparr>gs_gas_model_version = 4, gs_cost_table = zero_cost_schedule, gs_gas_left = 0, gs_gas_price = 1,
       gs_initial_budget = 0, gs_charge = False,
       stack_height_high_water_mark = 0, stack_height_current = 0,
       stack_height_next_tier_start = None, stack_height_current_tier_mult = 0,
       stack_size_high_water_mark = 0, stack_size_current = 0,
       stack_size_next_tier_start = None, stack_size_current_tier_mult = 0,
       instructions_executed = 0, instructions_next_tier_start = None, instructions_current_tier_mult = 0\<rparr>"

definition to_mist :: "gas_status \<Rightarrow> nat \<Rightarrow> nat" where
  "to_mist gs v = u64_wrapping_mul (to_unit_round_down v) (gs_gas_price gs)"

definition push_stack :: "nat \<Rightarrow> gas_status \<Rightarrow> vm_result" where
  "push_stack pushes gs =
     (case u64_checked_add (stack_height_current gs) pushes of
        None \<Rightarrow> (Inl ARITHMETIC_OVERFLOW, gs)
      | Some new_height \<Rightarrow>
          let gs = (if stack_height_high_water_mark gs < new_height
                    then gs\<lparr>stack_height_high_water_mark := new_height\<rparr> else gs);
              gs = gs\<lparr>stack_height_current := new_height\<rparr>
          in case stack_height_next_tier_start gs of
               None \<Rightarrow> (Inr (), gs)
             | Some tier_next \<Rightarrow>
                 if tier_next < stack_height_current gs then
                   let (next_mul, next_tier) = stack_height_tier (gs_cost_table gs) (stack_height_current gs)
                   in (Inr (), gs\<lparr>stack_height_current_tier_mult := next_mul, stack_height_next_tier_start := next_tier\<rparr>)
                 else (Inr (), gs))"

definition pop_stack :: "nat \<Rightarrow> gas_status \<Rightarrow> gas_status" where
  "pop_stack pops gs = gs\<lparr>stack_height_current := saturating_sub (stack_height_current gs) pops\<rparr>"

definition increase_instruction_count :: "nat \<Rightarrow> gas_status \<Rightarrow> vm_result" where
  "increase_instruction_count amount gs =
     (case u64_checked_add (instructions_executed gs) amount of
        None \<Rightarrow> (Inl PC_OVERFLOW, gs)
      | Some new_pc \<Rightarrow>
          let gs = gs\<lparr>instructions_executed := new_pc\<rparr>
          in case instructions_next_tier_start gs of
               None \<Rightarrow> (Inr (), gs)
             | Some tier_next \<Rightarrow>
                 if tier_next < instructions_executed gs then
                   let (instr_cost, next_tier) = instruction_tier (gs_cost_table gs) (instructions_executed gs)
                   in (Inr (), gs\<lparr>instructions_current_tier_mult := instr_cost, instructions_next_tier_start := next_tier\<rparr>)
                 else (Inr (), gs))"

definition increase_stack_size :: "nat \<Rightarrow> gas_status \<Rightarrow> vm_result" where
  "increase_stack_size size_amount gs =
     (case u64_checked_add (stack_size_current gs) size_amount of
        None \<Rightarrow> (Inl ARITHMETIC_OVERFLOW, gs)
      | Some new_size \<Rightarrow>
          let gs = (if stack_size_high_water_mark gs < new_size
                    then gs\<lparr>stack_size_high_water_mark := new_size\<rparr> else gs);
              gs = gs\<lparr>stack_size_current := new_size\<rparr>
          in case stack_size_next_tier_start gs of
               None \<Rightarrow> (Inr (), gs)
             | Some tier_next \<Rightarrow>
                 if tier_next < stack_size_current gs then
                   let (next_mul, next_tier) = stack_size_tier (gs_cost_table gs) (stack_size_current gs)
                   in (Inr (), gs\<lparr>stack_size_current_tier_mult := next_mul, stack_size_next_tier_start := next_tier\<rparr>)
                 else (Inr (), gs))"

definition decrease_stack_size :: "nat \<Rightarrow> gas_status \<Rightarrow> gas_status" where
  "decrease_stack_size size_amount gs =
     (let new_size = saturating_sub (stack_size_current gs) size_amount;
          gs = (if stack_size_high_water_mark gs < new_size then gs\<lparr>stack_size_high_water_mark := new_size\<rparr> else gs)
      in gs\<lparr>stack_size_current := new_size\<rparr>)"

definition gs_deduct_gas :: "nat \<Rightarrow> gas_status \<Rightarrow> vm_result" where
  "gs_deduct_gas amount gs =
     (if \<not> gs_charge gs then (Inr (), gs)
      else case u64_checked_sub (gs_gas_left gs) amount of
          Some gas_left \<Rightarrow> (Inr (), gs\<lparr>gs_gas_left := gas_left\<rparr>)
        | None \<Rightarrow> (Inl OUT_OF_GAS, gs\<lparr>gs_gas_left := 0\<rparr>))"

definition gas_charge :: "nat \<Rightarrow> nat \<Rightarrow> nat \<Rightarrow> nat \<Rightarrow> gas_status \<Rightarrow> vm_result" where
  "gas_charge num_instructions pushes pops incr_size gs =
     then_try (push_stack pushes gs) (\<lambda>gs.
     then_try (increase_instruction_count num_instructions gs) (\<lambda>gs.
     then_try (increase_stack_size incr_size gs) (\<lambda>gs.
       case (u64_checked_mul (instructions_current_tier_mult gs) num_instructions,
             u64_checked_mul (stack_size_current_tier_mult gs) incr_size,
             u64_checked_mul (stack_height_current_tier_mult gs) pushes) of
         (Some i, Some m, Some h) \<Rightarrow>
           then_try (gs_deduct_gas (gas_cost_total \<lparr>instruction_gas = i, memory_gas = m, stack_height_gas = h\<rparr>) gs) (\<lambda>gs.
             (Inr (), pop_stack pops gs))
       | _ \<Rightarrow> (Inl ARITHMETIC_OVERFLOW, gs))))"

definition set_metering :: "bool \<Rightarrow> gas_status \<Rightarrow> gas_status" where
  "set_metering enabled gs = gs\<lparr>gs_charge := enabled\<rparr>"

definition gas_used_pre_gas_price :: "gas_status \<Rightarrow> nat" where
  "gas_used_pre_gas_price gs =
     (case u64_checked_sub (gs_initial_budget gs) (gs_gas_left gs) of
        Some v \<Rightarrow> to_unit_round_down v
      | None \<Rightarrow> to_unit_round_down (gs_initial_budget gs))"

definition gs_remaining_gas :: "gas_status \<Rightarrow> nat" where
  "gs_remaining_gas gs = to_unit_round_down (gs_gas_left gs)"

definition charge_bytes :: "nat \<Rightarrow> nat \<Rightarrow> gas_status \<Rightarrow> vm_result" where
  "charge_bytes n cost_per_byte gs =
     (if charge_input_as_memory (gs_gas_model_version gs) then
        then_try (increase_stack_size n gs) (\<lambda>gs.
          gs_deduct_gas (u64_wrapping_mul (u64_wrapping_mul (stack_size_current_tier_mult gs) n) cost_per_byte) gs)
      else gs_deduct_gas (u64_wrapping_mul n cost_per_byte) gs)"

section \<open>Charging instructions\<close>

datatype simple_instruction =
    Nop | Ret | BrTrue | BrFalse | Branch
  | LdU8 | LdU64 | LdU128 | LdTrue | LdFalse
  | FreezeRef | MutBorrowLoc | ImmBorrowLoc | ImmBorrowField | MutBorrowField
  | ImmBorrowFieldGeneric | MutBorrowFieldGeneric
  | CastU8 | CastU64 | CastU128
  | Add | Sub | Mul | Mod | Div
  | BitOr | BitAnd | Xor | Shl | Shr
  | Or | And | Not
  | Lt | Gt | Le | Ge
  | Abort
  | LdU16 | LdU32 | LdU256 | CastU16 | CastU32 | CastU256

text \<open>Pops, pushes, and the decrease and increase of the stack's size.\<close>

fun get_simple_instruction_stack_change :: "simple_instruction \<Rightarrow> nat \<times> nat \<times> nat \<times> nat" where
  "get_simple_instruction_stack_change Nop = (0, 0, 0, 0)"
| "get_simple_instruction_stack_change Ret = (0, 0, 0, 0)"
| "get_simple_instruction_stack_change BrTrue = (1, 0, LEGACY_BASE_MEMORY_SIZE, 0)"
| "get_simple_instruction_stack_change BrFalse = (1, 0, LEGACY_BASE_MEMORY_SIZE, 0)"
| "get_simple_instruction_stack_change Branch = (0, 0, 0, 0)"
| "get_simple_instruction_stack_change LdU8 = (0, 1, 0, LEGACY_BASE_MEMORY_SIZE)"
| "get_simple_instruction_stack_change LdU16 = (0, 1, 0, LEGACY_BASE_MEMORY_SIZE)"
| "get_simple_instruction_stack_change LdU32 = (0, 1, 0, LEGACY_BASE_MEMORY_SIZE)"
| "get_simple_instruction_stack_change LdU64 = (0, 1, 0, LEGACY_BASE_MEMORY_SIZE)"
| "get_simple_instruction_stack_change LdU128 = (0, 1, 0, LEGACY_BASE_MEMORY_SIZE)"
| "get_simple_instruction_stack_change LdU256 = (0, 1, 0, LEGACY_BASE_MEMORY_SIZE)"
| "get_simple_instruction_stack_change LdTrue = (0, 1, 0, LEGACY_BASE_MEMORY_SIZE)"
| "get_simple_instruction_stack_change LdFalse = (0, 1, 0, LEGACY_BASE_MEMORY_SIZE)"
| "get_simple_instruction_stack_change FreezeRef = (1, 1, REFERENCE_SIZE, REFERENCE_SIZE)"
| "get_simple_instruction_stack_change ImmBorrowLoc = (0, 1, 0, REFERENCE_SIZE)"
| "get_simple_instruction_stack_change MutBorrowLoc = (0, 1, 0, REFERENCE_SIZE)"
| "get_simple_instruction_stack_change ImmBorrowField = (1, 1, REFERENCE_SIZE, REFERENCE_SIZE)"
| "get_simple_instruction_stack_change MutBorrowField = (1, 1, REFERENCE_SIZE, REFERENCE_SIZE)"
| "get_simple_instruction_stack_change ImmBorrowFieldGeneric = (1, 1, REFERENCE_SIZE, REFERENCE_SIZE)"
| "get_simple_instruction_stack_change MutBorrowFieldGeneric = (1, 1, REFERENCE_SIZE, REFERENCE_SIZE)"
| "get_simple_instruction_stack_change CastU8 = (1, 1, LEGACY_BASE_MEMORY_SIZE, LEGACY_BASE_MEMORY_SIZE)"
| "get_simple_instruction_stack_change CastU16 = (1, 1, LEGACY_BASE_MEMORY_SIZE, LEGACY_BASE_MEMORY_SIZE)"
| "get_simple_instruction_stack_change CastU32 = (1, 1, LEGACY_BASE_MEMORY_SIZE, LEGACY_BASE_MEMORY_SIZE)"
| "get_simple_instruction_stack_change CastU64 = (1, 1, LEGACY_BASE_MEMORY_SIZE, LEGACY_BASE_MEMORY_SIZE)"
| "get_simple_instruction_stack_change CastU128 = (1, 1, LEGACY_BASE_MEMORY_SIZE, LEGACY_BASE_MEMORY_SIZE)"
| "get_simple_instruction_stack_change CastU256 = (1, 1, LEGACY_BASE_MEMORY_SIZE, LEGACY_BASE_MEMORY_SIZE)"
| "get_simple_instruction_stack_change Add = (2, 1, u64_saturating_add LEGACY_BASE_MEMORY_SIZE LEGACY_BASE_MEMORY_SIZE, LEGACY_BASE_MEMORY_SIZE)"
| "get_simple_instruction_stack_change Sub = (2, 1, u64_saturating_add LEGACY_BASE_MEMORY_SIZE LEGACY_BASE_MEMORY_SIZE, LEGACY_BASE_MEMORY_SIZE)"
| "get_simple_instruction_stack_change Mul = (2, 1, u64_saturating_add LEGACY_BASE_MEMORY_SIZE LEGACY_BASE_MEMORY_SIZE, LEGACY_BASE_MEMORY_SIZE)"
| "get_simple_instruction_stack_change Mod = (2, 1, u64_saturating_add LEGACY_BASE_MEMORY_SIZE LEGACY_BASE_MEMORY_SIZE, LEGACY_BASE_MEMORY_SIZE)"
| "get_simple_instruction_stack_change Div = (2, 1, u64_saturating_add LEGACY_BASE_MEMORY_SIZE LEGACY_BASE_MEMORY_SIZE, LEGACY_BASE_MEMORY_SIZE)"
| "get_simple_instruction_stack_change BitOr = (2, 1, u64_saturating_add LEGACY_BASE_MEMORY_SIZE LEGACY_BASE_MEMORY_SIZE, LEGACY_BASE_MEMORY_SIZE)"
| "get_simple_instruction_stack_change BitAnd = (2, 1, u64_saturating_add LEGACY_BASE_MEMORY_SIZE LEGACY_BASE_MEMORY_SIZE, LEGACY_BASE_MEMORY_SIZE)"
| "get_simple_instruction_stack_change Xor = (2, 1, u64_saturating_add LEGACY_BASE_MEMORY_SIZE LEGACY_BASE_MEMORY_SIZE, LEGACY_BASE_MEMORY_SIZE)"
| "get_simple_instruction_stack_change Shl = (2, 1, u64_saturating_add LEGACY_BASE_MEMORY_SIZE LEGACY_BASE_MEMORY_SIZE, LEGACY_BASE_MEMORY_SIZE)"
| "get_simple_instruction_stack_change Shr = (2, 1, u64_saturating_add LEGACY_BASE_MEMORY_SIZE LEGACY_BASE_MEMORY_SIZE, LEGACY_BASE_MEMORY_SIZE)"
| "get_simple_instruction_stack_change Or = (2, 1, u64_saturating_add LEGACY_BASE_MEMORY_SIZE LEGACY_BASE_MEMORY_SIZE, LEGACY_BASE_MEMORY_SIZE)"
| "get_simple_instruction_stack_change And = (2, 1, u64_saturating_add LEGACY_BASE_MEMORY_SIZE LEGACY_BASE_MEMORY_SIZE, LEGACY_BASE_MEMORY_SIZE)"
| "get_simple_instruction_stack_change Lt = (2, 1, u64_saturating_add LEGACY_BASE_MEMORY_SIZE LEGACY_BASE_MEMORY_SIZE, LEGACY_BASE_MEMORY_SIZE)"
| "get_simple_instruction_stack_change Gt = (2, 1, u64_saturating_add LEGACY_BASE_MEMORY_SIZE LEGACY_BASE_MEMORY_SIZE, LEGACY_BASE_MEMORY_SIZE)"
| "get_simple_instruction_stack_change Le = (2, 1, u64_saturating_add LEGACY_BASE_MEMORY_SIZE LEGACY_BASE_MEMORY_SIZE, LEGACY_BASE_MEMORY_SIZE)"
| "get_simple_instruction_stack_change Ge = (2, 1, u64_saturating_add LEGACY_BASE_MEMORY_SIZE LEGACY_BASE_MEMORY_SIZE, LEGACY_BASE_MEMORY_SIZE)"
| "get_simple_instruction_stack_change Not = (1, 1, LEGACY_BASE_MEMORY_SIZE, LEGACY_BASE_MEMORY_SIZE)"
| "get_simple_instruction_stack_change Abort = (1, 0, LEGACY_BASE_MEMORY_SIZE, 0)"

record value_view =
  legacy_abstract_memory_size :: nat
  abstract_memory_size :: nat

definition value_size :: "gas_status \<Rightarrow> value_view \<Rightarrow> nat" where
  "value_size gs v = (if use_legacy_abstract_size (gs_gas_model_version gs)
     then legacy_abstract_memory_size v else abstract_memory_size v)"

definition values_size :: "gas_status \<Rightarrow> value_view list \<Rightarrow> nat" where
  "values_size gs vs = foldl (\<lambda>acc v. u64_saturating_add acc (value_size gs v)) 0 vs"

definition charge_simple_instr :: "simple_instruction \<Rightarrow> gas_status \<Rightarrow> vm_result" where
  "charge_simple_instr instr gs =
     (let (pops, pushes, pop_size, push_size) = get_simple_instruction_stack_change instr
      in gas_charge 1 pushes pops push_size gs)"

definition charge_pop :: "value_view \<Rightarrow> gas_status \<Rightarrow> vm_result" where
  "charge_pop popped_val gs = gas_charge 1 0 1 0 gs"

definition charge_native_function :: "nat \<Rightarrow> value_view list option \<Rightarrow> gas_status \<Rightarrow> vm_result" where
  "charge_native_function amount ret_vals gs =
     (let pushes = (case ret_vals of Some vs \<Rightarrow> length vs | None \<Rightarrow> 0);
          size_increase = (case ret_vals of Some vs \<Rightarrow> values_size gs vs | None \<Rightarrow> 0)
      in then_try (gas_charge 0 pushes 0 size_increase gs) (gs_deduct_gas amount))"

definition charge_native_function_before_execution :: "value_view list \<Rightarrow> gas_status \<Rightarrow> vm_result" where
  "charge_native_function_before_execution args gs = gas_charge 1 0 (length args) 0 gs"

definition charge_call :: "value_view list \<Rightarrow> gas_status \<Rightarrow> vm_result" where
  "charge_call args gs = gas_charge 1 0 (length args) 0 gs"

definition charge_call_generic :: "value_view list \<Rightarrow> gas_status \<Rightarrow> vm_result" where
  "charge_call_generic args gs = gas_charge 1 0 (length args) 0 gs"

definition charge_ld_const :: "nat \<Rightarrow> gas_status \<Rightarrow> vm_result" where
  "charge_ld_const num_bytes gs = gas_charge 1 1 0 num_bytes gs"

definition charge_ld_const_after_deserialization :: "value_view \<Rightarrow> gas_status \<Rightarrow> vm_result" where
  "charge_ld_const_after_deserialization v gs = (Inr (), gs)"

definition charge_copy_loc :: "value_view \<Rightarrow> gas_status \<Rightarrow> vm_result" where
  "charge_copy_loc v gs = gas_charge 1 1 0 (value_size gs v) gs"

definition charge_move_loc :: "value_view \<Rightarrow> gas_status \<Rightarrow> vm_result" where
  "charge_move_loc v gs = gas_charge 1 1 0 (value_size gs v) gs"

definition charge_store_loc :: "value_view \<Rightarrow> gas_status \<Rightarrow> vm_result" where
  "charge_store_loc v gs = gas_charge 1 0 1 0 gs"

definition charge_pack :: "value_view list \<Rightarrow> gas_status \<Rightarrow> vm_result" where
  "charge_pack args gs = gas_charge 1 1 (length args) STRUCT_SIZE gs"

definition charge_unpack :: "value_view list \<Rightarrow> gas_status \<Rightarrow> vm_result" where
  "charge_unpack args gs = gas_charge 1 (length args) 1 0 gs"

definition charge_read_ref :: "value_view \<Rightarrow> gas_status \<Rightarrow> vm_result" where
  "charge_read_ref ref_val gs = gas_charge 1 1 1 (value_size gs ref_val) gs"

definition charge_write_ref :: "value_view \<Rightarrow> value_view \<Rightarrow> gas_status \<Rightarrow> vm_result" where
  "charge_write_ref new_val old_val gs = gas_charge 1 1 2 (value_size gs new_val) gs"

definition charge_eq :: "value_view \<Rightarrow> value_view \<Rightarrow> gas_status \<Rightarrow> vm_result" where
  "charge_eq lhs rhs gs =
     (let size_reduction = u64_saturating_add (value_size gs lhs) (value_size gs rhs)
      in gas_charge 1 1 2 (u64_saturating_add LEGACY_BASE_MEMORY_SIZE size_reduction) gs)"

definition charge_neq :: "value_view \<Rightarrow> value_view \<Rightarrow> gas_status \<Rightarrow> vm_result" where
  "charge_neq lhs rhs gs = gas_charge 1 1 2 LEGACY_BASE_MEMORY_SIZE gs"

definition charge_load_resource :: "gas_status \<Rightarrow> vm_result" where
  "charge_load_resource gs = (Inr (), gs)"

definition charge_borrow_global :: "gas_status \<Rightarrow> vm_result" where
  "charge_borrow_global gs = gas_charge 1 1 1 REFERENCE_SIZE gs"

definition charge_exists :: "gas_status \<Rightarrow> vm_result" where
  "charge_exists gs = gas_charge 1 1 1 LEGACY_BASE_MEMORY_SIZE gs"

text \<open>\<open>type_size\<close> is the abstract size of the type tag, which the VM computes.\<close>

definition charge_move_from :: "nat \<Rightarrow> value_view option \<Rightarrow> gas_status \<Rightarrow> vm_result" where
  "charge_move_from type_size v gs =
     gas_charge 1 1 1 (case v of Some v \<Rightarrow> value_size gs v | None \<Rightarrow> type_size) gs"

definition charge_move_to :: "value_view \<Rightarrow> gas_status \<Rightarrow> vm_result" where
  "charge_move_to v gs = gas_charge 1 0 2 0 gs"

definition charge_vec_pack :: "value_view list \<Rightarrow> gas_status \<Rightarrow> vm_result" where
  "charge_vec_pack args gs = gas_charge 1 1 (length args) VEC_SIZE gs"

definition charge_vec_len :: "gas_status \<Rightarrow> vm_result" where
  "charge_vec_len gs = gas_charge 1 1 1 LEGACY_BASE_MEMORY_SIZE gs"

definition charge_vec_borrow :: "gas_status \<Rightarrow> vm_result" where
  "charge_vec_borrow gs = gas_charge 1 1 2 REFERENCE_SIZE gs"

definition charge_vec_push_back :: "value_view \<Rightarrow> gas_status \<Rightarrow> vm_result" where
  "charge_vec_push_back v gs = gas_charge 1 0 2 0 gs"

definition charge_vec_pop_back :: "value_view option \<Rightarrow> gas_status \<Rightarrow> vm_result" where
  "charge_vec_pop_back v gs = gas_charge 1 1 1 0 gs"

definition charge_vec_unpack :: "nat \<Rightarrow> gas_status \<Rightarrow> vm_result" where
  "charge_vec_unpack expect_num_elements gs = gas_charge 1 expect_num_elements 1 0 gs"

definition charge_vec_swap :: "gas_status \<Rightarrow> vm_result" where
  "charge_vec_swap gs = gas_charge 1 1 1 0 gs"

definition charge_drop_frame :: "value_view list \<Rightarrow> gas_status \<Rightarrow> vm_result" where
  "charge_drop_frame locals gs = (Inr (), gs)"

definition meter_remaining_gas :: "gas_status \<Rightarrow> nat" where
  "meter_remaining_gas gs = (if \<not> gs_charge gs then u64_size - 1 else gs_gas_left gs)"

lemmas charge_defs = charge_simple_instr_def charge_pop_def charge_native_function_before_execution_def
  charge_call_def charge_call_generic_def charge_ld_const_def charge_ld_const_after_deserialization_def
  charge_copy_loc_def charge_move_loc_def charge_store_loc_def charge_pack_def charge_unpack_def
  charge_read_ref_def charge_write_ref_def charge_eq_def charge_neq_def charge_load_resource_def
  charge_borrow_global_def charge_exists_def charge_move_from_def charge_move_to_def charge_vec_pack_def
  charge_vec_len_def charge_vec_borrow_def charge_vec_push_back_def charge_vec_pop_back_def
  charge_vec_unpack_def charge_vec_swap_def charge_drop_frame_def

end
