(* ===== verification/Sui_Gas_Charges.thy ===== *)
theory Sui_Gas_Charges
  imports Sui_Gas_Meter
begin

text \<open>
  Properties of the gas meter of \<^verbatim>\<open>Sui_Gas_Meter\<close>: the tiers of the cost tables, the invariant of the
  meter under every charge, and the exact cost of a charge.
\<close>

section \<open>Tiers\<close>

lemma map_of_filter_le_last:
  assumes "bt_wf tiers" "map_of tiers x = Some v"
  shows "last (filter (\<lambda>(k, _). k \<le> x) tiers) = (x :: nat, v)" "filter (\<lambda>(k, _). k \<le> x) tiers \<noteq> []"
proof -
  obtain ys zs where split: "tiers = ys @ (x, v) # zs" using assms(2) by (meson map_of_SomeD split_list)
  have "filter (\<lambda>(k, _). k \<le> x) zs = []"
    using assms(1) unfolding split by (auto simp: filter_empty_conv sorted_wrt_append)
  then show "last (filter (\<lambda>(k, _). k \<le> x) tiers) = (x, v)" "filter (\<lambda>(k, _). k \<le> x) tiers \<noteq> []"
    unfolding split by simp_all
qed

text \<open>The cost at a count is that of the last tier that starts at or before it.\<close>

lemma tier_cost:
  assumes "bt_wf tiers"
  shows "fst (get_current_and_future_tier tiers x d)
    = (case filter (\<lambda>(k, _). k \<le> x) tiers of [] \<Rightarrow> d | below \<Rightarrow> snd (last below))"
proof (cases "map_of tiers x")
  case None
  have "filter (\<lambda>(k, _). k < x) tiers = filter (\<lambda>(k, _). k \<le> x) tiers"
    using None by (intro filter_cong) (auto simp: map_of_eq_None_iff order_le_less image_iff)
  then show ?thesis using None by (simp add: get_current_and_future_tier_def split: list.splits)
next
  case (Some v)
  then show ?thesis using map_of_filter_le_last [OF assms Some]
    by (cases "filter (\<lambda>(k, _). k \<le> x) tiers") (simp_all add: get_current_and_future_tier_def)
qed

lemma tier_start:
  "snd (get_current_and_future_tier tiers x d) = (case filter (\<lambda>(k, _). x < k) tiers of [] \<Rightarrow> None | (k, _) # _ \<Rightarrow> Some k)"
  by (simp add: get_current_and_future_tier_def)

lemma tier_next:
  assumes "bt_wf tiers"
  shows "snd (get_current_and_future_tier tiers x d) = None \<longleftrightarrow> (\<forall>k \<in> fst ` set tiers. k \<le> x)"
    and "snd (get_current_and_future_tier tiers x d) = Some n
      \<longleftrightarrow> n \<in> fst ` set tiers \<and> x < n \<and> (\<forall>k \<in> fst ` set tiers. x < k \<longrightarrow> n \<le> k)"
proof -
  let ?f = "filter (\<lambda>(k, _). x < k) tiers"
  have keys: "fst ` set ?f = {k \<in> fst ` set tiers. x < k}" by (auto simp: image_iff)
  note snd = tier_start [of tiers x d]
  show "snd (get_current_and_future_tier tiers x d) = None \<longleftrightarrow> (\<forall>k \<in> fst ` set tiers. k \<le> x)"
  proof -
    have "?f = [] \<longleftrightarrow> {k \<in> fst ` set tiers. x < k} = {}"
      unfolding keys [symmetric] by (simp only: set_empty image_is_empty)
    moreover have "snd (get_current_and_future_tier tiers x d) = None \<longleftrightarrow> ?f = []"
      unfolding snd by (cases ?f) auto
    ultimately show ?thesis by (auto simp: not_less)
  qed
  show "snd (get_current_and_future_tier tiers x d) = Some n
      \<longleftrightarrow> n \<in> fst ` set tiers \<and> x < n \<and> (\<forall>k \<in> fst ` set tiers. x < k \<longrightarrow> n \<le> k)"
  proof (cases ?f)
    case Nil
    then have "{k \<in> fst ` set tiers. x < k} = {}" using keys by simp
    then show ?thesis unfolding snd Nil by auto
  next
    case (Cons p ps)
    have "bt_wf ?f" using assms by (rule bt_wf_filter)
    then have least: "\<forall>k \<in> {k \<in> fst ` set tiers. x < k}. fst p \<le> k" "fst p \<in> {k \<in> fst ` set tiers. x < k}"
      unfolding keys [symmetric] Cons by auto
    have start: "snd (get_current_and_future_tier tiers x d) = Some (fst p)" unfolding snd Cons by (simp add: case_prod_unfold)
    show ?thesis
    proof
      assume "snd (get_current_and_future_tier tiers x d) = Some n"
      then have "n = fst p" using start by simp
      then show "n \<in> fst ` set tiers \<and> x < n \<and> (\<forall>k \<in> fst ` set tiers. x < k \<longrightarrow> n \<le> k)"
        using least by blast
    next
      assume n: "n \<in> fst ` set tiers \<and> x < n \<and> (\<forall>k \<in> fst ` set tiers. x < k \<longrightarrow> n \<le> k)"
      then have "fst p \<le> n" "n \<le> fst p" using least by blast+
      then show "snd (get_current_and_future_tier tiers x d) = Some n" using start by simp
    qed
  qed
qed

text \<open>Between two starts the tier does not change.\<close>

lemma tier_stable:
  assumes "bt_wf tiers" "t \<le> x" "\<forall>n. snd (get_current_and_future_tier tiers t d) = Some n \<longrightarrow> x < n"
  shows "get_current_and_future_tier tiers x d = get_current_and_future_tier tiers t d"
proof -
  have gap: "k \<le> x \<longleftrightarrow> k \<le> t" if "k \<in> fst ` set tiers" for k
  proof (cases "snd (get_current_and_future_tier tiers t d)")
    case None
    then show ?thesis using tier_next(1) [OF assms(1)] that assms(2) by (meson order_trans)
  next
    case (Some n)
    then have "t < k \<Longrightarrow> n \<le> k" using tier_next(2) [OF assms(1), of t d n] that by blast
    then show ?thesis using assms(2,3) Some by (metis not_less order_trans)
  qed
  have "filter (\<lambda>(k, _). k \<le> x) tiers = filter (\<lambda>(k, _). k \<le> t) tiers"
    "filter (\<lambda>(k, _). x < k) tiers = filter (\<lambda>(k, _). t < k) tiers"
    using gap by (force intro!: filter_cong simp flip: not_le)+
  then show ?thesis
    by (intro prod_eqI) (simp_all only: tier_cost [OF assms(1)] tier_start)
qed

text \<open>A multiplier that was looked up at some count up to the mark, no tier having been passed since.\<close>

definition tier_ok :: "tiers \<Rightarrow> nat \<Rightarrow> nat \<Rightarrow> nat \<Rightarrow> nat option \<Rightarrow> bool" where
  "tier_ok tiers d mark mult start \<longleftrightarrow>
     (\<exists>t \<le> mark. get_current_and_future_tier tiers t d = (mult, start)) \<and> (\<forall>n. start = Some n \<longrightarrow> mark \<le> n)"

lemma tier_ok_lookup:
  assumes "bt_wf tiers" "get_current_and_future_tier tiers x d = (mult, start)"
  shows "tier_ok tiers d x mult start"
  using assms tier_next(2) [OF assms(1), of x d] by (fastforce simp: tier_ok_def)

lemma tier_ok_grow:
  assumes "tier_ok tiers d mark mult start" "mark \<le> mark'" "\<forall>n. start = Some n \<longrightarrow> mark' \<le> n"
  shows "tier_ok tiers d mark' mult start"
  using assms by (auto simp: tier_ok_def intro: order_trans)

lemma tier_ok_current:
  assumes "bt_wf tiers" "tier_ok tiers d mark mult start" "start \<noteq> Some mark"
  shows "get_current_and_future_tier tiers mark d = (mult, start)"
proof -
  obtain t where t: "t \<le> mark" "get_current_and_future_tier tiers t d = (mult, start)" "\<forall>n. start = Some n \<longrightarrow> mark \<le> n"
    using assms(2) by (auto simp: tier_ok_def)
  have "\<forall>n. snd (get_current_and_future_tier tiers t d) = Some n \<longrightarrow> mark < n"
    using t(2,3) assms(3) by (auto simp: le_less)
  then show ?thesis using tier_stable [OF assms(1) t(1)] t(2) by simp
qed

lemma tier_ok_boundary:
  assumes "bt_wf tiers" "tier_ok tiers d mark mult (Some mark)"
  shows "0 < mark" "get_current_and_future_tier tiers (mark - 1) d = (mult, Some mark)"
proof -
  obtain t where t: "t \<le> mark" "get_current_and_future_tier tiers t d = (mult, Some mark)"
    using assms(2) by (auto simp: tier_ok_def)
  have "t < mark" using tier_next(2) [OF assms(1), of t d mark] t(2) by simp
  then show "0 < mark" "get_current_and_future_tier tiers (mark - 1) d = (mult, Some mark)"
    using tier_stable [OF assms(1), of t "mark - 1" d] t(2) by auto
qed

section \<open>The invariant of the meter\<close>

definition wf_cost_table :: "move_cost_table \<Rightarrow> bool" where
  "wf_cost_table ct \<longleftrightarrow> bt_wf (instruction_tiers ct) \<and> bt_wf (stack_height_tiers ct) \<and> bt_wf (stack_size_tiers ct)"

definition meter_inv :: "gas_status \<Rightarrow> bool" where
  "meter_inv gs \<longleftrightarrow> wf_cost_table (gs_cost_table gs)
     \<and> gs_gas_left gs \<le> gs_initial_budget gs \<and> gs_initial_budget gs < u64_size
     \<and> stack_height_current gs \<le> stack_height_high_water_mark gs \<and> stack_size_current gs \<le> stack_size_high_water_mark gs
     \<and> tier_ok (stack_height_tiers (gs_cost_table gs)) STACK_HEIGHT_TIER_DEFAULT (stack_height_high_water_mark gs)
         (stack_height_current_tier_mult gs) (stack_height_next_tier_start gs)
     \<and> tier_ok (stack_size_tiers (gs_cost_table gs)) STACK_SIZE_TIER_DEFAULT (stack_size_high_water_mark gs)
         (stack_size_current_tier_mult gs) (stack_size_next_tier_start gs)
     \<and> tier_ok (instruction_tiers (gs_cost_table gs)) INSTRUCTION_TIER_DEFAULT (instructions_executed gs)
         (instructions_current_tier_mult gs) (instructions_next_tier_start gs)"

text \<open>What no operation of the meter changes, and what only grows or shrinks.\<close>

definition meter_le :: "gas_status \<Rightarrow> gas_status \<Rightarrow> bool" where
  "meter_le gs gs' \<longleftrightarrow> gs_cost_table gs' = gs_cost_table gs \<and> gs_gas_price gs' = gs_gas_price gs
     \<and> gs_gas_model_version gs' = gs_gas_model_version gs \<and> gs_charge gs' = gs_charge gs
     \<and> gs_initial_budget gs' = gs_initial_budget gs \<and> gs_gas_left gs' \<le> gs_gas_left gs
     \<and> stack_height_high_water_mark gs \<le> stack_height_high_water_mark gs'
     \<and> stack_size_high_water_mark gs \<le> stack_size_high_water_mark gs'
     \<and> instructions_executed gs \<le> instructions_executed gs'"

definition meter_ok :: "gas_status \<Rightarrow> 'r \<times> gas_status \<Rightarrow> bool" where
  "meter_ok gs r \<longleftrightarrow> meter_inv (snd r) \<and> meter_le gs (snd r)"

lemma meter_le_refl [simp]: "meter_le gs gs"
  by (simp add: meter_le_def)

lemma meter_le_trans: "meter_le a b \<Longrightarrow> meter_le b c \<Longrightarrow> meter_le a c"
  by (auto simp: meter_le_def intro: order_trans)

lemma meter_ok_return [simp]: "meter_inv gs \<Longrightarrow> meter_ok gs (r, gs)"
  by (simp add: meter_ok_def)

lemma meter_ok_then_try:
  assumes "meter_ok gs rs" "\<And>gs'. meter_inv gs' \<Longrightarrow> meter_ok gs' (f gs')"
  shows "meter_ok gs (then_try rs f)"
proof -
  obtain r gs' where rs: "rs = (r, gs')" by (cases rs)
  have "meter_ok gs' (f gs')" using assms by (simp add: rs meter_ok_def)
  then show ?thesis using assms(1) by (cases r) (auto simp: rs then_try_def meter_ok_def intro: meter_le_trans)
qed

text \<open>Raising a mark and looking the tier up again when the next one was passed.\<close>

definition next_tier :: "tiers \<Rightarrow> nat \<Rightarrow> nat \<Rightarrow> nat \<Rightarrow> nat option \<Rightarrow> nat \<times> nat option" where
  "next_tier tiers d v mult start =
     (case start of
        None \<Rightarrow> (mult, start)
      | Some n \<Rightarrow> if n < v then get_current_and_future_tier tiers v d else (mult, start))"

lemma tier_ok_next:
  assumes "bt_wf tiers" "tier_ok tiers d mark mult start" "next_tier tiers d v mult start = (m, s)"
  shows "tier_ok tiers d (max mark v) m s"
proof (cases "\<exists>n. start = Some n \<and> n < v")
  case True
  then have "max mark v = v" "get_current_and_future_tier tiers v d = (m, s)"
    using assms(2,3) by (auto simp: tier_ok_def next_tier_def)
  then show ?thesis using tier_ok_lookup [OF assms(1)] by simp
next
  case False
  then have "m = mult" "s = start" using assms(3) by (auto simp: next_tier_def split: option.splits)
  moreover have "\<forall>n. start = Some n \<longrightarrow> max mark v \<le> n" using False assms(2) by (auto simp: tier_ok_def)
  ultimately show ?thesis using tier_ok_grow [OF assms(2), of "max mark v"] by simp
qed

text \<open>The three counters in closed form.\<close>

lemma push_stack_eq:
  "push_stack pushes gs =
    (if stack_height_current gs + pushes < u64_size then
       let h = stack_height_current gs + pushes;
           (m, s) = next_tier (stack_height_tiers (gs_cost_table gs)) STACK_HEIGHT_TIER_DEFAULT h
             (stack_height_current_tier_mult gs) (stack_height_next_tier_start gs)
       in (Inr (), gs\<lparr>stack_height_high_water_mark := max (stack_height_high_water_mark gs) h, stack_height_current := h,
            stack_height_current_tier_mult := m, stack_height_next_tier_start := s\<rparr>)
     else (Inl ARITHMETIC_OVERFLOW, gs))"
  by (auto simp: push_stack_def u64_checked_add_def next_tier_def stack_height_tier_def Let_def max_def
      split: option.splits prod.splits)

lemma increase_instruction_count_eq:
  "increase_instruction_count amount gs =
    (if instructions_executed gs + amount < u64_size then
       let n = instructions_executed gs + amount;
           (m, s) = next_tier (instruction_tiers (gs_cost_table gs)) INSTRUCTION_TIER_DEFAULT n
             (instructions_current_tier_mult gs) (instructions_next_tier_start gs)
       in (Inr (), gs\<lparr>instructions_executed := n, instructions_current_tier_mult := m, instructions_next_tier_start := s\<rparr>)
     else (Inl PC_OVERFLOW, gs))"
  by (auto simp: increase_instruction_count_def u64_checked_add_def next_tier_def instruction_tier_def Let_def
      split: option.splits prod.splits)

lemma increase_stack_size_eq:
  "increase_stack_size amount gs =
    (if stack_size_current gs + amount < u64_size then
       let h = stack_size_current gs + amount;
           (m, s) = next_tier (stack_size_tiers (gs_cost_table gs)) STACK_SIZE_TIER_DEFAULT h
             (stack_size_current_tier_mult gs) (stack_size_next_tier_start gs)
       in (Inr (), gs\<lparr>stack_size_high_water_mark := max (stack_size_high_water_mark gs) h, stack_size_current := h,
            stack_size_current_tier_mult := m, stack_size_next_tier_start := s\<rparr>)
     else (Inl ARITHMETIC_OVERFLOW, gs))"
  by (auto simp: increase_stack_size_def u64_checked_add_def next_tier_def stack_size_tier_def Let_def max_def
      split: option.splits prod.splits)

lemma push_stack_ok:
  assumes "meter_inv gs"
  shows "meter_ok gs (push_stack pushes gs)"
proof -
  obtain m s where ms: "next_tier (stack_height_tiers (gs_cost_table gs)) STACK_HEIGHT_TIER_DEFAULT (stack_height_current gs + pushes)
      (stack_height_current_tier_mult gs) (stack_height_next_tier_start gs) = (m, s)" by fastforce
  have "tier_ok (stack_height_tiers (gs_cost_table gs)) STACK_HEIGHT_TIER_DEFAULT
      (max (stack_height_high_water_mark gs) (stack_height_current gs + pushes)) m s"
    using assms tier_ok_next [OF _ _ ms] by (simp add: meter_inv_def wf_cost_table_def)
  then show ?thesis using assms by (simp add: push_stack_eq ms meter_ok_def meter_inv_def meter_le_def Let_def)
qed

lemma increase_instruction_count_ok:
  assumes "meter_inv gs"
  shows "meter_ok gs (increase_instruction_count amount gs)"
proof -
  obtain m s where ms: "next_tier (instruction_tiers (gs_cost_table gs)) INSTRUCTION_TIER_DEFAULT (instructions_executed gs + amount)
      (instructions_current_tier_mult gs) (instructions_next_tier_start gs) = (m, s)" by fastforce
  have "tier_ok (instruction_tiers (gs_cost_table gs)) INSTRUCTION_TIER_DEFAULT (instructions_executed gs + amount) m s"
    using assms tier_ok_next [OF _ _ ms, of "instructions_executed gs"] by (simp add: meter_inv_def wf_cost_table_def)
  then show ?thesis using assms
    by (simp add: increase_instruction_count_eq ms meter_ok_def meter_inv_def meter_le_def Let_def)
qed

lemma increase_stack_size_ok:
  assumes "meter_inv gs"
  shows "meter_ok gs (increase_stack_size amount gs)"
proof -
  obtain m s where ms: "next_tier (stack_size_tiers (gs_cost_table gs)) STACK_SIZE_TIER_DEFAULT (stack_size_current gs + amount)
      (stack_size_current_tier_mult gs) (stack_size_next_tier_start gs) = (m, s)" by fastforce
  have "tier_ok (stack_size_tiers (gs_cost_table gs)) STACK_SIZE_TIER_DEFAULT
      (max (stack_size_high_water_mark gs) (stack_size_current gs + amount)) m s"
    using assms tier_ok_next [OF _ _ ms] by (simp add: meter_inv_def wf_cost_table_def)
  then show ?thesis using assms by (simp add: increase_stack_size_eq ms meter_ok_def meter_inv_def meter_le_def Let_def)
qed

lemma gs_deduct_gas_ok: "meter_inv gs \<Longrightarrow> meter_ok gs (gs_deduct_gas amount gs)"
  by (auto simp: gs_deduct_gas_def meter_ok_def meter_inv_def meter_le_def u64_checked_sub_def)

lemma pop_stack_ok: "meter_inv gs \<Longrightarrow> meter_ok gs (r, pop_stack pops gs)"
  by (auto simp: pop_stack_def meter_ok_def meter_inv_def meter_le_def)

lemma gas_charge_ok: "meter_inv gs \<Longrightarrow> meter_ok gs (gas_charge n pushes pops incr gs)"
  unfolding gas_charge_def
  by (intro meter_ok_then_try push_stack_ok increase_instruction_count_ok increase_stack_size_ok)
    (auto split: option.splits intro!: meter_ok_then_try gs_deduct_gas_ok pop_stack_ok)

lemma charge_bytes_ok: "meter_inv gs \<Longrightarrow> meter_ok gs (charge_bytes n cost_per_byte gs)"
  by (auto simp: charge_bytes_def intro!: meter_ok_then_try increase_stack_size_ok gs_deduct_gas_ok)

section \<open>The cost of a charge\<close>

text \<open>The meter after the counters were raised, and the cost of the charge at its multipliers.\<close>

definition raise_marks :: "nat \<Rightarrow> nat \<Rightarrow> nat \<Rightarrow> gas_status \<Rightarrow> vm_result" where
  "raise_marks n pushes incr gs =
     then_try (push_stack pushes gs) (\<lambda>gs. then_try (increase_instruction_count n gs) (increase_stack_size incr))"

definition charge_cost :: "gas_status \<Rightarrow> nat \<Rightarrow> nat \<Rightarrow> nat \<Rightarrow> nat" where
  "charge_cost gs n pushes incr =
     instructions_current_tier_mult gs * n + stack_size_current_tier_mult gs * incr + stack_height_current_tier_mult gs * pushes"

lemma gas_charge_raise:
  "gas_charge n pushes pops incr gs = then_try (raise_marks n pushes incr gs) (\<lambda>gs.
     case (u64_checked_mul (instructions_current_tier_mult gs) n, u64_checked_mul (stack_size_current_tier_mult gs) incr,
           u64_checked_mul (stack_height_current_tier_mult gs) pushes) of
       (Some i, Some m, Some h) \<Rightarrow>
         then_try (gs_deduct_gas (gas_cost_total \<lparr>instruction_gas = i, memory_gas = m, stack_height_gas = h\<rparr>) gs) (\<lambda>gs.
           (Inr (), pop_stack pops gs))
     | _ \<Rightarrow> (Inl ARITHMETIC_OVERFLOW, gs))"
  unfolding gas_charge_def raise_marks_def
  by (cases "push_stack pushes gs"; cases "fst (push_stack pushes gs)")
    (auto simp: then_try_def split: sum.splits prod.splits)

lemma gas_charge_exact:
  assumes "raise_marks n pushes incr gs = (Inr (), gs1)" "gs_charge gs1" "charge_cost gs1 n pushes incr < u64_size"
  shows "gas_charge n pushes pops incr gs =
    (if charge_cost gs1 n pushes incr \<le> gs_gas_left gs1
     then (Inr (), pop_stack pops (gs1\<lparr>gs_gas_left := gs_gas_left gs1 - charge_cost gs1 n pushes incr\<rparr>))
     else (Inl OUT_OF_GAS, gs1\<lparr>gs_gas_left := 0\<rparr>))"
proof -
  have le: "instructions_current_tier_mult gs1 * n < u64_size" "stack_size_current_tier_mult gs1 * incr < u64_size"
    "stack_height_current_tier_mult gs1 * pushes < u64_size"
    "instructions_current_tier_mult gs1 * n + stack_size_current_tier_mult gs1 * incr < u64_size"
    using assms(3) by (auto simp: charge_cost_def)
  have "gas_cost_total \<lparr>instruction_gas = instructions_current_tier_mult gs1 * n,
      memory_gas = stack_size_current_tier_mult gs1 * incr, stack_height_gas = stack_height_current_tier_mult gs1 * pushes\<rparr>
      = charge_cost gs1 n pushes incr"
    using le assms(3) by (simp add: gas_cost_total_def charge_cost_def)
  then show ?thesis
    using assms(1,2) le by (simp add: gas_charge_raise then_try_def u64_checked_mul_def gs_deduct_gas_def u64_checked_sub_def)
qed

text \<open>The cost of a charge from the meter before it.\<close>

definition tier_cost_of :: "gas_status \<Rightarrow> nat \<Rightarrow> nat \<Rightarrow> nat \<Rightarrow> nat" where
  "tier_cost_of gs n pushes incr =
     fst (next_tier (instruction_tiers (gs_cost_table gs)) INSTRUCTION_TIER_DEFAULT (instructions_executed gs + n)
       (instructions_current_tier_mult gs) (instructions_next_tier_start gs)) * n
   + fst (next_tier (stack_size_tiers (gs_cost_table gs)) STACK_SIZE_TIER_DEFAULT (stack_size_current gs + incr)
       (stack_size_current_tier_mult gs) (stack_size_next_tier_start gs)) * incr
   + fst (next_tier (stack_height_tiers (gs_cost_table gs)) STACK_HEIGHT_TIER_DEFAULT (stack_height_current gs + pushes)
       (stack_height_current_tier_mult gs) (stack_height_next_tier_start gs)) * pushes"

lemma raise_marks_tiers:
  assumes "stack_height_current gs + pushes < u64_size" "instructions_executed gs + n < u64_size" "stack_size_current gs + incr < u64_size"
  obtains gs1 where "raise_marks n pushes incr gs = (Inr (), gs1)" "charge_cost gs1 n pushes incr = tier_cost_of gs n pushes incr"
    "gs_gas_left gs1 = gs_gas_left gs" "gs_charge gs1 = gs_charge gs" "stack_height_current gs1 = stack_height_current gs + pushes"
    "instructions_executed gs1 = instructions_executed gs + n" "stack_size_current gs1 = stack_size_current gs + incr"
proof -
  obtain mh sh where h: "next_tier (stack_height_tiers (gs_cost_table gs)) STACK_HEIGHT_TIER_DEFAULT (stack_height_current gs + pushes)
      (stack_height_current_tier_mult gs) (stack_height_next_tier_start gs) = (mh, sh)" by fastforce
  obtain mi si where i: "next_tier (instruction_tiers (gs_cost_table gs)) INSTRUCTION_TIER_DEFAULT (instructions_executed gs + n)
      (instructions_current_tier_mult gs) (instructions_next_tier_start gs) = (mi, si)" by fastforce
  obtain ms ss where s: "next_tier (stack_size_tiers (gs_cost_table gs)) STACK_SIZE_TIER_DEFAULT (stack_size_current gs + incr)
      (stack_size_current_tier_mult gs) (stack_size_next_tier_start gs) = (ms, ss)" by fastforce
  have "raise_marks n pushes incr gs = (Inr (), gs\<lparr>
      stack_height_high_water_mark := max (stack_height_high_water_mark gs) (stack_height_current gs + pushes),
      stack_height_current := stack_height_current gs + pushes,
      stack_height_current_tier_mult := mh, stack_height_next_tier_start := sh,
      instructions_executed := instructions_executed gs + n,
      instructions_current_tier_mult := mi, instructions_next_tier_start := si,
      stack_size_high_water_mark := max (stack_size_high_water_mark gs) (stack_size_current gs + incr),
      stack_size_current := stack_size_current gs + incr,
      stack_size_current_tier_mult := ms, stack_size_next_tier_start := ss\<rparr>)" (is "_ = (_, ?gs1)")
    using assms by (simp add: raise_marks_def push_stack_eq increase_instruction_count_eq increase_stack_size_eq
        then_try_def Let_def h i s)
  then show ?thesis by (rule that) (simp_all add: charge_cost_def tier_cost_of_def h i s)
qed

section \<open>Runs of the meter\<close>

datatype meter_op =
    SimpleInstr simple_instruction
  | PopValue value_view
  | NativeFunction nat "value_view list option"
  | BeforeNative "value_view list"
  | Call "value_view list"
  | CallGeneric "value_view list"
  | LdConst nat
  | LdConstAfter value_view
  | CopyLoc value_view
  | MoveLoc value_view
  | StoreLoc value_view
  | Pack "value_view list"
  | Unpack "value_view list"
  | ReadRef value_view
  | WriteRef value_view value_view
  | EqOp value_view value_view
  | NeqOp value_view value_view
  | LoadResource
  | BorrowGlobal
  | ExistsOp
  | MoveFrom nat "value_view option"
  | MoveTo value_view
  | VecPack "value_view list"
  | VecLen
  | VecBorrow
  | VecPushBack value_view
  | VecPopBack "value_view option"
  | VecUnpack nat
  | VecSwap
  | DropFrame "value_view list"
  | ChargeBytes nat nat

fun meter_step :: "meter_op \<Rightarrow> gas_status \<Rightarrow> vm_result" where
  "meter_step (SimpleInstr i) = charge_simple_instr i"
| "meter_step (PopValue v) = charge_pop v"
| "meter_step (NativeFunction amount vs) = charge_native_function amount vs"
| "meter_step (BeforeNative vs) = charge_native_function_before_execution vs"
| "meter_step (Call vs) = charge_call vs"
| "meter_step (CallGeneric vs) = charge_call_generic vs"
| "meter_step (LdConst n) = charge_ld_const n"
| "meter_step (LdConstAfter v) = charge_ld_const_after_deserialization v"
| "meter_step (CopyLoc v) = charge_copy_loc v"
| "meter_step (MoveLoc v) = charge_move_loc v"
| "meter_step (StoreLoc v) = charge_store_loc v"
| "meter_step (Pack vs) = charge_pack vs"
| "meter_step (Unpack vs) = charge_unpack vs"
| "meter_step (ReadRef v) = charge_read_ref v"
| "meter_step (WriteRef v w) = charge_write_ref v w"
| "meter_step (EqOp v w) = charge_eq v w"
| "meter_step (NeqOp v w) = charge_neq v w"
| "meter_step LoadResource = charge_load_resource"
| "meter_step BorrowGlobal = charge_borrow_global"
| "meter_step ExistsOp = charge_exists"
| "meter_step (MoveFrom n v) = charge_move_from n v"
| "meter_step (MoveTo v) = charge_move_to v"
| "meter_step (VecPack vs) = charge_vec_pack vs"
| "meter_step VecLen = charge_vec_len"
| "meter_step VecBorrow = charge_vec_borrow"
| "meter_step (VecPushBack v) = charge_vec_push_back v"
| "meter_step (VecPopBack v) = charge_vec_pop_back v"
| "meter_step (VecUnpack n) = charge_vec_unpack n"
| "meter_step VecSwap = charge_vec_swap"
| "meter_step (DropFrame vs) = charge_drop_frame vs"
| "meter_step (ChargeBytes n c) = charge_bytes n c"

text \<open>A transaction charges operation after operation until one fails.\<close>

fun meter_run :: "meter_op list \<Rightarrow> gas_status \<Rightarrow> vm_result" where
  "meter_run [] gs = (Inr (), gs)"
| "meter_run (op # ops) gs = then_try (meter_step op gs) (meter_run ops)"

lemma meter_step_ok: "meter_inv gs \<Longrightarrow> meter_ok gs (meter_step op gs)"
  by (cases op) (auto simp: charge_defs charge_native_function_def Let_def
      intro!: gas_charge_ok charge_bytes_ok meter_ok_then_try gs_deduct_gas_ok split: prod.splits)

lemma meter_run_ok: "meter_inv gs \<Longrightarrow> meter_ok gs (meter_run ops gs)"
  by (induction ops arbitrary: gs) (auto intro!: meter_ok_then_try meter_step_ok)

lemma to_unit_round_down_div [simp]: "v < u64_size \<Longrightarrow> to_unit_round_down v = v div 1000"
  by (simp add: to_unit_round_down_def apply_ratio_round_down_def Let_def u64_size_def)

lemma gas_status_new_total:
  assumes "0 < price"
  obtains gs where "gas_status_new ct budget price version = Some gs"
  using assms by (simp add: gas_status_new_def Let_def case_prod_unfold)

lemma gas_status_new_inv:
  assumes "gas_status_new ct budget price version = Some gs" "wf_cost_table ct" "budget div price * 1000 < u64_size"
  shows "meter_inv gs" "gs_initial_budget gs = budget div price * 1000" "0 < price" "gs_gas_left gs = gs_initial_budget gs"
    "gs_cost_table gs = ct" "gs_gas_price gs = price" "gs_charge gs"
  using assms
  by (auto simp: gas_status_new_def meter_inv_def to_internal_units_def u64_wrapping_mul_def instruction_tier_def
      stack_height_tier_def stack_size_tier_def wf_cost_table_def Let_def tier_ok_lookup split: prod.splits if_splits)

lemma gas_used_bound:
  assumes "meter_inv gs"
  shows "gas_used_pre_gas_price gs = (gs_initial_budget gs - gs_gas_left gs) div 1000"
proof -
  have "gs_initial_budget gs - gs_gas_left gs < u64_size" "gs_gas_left gs \<le> gs_initial_budget gs"
    using assms by (auto simp: meter_inv_def)
  then show ?thesis by (simp add: gas_used_pre_gas_price_def u64_checked_sub_def)
qed

section \<open>Cost schedules\<close>

definition monotone_tiers :: "tiers \<Rightarrow> bool" where
  "monotone_tiers tiers \<longleftrightarrow> sorted_wrt (\<lambda>(k, v) (k', v'). k < k' \<and> v \<le> v') tiers \<and> list_all (\<lambda>(_, v). 1 \<le> v \<and> v \<le> 1000) tiers"

lemma monotone_tiers_wf: "monotone_tiers tiers \<Longrightarrow> bt_wf tiers"
  unfolding monotone_tiers_def sorted_wrt_map by (auto elim: sorted_wrt_mono_rel [rotated])

lemma monotone_tier_cost:
  assumes "monotone_tiers tiers" "x \<le> y"
  shows "fst (get_current_and_future_tier tiers x 1) \<le> fst (get_current_and_future_tier tiers y 1)"
    and "1 \<le> fst (get_current_and_future_tier tiers x 1)" "fst (get_current_and_future_tier tiers x 1) \<le> 1000"
proof -
  let ?b = "\<lambda>x. filter (\<lambda>(k, _). k \<le> x) tiers"
  have cost: "fst (get_current_and_future_tier tiers x 1) = (if ?b x = [] then 1 else snd (last (?b x)))" for x
    by (cases "?b x") (simp_all add: tier_cost [OF monotone_tiers_wf [OF assms(1)]])
  have range: "1 \<le> snd p \<and> snd p \<le> 1000" if "p \<in> set (?b x)" for p x
    using that assms(1) by (auto simp: monotone_tiers_def list_all_iff)
  then show "1 \<le> fst (get_current_and_future_tier tiers x 1)" "fst (get_current_and_future_tier tiers x 1) \<le> 1000"
    unfolding cost using last_in_set [of "?b x"] by auto
  show "fst (get_current_and_future_tier tiers x 1) \<le> fst (get_current_and_future_tier tiers y 1)"
  proof (cases "?b x = []")
    case True
    then show ?thesis unfolding cost [of x] cost [of y] using range last_in_set [of "?b y"] by auto
  next
    case False
    then have x: "last (?b x) \<in> set (?b y)" using last_in_set [of "?b x"] assms(2) by (auto split: prod.splits)
    then have ne: "?b y \<noteq> []" by force
    have "sorted_wrt (\<lambda>(k, v) (k', v'). k < k' \<and> v \<le> v') (?b y)"
      using assms(1) unfolding monotone_tiers_def by (intro sorted_wrt_filter) blast
    then have "\<forall>p \<in> set (butlast (?b y)). snd p \<le> snd (last (?b y))"
      by (subst (asm) append_butlast_last_id [OF ne, symmetric], subst (asm) sorted_wrt_append) auto
    moreover have "last (?b x) \<in> set (butlast (?b y)) \<or> last (?b x) = last (?b y)"
      using x append_butlast_last_id [OF ne] by (metis UnE empty_iff insertE list.set(1,2) set_append)
    ultimately have "snd (last (?b x)) \<le> snd (last (?b y))" by auto
    then show ?thesis unfolding cost [of x] cost [of y] using False ne by simp
  qed
qed

lemma cost_table_monotone:
  "monotone_tiers (instruction_tiers (cost_table_for_version v))" "monotone_tiers (stack_height_tiers (cost_table_for_version v))"
  "monotone_tiers (stack_size_tiers (cost_table_for_version v))"
  by (simp_all add: cost_table_for_version_def initial_cost_schedule_v1_def initial_cost_schedule_v2_def
      initial_cost_schedule_v3_def initial_cost_schedule_v4_def initial_cost_schedule_v5_def bt_of_list_def monotone_tiers_def)

lemma cost_table_wf: "wf_cost_table (cost_table_for_version v)"
  using cost_table_monotone [of v] by (simp add: wf_cost_table_def monotone_tiers_wf)

section \<open>Properties\<close>

lemma meter_run_used:
  assumes "gas_status_new (cost_table_for_version v) budget price v = Some gs" "budget div price * 1000 < u64_size"
  shows "gas_used_pre_gas_price (snd (meter_run ops gs)) = (budget div price * 1000 - gs_gas_left (snd (meter_run ops gs))) div 1000"
proof -
  note new = gas_status_new_inv [OF assms(1) cost_table_wf assms(2)]
  have "meter_inv (snd (meter_run ops gs))" "gs_initial_budget (snd (meter_run ops gs)) = budget div price * 1000"
    using meter_run_ok [OF new(1), of ops] new(2) by (simp_all add: meter_ok_def meter_le_def)
  then show ?thesis using gas_used_bound by simp
qed

lemma meter_used_bounded:
  assumes "gas_status_new (cost_table_for_version v) budget price v = Some gs" "budget div price * 1000 < u64_size"
  shows "gas_used_pre_gas_price (snd (meter_run ops gs)) * price \<le> budget"
proof -
  have "gas_used_pre_gas_price (snd (meter_run ops gs)) \<le> budget div price"
    using div_le_mono [OF diff_le_self, of "budget div price * 1000" _ 1000] unfolding meter_run_used [OF assms] by simp
  then show ?thesis by (metis div_times_less_eq_dividend mult_le_mono1 order_trans)
qed

text \<open>C17: Over any sequence of charges the meter never bills more than the budget: the gas units used,
  times the gas price, stay within the budget the meter was created with, and more charges never
  lower the amount used.\<close>

theorem meter_run_bounded:
  assumes "gas_status_new (cost_table_for_version v) budget price v = Some gs" "budget div price * 1000 < u64_size"
  shows "gas_used_pre_gas_price (snd (meter_run ops gs)) * price \<le> budget
    \<and> gas_used_pre_gas_price gs = 0
    \<and> gas_used_pre_gas_price (snd (meter_run ops gs)) \<le> gas_used_pre_gas_price (snd (meter_run (ops @ rest) gs))"
proof -
  note new = gas_status_new_inv [OF assms(1) cost_table_wf assms(2)]
  have "gs_gas_left (snd (meter_run (ops @ rest) gs)) \<le> gs_gas_left (snd (meter_run ops gs))"
    using new(1)
  proof (induction ops arbitrary: gs)
    case Nil
    then show ?case using meter_run_ok [of gs rest] by (simp add: meter_ok_def meter_le_def)
  next
    case (Cons op ops)
    obtain r gs' where step: "meter_step op gs = (r, gs')" by fastforce
    have "meter_inv gs'" using meter_step_ok [OF Cons.prems, of op] by (simp add: step meter_ok_def)
    then show ?case using Cons.IH [of gs'] by (cases r) (simp_all add: step then_try_def)
  qed
  then have "gas_used_pre_gas_price (snd (meter_run ops gs)) \<le> gas_used_pre_gas_price (snd (meter_run (ops @ rest) gs))"
    unfolding meter_run_used [OF assms] by (intro div_le_mono diff_le_mono2)
  moreover have "gas_used_pre_gas_price gs = 0" using gas_used_bound [OF new(1)] new(4) by simp
  ultimately show ?thesis using meter_used_bounded [OF assms] by blast
qed

theorem meter_run_bounded_witness:
  "\<exists>gs. gas_status_new (cost_table_for_version 8) 5000 2 8 = Some gs
     \<and> gas_used_pre_gas_price (snd (meter_run [SimpleInstr LdU8, SimpleInstr LdU8, SimpleInstr Add] gs)) * 2 \<le> 5000"
proof -
  obtain gs where gs: "gas_status_new (cost_table_for_version 8) 5000 2 8 = Some gs"
    by (rule gas_status_new_total [of 2]) simp
  then show ?thesis
    using meter_run_bounded [OF gs, of "[SimpleInstr LdU8, SimpleInstr LdU8, SimpleInstr Add]"] by (simp add: u64_size_def)
qed

text \<open>The multiplier a mark is charged at.\<close>

definition charged_tier :: "(nat \<Rightarrow> nat \<times> nat option) \<Rightarrow> nat \<Rightarrow> nat \<Rightarrow> nat option \<Rightarrow> bool" where
  "charged_tier tier mark mult start \<longleftrightarrow>
     (if start = Some mark then 0 < mark \<and> tier (mark - 1) = (mult, Some mark) else tier mark = (mult, start))"

lemma tier_ok_charged:
  assumes "bt_wf tiers" "tier_ok tiers d mark mult start"
  shows "charged_tier (\<lambda>x. get_current_and_future_tier tiers x d) mark mult start"
proof (cases "start = Some mark")
  case True
  then show ?thesis using tier_ok_boundary [OF assms(1), of d mark mult] assms(2) by (simp add: charged_tier_def)
next
  case False
  then show ?thesis using tier_ok_current [OF assms] by (simp add: charged_tier_def)
qed

text \<open>C35: The multipliers follow the marks. After any sequence of charges the instruction multiplier is
  that of the tier the number of executed instructions lies in, and the stack multipliers are
  those of the tiers of the highest stack height and size reached so far, whatever was popped
  since; except that exactly on the first unit of a tier the previous tier still applies.\<close>

theorem meter_tiers_follow_marks:
  assumes "gas_status_new ct budget price v = Some gs0" "wf_cost_table ct" "budget div price * 1000 < u64_size"
    and "meter_run ops gs0 = (r, gs)"
  shows "charged_tier (instruction_tier ct) (instructions_executed gs) (instructions_current_tier_mult gs) (instructions_next_tier_start gs)
    \<and> charged_tier (stack_height_tier ct) (stack_height_high_water_mark gs) (stack_height_current_tier_mult gs) (stack_height_next_tier_start gs)
    \<and> charged_tier (stack_size_tier ct) (stack_size_high_water_mark gs) (stack_size_current_tier_mult gs) (stack_size_next_tier_start gs)"
proof -
  note new = gas_status_new_inv [OF assms(1-3)]
  have inv: "meter_inv gs" "gs_cost_table gs = ct"
    using meter_run_ok [OF new(1), of ops] new(5) assms(4) by (simp_all add: meter_ok_def meter_le_def)
  then show ?thesis
    by (auto simp: meter_inv_def wf_cost_table_def instruction_tier_def [abs_def] stack_height_tier_def [abs_def]
        stack_size_tier_def [abs_def] intro: tier_ok_charged)
qed

definition example_meter :: gas_status where
  "example_meter = the (gas_status_new (cost_table_for_version 8) 1000000 1 8)"

lemma example_meter_new: "gas_status_new (cost_table_for_version 8) 1000000 1 8 = Some example_meter"
proof -
  obtain gs where "gas_status_new (cost_table_for_version 8) 1000000 1 8 = Some gs"
    by (rule gas_status_new_total [of 1]) simp
  then show ?thesis by (simp add: example_meter_def)
qed

theorem meter_tiers_follow_marks_witness:
  "charged_tier (stack_size_tier (cost_table_for_version 8)) (stack_size_high_water_mark (snd (meter_run [LdConst 100000] example_meter)))
     (stack_size_current_tier_mult (snd (meter_run [LdConst 100000] example_meter)))
     (stack_size_next_tier_start (snd (meter_run [LdConst 100000] example_meter)))"
  using meter_tiers_follow_marks [OF example_meter_new cost_table_wf, of "[LdConst 100000]"]
  by (cases "meter_run [LdConst 100000] example_meter") (simp add: u64_size_def)

text \<open>C36: A charge costs what the tables say. If the counters do not overflow and the cost fits 64 bits, a
  charge deducts the number of instructions, the growth of the stack's size and the number of
  pushes, each times the multiplier of the tier after the counters were raised; if the meter does
  not hold that much it is emptied and the charge fails with out of gas.\<close>

theorem gas_charge_correct:
  assumes "gs_charge gs" "stack_height_current gs + pushes < u64_size"
    and "instructions_executed gs + n < u64_size" "stack_size_current gs + incr < u64_size"
    and "tier_cost_of gs n pushes incr < u64_size"
  shows "let r = gas_charge n pushes pops incr gs in
      if tier_cost_of gs n pushes incr \<le> gs_gas_left gs
      then fst r = Inr () \<and> gs_gas_left (snd r) = gs_gas_left gs - tier_cost_of gs n pushes incr
        \<and> stack_height_current (snd r) = stack_height_current gs + pushes - pops
        \<and> instructions_executed (snd r) = instructions_executed gs + n
        \<and> stack_size_current (snd r) = stack_size_current gs + incr
      else fst r = Inl OUT_OF_GAS \<and> gs_gas_left (snd r) = 0"
proof -
  obtain gs1 where gs1: "raise_marks n pushes incr gs = (Inr (), gs1)"
    "charge_cost gs1 n pushes incr = tier_cost_of gs n pushes incr"
    "gs_gas_left gs1 = gs_gas_left gs" "gs_charge gs1 = gs_charge gs" "stack_height_current gs1 = stack_height_current gs + pushes"
    "instructions_executed gs1 = instructions_executed gs + n" "stack_size_current gs1 = stack_size_current gs + incr"
    by (rule raise_marks_tiers [OF assms(2-4)])
  then show ?thesis
    using gas_charge_exact [OF gs1(1), of pops] assms(1,5) by (simp add: gs1 Let_def pop_stack_def)
qed

theorem gas_charge_correct_witness:
  "fst (gas_charge 1 1 0 16 example_meter) = Inr ()
   \<and> gs_gas_left (snd (gas_charge 1 1 0 16 example_meter)) = 1000000000 - 18"
proof -
  note new = gas_status_new_inv [OF example_meter_new cost_table_wf, simplified]
  have zero: "stack_height_current example_meter = 0" "instructions_executed example_meter = 0" "stack_size_current example_meter = 0"
    "stack_height_current_tier_mult example_meter = 1" "instructions_current_tier_mult example_meter = 1"
    "stack_size_current_tier_mult example_meter = 1"
    "stack_height_next_tier_start example_meter = Some 1000" "instructions_next_tier_start example_meter = Some 20000"
    "stack_size_next_tier_start example_meter = Some 100000"
    by (simp_all add: example_meter_def gas_status_new_def cost_table_for_version_def initial_cost_schedule_v5_def
        instruction_tier_def stack_height_tier_def stack_size_tier_def get_current_and_future_tier_def bt_of_list_def Let_def)
  have left: "gs_gas_left example_meter = 1000000000" "gs_charge example_meter"
    using new by (simp_all add: u64_size_def)
  have cost: "tier_cost_of example_meter (Suc 0) (Suc 0) 16 = 18" by (simp add: tier_cost_of_def next_tier_def zero)
  show ?thesis
    using gas_charge_correct [of example_meter "Suc 0" "Suc 0" 16 0] left by (simp add: cost zero u64_size_def Let_def)
qed

end
