(* ===== verification/Sui_Object.thy ===== *)
theory Sui_Object
  imports Sui_Prelude "HOL-Library.List_Lexorder"
begin

text \<open>
  Objects: \<open>crates/sui-types/src/object.rs\<close>, with the types of Move values they need from
  \<open>base_types.rs\<close>, \<open>move_package.rs\<close> and \<open>move-core-types\<close>.

  Identifiers and addresses are their 32 bytes, compared lexicographically as in Rust, and a Move
  object holds its BCS bytes, so its identifier is the first 32 of them and the balance of a coin is
  the little-endian number in the 8 bytes after. What depends on code outside (the size of a
  serialised type, the size of \<open>Owner\<close> in memory, the hash behind an object's digest) is a field of
  \<open>object_params\<close>; the deserialiser that turns an object into a structured Move value is the argument
  \<open>layout\<close>.

  Shown: reading a coin's balance gives back what was written and changes nothing else, and the SUI
  counted in an object is the sum of the balances its value holds.
\<close>

section \<open>Identifiers\<close>

type_synonym objectID = "nat list"
type_synonym sui_address = "nat list"
type_synonym sequence_number = nat

definition ID_LENGTH :: nat where "ID_LENGTH = 32"

definition address_from_single_byte :: "nat \<Rightarrow> sui_address" where
  "address_from_single_byte b = replicate 31 0 @ [b]"

definition deepbook_addr :: sui_address where
  "deepbook_addr = replicate 30 0 @ [222, 233]"

definition OBJECT_ID_ZERO :: objectID where "OBJECT_ID_ZERO = replicate 32 0"

definition SUI_SYSTEM_STATE_OBJECT_ID :: objectID where
  "SUI_SYSTEM_STATE_OBJECT_ID = address_from_single_byte 5"

definition is_system_package :: "objectID \<Rightarrow> bool" where
  "is_system_package addr \<longleftrightarrow>
     addr \<in> {address_from_single_byte 1, address_from_single_byte 2, address_from_single_byte 3, deepbook_addr}"

text \<open>The next version of every object a transaction writes is above those of its inputs.\<close>

definition lamport_increment :: "sequence_number list \<Rightarrow> sequence_number option" where
  "lamport_increment inputs = (let max_input = foldl max 0 inputs in do {
     rust_assert (max_input \<noteq> u64_size - 1);
     Some (max_input + 1)
   })"

section \<open>Types of Move values\<close>

datatype type_tag =
    TagBool | TagU8 | TagU64 | TagU128 | TagAddress | TagSigner
  | TagVector type_tag
  | TagStruct struct_tag
  | TagU16 | TagU32 | TagU256
and struct_tag = StructTag (st_address: sui_address) (st_module: string) (st_name: string) (st_type_params: "type_tag list")

definition GAS_type :: struct_tag where
  "GAS_type = StructTag (address_from_single_byte 2) ''sui'' ''SUI'' []"

definition GAS_type_tag :: type_tag where
  "GAS_type_tag = TagStruct GAS_type"

definition is_gas_type :: "type_tag \<Rightarrow> bool" where
  "is_gas_type t = (case t of TagStruct s \<Rightarrow> s = GAS_type | _ \<Rightarrow> False)"

definition is_balance_type :: "struct_tag \<Rightarrow> bool" where
  "is_balance_type s \<longleftrightarrow>
     st_address s = address_from_single_byte 2 \<and> st_module s = ''balance'' \<and> st_name s = ''Balance''"

datatype move_object_type = Other struct_tag | GasCoin | StakedSui | Coin type_tag

definition coin_type_maybe :: "move_object_type \<Rightarrow> type_tag option" where
  "coin_type_maybe t =
     (case t of GasCoin \<Rightarrow> Some GAS_type_tag | Coin inner \<Rightarrow> Some inner | StakedSui \<Rightarrow> None | Other _ \<Rightarrow> None)"

definition is_coin :: "move_object_type \<Rightarrow> bool" where
  "is_coin t = (case t of GasCoin \<Rightarrow> True | Coin _ \<Rightarrow> True | StakedSui \<Rightarrow> False | Other _ \<Rightarrow> False)"

definition is_gas_coin :: "move_object_type \<Rightarrow> bool" where
  "is_gas_coin t = (case t of GasCoin \<Rightarrow> True | _ \<Rightarrow> False)"

definition is_coin_t :: "move_object_type \<Rightarrow> type_tag \<Rightarrow> bool" where
  "is_coin_t t tag = (case t of GasCoin \<Rightarrow> is_gas_type tag | Coin c \<Rightarrow> tag = c | _ \<Rightarrow> False)"

lemma is_coin_iff: "is_coin t \<longleftrightarrow> coin_type_maybe t \<noteq> None"
  by (cases t) (simp_all add: is_coin_def coin_type_maybe_def)

section \<open>Move objects\<close>

record move_object =
  mo_type :: move_object_type
  has_public_transfer :: bool
  mo_version :: sequence_number
  mo_contents :: "nat list"

definition id_opt :: "nat list \<Rightarrow> objectID option" where
  "id_opt contents = (if length contents < ID_LENGTH then None else Some (take ID_LENGTH contents))"

definition move_object_id :: "move_object \<Rightarrow> objectID option" where
  "move_object_id m = id_opt (mo_contents m)"

datatype object_error = MoveObjectTooBig nat nat

definition new_from_execution_with_limit ::
  "move_object_type \<Rightarrow> bool \<Rightarrow> sequence_number \<Rightarrow> nat list \<Rightarrow> nat \<Rightarrow> (object_error, move_object) result" where
  "new_from_execution_with_limit t public_transfer version contents max_move_object_size =
     (if max_move_object_size < length contents then Inl (MoveObjectTooBig (length contents) max_move_object_size)
      else Inr \<lparr>mo_type = t, has_public_transfer = public_transfer, mo_version = version, mo_contents = contents\<rparr>)"

text \<open>\<open>u64::to_le_bytes\<close> and \<open>u64::from_le_bytes\<close>.\<close>

fun to_le_bytes :: "nat \<Rightarrow> nat \<Rightarrow> nat list" where
  "to_le_bytes 0 v = []"
| "to_le_bytes (Suc n) v = v mod 256 # to_le_bytes n (v div 256)"

fun from_le_bytes :: "nat list \<Rightarrow> nat" where
  "from_le_bytes [] = 0"
| "from_le_bytes (b # bs) = b + 256 * from_le_bytes bs"

text \<open>The BCS bytes of a coin are those of its identifier and its balance.\<close>

definition coin_to_bcs_bytes :: "objectID \<Rightarrow> nat \<Rightarrow> nat list" where
  "coin_to_bcs_bytes oid value = oid @ to_le_bytes 8 value"

definition new_gas_coin :: "sequence_number \<Rightarrow> objectID \<Rightarrow> nat \<Rightarrow> move_object option" where
  "new_gas_coin version oid value =
     (case new_from_execution_with_limit GasCoin True version (coin_to_bcs_bytes oid value) 256 of
        Inr m \<Rightarrow> Some m | Inl _ \<Rightarrow> None)"

definition new_coin :: "move_object_type \<Rightarrow> sequence_number \<Rightarrow> objectID \<Rightarrow> nat \<Rightarrow> move_object option" where
  "new_coin coin_type version oid value =
     (case new_from_execution_with_limit coin_type True version (coin_to_bcs_bytes oid value) 256 of
        Inr m \<Rightarrow> Some m | Inl _ \<Rightarrow> None)"

definition get_coin_value_unsafe :: "move_object \<Rightarrow> nat option" where
  "get_coin_value_unsafe m = do {
     rust_assert (ID_LENGTH \<le> length (mo_contents m));
     rust_assert (length (drop ID_LENGTH (mo_contents m)) = 8);
     Some (from_le_bytes (drop ID_LENGTH (mo_contents m)))
   }"

definition set_coin_value_unsafe :: "nat \<Rightarrow> move_object \<Rightarrow> move_object option" where
  "set_coin_value_unsafe value m = do {
     rust_assert (ID_LENGTH \<le> length (mo_contents m));
     Some (m\<lparr>mo_contents := take ID_LENGTH (mo_contents m) @ to_le_bytes 8 value\<rparr>)
   }"

definition update_contents_with_limit :: "nat list \<Rightarrow> nat \<Rightarrow> move_object \<Rightarrow> (object_error, move_object) result" where
  "update_contents_with_limit new_contents max_move_object_size m =
     (if max_move_object_size < length new_contents then Inl (MoveObjectTooBig (length new_contents) max_move_object_size)
      else Inr (m\<lparr>mo_contents := new_contents\<rparr>))"

definition increment_version_to :: "sequence_number \<Rightarrow> move_object \<Rightarrow> move_object" where
  "increment_version_to next m = m\<lparr>mo_version := next\<rparr>"

section \<open>Packages\<close>

record type_origin =
  to_module_name :: string
  to_struct_name :: string
  to_package :: objectID

record upgrade_info =
  upgraded_id :: objectID
  upgraded_version :: sequence_number

record move_package =
  mp_id :: objectID
  mp_version :: sequence_number
  module_map :: "(string \<times> nat list) list"
  type_origin_table :: "type_origin list"
  linkage_table :: "(objectID \<times> upgrade_info) list"

definition package_size :: "move_package \<Rightarrow> nat" where
  "package_size p =
     (let module_map_size = sum_list (map (\<lambda>(name, module). length name + length module) (module_map p));
          type_origin_table_size =
            sum_list (map (\<lambda>t. length (to_module_name t) + length (to_struct_name t) + ID_LENGTH) (type_origin_table p));
          linkage_table_size = length (linkage_table p) * (ID_LENGTH + (ID_LENGTH + 8))
      in 8 + module_map_size + type_origin_table_size + linkage_table_size)"

definition package_increment_version :: "move_package \<Rightarrow> move_package option" where
  "package_increment_version p = do {
     rust_assert (mp_version p \<noteq> u64_size - 1);
     Some (p\<lparr>mp_version := mp_version p + 1\<rparr>)
   }"

section \<open>Objects\<close>

datatype obj_data = Move move_object | Package move_package

datatype owner = AddressOwner sui_address | ObjectOwner sui_address | Shared sequence_number | Immutable

datatype owner_error = UnexpectedOwnerType

definition get_address_owner_address :: "owner \<Rightarrow> (owner_error, sui_address) result" where
  "get_address_owner_address ow = (case ow of AddressOwner a \<Rightarrow> Inr a | _ \<Rightarrow> Inl UnexpectedOwnerType)"

definition get_owner_address :: "owner \<Rightarrow> (owner_error, sui_address) result" where
  "get_owner_address ow =
     (case ow of AddressOwner a \<Rightarrow> Inr a | ObjectOwner a \<Rightarrow> Inr a | Shared _ \<Rightarrow> Inl UnexpectedOwnerType | Immutable \<Rightarrow> Inl UnexpectedOwnerType)"

definition is_address_owned :: "owner \<Rightarrow> bool" where
  "is_address_owned ow = (case ow of AddressOwner _ \<Rightarrow> True | _ \<Rightarrow> False)"

record sui_object =
  ob_data :: obj_data
  ob_owner :: owner
  previous_transaction :: nat
  storage_rebate :: nat

record object_params =
  op_owner_size :: nat
  op_type_size :: "move_object_type \<Rightarrow> nat"
  op_digest :: "sui_object \<Rightarrow> nat"

definition try_as_move :: "obj_data \<Rightarrow> move_object option" where
  "try_as_move d = (case d of Move m \<Rightarrow> Some m | Package _ \<Rightarrow> None)"

definition new_move :: "move_object \<Rightarrow> owner \<Rightarrow> nat \<Rightarrow> sui_object" where
  "new_move m ow tx = \<lparr>ob_data = Move m, ob_owner = ow, previous_transaction = tx, storage_rebate = 0\<rparr>"

definition new_package_from_data :: "obj_data \<Rightarrow> nat \<Rightarrow> sui_object" where
  "new_package_from_data d tx = \<lparr>ob_data = d, ob_owner = Immutable, previous_transaction = tx, storage_rebate = 0\<rparr>"

definition object_id :: "sui_object \<Rightarrow> objectID option" where
  "object_id ob = (case ob_data ob of Move m \<Rightarrow> move_object_id m | Package p \<Rightarrow> Some (mp_id p))"

definition object_version :: "sui_object \<Rightarrow> sequence_number" where
  "object_version ob = (case ob_data ob of Move m \<Rightarrow> mo_version m | Package p \<Rightarrow> mp_version p)"

definition is_package :: "sui_object \<Rightarrow> bool" where
  "is_package ob = (case ob_data ob of Package _ \<Rightarrow> True | Move _ \<Rightarrow> False)"

definition compute_object_reference :: "object_params \<Rightarrow> sui_object \<Rightarrow> (objectID \<times> sequence_number \<times> nat) option" where
  "compute_object_reference ps ob = do { oid \<leftarrow> object_id ob; Some (oid, object_version ob, op_digest ps ob) }"

definition get_single_owner :: "sui_object \<Rightarrow> sui_address option" where
  "get_single_owner ob = (case get_owner_address (ob_owner ob) of Inr a \<Rightarrow> Some a | Inl _ \<Rightarrow> None)"

definition transfer :: "sui_address \<Rightarrow> sui_object \<Rightarrow> sui_object" where
  "transfer new_owner ob = ob\<lparr>ob_owner := AddressOwner new_owner\<rparr>"

definition object_is_gas_coin :: "sui_object \<Rightarrow> bool" where
  "object_is_gas_coin ob = (case try_as_move (ob_data ob) of Some m \<Rightarrow> is_gas_coin (mo_type m) | None \<Rightarrow> False)"

definition move_size_for_gas_metering :: "object_params \<Rightarrow> move_object \<Rightarrow> nat" where
  "move_size_for_gas_metering ps m = length (mo_contents m) + op_type_size ps (mo_type m) + 1 + 8"

text \<open>A transaction digest has 32 bytes and the rebate 8.\<close>

definition object_size_for_gas_metering :: "object_params \<Rightarrow> sui_object \<Rightarrow> nat" where
  "object_size_for_gas_metering ps ob =
     (let meta_data_size = op_owner_size ps + 32 + 8;
          data_size = (case ob_data ob of Move m \<Rightarrow> move_size_for_gas_metering ps m | Package p \<Rightarrow> package_size p)
      in meta_data_size + data_size)"

section \<open>Balances inside an object\<close>

datatype move_value =
    U8 nat | U64 nat | U128 nat | Bool bool | Address sui_address
  | Vector "move_value list"
  | Struct move_struct
  | Signer sui_address | U16 nat | U32 nat | U256 nat
and move_struct =
    Runtime "move_value list"
  | WithFields "(string \<times> move_value) list"
  | WithTypes struct_tag "(string \<times> move_value) list"

datatype balance_error = ExceededMaxMoveValueDepth | LayoutError string

type_synonym balances = "(type_tag \<times> nat) list"

definition is_balance :: "struct_tag \<Rightarrow> type_tag option" where
  "is_balance s = (if is_balance_type s \<and> length (st_type_params s) = 1 then Some (st_type_params s ! 0) else None)"

definition add_balance :: "type_tag \<Rightarrow> nat \<Rightarrow> balances \<Rightarrow> balances" where
  "add_balance tag balance m =
     (if 0 < balance
      then AList.update tag (u64_wrapping_add (case map_of m tag of Some b \<Rightarrow> b | None \<Rightarrow> 0) balance) m else m)"

definition MAX_MOVE_VALUE_DEPTH :: nat where "MAX_MOVE_VALUE_DEPTH = 256"

text \<open>The amount of a \<open>Balance\<close>, its only field.\<close>

definition balance_amount :: "(string \<times> move_value) list \<Rightarrow> nat option" where
  "balance_amount flds = (case flds of [] \<Rightarrow> None | (_, v) # _ \<Rightarrow> (case v of U64 n \<Rightarrow> Some n | _ \<Rightarrow> None))"

text \<open>\<open>unreachable!\<close> is \<open>None\<close>. The two loops of the source are the functions on lists.\<close>

function (sequential) get_coin_balances_in_struct :: "move_struct \<Rightarrow> balances \<Rightarrow> nat \<Rightarrow> (balance_error, balances) result option"
  and get_coin_balances_in_value :: "move_value \<Rightarrow> balances \<Rightarrow> nat \<Rightarrow> (balance_error, balances) result option"
  and balances_in_fields :: "(string \<times> move_value) list \<Rightarrow> balances \<Rightarrow> nat \<Rightarrow> (balance_error, balances) result option"
  and balances_in_entries :: "move_value list \<Rightarrow> balances \<Rightarrow> nat \<Rightarrow> (balance_error, balances) result option" where
  "get_coin_balances_in_struct (WithTypes struct_type flds) m value_depth =
     (case is_balance struct_type of
        Some type_tag \<Rightarrow> do { balance \<leftarrow> balance_amount flds; Some (Inr (add_balance type_tag balance m)) }
      | None \<Rightarrow> balances_in_fields flds m value_depth)"
| "get_coin_balances_in_struct (Runtime _) m value_depth = None"
| "get_coin_balances_in_struct (WithFields _) m value_depth = None"
| "get_coin_balances_in_value (Struct s) m value_depth =
     (let value_depth = value_depth + 1
      in if MAX_MOVE_VALUE_DEPTH < value_depth then Some (Inl ExceededMaxMoveValueDepth)
         else get_coin_balances_in_struct s m value_depth)"
| "get_coin_balances_in_value (Vector vec) m value_depth =
     (let value_depth = value_depth + 1
      in if MAX_MOVE_VALUE_DEPTH < value_depth then Some (Inl ExceededMaxMoveValueDepth)
         else balances_in_entries vec m value_depth)"
| "get_coin_balances_in_value v m value_depth =
     (if MAX_MOVE_VALUE_DEPTH < value_depth + 1 then Some (Inl ExceededMaxMoveValueDepth) else Some (Inr m))"
| "balances_in_fields [] m value_depth = Some (Inr m)"
| "balances_in_fields ((_, v) # flds) m value_depth =
     (case get_coin_balances_in_value v m value_depth of
        Some (Inr m) \<Rightarrow> balances_in_fields flds m value_depth
      | r \<Rightarrow> r)"
| "balances_in_entries [] m value_depth = Some (Inr m)"
| "balances_in_entries (v # vec) m value_depth =
     (case get_coin_balances_in_value v m value_depth of
        Some (Inr m) \<Rightarrow> balances_in_entries vec m value_depth
      | r \<Rightarrow> r)"
  by pat_completeness auto
termination
  by (relation "measure (\<lambda>x. case x of
       Inl (Inl (s, _, _)) \<Rightarrow> size s
     | Inl (Inr (v, _, _)) \<Rightarrow> size v
     | Inr (Inl (flds, _, _)) \<Rightarrow> size_list (size_prod (\<lambda>_. 0) size) flds
     | Inr (Inr (vec, _, _)) \<Rightarrow> size_list size vec)") auto

type_synonym layout_resolver = "move_object \<Rightarrow> (balance_error, move_struct) result"

definition get_coin_balances :: "layout_resolver \<Rightarrow> move_object \<Rightarrow> (balance_error, balances) result option" where
  "get_coin_balances layout m =
     (case coin_type_maybe (mo_type m) of
        Some type_tag \<Rightarrow> do { balance \<leftarrow> get_coin_value_unsafe m; Some (Inr (add_balance type_tag balance [])) }
      | None \<Rightarrow> (case layout m of
            Inl e \<Rightarrow> Some (Inl e)
          | Inr move_struct \<Rightarrow> get_coin_balances_in_struct move_struct [] 0))"

definition move_get_total_sui :: "layout_resolver \<Rightarrow> move_object \<Rightarrow> (balance_error, nat) result option" where
  "move_get_total_sui layout m =
     map_option (map_sum (\<lambda>e. e) (\<lambda>balances. case map_of balances GAS_type_tag of Some b \<Rightarrow> b | None \<Rightarrow> 0))
       (get_coin_balances layout m)"

definition get_total_sui :: "layout_resolver \<Rightarrow> sui_object \<Rightarrow> (balance_error, nat) result option" where
  "get_total_sui layout ob =
     (case ob_data ob of
        Move m \<Rightarrow> map_option (map_sum (\<lambda>e. e) (u64_wrapping_add (storage_rebate ob))) (move_get_total_sui layout m)
      | Package _ \<Rightarrow> Some (Inr (storage_rebate ob)))"

section \<open>Coins\<close>

lemma length_to_le_bytes [simp]: "length (to_le_bytes n v) = n"
  by (induction n arbitrary: v) simp_all

lemma from_to_le_bytes [simp]: "v < 256 ^ n \<Longrightarrow> from_le_bytes (to_le_bytes n v) = v"
proof (induction n arbitrary: v)
  case (Suc n)
  have "v div 256 < 256 ^ n" using Suc.prems by (simp add: less_mult_imp_div_less mult.commute)
  then show ?case using Suc.IH by simp
qed simp

lemma to_le_bytes_byte: "b \<in> set (to_le_bytes n v) \<Longrightarrow> b < 256"
  by (induction n arbitrary: v) auto

lemma from_le_bytes_bound: "\<forall>b \<in> set bs. b < 256 \<Longrightarrow> from_le_bytes bs < 256 ^ length bs"
proof (induction bs)
  case (Cons b bs)
  then have "b < 256" "from_le_bytes bs + 1 \<le> 256 ^ length bs" by simp_all
  then have "b + 256 * from_le_bytes bs < 256 * (from_le_bytes bs + 1)" by simp
  also have "\<dots> \<le> 256 * 256 ^ length bs" using \<open>from_le_bytes bs + 1 \<le> _\<close> by (rule mult_le_mono2)
  finally show ?case by simp
qed simp

lemma from_to_le_bytes_u64 [simp]: "v < u64_size \<Longrightarrow> from_le_bytes (to_le_bytes 8 v) = v"
  by (simp add: u64_size_def)

text \<open>A gas coin as the ledger holds it: 32 bytes of identifier and 8 of balance.\<close>

definition coin_of :: "sui_object \<Rightarrow> objectID \<Rightarrow> nat \<Rightarrow> bool" where
  "coin_of ob oid v \<longleftrightarrow> length oid = ID_LENGTH \<and> v < u64_size
     \<and> (case ob_data ob of Move m \<Rightarrow> mo_type m = GasCoin \<and> mo_contents m = coin_to_bcs_bytes oid v | Package _ \<Rightarrow> False)"

lemma coin_of_move:
  assumes "coin_of ob oid v"
  obtains m where "ob_data ob = Move m" "mo_type m = GasCoin" "mo_contents m = oid @ to_le_bytes 8 v"
    "length oid = ID_LENGTH" "v < u64_size"
  using assms by (auto simp: coin_of_def coin_to_bcs_bytes_def split: obj_data.splits)

lemma coin_of_id [simp]: "coin_of ob oid v \<Longrightarrow> object_id ob = Some oid"
  by (erule coin_of_move) (simp add: object_id_def move_object_id_def id_opt_def)

lemma coin_get_set:
  assumes "ob_data ob = Move m" "coin_of ob oid v" "w < u64_size"
  shows "get_coin_value_unsafe m = Some v"
    and "\<exists>m'. set_coin_value_unsafe w m = Some m' \<and> coin_of (ob\<lparr>ob_data := Move m'\<rparr>) oid w
      \<and> mo_version m' = mo_version m \<and> has_public_transfer m' = has_public_transfer m"
  using assms
  by (auto elim!: coin_of_move simp: get_coin_value_unsafe_def set_coin_value_unsafe_def coin_of_def coin_to_bcs_bytes_def)

text \<open>C37: A gas coin keeps its balance exactly: reading the balance of a coin gives the number it was
  created with or last set to, for every 64-bit number, and setting it changes neither the
  identifier nor the size of the object.\<close>

theorem coin_value_roundtrip:
  assumes "length oid = ID_LENGTH" "v < u64_size" "w < u64_size"
  shows "\<exists>m m'. new_gas_coin version oid v = Some m \<and> get_coin_value_unsafe m = Some v
    \<and> set_coin_value_unsafe w m = Some m' \<and> get_coin_value_unsafe m' = Some w
    \<and> move_object_id m = Some oid \<and> move_object_id m' = Some oid
    \<and> length (mo_contents m') = length (mo_contents m)"
  using assms
  by (simp add: new_gas_coin_def new_from_execution_with_limit_def coin_to_bcs_bytes_def ID_LENGTH_def
      get_coin_value_unsafe_def set_coin_value_unsafe_def move_object_id_def id_opt_def)

theorem coin_value_roundtrip_witness:
  "\<exists>m. new_gas_coin 1 (replicate 32 7) 1000000 = Some m \<and> get_coin_value_unsafe m = Some 1000000"
  using coin_value_roundtrip [of "replicate 32 7" 1000000 5 1] by (auto simp: ID_LENGTH_def u64_size_def)

section \<open>Counting balances\<close>

text \<open>The sum of the balances of a coin type in a value, how deep they lie, and that every \<open>Balance\<close>
  holds a number.\<close>

fun struct_balance :: "type_tag \<Rightarrow> move_struct \<Rightarrow> nat" and value_balance :: "type_tag \<Rightarrow> move_value \<Rightarrow> nat" where
  "struct_balance tag (WithTypes s flds) =
     (case is_balance s of
        Some t \<Rightarrow> (case balance_amount flds of Some n \<Rightarrow> if t = tag then n else 0 | None \<Rightarrow> 0)
      | None \<Rightarrow> sum_list (map (\<lambda>(_, v). value_balance tag v) flds))"
| "struct_balance tag (Runtime vs) = sum_list (map (value_balance tag) vs)"
| "struct_balance tag (WithFields flds) = sum_list (map (\<lambda>(_, v). value_balance tag v) flds)"
| "value_balance tag (Struct s) = struct_balance tag s"
| "value_balance tag (Vector vs) = sum_list (map (value_balance tag) vs)"
| "value_balance tag v = 0"

fun struct_depth :: "move_struct \<Rightarrow> nat" and value_depth :: "move_value \<Rightarrow> nat" where
  "struct_depth (WithTypes s flds) =
     (if is_balance s \<noteq> None then 0 else Max (set (0 # map (\<lambda>(_, v). value_depth v) flds)))"
| "struct_depth (Runtime vs) = 0"
| "struct_depth (WithFields flds) = 0"
| "value_depth (Struct s) = Suc (struct_depth s)"
| "value_depth (Vector vs) = Suc (Max (set (0 # map value_depth vs)))"
| "value_depth v = 1"

fun typed_struct :: "move_struct \<Rightarrow> bool" and typed_value :: "move_value \<Rightarrow> bool" where
  "typed_struct (WithTypes s flds) \<longleftrightarrow>
     (if is_balance s \<noteq> None then balance_amount flds \<noteq> None
      else (\<forall>(_, v) \<in> set flds. typed_value v))"
| "typed_struct (Runtime _) \<longleftrightarrow> False"
| "typed_struct (WithFields _) \<longleftrightarrow> False"
| "typed_value (Struct s) \<longleftrightarrow> typed_struct s"
| "typed_value (Vector vs) \<longleftrightarrow> (\<forall>v \<in> set vs. typed_value v)"
| "typed_value v \<longleftrightarrow> True"

definition balance_in :: "balances \<Rightarrow> type_tag \<Rightarrow> nat" where
  "balance_in m tag = (case map_of m tag of Some b \<Rightarrow> b | None \<Rightarrow> 0)"

text \<open>A traversal to depth \<open>d\<close> fails when \<open>d\<close> is beyond the limit and otherwise adds the balances.\<close>

definition counts :: "(balance_error, balances) result option \<Rightarrow> balances \<Rightarrow> nat \<Rightarrow> (type_tag \<Rightarrow> nat) \<Rightarrow> bool" where
  "counts r m d f \<longleftrightarrow>
     (if d \<le> MAX_MOVE_VALUE_DEPTH then \<exists>m'. r = Some (Inr m') \<and> (\<forall>t. balance_in m' t mod u64_size = (balance_in m t + f t) mod u64_size)
      else r = Some (Inl ExceededMaxMoveValueDepth))"

lemma counts_return: "d \<le> MAX_MOVE_VALUE_DEPTH \<Longrightarrow> \<forall>t. f t = 0 \<Longrightarrow> counts (Some (Inr m)) m d f"
  by (simp add: counts_def)

lemma balance_in_add_balance:
  "balance_in (add_balance tag n m) t mod u64_size = (balance_in m t + (if tag = t then n else 0)) mod u64_size"
  by (auto simp: balance_in_def add_balance_def map_simps u64_wrapping_add_def)

lemma counts_add_balance:
  "d \<le> MAX_MOVE_VALUE_DEPTH \<Longrightarrow> counts (Some (Inr (add_balance tag n m))) m d (\<lambda>t. if tag = t then n else 0)"
  by (simp add: counts_def balance_in_add_balance)

lemma counts_then:
  assumes "counts r m d f" "\<And>m'. r = Some (Inr m') \<Longrightarrow> counts (g m') m' e h"
  shows "counts (case r of Some (Inr m') \<Rightarrow> g m' | Some (Inl x) \<Rightarrow> Some (Inl x) | None \<Rightarrow> None) m (max d e) (\<lambda>t. f t + h t)"
proof (cases "d \<le> MAX_MOVE_VALUE_DEPTH")
  case True
  then obtain m' where m': "r = Some (Inr m')" "\<And>t. balance_in m' t mod u64_size = (balance_in m t + f t) mod u64_size"
    using assms(1) by (auto simp: counts_def)
  have "(balance_in m' t + h t) mod u64_size = (balance_in m t + (f t + h t)) mod u64_size" for t
    using m'(2) [of t] by (metis add.assoc mod_add_left_eq)
  then show ?thesis using True m'(1) assms(2) [OF m'(1)] by (auto simp: counts_def)
qed (use assms(1) in \<open>simp add: counts_def\<close>)

lemma Max_depth_insert: "finite A \<Longrightarrow> Max (insert x A) = max x (Max (insert 0 A) :: nat)"
  by (cases "A = {}") simp_all

lemma balances_counted:
  shows "typed_struct s \<Longrightarrow> d \<le> MAX_MOVE_VALUE_DEPTH
      \<Longrightarrow> counts (get_coin_balances_in_struct s m d) m (d + struct_depth s) (\<lambda>t. struct_balance t s)"
    and "typed_value v \<Longrightarrow> d \<le> MAX_MOVE_VALUE_DEPTH
      \<Longrightarrow> counts (get_coin_balances_in_value v m d) m (d + value_depth v) (\<lambda>t. value_balance t v)"
    and "\<forall>(_, v) \<in> set flds. typed_value v \<Longrightarrow> d \<le> MAX_MOVE_VALUE_DEPTH
      \<Longrightarrow> counts (balances_in_fields flds m d) m (d + Max (insert 0 ((\<lambda>(_, v). value_depth v) ` set flds)))
            (\<lambda>t. sum_list (map (\<lambda>(_, v). value_balance t v) flds))"
    and "\<forall>v \<in> set vs. typed_value v \<Longrightarrow> d \<le> MAX_MOVE_VALUE_DEPTH
      \<Longrightarrow> counts (balances_in_entries vs m d) m (d + Max (insert 0 (value_depth ` set vs)))
            (\<lambda>t. sum_list (map (value_balance t) vs))"
proof (induction s m d and v m d and flds m d and vs m d
    rule: get_coin_balances_in_struct_get_coin_balances_in_value_balances_in_fields_balances_in_entries.induct)
  case (1 struct_type flds m d)
  then show ?case
    by (auto simp: counts_add_balance counts_return split: option.splits list.splits move_value.splits)
next
  case (4 s m d)
  then show ?case by (cases "MAX_MOVE_VALUE_DEPTH < d + 1") (simp_all add: counts_def)
next
  case (5 vec m d)
  then show ?case by (cases "MAX_MOVE_VALUE_DEPTH < d + 1") (simp_all add: counts_def)
next
  case (8 n v flds m d)
  have here: "counts (get_coin_balances_in_value v m d) m (d + value_depth v) (\<lambda>t. value_balance t v)"
    using 8 by simp
  have rest: "counts (balances_in_fields flds m' d) m' (d + Max (insert 0 ((\<lambda>(_, v). value_depth v) ` set flds)))
      (\<lambda>t. sum_list (map (\<lambda>(_, v). value_balance t v) flds))" if "get_coin_balances_in_value v m d = Some (Inr m')" for m'
    using 8(2) [OF that refl] 8(3,4) by simp
  show ?case using counts_then [OF here rest] by (simp add: Max_depth_insert [of _ "value_depth v"] nat_add_max_right)
next
  case (10 v vs m d)
  have here: "counts (get_coin_balances_in_value v m d) m (d + value_depth v) (\<lambda>t. value_balance t v)"
    using 10 by simp
  have rest: "counts (balances_in_entries vs m' d) m' (d + Max (insert 0 (value_depth ` set vs)))
      (\<lambda>t. sum_list (map (value_balance t) vs))" if "get_coin_balances_in_value v m d = Some (Inr m')" for m'
    using 10(2) [OF that refl] 10(3,4) by simp
  show ?case using counts_then [OF here rest] by (simp add: Max_depth_insert [of _ "value_depth v"] nat_add_max_right)
qed (simp_all add: counts_def)

definition example_balance :: "nat \<Rightarrow> move_value" where
  "example_balance n =
     Struct (WithTypes (StructTag (address_from_single_byte 2) ''balance'' ''Balance'' [GAS_type_tag]) [(''value'', U64 n)])"

definition example_pool :: move_struct where
  "example_pool = WithTypes (StructTag (address_from_single_byte 9) ''amm'' ''Pool'' [])
     [(''reserve'', example_balance 70), (''fees'', Vector [example_balance 5, U8 9])]"

definition example_pool_move :: move_object where
  "example_pool_move = \<lparr>mo_type = Other (StructTag (address_from_single_byte 9) ''amm'' ''Pool'' []), has_public_transfer = True,
     mo_version = 3, mo_contents = replicate 40 1\<rparr>"

definition example_pool_object :: sui_object where
  "example_pool_object = \<lparr>ob_data = Move example_pool_move, ob_owner = Shared 1, previous_transaction = 4, storage_rebate = 25\<rparr>"

lemma example_pool_facts: "typed_struct example_pool" "struct_depth example_pool = 2" "struct_balance GAS_type_tag example_pool = 75"
  by code_simp+

text \<open>The SUI an object holds besides its rebate: the balance of a coin of SUI, nothing for a coin of another type
  or a package, and all nested balances of SUI for another value.\<close>

definition held_sui :: "layout_resolver \<Rightarrow> sui_object \<Rightarrow> nat" where
  "held_sui layout ob = (case ob_data ob of
     Package _ \<Rightarrow> 0
   | Move m \<Rightarrow> (case coin_type_maybe (mo_type m) of
       Some tag \<Rightarrow> if tag = GAS_type_tag then from_le_bytes (drop ID_LENGTH (mo_contents m)) else 0
     | None \<Rightarrow> (case layout m of Inl _ \<Rightarrow> 0 | Inr s \<Rightarrow> struct_balance GAS_type_tag s)))"

lemma total_sui_struct:
  assumes "typed_struct s" "rebate + struct_balance GAS_type_tag s < u64_size"
  shows "map_option (map_sum (\<lambda>e. e) (u64_wrapping_add rebate)) (map_option (map_sum (\<lambda>e. e)
      (\<lambda>balances. case map_of balances GAS_type_tag of Some b \<Rightarrow> b | None \<Rightarrow> 0)) (get_coin_balances_in_struct s [] 0))
    = Some (if struct_depth s \<le> MAX_MOVE_VALUE_DEPTH then Inr (rebate + struct_balance GAS_type_tag s)
            else Inl ExceededMaxMoveValueDepth)"
proof -
  have "counts (get_coin_balances_in_struct s [] 0) [] (struct_depth s) (\<lambda>t. struct_balance t s)"
    using balances_counted(1) [OF assms(1), of 0 "[]"] by simp
  moreover have "u64_wrapping_add rebate (balance_in m' GAS_type_tag) = rebate + struct_balance GAS_type_tag s"
    if "balance_in m' GAS_type_tag mod u64_size = (balance_in [] GAS_type_tag + struct_balance GAS_type_tag s) mod u64_size" for m'
    using that assms(2) by (metis add_0 balance_in_def map_of.simps(1) mod_add_right_eq mod_less option.simps(4) u64_wrapping_add_def)
  ultimately show ?thesis by (auto simp: counts_def balance_in_def split: if_splits)
qed

text \<open>C38: The SUI counted in any object is its storage rebate plus the SUI it holds, if the layout resolver gives
  well-typed values and the sum fits 64 bits. A package holds none. A coin holds the balance in its
  contents if it is a coin of SUI, and none otherwise; the count panics exactly if its contents are
  not an identifier followed by eight bytes. Any other value holds every balance of SUI that is nested
  in its fields and vector entries; the count fails, without a panic, exactly if its layout cannot be
  resolved, with the resolver's error, or if it is nested deeper than the limit.\<close>

theorem get_total_sui_correct:
  assumes "\<forall>m s. ob_data ob = Move m \<and> coin_type_maybe (mo_type m) = None \<and> layout m = Inr s \<longrightarrow> typed_struct s"
    and "storage_rebate ob + held_sui layout ob < u64_size"
  shows "get_total_sui layout ob = (let total = Some (Inr (storage_rebate ob + held_sui layout ob)) in
    case ob_data ob of
      Package _ \<Rightarrow> total
    | Move m \<Rightarrow>
        if coin_type_maybe (mo_type m) \<noteq> None
        then (if length (mo_contents m) = ID_LENGTH + 8 then total else None)
        else (case layout m of
            Inl e \<Rightarrow> Some (Inl e)
          | Inr s \<Rightarrow> if struct_depth s \<le> MAX_MOVE_VALUE_DEPTH then total else Some (Inl ExceededMaxMoveValueDepth)))"
proof (cases "ob_data ob")
  case (Move m)
  show ?thesis
  proof (cases "coin_type_maybe (mo_type m)")
    case None
    have "get_total_sui layout ob = Some (if struct_depth s \<le> MAX_MOVE_VALUE_DEPTH then Inr (storage_rebate ob + held_sui layout ob)
        else Inl ExceededMaxMoveValueDepth)" if "layout m = Inr s" for s
    proof -
      have held: "held_sui layout ob = struct_balance GAS_type_tag s" using Move None that by (simp add: held_sui_def)
      show ?thesis
        unfolding get_total_sui_def move_get_total_sui_def get_coin_balances_def Move None that held obj_data.case option.case sum.case
        by (rule total_sui_struct) (use assms Move None that held in auto)
    qed
    then show ?thesis using Move None
      by (auto simp: get_total_sui_def move_get_total_sui_def get_coin_balances_def Let_def split: sum.split)
  next
    case (Some tag)
    have len: "ID_LENGTH \<le> n \<and> n - ID_LENGTH = 8 \<longleftrightarrow> n = ID_LENGTH + 8" for n by auto
    show ?thesis
      using assms(2) Move Some len [of "length (mo_contents m)"]
      by (auto simp: get_total_sui_def move_get_total_sui_def get_coin_balances_def get_coin_value_unsafe_def
          held_sui_def add_balance_def Let_def)
  qed
qed (use assms(2) in \<open>simp add: get_total_sui_def held_sui_def\<close>)

theorem get_total_sui_correct_witness:
  "get_total_sui (\<lambda>_. Inr example_pool) example_pool_object = Some (Inr 100)"
  using get_total_sui_correct [of example_pool_object "\<lambda>_. Inr example_pool"] example_pool_facts
  by (simp add: example_pool_object_def example_pool_move_def coin_type_maybe_def held_sui_def MAX_MOVE_VALUE_DEPTH_def u64_size_def)

lemma get_total_sui_coin:
  assumes "coin_of ob oid v" "storage_rebate ob + v < u64_size"
  shows "get_total_sui layout ob = Some (Inr (storage_rebate ob + v))"
proof -
  obtain m where m: "ob_data ob = Move m" using assms(1) by (rule coin_of_move)
  then have "mo_type m = GasCoin" using assms(1) by (simp add: coin_of_def)
  then show ?thesis using m coin_get_set(1) [OF m assms(1), of 0] assms(2)
    by (simp add: get_total_sui_def move_get_total_sui_def get_coin_balances_def coin_type_maybe_def add_balance_def u64_size_def)
qed

lemma lamport_increment_above:
  assumes "lamport_increment inputs = Some v"
  shows "\<forall>i \<in> set inputs. i < v"
proof -
  have "\<forall>i \<in> insert a (set inputs). i \<le> foldl max a inputs" for a :: nat
    by (induction inputs arbitrary: a) (fastforce simp: max_def split: if_splits)+
  then show "\<forall>i \<in> set inputs. i < v" using assms by (fastforce simp: lamport_increment_def Let_def less_Suc_eq_le split: if_splits)
qed

end
