(* ===== verification/Sui_Gas.thy ===== *)
theory Sui_Gas
  imports Sui_Gas_Charges Sui_Object
begin

text \<open>
  What a transaction pays: \<open>gas_model/gas_v2.rs\<close> and \<open>gas.rs\<close> of \<open>crates/sui-types/src\<close>.

  Both modules are compiled with checked arithmetic, so an overflow is a panic (\<open>None\<close>); an operation
  that may also fail returns its result with the new status. The fields of \<open>ProtocolConfig\<close> these
  modules read are the record \<open>protocol_config\<close>. Casts between \<open>u64\<close> and \<open>i64\<close> are written out.

  Shown: the rebate is rounded to the nearest and never exceeds the deposit, the computation charge is
  rounded up to its step or bucket and never exceeds the budget, and when storage can be charged the
  sender pays at most the budget.
\<close>

section \<open>Parameters\<close>

record protocol_config =
  pc_max_tx_gas :: nat
  pc_max_gas_price :: nat
  pc_max_gas_computation_bucket :: nat
  pc_gas_rounding_step :: "nat option"
  pc_base_tx_cost_fixed :: nat
  pc_txn_base_cost_as_multiplier :: bool
  pc_package_publish_cost_per_byte :: nat
  pc_obj_access_cost_read_per_byte :: nat
  pc_obj_data_cost_refundable :: nat
  pc_gas_model_version :: nat
  pc_storage_rebate_rate :: nat
  pc_storage_gas_price :: nat

definition txn_base_cost_as_multiplier :: "protocol_config \<Rightarrow> bool" where
  "txn_base_cost_as_multiplier c = pc_txn_base_cost_as_multiplier c"

section \<open>Buckets and rebates\<close>

record computation_bucket =
  cb_min :: nat
  cb_max :: nat
  cb_cost :: nat

definition bucket_simple :: "nat \<Rightarrow> nat \<Rightarrow> computation_bucket" where
  "bucket_simple lo hi = \<lparr>cb_min = lo, cb_max = hi, cb_cost = hi\<rparr>"

definition get_bucket_cost :: "computation_bucket list \<Rightarrow> nat \<Rightarrow> nat" where
  "get_bucket_cost table computation_cost =
     (case find (\<lambda>bucket. computation_cost \<le> cb_max bucket) table of
        Some bucket \<Rightarrow> cb_cost bucket
      | None \<Rightarrow> (if table = [] then 5000000 else cb_cost (last table)))"

definition computation_buckets :: "nat \<Rightarrow> computation_bucket list option" where
  "computation_buckets max_bucket_cost = do {
     rust_assert (5000000 \<le> max_bucket_cost);
     Some [bucket_simple 0 1000, bucket_simple 1000 5000, bucket_simple 5000 10000, bucket_simple 10000 20000,
       bucket_simple 20000 50000, bucket_simple 50000 200000, bucket_simple 200000 1000000,
       bucket_simple 1000000 max_bucket_cost]
   }"

definition BASIS_POINTS :: nat where "BASIS_POINTS = 10000"

definition sender_rebate :: "nat \<Rightarrow> nat \<Rightarrow> nat" where
  "sender_rebate rebate rate = (rebate * rate + BASIS_POINTS div 2) div BASIS_POINTS mod u64_size"

section \<open>Cost tables\<close>

record sui_cost_table =
  min_transaction_cost :: nat
  max_gas_budget :: nat
  package_publish_per_byte_cost :: nat
  object_read_per_byte_cost :: nat
  storage_per_byte_cost :: nat
  execution_cost_table :: move_cost_table
  ct_computation_bucket :: "computation_bucket list"

definition sui_cost_table_new :: "protocol_config \<Rightarrow> nat \<Rightarrow> sui_cost_table option" where
  "sui_cost_table_new c gas_price = do {
     cost \<leftarrow> (if txn_base_cost_as_multiplier c then u64_checked_mul (pc_base_tx_cost_fixed c) gas_price
              else Some (pc_base_tx_cost_fixed c));
     buckets \<leftarrow> computation_buckets (pc_max_gas_computation_bucket c);
     Some \<lparr>min_transaction_cost = cost, max_gas_budget = pc_max_tx_gas c,
       package_publish_per_byte_cost = pc_package_publish_cost_per_byte c,
       object_read_per_byte_cost = pc_obj_access_cost_read_per_byte c,
       storage_per_byte_cost = pc_obj_data_cost_refundable c,
       execution_cost_table = cost_table_for_version (pc_gas_model_version c),
       ct_computation_bucket = buckets\<rparr>
   }"

definition sui_cost_table_unmetered :: "sui_cost_table option" where
  "sui_cost_table_unmetered = do {
     buckets \<leftarrow> computation_buckets 5000000;
     Some \<lparr>min_transaction_cost = 0, max_gas_budget = u64_size - 1, package_publish_per_byte_cost = 0,
       object_read_per_byte_cost = 0, storage_per_byte_cost = 0, execution_cost_table = zero_cost_schedule,
       ct_computation_bucket = buckets\<rparr>
   }"

section \<open>Gas status\<close>

record sui_gas_status =
  sg_gas_status :: gas_status
  sg_cost_table :: sui_cost_table
  sg_gas_budget :: nat
  sg_computation_cost :: nat
  sg_charge :: bool
  sg_gas_price :: nat
  sg_reference_gas_price :: nat
  sg_storage_gas_price :: nat
  sg_storage_cost :: nat
  sg_storage_rebate :: nat
  sg_rebate_rate :: nat
  sg_unmetered_storage_rebate :: nat
  sg_gas_rounding_step :: "nat option"

definition sui_gas_status_make ::
  "gas_status \<Rightarrow> nat \<Rightarrow> bool \<Rightarrow> nat \<Rightarrow> nat \<Rightarrow> nat \<Rightarrow> nat \<Rightarrow> nat option \<Rightarrow> sui_cost_table \<Rightarrow> sui_gas_status" where
  "sui_gas_status_make move_gas_status gas_budget charge gas_price reference_gas_price storage_gas_price rebate_rate
     gas_rounding_step cost_table =
   \<lparr>sg_gas_status = move_gas_status, sg_cost_table = cost_table, sg_gas_budget = gas_budget, sg_computation_cost = 0,
     sg_charge = charge, sg_gas_price = gas_price, sg_reference_gas_price = reference_gas_price,
     sg_storage_gas_price = storage_gas_price, sg_storage_cost = 0, sg_storage_rebate = 0, sg_rebate_rate = rebate_rate,
     sg_unmetered_storage_rebate = 0, sg_gas_rounding_step = map_option (max 1) gas_rounding_step\<rparr>"

definition new_with_budget :: "nat \<Rightarrow> nat \<Rightarrow> nat \<Rightarrow> protocol_config \<Rightarrow> sui_gas_status option" where
  "new_with_budget gas_budget gas_price reference_gas_price config = do {
     max_computation_budget \<leftarrow> u64_checked_mul (pc_max_gas_computation_bucket config) gas_price;
     let computation_budget = (if max_computation_budget < gas_budget then max_computation_budget else gas_budget);
     cost_table \<leftarrow> sui_cost_table_new config gas_price;
     gs \<leftarrow> gas_status_new (execution_cost_table cost_table) computation_budget gas_price (pc_gas_model_version config);
     Some (sui_gas_status_make gs gas_budget True gas_price reference_gas_price (pc_storage_gas_price config)
       (pc_storage_rebate_rate config) (pc_gas_rounding_step config) cost_table)
   }"

definition sui_new_unmetered :: "sui_gas_status option" where
  "sui_new_unmetered = do {
     cost_table \<leftarrow> sui_cost_table_unmetered;
     Some (sui_gas_status_make gas_status_new_unmetered 0 False 0 0 0 0 None cost_table)
   }"

datatype user_input_error =
    GasObjectNotOwnedObject owner
  | GasBudgetTooHigh nat nat
  | GasBudgetTooLow nat nat
  | GasBalanceTooLow nat nat
  | GasPriceUnderRGP nat nat
  | GasPriceTooHigh nat
  | InvalidGasObject objectID

datatype execution_error = InsufficientGas | InvariantViolation string | ExecutionFailure nat

definition sui_gas_status_new ::
  "nat \<Rightarrow> nat \<Rightarrow> nat \<Rightarrow> protocol_config \<Rightarrow> (user_input_error, sui_gas_status) result option" where
  "sui_gas_status_new gas_budget gas_price reference_gas_price config =
     (if gas_price < reference_gas_price then Some (Inl (GasPriceUnderRGP gas_price reference_gas_price))
      else if gas_price_too_high (pc_gas_model_version config) \<and> pc_max_gas_price config \<le> gas_price
      then Some (Inl (GasPriceTooHigh (pc_max_gas_price config)))
      else map_option Inr (new_with_budget gas_budget gas_price reference_gas_price config))"

definition get_gas_balance :: "sui_object \<Rightarrow> (user_input_error, nat) result option" where
  "get_gas_balance gas_object =
     (case try_as_move (ob_data gas_object) of
        Some move_obj \<Rightarrow>
          if \<not> is_gas_coin (mo_type move_obj) then map_option (\<lambda>oid. Inl (InvalidGasObject oid)) (object_id gas_object)
          else map_option Inr (get_coin_value_unsafe move_obj)
      | None \<Rightarrow> map_option (\<lambda>oid. Inl (InvalidGasObject oid)) (object_id gas_object))"

text \<open>The sum of the balances is taken in \<open>u128\<close>, which a list of 64-bit numbers does not fill.\<close>

fun sum_gas_balances :: "sui_object list \<Rightarrow> nat \<Rightarrow> (user_input_error, nat) result option" where
  "sum_gas_balances [] gas_balance = Some (Inr gas_balance)"
| "sum_gas_balances (gas_obj # gas_objs) gas_balance =
     (case get_gas_balance gas_obj of
        None \<Rightarrow> None
      | Some (Inl e) \<Rightarrow> Some (Inl e)
      | Some (Inr balance) \<Rightarrow> sum_gas_balances gas_objs (gas_balance + balance))"

definition check_gas_balance :: "sui_object list \<Rightarrow> nat \<Rightarrow> sui_gas_status \<Rightarrow> (user_input_error, unit) result option" where
  "check_gas_balance gas_objs gas_budget sg =
     (case find (\<lambda>ob. \<not> is_address_owned (ob_owner ob)) gas_objs of
        Some gas_object \<Rightarrow> Some (Inl (GasObjectNotOwnedObject (ob_owner gas_object)))
      | None \<Rightarrow>
          if max_gas_budget (sg_cost_table sg) < gas_budget
          then Some (Inl (GasBudgetTooHigh gas_budget (max_gas_budget (sg_cost_table sg))))
          else if gas_budget < min_transaction_cost (sg_cost_table sg)
          then Some (Inl (GasBudgetTooLow gas_budget (min_transaction_cost (sg_cost_table sg))))
          else case sum_gas_balances gas_objs 0 of
              None \<Rightarrow> None
            | Some (Inl e) \<Rightarrow> Some (Inl e)
            | Some (Inr gas_balance) \<Rightarrow>
                if gas_balance < gas_budget then Some (Inl (GasBalanceTooLow gas_balance gas_budget))
                else Some (Inr ()))"

definition is_unmetered :: "sui_gas_status \<Rightarrow> bool" where
  "is_unmetered sg \<longleftrightarrow> \<not> sg_charge sg"

definition bucketize_computation :: "sui_gas_status \<Rightarrow> ((execution_error, unit) result \<times> sui_gas_status) option" where
  "bucketize_computation sg = do {
     let gas_used = gas_used_pre_gas_price (sg_gas_status sg);
     gas_used \<leftarrow> (case sg_gas_rounding_step sg of
         Some gas_rounding \<Rightarrow> do {
           rust_assert (gas_rounding \<noteq> 0);
           if 0 < gas_used \<and> gas_used mod gas_rounding = 0 then u64_checked_mul gas_used (sg_gas_price sg)
           else do {
             steps \<leftarrow> u64_checked_add (gas_used div gas_rounding) 1;
             rounded \<leftarrow> u64_checked_mul steps gas_rounding;
             u64_checked_mul rounded (sg_gas_price sg)
           }
         }
       | None \<Rightarrow> u64_checked_mul (get_bucket_cost (ct_computation_bucket (sg_cost_table sg)) gas_used) (sg_gas_price sg));
     Some (if sg_gas_budget sg \<le> gas_used then (Inl InsufficientGas, sg\<lparr>sg_computation_cost := sg_gas_budget sg\<rparr>)
           else (Inr (), sg\<lparr>sg_computation_cost := gas_used\<rparr>))
   }"

record gas_cost_summary =
  cs_computation_cost :: nat
  cs_storage_cost :: nat
  cs_storage_rebate :: nat
  cs_non_refundable_storage_fee :: nat

definition gas_cost_summary_default :: gas_cost_summary where
  "gas_cost_summary_default =
     \<lparr>cs_computation_cost = 0, cs_storage_cost = 0, cs_storage_rebate = 0, cs_non_refundable_storage_fee = 0\<rparr>"

definition gas_summary :: "sui_gas_status \<Rightarrow> gas_cost_summary option" where
  "gas_summary sg = do {
     let rebate = sender_rebate (sg_storage_rebate sg) (sg_rebate_rate sg);
     rust_assert (rebate \<le> sg_storage_rebate sg);
     Some \<lparr>cs_computation_cost = sg_computation_cost sg, cs_storage_cost = sg_storage_cost sg,
       cs_storage_rebate = rebate, cs_non_refundable_storage_fee = sg_storage_rebate sg - rebate\<rparr>
   }"

definition reset_storage_cost_and_rebate :: "sui_gas_status \<Rightarrow> sui_gas_status" where
  "reset_storage_cost_and_rebate sg = sg\<lparr>sg_storage_cost := 0, sg_storage_rebate := 0, sg_unmetered_storage_rebate := 0\<rparr>"

definition charge_storage_read :: "nat \<Rightarrow> sui_gas_status \<Rightarrow> (execution_error, unit) result \<times> sui_gas_status" where
  "charge_storage_read bytes sg =
     (case charge_bytes bytes (object_read_per_byte_cost (sg_cost_table sg)) (sg_gas_status sg) of
        (r, gs) \<Rightarrow> (map_sum (\<lambda>_. InsufficientGas) (\<lambda>u. u) r, sg\<lparr>sg_gas_status := gs\<rparr>))"

definition charge_publish_package :: "nat \<Rightarrow> sui_gas_status \<Rightarrow> (execution_error, unit) result \<times> sui_gas_status" where
  "charge_publish_package bytes sg =
     (case charge_bytes bytes (package_publish_per_byte_cost (sg_cost_table sg)) (sg_gas_status sg) of
        (r, gs) \<Rightarrow> (map_sum (\<lambda>_. InsufficientGas) (\<lambda>u. u) r, sg\<lparr>sg_gas_status := gs\<rparr>))"

definition track_storage_mutation :: "nat \<Rightarrow> nat \<Rightarrow> sui_gas_status \<Rightarrow> (nat \<times> sui_gas_status) option" where
  "track_storage_mutation new_size rebate sg =
     (if is_unmetered sg then do {
        unmetered \<leftarrow> u64_checked_add (sg_unmetered_storage_rebate sg) rebate;
        Some (0, sg\<lparr>sg_unmetered_storage_rebate := unmetered\<rparr>)
      } else do {
        total_rebate \<leftarrow> u64_checked_add (sg_storage_rebate sg) rebate;
        bytes_cost \<leftarrow> u64_checked_mul new_size (storage_per_byte_cost (sg_cost_table sg));
        cost \<leftarrow> u64_checked_mul bytes_cost (sg_storage_gas_price sg);
        total_cost \<leftarrow> u64_checked_add (sg_storage_cost sg) cost;
        Some (cost, sg\<lparr>sg_storage_rebate := total_rebate, sg_storage_cost := total_cost\<rparr>)
      })"

definition charge_storage_and_rebate :: "sui_gas_status \<Rightarrow> (execution_error, unit) result option" where
  "charge_storage_and_rebate sg = do {
     let rebate = sender_rebate (sg_storage_rebate sg) (sg_rebate_rate sg);
     rust_assert (rebate \<le> sg_storage_rebate sg);
     if sg_storage_cost sg \<le> rebate then Some (Inr ())
     else do {
       gas_left \<leftarrow> u64_checked_sub (sg_gas_budget sg) (sg_computation_cost sg);
       Some (if gas_left < sg_storage_cost sg - rebate then Inl InsufficientGas else Inr ())
     }
   }"

definition adjust_computation_on_out_of_gas :: "sui_gas_status \<Rightarrow> sui_gas_status" where
  "adjust_computation_on_out_of_gas sg =
     sg\<lparr>sg_storage_rebate := 0, sg_storage_cost := 0, sg_computation_cost := sg_gas_budget sg\<rparr>"

section \<open>Summaries and gas coins\<close>

text \<open>Casting \<open>u64\<close> to \<open>i64\<close>, and checked subtraction of \<open>i64\<close>.\<close>

definition u64_as_i64 :: "nat \<Rightarrow> int" where
  "u64_as_i64 v = (if v < 2 ^ 63 then int v else int v - 2 ^ 64)"

definition i64_checked_sub :: "int \<Rightarrow> int \<Rightarrow> int option" where
  "i64_checked_sub a b = (if - (2 ^ 63) \<le> a - b \<and> a - b < 2 ^ 63 then Some (a - b) else None)"

definition summary_gas_used :: "gas_cost_summary \<Rightarrow> nat option" where
  "summary_gas_used cs = u64_checked_add (cs_computation_cost cs) (cs_storage_cost cs)"

definition summary_sender_rebate :: "nat \<Rightarrow> gas_cost_summary \<Rightarrow> nat" where
  "summary_sender_rebate rate cs = (cs_storage_rebate cs * rate + BASIS_POINTS div 2) div BASIS_POINTS mod u64_size"

definition net_gas_usage :: "gas_cost_summary \<Rightarrow> int option" where
  "net_gas_usage cs = do {
     used \<leftarrow> summary_gas_used cs;
     i64_checked_sub (u64_as_i64 used) (u64_as_i64 (cs_storage_rebate cs))
   }"

text \<open>\<open>Iterator::sum\<close> is not rewritten by the checked-arithmetic macro: it wraps.\<close>

definition new_from_txn_effects :: "gas_cost_summary list \<Rightarrow> gas_cost_summary" where
  "new_from_txn_effects summaries =
     \<lparr>cs_computation_cost = u64_wrapping_sum (map cs_computation_cost summaries),
      cs_storage_cost = u64_wrapping_sum (map cs_storage_cost summaries),
      cs_storage_rebate = u64_wrapping_sum (map cs_storage_rebate summaries),
      cs_non_refundable_storage_fee = u64_wrapping_sum (map cs_non_refundable_storage_fee summaries)\<rparr>"

definition summary_add_assign :: "gas_cost_summary \<Rightarrow> gas_cost_summary \<Rightarrow> gas_cost_summary option" where
  "summary_add_assign cs other = do {
     computation \<leftarrow> u64_checked_add (cs_computation_cost cs) (cs_computation_cost other);
     storage \<leftarrow> u64_checked_add (cs_storage_cost cs) (cs_storage_cost other);
     rebate \<leftarrow> u64_checked_add (cs_storage_rebate cs) (cs_storage_rebate other);
     fee \<leftarrow> u64_checked_add (cs_non_refundable_storage_fee cs) (cs_non_refundable_storage_fee other);
     Some \<lparr>cs_computation_cost = computation, cs_storage_cost = storage, cs_storage_rebate = rebate,
       cs_non_refundable_storage_fee = fee\<rparr>
   }"

definition deduct_gas :: "int \<Rightarrow> sui_object \<Rightarrow> sui_object option" where
  "deduct_gas charge_or_rebate gas_object = do {
     gas_coin \<leftarrow> try_as_move (ob_data gas_object);
     balance \<leftarrow> get_coin_value_unsafe gas_coin;
     new_balance \<leftarrow> (if charge_or_rebate < 0 then u64_checked_add balance (nat (- charge_or_rebate))
       else do { rust_assert (nat charge_or_rebate \<le> balance); Some (balance - nat charge_or_rebate) });
     gas_coin \<leftarrow> set_coin_value_unsafe new_balance gas_coin;
     Some (gas_object\<lparr>ob_data := Move gas_coin\<rparr>)
   }"

section \<open>Rebates\<close>

lemma sender_rebate_eq:
  assumes "rate \<le> BASIS_POINTS" "rebate < u64_size"
  shows "sender_rebate rebate rate = (rebate * rate + 5000) div 10000" "sender_rebate rebate rate \<le> rebate"
proof -
  have "rebate * rate \<le> rebate * 10000" using assms(1) by (simp add: BASIS_POINTS_def)
  then have le: "(rebate * rate + 5000) div 10000 \<le> rebate" by linarith
  then show eq: "sender_rebate rebate rate = (rebate * rate + 5000) div 10000"
    using assms(2) by (simp add: sender_rebate_def BASIS_POINTS_def)
  show "sender_rebate rebate rate \<le> rebate" using le eq by simp
qed

text \<open>A status whose rebate rate is a proportion and whose amounts are 64-bit numbers.\<close>

definition gas_ok :: "sui_gas_status \<Rightarrow> bool" where
  "gas_ok sg \<longleftrightarrow> sg_charge sg \<and> sg_rebate_rate sg \<le> BASIS_POINTS \<and> sg_storage_rebate sg < u64_size
     \<and> sg_computation_cost sg \<le> sg_gas_budget sg"

lemma gas_summary_eq:
  assumes "gas_ok sg"
  obtains cs where "gas_summary sg = Some cs" "cs_computation_cost cs = sg_computation_cost sg"
    "cs_storage_cost cs = sg_storage_cost sg"
    "cs_storage_rebate cs + cs_non_refundable_storage_fee cs = sg_storage_rebate sg"
    "cs_storage_rebate cs = sender_rebate (sg_storage_rebate sg) (sg_rebate_rate sg)"
  using assms sender_rebate_eq(2) [of "sg_rebate_rate sg" "sg_storage_rebate sg"]
  by (fastforce simp: gas_summary_def gas_ok_def Let_def)

text \<open>The rebate is split without loss. For a rate in basis points the sender's part is the exact
  proportion of the deposit rounded to the nearest unit, it never exceeds the deposit, so the
  summary's assertion cannot fail, and what is not refunded is the rest.\<close>

theorem rebate_split_correct:
  assumes "sg_rebate_rate sg \<le> BASIS_POINTS" "sg_storage_rebate sg < u64_size"
  shows "\<exists>cs. gas_summary sg = Some cs
    \<and> cs_storage_rebate cs + cs_non_refundable_storage_fee cs = sg_storage_rebate sg
    \<and> 10000 * cs_storage_rebate cs \<le> sg_storage_rebate sg * sg_rebate_rate sg + 5000
    \<and> sg_storage_rebate sg * sg_rebate_rate sg < 10000 * cs_storage_rebate cs + 5000"
proof -
  note s = sender_rebate_eq [OF assms]
  have "10000 * ((sg_storage_rebate sg * sg_rebate_rate sg + 5000) div 10000) \<le> sg_storage_rebate sg * sg_rebate_rate sg + 5000"
    "sg_storage_rebate sg * sg_rebate_rate sg + 5000 < 10000 * ((sg_storage_rebate sg * sg_rebate_rate sg + 5000) div 10000) + 10000"
    using div_mult_mod_eq [of "sg_storage_rebate sg * sg_rebate_rate sg + 5000" 10000]
      mod_less_divisor [of 10000 "sg_storage_rebate sg * sg_rebate_rate sg + 5000"] by linarith+
  then show ?thesis using s by (auto simp: gas_summary_def Let_def)
qed

definition example_config :: protocol_config where
  "example_config =
     \<lparr>pc_max_tx_gas = 50000000000, pc_max_gas_price = 100000, pc_max_gas_computation_bucket = 5000000,
      pc_gas_rounding_step = Some 1000, pc_base_tx_cost_fixed = 1000, pc_txn_base_cost_as_multiplier = True,
      pc_package_publish_cost_per_byte = 80, pc_obj_access_cost_read_per_byte = 15, pc_obj_data_cost_refundable = 100,
      pc_gas_model_version = 8, pc_storage_rebate_rate = 9900, pc_storage_gas_price = 76\<rparr>"

definition example_gas :: sui_gas_status where
  "example_gas = the (new_with_budget 2000000 2 1 example_config)"

lemma example_gas_new: "new_with_budget 2000000 2 1 example_config = Some example_gas"
proof -
  obtain gs where "gas_status_new (cost_table_for_version 8) 2000000 2 8 = Some gs"
    by (rule gas_status_new_total [of 2]) simp
  then have "\<exists>sg. new_with_budget 2000000 2 1 example_config = Some sg"
    by (simp add: new_with_budget_def example_config_def sui_cost_table_new_def txn_base_cost_as_multiplier_def
        u64_checked_mul_def u64_size_def computation_buckets_def)
  then show ?thesis by (auto simp: example_gas_def)
qed

theorem rebate_split_correct_witness:
  "\<exists>cs. gas_summary (example_gas\<lparr>sg_storage_rebate := 1550, sg_rebate_rate := 9900\<rparr>) = Some cs
     \<and> 10000 * cs_storage_rebate cs \<le> 1550 * 9900 + 5000 \<and> 1550 * 9900 < 10000 * cs_storage_rebate cs + 5000"
  using rebate_split_correct [of "example_gas\<lparr>sg_storage_rebate := 1550, sg_rebate_rate := 9900\<rparr>"]
  by (auto simp: BASIS_POINTS_def u64_size_def)

section \<open>Computation charges\<close>

text \<open>What a computation may be charged: the positive multiples of the rounding step, or the bounds of
  the buckets.\<close>

definition charge_steps :: "protocol_config \<Rightarrow> nat set" where
  "charge_steps config = (case pc_gas_rounding_step config of
     Some r \<Rightarrow> {m. 0 < m \<and> max 1 r dvd m}
   | None \<Rightarrow> {1000, 5000, 10000, 20000, 50000, 200000, 1000000, pc_max_gas_computation_bucket config})"

definition least_from :: "nat set \<Rightarrow> nat \<Rightarrow> nat \<Rightarrow> bool" where
  "least_from S used m \<longleftrightarrow> m \<in> S \<and> used \<le> m \<and> (\<forall>k \<in> S. used \<le> k \<longrightarrow> m \<le> k)"

lemma computation_buckets_cost:
  assumes "computation_buckets max_cost = Some table" "used \<le> max_cost"
  shows "least_from {1000, 5000, 10000, 20000, 50000, 200000, 1000000, max_cost} used (get_bucket_cost table used)"
    and "get_bucket_cost table used \<le> max_cost"
  using assms by (auto simp: computation_buckets_def get_bucket_cost_def bucket_simple_def least_from_def split: if_splits)

lemma round_up_least:
  fixes r :: nat
  assumes "0 < r"
  shows "least_from {m. 0 < m \<and> r dvd m} used (if 0 < used \<and> used mod r = 0 then used else (used div r + 1) * r)"
proof (cases "0 < used \<and> used mod r = 0")
  case True
  then show ?thesis by (auto simp: least_from_def)
next
  case False
  have "used < (used div r + 1) * r" using assms by (simp add: div_times_less_eq_dividend dividend_less_times_div mult.commute add.commute)
  moreover have "(used div r + 1) * r \<le> k" if k: "0 < k" "r dvd k" "used \<le> k" for k
  proof -
    obtain q where q: "k = r * q" using k(2) by (elim dvdE)
    have "used \<noteq> k" using False k(1,2) by auto
    then have "used < r * q" using k(3) q by simp
    then have "used div r < q" using assms by (simp add: less_mult_imp_div_less mult.commute)
    then have "(used div r + 1) * r \<le> q * r" by (intro mult_le_mono1) simp
    then show ?thesis by (simp add: q mult.commute)
  qed
  ultimately show ?thesis using False assms by (auto simp: least_from_def)
qed

lemma round_up_bounds:
  fixes r :: nat
  assumes "0 < r"
  shows "used \<le> (if 0 < used \<and> used mod r = 0 then used else (used div r + 1) * r)"
    "(if 0 < used \<and> used mod r = 0 then used else (used div r + 1) * r) \<le> used + r"
    "r dvd (if 0 < used \<and> used mod r = 0 then used else (used div r + 1) * r)"
proof -
  have "used = used div r * r + used mod r" "used mod r < r" using assms by simp_all
  then show "used \<le> (if 0 < used \<and> used mod r = 0 then used else (used div r + 1) * r)"
    "(if 0 < used \<and> used mod r = 0 then used else (used div r + 1) * r) \<le> used + r"
    unfolding distrib_right mult_1 by (simp_all only: split: if_split; linarith)+
  show "r dvd (if 0 < used \<and> used mod r = 0 then used else (used div r + 1) * r)" by auto
qed

text \<open>What the computation is charged for \<open>used\<close> units: rounded up to the step, or to the bucket.\<close>

definition charged_units :: "sui_gas_status \<Rightarrow> nat \<Rightarrow> nat" where
  "charged_units sg used =
     (case sg_gas_rounding_step sg of
        Some r \<Rightarrow> (if 0 < used \<and> used mod r = 0 then used else (used div r + 1) * r)
      | None \<Rightarrow> get_bucket_cost (ct_computation_bucket (sg_cost_table sg)) used)"

lemma bucketize_eq:
  assumes "\<forall>r. sg_gas_rounding_step sg = Some r \<longrightarrow> 0 < r" "0 < sg_gas_price sg"
    and "charged_units sg (gas_used_pre_gas_price (sg_gas_status sg)) * sg_gas_price sg < u64_size"
  shows "bucketize_computation sg =
    (let cost = charged_units sg (gas_used_pre_gas_price (sg_gas_status sg)) * sg_gas_price sg
     in Some (if sg_gas_budget sg \<le> cost then (Inl InsufficientGas, sg\<lparr>sg_computation_cost := sg_gas_budget sg\<rparr>)
              else (Inr (), sg\<lparr>sg_computation_cost := cost\<rparr>)))"
proof (cases "sg_gas_rounding_step sg")
  case (Some r)
  let ?u = "gas_used_pre_gas_price (sg_gas_status sg)"
  have "?u div r + 1 < u64_size \<and> (?u div r + 1) * r < u64_size" if "\<not> (0 < ?u \<and> ?u mod r = 0)"
  proof -
    have prod: "(?u div r + 1) * r * sg_gas_price sg < u64_size"
      using that Some assms(3) by (auto simp only: charged_units_def option.case if_False)
    have "0 < r" using assms(1) Some by simp
    have "(?u div r + 1) * r * 1 \<le> (?u div r + 1) * r * sg_gas_price sg" using assms(2) by (intro mult_le_mono2) simp
    then have le: "(?u div r + 1) * r < u64_size" using prod by (simp only: mult_1_right le_less_trans)
    have "(?u div r + 1) * 1 \<le> (?u div r + 1) * r" using \<open>0 < r\<close> by (intro mult_le_mono2) simp
    then show ?thesis using le by (simp only: mult_1_right le_less_trans simp_thms)
  qed
  note small = this
  have pos: "r \<noteq> 0" using assms(1) Some by simp
  show ?thesis
  proof (cases "0 < ?u \<and> ?u mod r = 0")
    case True
    then have units: "charged_units sg ?u = ?u" using Some by (simp add: charged_units_def)
    show ?thesis using True assms(3) pos unfolding units by (simp add: bucketize_computation_def Some Let_def u64_checked_mul_def)
  next
    case False
    then have units: "charged_units sg ?u = (?u div r + 1) * r" using Some by (auto simp add: charged_units_def)
    show ?thesis using False assms(3) pos small [OF False] unfolding units
      by (simp only: bucketize_computation_def Some Let_def u64_checked_mul_def u64_checked_add_def option.case if_False if_True
          rust_assert_bind Option.bind.simps simp_thms)
  qed
qed (use assms in \<open>auto simp: bucketize_computation_def charged_units_def Let_def u64_checked_mul_def\<close>)

lemma new_with_budget_facts:
  assumes "new_with_budget budget price rgp config = Some sg"
  shows "sg_gas_budget sg = budget" "sg_gas_price sg = price" "sg_charge sg" "sg_computation_cost sg = 0"
    "sg_storage_cost sg = 0" "sg_storage_rebate sg = 0" "sg_rebate_rate sg = pc_storage_rebate_rate config"
    "sg_gas_rounding_step sg = map_option (max 1) (pc_gas_rounding_step config)"
    "sg_storage_gas_price sg = pc_storage_gas_price config"
    "storage_per_byte_cost (sg_cost_table sg) = pc_obj_data_cost_refundable config"
    "computation_buckets (pc_max_gas_computation_bucket config) = Some (ct_computation_bucket (sg_cost_table sg))"
    "gas_status_new (cost_table_for_version (pc_gas_model_version config))
       (min budget (pc_max_gas_computation_bucket config * price)) price (pc_gas_model_version config) = Some (sg_gas_status sg)"
    "pc_max_gas_computation_bucket config * price < u64_size"
    "max_gas_budget (sg_cost_table sg) = pc_max_tx_gas config"
    "min_transaction_cost (sg_cost_table sg) =
       (if txn_base_cost_as_multiplier config then pc_base_tx_cost_fixed config * price else pc_base_tx_cost_fixed config)"
  using assms
  by (auto simp: new_with_budget_def sui_cost_table_new_def sui_gas_status_make_def Let_def min_def elim!: bind_eq_SomeE split: if_splits)

lemma new_with_budget_gas_ok:
  assumes "new_with_budget budget price rgp config = Some sg" "pc_storage_rebate_rate config \<le> BASIS_POINTS"
  shows "gas_ok sg"
  using new_with_budget_facts [OF assms(1)] assms(2) by (simp add: gas_ok_def u64_size_def)

lemma charged_units_step:
  assumes "sg_gas_rounding_step sg = Some r" "0 < r"
  shows "used \<le> charged_units sg used \<and> charged_units sg used \<le> used + r \<and> r dvd charged_units sg used"
  unfolding charged_units_def assms(1) option.case by (intro conjI round_up_bounds assms(2))

lemma charged_units_gas_status [simp]: "charged_units (sg\<lparr>sg_gas_status := gs\<rparr>) used = charged_units sg used"
  by (cases "sg_gas_rounding_step sg") (simp_all add: charged_units_def)

lemma min_div_le: "0 < price \<Longrightarrow> min budget (bucket * price) div price \<le> (bucket :: nat)"
  using div_le_mono [of "min budget (bucket * price)" "bucket * price" price] by simp

text \<open>C39: Computation is charged within the budget. For a status the network accepts, whatever the Move
  code was charged, closing the computation never panics. The gas used is rounded up to the least
  amount that may be charged: the least positive multiple of the rounding step that is not below
  it, or, without a rounding step, the least of the eight bucket bounds that is not below it. The
  computation cost is this amount times the price if that is below the budget; otherwise it is the
  budget, and insufficient gas is reported. Either way it covers the gas used.\<close>

theorem computation_charge_correct:
  assumes "sui_gas_status_new budget price rgp config = Some (Inr sg)"
    and "pc_max_gas_computation_bucket config * 1000 < u64_size"
    and "\<forall>r. pc_gas_rounding_step config = Some r \<longrightarrow> (pc_max_gas_computation_bucket config + max 1 r) * price < u64_size"
    and "meter_run ops (sg_gas_status sg) = (res, gs)"
  shows "\<exists>units r sg'. least_from (charge_steps config) (gas_used_pre_gas_price gs) units
    \<and> bucketize_computation (sg\<lparr>sg_gas_status := gs\<rparr>) = Some (r, sg')
    \<and> gas_used_pre_gas_price gs * price \<le> sg_computation_cost sg'
    \<and> (if units * price < budget then r = Inr () \<and> sg_computation_cost sg' = units * price
       else r = Inl InsufficientGas \<and> sg_computation_cost sg' = budget)"
proof -
  have new: "new_with_budget budget price rgp config = Some sg"
    using assms(1) by (auto simp: sui_gas_status_new_def split: if_splits)
  note facts = new_with_budget_facts [OF new]
  let ?bucket = "pc_max_gas_computation_bucket config" and ?used = "gas_used_pre_gas_price gs"
  have price: "0 < price" using facts(12) by (auto simp: gas_status_new_def split: if_splits)
  have units: "min budget (?bucket * price) div price * 1000 < u64_size"
    using min_div_le [OF price, of budget ?bucket] assms(2) by (meson le_less_trans mult_le_mono1)
  have bounded: "?used * price \<le> min budget (?bucket * price)"
    using meter_used_bounded [OF facts(12) units, of ops] assms(4) by simp
  then have used: "?used \<le> ?bucket" using price by simp
  have step: "?used \<le> charged_units sg ?used \<and> charged_units sg ?used \<le> ?used + max 1 r \<and> max 1 r dvd charged_units sg ?used"
    if "pc_gas_rounding_step config = Some r" for r
    by (rule charged_units_step) (use that facts(8) in simp_all)
  have bucket: "?used \<le> charged_units sg ?used \<and> charged_units sg ?used \<le> ?bucket" if "pc_gas_rounding_step config = None"
    using computation_buckets_cost [OF facts(11) used] that facts(8) by (simp add: charged_units_def least_from_def)
  have least: "least_from (charge_steps config) ?used (charged_units sg ?used)"
    using computation_buckets_cost(1) [OF facts(11) used] round_up_least [where used = ?used] facts(8)
    by (cases "pc_gas_rounding_step config") (auto simp: charge_steps_def charged_units_def)
  have le: "?used \<le> charged_units sg ?used" using step bucket by (cases "pc_gas_rounding_step config") auto
  have small: "charged_units sg ?used * price < u64_size"
  proof (cases "pc_gas_rounding_step config")
    case (Some r)
    then have "charged_units sg ?used \<le> ?bucket + max 1 r" using step [OF Some] used by linarith
    then show ?thesis using assms(3) Some by (meson le_less_trans mult_le_mono1)
  qed (use bucket facts(13) in \<open>meson le_less_trans mult_le_mono1\<close>)
  have "\<forall>r. sg_gas_rounding_step sg = Some r \<longrightarrow> 0 < r" using facts(8) by auto
  then have "bucketize_computation (sg\<lparr>sg_gas_status := gs\<rparr>) = (let cost = charged_units sg ?used * price
     in Some (if budget \<le> cost then (Inl InsufficientGas, sg\<lparr>sg_gas_status := gs, sg_computation_cost := budget\<rparr>)
              else (Inr (), sg\<lparr>sg_gas_status := gs, sg_computation_cost := cost\<rparr>)))"
    using bucketize_eq [of "sg\<lparr>sg_gas_status := gs\<rparr>"] price small by (simp add: facts(1,2) Let_def)
  moreover have "?used * price \<le> charged_units sg ?used * price" using le by simp
  ultimately show ?thesis using bounded least by (auto simp: Let_def not_less intro!: exI [of _ "charged_units sg ?used"])
qed

lemma example_gas_status_new: "sui_gas_status_new 2000000 2 1 example_config = Some (Inr example_gas)"
  using example_gas_new by (simp add: sui_gas_status_new_def example_config_def gas_price_too_high_def)

theorem computation_charge_correct_witness:
  "\<exists>r sg'. bucketize_computation (example_gas\<lparr>sg_gas_status := snd (meter_run [SimpleInstr LdU8] (sg_gas_status example_gas))\<rparr>) = Some (r, sg')
     \<and> sg_computation_cost sg' \<le> 2000000 \<and> 2000 dvd sg_computation_cost sg'"
proof -
  obtain res gs where run: "meter_run [SimpleInstr LdU8] (sg_gas_status example_gas) = (res, gs)" by fastforce
  obtain units r sg' where "least_from (charge_steps example_config) (gas_used_pre_gas_price gs) units"
    "bucketize_computation (example_gas\<lparr>sg_gas_status := gs\<rparr>) = Some (r, sg')"
    "if units * 2 < 2000000 then r = Inr () \<and> sg_computation_cost sg' = units * 2
       else r = Inl InsufficientGas \<and> sg_computation_cost sg' = 2000000"
    using computation_charge_correct [OF example_gas_status_new _ _ run] by (auto simp: example_config_def u64_size_def)
  then show ?thesis
    unfolding run snd_conv by (auto simp: least_from_def charge_steps_def example_config_def split: if_splits)
qed

section \<open>Storage charges\<close>

lemma charge_storage_eq:
  assumes "gas_ok sg"
  shows "charge_storage_and_rebate sg =
    Some (if sg_computation_cost sg + sg_storage_cost sg \<le> sg_gas_budget sg + sender_rebate (sg_storage_rebate sg) (sg_rebate_rate sg)
          then Inr () else Inl InsufficientGas)"
  using assms sender_rebate_eq(2) [of "sg_rebate_rate sg" "sg_storage_rebate sg"]
  by (auto simp: charge_storage_and_rebate_def gas_ok_def Let_def u64_checked_sub_def)

lemma net_gas_usage_eq:
  assumes "cs_computation_cost cs + cs_storage_cost cs < 2 ^ 63" "cs_storage_rebate cs < 2 ^ 63"
  shows "net_gas_usage cs = Some (int (cs_computation_cost cs) + int (cs_storage_cost cs) - int (cs_storage_rebate cs))"
  using assms by (simp add: net_gas_usage_def summary_gas_used_def u64_checked_add_def u64_size_def u64_as_i64_def i64_checked_sub_def)

text \<open>Storage is charged exactly when the budget allows. Once the computation cost is within the
  budget, charging for storage never panics, and it succeeds if and only if what the sender pays,
  computation and storage less their rebate, is within the budget; the charge taken from the gas
  coin is then that amount, negative for a refund.\<close>

theorem storage_charge_correct:
  assumes "gas_ok sg" "sg_computation_cost sg + sg_storage_cost sg < 2 ^ 63" "sg_storage_rebate sg < 2 ^ 63"
  shows "\<exists>r cs net. charge_storage_and_rebate sg = Some r \<and> gas_summary sg = Some cs \<and> net_gas_usage cs = Some net
    \<and> net = int (sg_computation_cost sg) + int (sg_storage_cost sg) - int (cs_storage_rebate cs)
    \<and> (r = Inr () \<longleftrightarrow> net \<le> int (sg_gas_budget sg))"
proof -
  obtain cs where cs: "gas_summary sg = Some cs" "cs_computation_cost cs = sg_computation_cost sg"
    "cs_storage_cost cs = sg_storage_cost sg" "cs_storage_rebate cs + cs_non_refundable_storage_fee cs = sg_storage_rebate sg"
    "cs_storage_rebate cs = sender_rebate (sg_storage_rebate sg) (sg_rebate_rate sg)"
    using gas_summary_eq [OF assms(1)] by blast
  have "net_gas_usage cs = Some (int (sg_computation_cost sg) + int (sg_storage_cost sg) - int (cs_storage_rebate cs))"
    using net_gas_usage_eq [of cs] cs(2-4) assms(2,3) by simp
  then show ?thesis using cs(1,5) charge_storage_eq [OF assms(1)] by (auto split: if_splits)
qed

theorem storage_charge_correct_witness:
  "\<exists>r cs net. charge_storage_and_rebate (example_gas\<lparr>sg_computation_cost := 2000, sg_storage_cost := 988000, sg_storage_rebate := 988000\<rparr>) = Some r
     \<and> gas_summary (example_gas\<lparr>sg_computation_cost := 2000, sg_storage_cost := 988000, sg_storage_rebate := 988000\<rparr>) = Some cs
     \<and> net_gas_usage cs = Some net \<and> (r = Inr () \<longleftrightarrow> net \<le> 2000000)"
  using storage_charge_correct [of "example_gas\<lparr>sg_computation_cost := 2000, sg_storage_cost := 988000, sg_storage_rebate := 988000\<rparr>"]
    new_with_budget_facts [OF example_gas_new]
  by (auto simp: gas_ok_def BASIS_POINTS_def example_config_def u64_size_def)

section \<open>Adding up summaries\<close>

fun summary_fold :: "gas_cost_summary \<Rightarrow> gas_cost_summary list \<Rightarrow> gas_cost_summary option" where
  "summary_fold cs [] = Some cs"
| "summary_fold cs (c # rest) = do { cs \<leftarrow> summary_add_assign cs c; summary_fold cs rest }"

lemma summary_fold_eq:
  assumes "cs_computation_cost cs + sum_list (map cs_computation_cost summaries) < u64_size"
    "cs_storage_cost cs + sum_list (map cs_storage_cost summaries) < u64_size"
    "cs_storage_rebate cs + sum_list (map cs_storage_rebate summaries) < u64_size"
    "cs_non_refundable_storage_fee cs + sum_list (map cs_non_refundable_storage_fee summaries) < u64_size"
  shows "summary_fold cs summaries = Some
    \<lparr>cs_computation_cost = cs_computation_cost cs + sum_list (map cs_computation_cost summaries),
     cs_storage_cost = cs_storage_cost cs + sum_list (map cs_storage_cost summaries),
     cs_storage_rebate = cs_storage_rebate cs + sum_list (map cs_storage_rebate summaries),
     cs_non_refundable_storage_fee = cs_non_refundable_storage_fee cs + sum_list (map cs_non_refundable_storage_fee summaries)\<rparr>"
  using assms
  by (induction summaries arbitrary: cs) (simp_all add: summary_add_assign_def u64_checked_add_def)

text \<open>The summary of a checkpoint, taken column by column over its transactions, is the one got by
  adding the transactions' summaries one at a time, as long as the totals fit 64 bits; the sums by
  column wrap otherwise, while the additions panic.\<close>

theorem new_from_txn_effects_correct:
  assumes "sum_list (map cs_computation_cost summaries) < u64_size" "sum_list (map cs_storage_cost summaries) < u64_size"
    "sum_list (map cs_storage_rebate summaries) < u64_size" "sum_list (map cs_non_refundable_storage_fee summaries) < u64_size"
  shows "summary_fold gas_cost_summary_default summaries = Some (new_from_txn_effects summaries)"
  using assms summary_fold_eq [of gas_cost_summary_default summaries]
  by (simp add: gas_cost_summary_default_def new_from_txn_effects_def)

theorem new_from_txn_effects_correct_witness:
  "summary_fold gas_cost_summary_default
     [\<lparr>cs_computation_cost = 1, cs_storage_cost = 2, cs_storage_rebate = 3, cs_non_refundable_storage_fee = 4\<rparr>,
      \<lparr>cs_computation_cost = 10, cs_storage_cost = 20, cs_storage_rebate = 30, cs_non_refundable_storage_fee = 40\<rparr>]
   = Some \<lparr>cs_computation_cost = 11, cs_storage_cost = 22, cs_storage_rebate = 33, cs_non_refundable_storage_fee = 44\<rparr>"
  by (subst new_from_txn_effects_correct) (simp_all add: new_from_txn_effects_def u64_size_def)

section \<open>Gas coins\<close>

lemma deduct_gas_charge:
  assumes "coin_of ob oid v" "0 \<le> net" "net \<le> int v"
  obtains ob' where "deduct_gas net ob = Some ob'" "coin_of ob' oid (v - nat net)" "storage_rebate ob' = storage_rebate ob"
    "ob_owner ob' = ob_owner ob" "object_version ob' = object_version ob"
proof -
  obtain m where m: "ob_data ob = Move m" "v < u64_size" using assms(1) by (rule coin_of_move)
  have small: "v - nat net < u64_size" using m(2) by simp
  obtain m' where m': "set_coin_value_unsafe (v - nat net) m = Some m'" "coin_of (ob\<lparr>ob_data := Move m'\<rparr>) oid (v - nat net)"
    "mo_version m' = mo_version m"
    using coin_get_set(2) [OF m(1) assms(1) small] by blast
  have "deduct_gas net ob = Some (ob\<lparr>ob_data := Move m'\<rparr>)"
    using assms(2,3) m(1) m'(1) coin_get_set(1) [OF m(1) assms(1) small]
    by (simp add: deduct_gas_def try_as_move_def nat_le_iff)
  then show thesis using m' m(1) by (intro that [of "ob\<lparr>ob_data := Move m'\<rparr>"]) (simp_all add: object_version_def)
qed

lemma deduct_gas_refund:
  assumes "coin_of ob oid v" "net < 0" "int v - net < int u64_size"
  obtains ob' where "deduct_gas net ob = Some ob'" "coin_of ob' oid (v + nat (- net))" "storage_rebate ob' = storage_rebate ob"
    "ob_owner ob' = ob_owner ob" "object_version ob' = object_version ob"
proof -
  obtain m where m: "ob_data ob = Move m" using assms(1) by (rule coin_of_move)
  have small: "v + nat (- net) < u64_size" using assms(2,3) by linarith
  obtain m' where m': "set_coin_value_unsafe (v + nat (- net)) m = Some m'" "coin_of (ob\<lparr>ob_data := Move m'\<rparr>) oid (v + nat (- net))"
    "mo_version m' = mo_version m"
    using coin_get_set(2) [OF m assms(1) small] by blast
  have "deduct_gas net ob = Some (ob\<lparr>ob_data := Move m'\<rparr>)"
    using assms(2) m m'(1) small coin_get_set(1) [OF m assms(1) small]
    by (simp add: deduct_gas_def try_as_move_def u64_checked_add_def)
  then show thesis using m' m by (intro that [of "ob\<lparr>ob_data := Move m'\<rparr>"]) (simp_all add: object_version_def)
qed

lemma deduct_gas_exact:
  assumes "coin_of ob oid v" "net \<le> int v" "int v - net < int u64_size"
  obtains ob' v' where "deduct_gas net ob = Some ob'" "coin_of ob' oid v'" "int v' = int v - net"
    "storage_rebate ob' = storage_rebate ob" "ob_owner ob' = ob_owner ob" "object_version ob' = object_version ob"
proof (cases "net < 0")
  case True
  then show thesis using deduct_gas_refund [OF assms(1) True assms(3)] that [where v' = "v + nat (- net)"] by auto
next
  case False
  then show thesis using deduct_gas_charge [OF assms(1) _ assms(2)] that [where v' = "v - nat net"] assms(2) by (auto simp: nat_le_iff)
qed

lemma get_gas_balance_coin: "coin_of ob oid v \<Longrightarrow> get_gas_balance ob = Some (Inr v)"
  by (erule coin_of_move) (auto simp: get_gas_balance_def try_as_move_def is_gas_coin_def get_coin_value_unsafe_def)

lemma sum_gas_balances_coins:
  "list_all2 (\<lambda>ob v. \<exists>oid. coin_of ob oid v) obs vs \<Longrightarrow> sum_gas_balances obs a = Some (Inr (a + sum_list vs))"
  by (induction obs vs arbitrary: a rule: list_all2_induct) (auto simp: get_gas_balance_coin add.assoc)

text \<open>The gas payment is checked: when the payment is made of gas coins, the check accepts exactly if
  every coin belongs to an address, the budget lies between the minimum transaction cost and the
  maximum budget, and the coins together hold at least the budget.\<close>

theorem check_gas_balance_correct:
  assumes "list_all2 (\<lambda>ob v. \<exists>oid. coin_of ob oid v) gas_objs vs"
  shows "check_gas_balance gas_objs budget sg = Some (Inr ()) \<longleftrightarrow>
    (\<forall>ob \<in> set gas_objs. is_address_owned (ob_owner ob))
    \<and> min_transaction_cost (sg_cost_table sg) \<le> budget \<and> budget \<le> max_gas_budget (sg_cost_table sg)
    \<and> budget \<le> sum_list vs"
  using sum_gas_balances_coins [OF assms, of 0]
  by (auto simp: check_gas_balance_def find_None_iff find_Some_iff not_less split: option.splits)

theorem check_gas_balance_correct_witness:
  "check_gas_balance [new_move \<lparr>mo_type = GasCoin, has_public_transfer = True, mo_version = 1, mo_contents = replicate 32 7 @ to_le_bytes 8 5000000\<rparr>
     (AddressOwner (replicate 32 1)) 0] 2000000 example_gas = Some (Inr ())"
proof -
  have "list_all2 (\<lambda>ob v. \<exists>oid. coin_of ob oid v)
    [new_move \<lparr>mo_type = GasCoin, has_public_transfer = True, mo_version = 1, mo_contents = replicate 32 7 @ to_le_bytes 8 5000000\<rparr>
     (AddressOwner (replicate 32 1)) 0] [5000000]"
    by (auto simp: coin_of_def new_move_def coin_to_bcs_bytes_def ID_LENGTH_def u64_size_def intro!: exI [of _ "replicate 32 7"])
  from check_gas_balance_correct [OF this, of 2000000 example_gas] show ?thesis
    using new_with_budget_facts(14,15) [OF example_gas_new]
    by (simp add: new_move_def is_address_owned_def example_config_def txn_base_cost_as_multiplier_def)
qed

end
