(* ===== verification/Sui_Temporary_Store.thy ===== *)
theory Sui_Temporary_Store
  imports Sui_Gas
begin

text \<open>
  The store a transaction executes on: \<open>temporary_store.rs\<close> of \<open>sui-execution/latest/sui-adapter/src\<close>,
  with the execution results of \<open>crates/sui-types/src/execution.rs\<close> and the input objects of
  \<open>transaction.rs\<close>.

  The node's database behind it is the record \<open>backing_store\<close> of the two lookups used here. The maps
  and sets of the source are ordered, so they are sorted lists. This module is not compiled with
  checked arithmetic: its sums wrap. The gas charger is the record of \<open>gas_charger.rs\<close>; the store
  calls only its \<open>track_storage_mutation\<close>.
\<close>

section \<open>Inputs\<close>

type_synonym object_ref = "objectID \<times> sequence_number \<times> nat"

datatype input_object_kind =
    MovePackageInput objectID
  | ImmOrOwnedMoveObject object_ref
  | SharedMoveObject objectID sequence_number bool

record input_objects =
  io_objects :: "(input_object_kind \<times> sui_object) list"
  io_deleted :: "(objectID \<times> sequence_number \<times> bool \<times> nat) list"

type_synonym version_digest = "sequence_number \<times> nat"

fun mutable_input :: "object_params \<Rightarrow> input_object_kind \<times> sui_object \<Rightarrow> (objectID \<times> version_digest \<times> owner) option option" where
  "mutable_input ps (MovePackageInput _, ob) = Some None"
| "mutable_input ps (ImmOrOwnedMoveObject (oid, version, digest), ob) =
     Some (if ob_owner ob = Immutable then None else Some (oid, (version, digest), ob_owner ob))"
| "mutable_input ps (SharedMoveObject _ _ mutable, ob) =
     (if mutable then map_option (\<lambda>(oid, version, digest). Some (oid, (version, digest), ob_owner ob)) (compute_object_reference ps ob)
      else Some None)"

definition mutable_inputs :: "object_params \<Rightarrow> input_objects \<Rightarrow> (objectID \<times> version_digest \<times> owner) list option" where
  "mutable_inputs ps io = do {
     inputs \<leftarrow> those (map (mutable_input ps) (io_objects io));
     Some (bt_of_list (List.map_filter (\<lambda>x. x) inputs))
   }"

definition input_lamport_timestamp :: "object_ref list \<Rightarrow> input_objects \<Rightarrow> sequence_number option" where
  "input_lamport_timestamp receiving_objects io =
     lamport_increment
       (List.map_filter (\<lambda>(_, ob). map_option mo_version (try_as_move (ob_data ob))) (io_objects io)
        @ map (\<lambda>(_, version, _). version) receiving_objects
        @ map (\<lambda>(_, version, _, _). version) (io_deleted io))"

definition into_object_map :: "input_objects \<Rightarrow> (objectID \<times> sui_object) list option" where
  "into_object_map io = do {
     kvs \<leftarrow> those (map (\<lambda>(_, ob). map_option (\<lambda>oid. (oid, ob)) (object_id ob)) (io_objects io));
     Some (bt_of_list kvs)
   }"

section \<open>Execution results\<close>

record execution_results =
  written_objects :: "(objectID \<times> sui_object) list"
  modified_objects :: "objectID list"
  created_object_ids :: "objectID list"
  deleted_object_ids :: "objectID list"
  user_events :: "nat list"

definition execution_results_default :: execution_results where
  "execution_results_default =
     \<lparr>written_objects = [], modified_objects = [], created_object_ids = [], deleted_object_ids = [], user_events = []\<rparr>"

definition results_drop_writes :: "execution_results \<Rightarrow> execution_results" where
  "results_drop_writes r =
     r\<lparr>written_objects := [], modified_objects := [], created_object_ids := [], deleted_object_ids := [], user_events := []\<rparr>"

definition merge_results :: "execution_results \<Rightarrow> execution_results \<Rightarrow> execution_results" where
  "merge_results new_results r =
     \<lparr>written_objects = foldl (\<lambda>m (oid, ob). bt_insert oid ob m) (written_objects r) (written_objects new_results),
      modified_objects = bs_extend (modified_objects r) (modified_objects new_results),
      created_object_ids = bs_extend (created_object_ids r) (created_object_ids new_results),
      deleted_object_ids = bs_extend (deleted_object_ids r) (deleted_object_ids new_results),
      user_events = user_events r @ user_events new_results\<rparr>"

definition update_written_object ::
  "sequence_number \<Rightarrow> nat \<Rightarrow> execution_results \<Rightarrow> objectID \<times> sui_object \<Rightarrow> (objectID \<times> sui_object) option" where
  "update_written_object lamport_version prev_tx r kv = (case kv of (oid, ob) \<Rightarrow> do {
     data \<leftarrow> (case ob_data ob of
         Move m \<Rightarrow> Some (Move (increment_version_to lamport_version m))
       | Package p \<Rightarrow> if oid \<in> set (modified_objects r) then map_option Package (package_increment_version p) else Some (Package p));
     ow \<leftarrow> (case ob_owner ob of
         Shared initial_shared_version \<Rightarrow>
           if oid \<in> set (created_object_ids r) then do {
             rust_assert (initial_shared_version = 0);
             Some (Shared lamport_version)
           } else Some (Shared initial_shared_version)
       | ow \<Rightarrow> Some ow);
     Some (oid, ob\<lparr>ob_data := data, ob_owner := ow, previous_transaction := prev_tx\<rparr>)
   })"

definition update_version_and_previous_tx :: "sequence_number \<Rightarrow> nat \<Rightarrow> execution_results \<Rightarrow> execution_results option" where
  "update_version_and_previous_tx lamport_version prev_tx r = do {
     written \<leftarrow> those (map (update_written_object lamport_version prev_tx r) (written_objects r));
     Some (r\<lparr>written_objects := written\<rparr>)
   }"

record loaded_metadata =
  lm_version :: sequence_number
  lm_digest :: nat
  lm_owner :: owner
  lm_storage_rebate :: nat
  lm_previous_transaction :: nat

section \<open>The temporary store\<close>

record backing_store =
  bk_get_object :: "objectID \<Rightarrow> (string, sui_object option) result"
  bk_get_object_by_key :: "objectID \<Rightarrow> sequence_number \<Rightarrow> (string, sui_object option) result"

record temporary_store =
  ts_store :: backing_store
  ts_tx_digest :: nat
  ts_input_objects :: "(objectID \<times> sui_object) list"
  ts_lamport_timestamp :: sequence_number
  ts_mutable_input_refs :: "(objectID \<times> version_digest \<times> owner) list"
  ts_execution_results :: execution_results
  ts_loaded_runtime_objects :: "(objectID \<times> loaded_metadata) list"
  ts_enable_effects_v2 :: bool
  ts_receiving_objects :: "object_ref list"

definition temporary_store_new ::
  "object_params \<Rightarrow> backing_store \<Rightarrow> input_objects \<Rightarrow> object_ref list \<Rightarrow> nat \<Rightarrow> bool \<Rightarrow> temporary_store option" where
  "temporary_store_new ps store io receiving_objects tx_digest enable_effects_v2 = do {
     mutable_input_refs \<leftarrow> mutable_inputs ps io;
     lamport_timestamp \<leftarrow> input_lamport_timestamp receiving_objects io;
     objects \<leftarrow> into_object_map io;
     Some \<lparr>ts_store = store, ts_tx_digest = tx_digest, ts_input_objects = objects, ts_lamport_timestamp = lamport_timestamp,
       ts_mutable_input_refs = mutable_input_refs, ts_execution_results = execution_results_default,
       ts_loaded_runtime_objects = [], ts_enable_effects_v2 = enable_effects_v2, ts_receiving_objects = receiving_objects\<rparr>
   }"

definition update_object_version_and_prev_tx :: "temporary_store \<Rightarrow> temporary_store option" where
  "update_object_version_and_prev_tx ts = do {
     r \<leftarrow> update_version_and_previous_tx (ts_lamport_timestamp ts) (ts_tx_digest ts) (ts_execution_results ts);
     Some (ts\<lparr>ts_execution_results := r\<rparr>)
   }"

text \<open>Writing an object, and recording that it was modified.\<close>

definition write_modified :: "objectID \<Rightarrow> sui_object \<Rightarrow> temporary_store \<Rightarrow> temporary_store" where
  "write_modified oid ob ts = (let r = ts_execution_results ts in
     ts\<lparr>ts_execution_results :=
       r\<lparr>modified_objects := bs_insert oid (modified_objects r), written_objects := bt_insert oid ob (written_objects r)\<rparr>\<rparr>)"

definition mutate_input_object :: "sui_object \<Rightarrow> temporary_store \<Rightarrow> temporary_store option" where
  "mutate_input_object ob ts = do { oid \<leftarrow> object_id ob; Some (write_modified oid ob ts) }"

definition mutate_child_object :: "object_params \<Rightarrow> sui_object \<Rightarrow> sui_object \<Rightarrow> temporary_store \<Rightarrow> temporary_store option" where
  "mutate_child_object ps old_object new_object ts = do {
     oid \<leftarrow> object_id new_object;
     (_, version, digest) \<leftarrow> compute_object_reference ps old_object;
     let meta = \<lparr>lm_version = version, lm_digest = digest, lm_owner = ob_owner old_object,
       lm_storage_rebate = storage_rebate old_object, lm_previous_transaction = previous_transaction old_object\<rparr>;
     Some (write_modified oid new_object
       (ts\<lparr>ts_loaded_runtime_objects := bt_insert oid meta (ts_loaded_runtime_objects ts)\<rparr>))
   }"

definition upgrade_system_package :: "sui_object \<Rightarrow> temporary_store \<Rightarrow> temporary_store option" where
  "upgrade_system_package package ts = do {
     oid \<leftarrow> object_id package;
     rust_assert (is_package package \<and> is_system_package oid);
     Some (write_modified oid package ts)
   }"

definition create_object :: "sui_object \<Rightarrow> temporary_store \<Rightarrow> temporary_store option" where
  "create_object ob ts = do {
     oid \<leftarrow> object_id ob;
     let r = ts_execution_results ts;
     Some (ts\<lparr>ts_execution_results :=
       r\<lparr>created_object_ids := bs_insert oid (created_object_ids r), written_objects := bt_insert oid ob (written_objects r)\<rparr>\<rparr>)
   }"

definition delete_input_object :: "objectID \<Rightarrow> temporary_store \<Rightarrow> temporary_store" where
  "delete_input_object oid ts = (let r = ts_execution_results ts in
     ts\<lparr>ts_execution_results :=
       r\<lparr>modified_objects := bs_insert oid (modified_objects r), deleted_object_ids := bs_insert oid (deleted_object_ids r)\<rparr>\<rparr>)"

definition drop_writes :: "temporary_store \<Rightarrow> temporary_store" where
  "drop_writes ts = ts\<lparr>ts_execution_results := results_drop_writes (ts_execution_results ts)\<rparr>"

definition record_execution_results :: "execution_results \<Rightarrow> temporary_store \<Rightarrow> temporary_store" where
  "record_execution_results results ts = ts\<lparr>ts_execution_results := merge_results results (ts_execution_results ts)\<rparr>"

definition save_loaded_runtime_objects :: "(objectID \<times> loaded_metadata) list \<Rightarrow> temporary_store \<Rightarrow> temporary_store" where
  "save_loaded_runtime_objects loaded ts =
     ts\<lparr>ts_loaded_runtime_objects := foldl (\<lambda>m (oid, meta). bt_insert oid meta m) (ts_loaded_runtime_objects ts) loaded\<rparr>"

definition read_object :: "objectID \<Rightarrow> temporary_store \<Rightarrow> sui_object option" where
  "read_object oid ts =
     (case map_of (written_objects (ts_execution_results ts)) oid of
        Some ob \<Rightarrow> Some ob
      | None \<Rightarrow> map_of (ts_input_objects ts) oid)"

definition ensure_active_inputs_mutated :: "temporary_store \<Rightarrow> temporary_store option" where
  "ensure_active_inputs_mutated ts = do {
     to_be_updated \<leftarrow> those (map (map_of (ts_input_objects ts))
       (filter (\<lambda>oid. oid \<notin> set (modified_objects (ts_execution_results ts))) (map fst (ts_mutable_input_refs ts))));
     fold_opt mutate_input_object to_be_updated ts
   }"

definition object_metadata :: "object_params \<Rightarrow> sui_object \<Rightarrow> loaded_metadata" where
  "object_metadata ps ob =
     \<lparr>lm_version = object_version ob, lm_digest = op_digest ps ob, lm_owner = ob_owner ob,
      lm_storage_rebate = storage_rebate ob, lm_previous_transaction = previous_transaction ob\<rparr>"

text \<open>The outer option is the panic of a lookup that fails.\<close>

definition get_object_modified_at :: "object_params \<Rightarrow> objectID \<Rightarrow> temporary_store \<Rightarrow> loaded_metadata option option" where
  "get_object_modified_at ps oid ts =
     (if oid \<in> set (modified_objects (ts_execution_results ts)) then
        (case map_of (ts_mutable_input_refs ts) oid of
           Some ((version, digest), ow) \<Rightarrow> do {
             ob \<leftarrow> map_of (ts_input_objects ts) oid;
             Some (Some \<lparr>lm_version = version, lm_digest = digest, lm_owner = ow,
               lm_storage_rebate = storage_rebate ob, lm_previous_transaction = previous_transaction ob\<rparr>)
           }
         | None \<Rightarrow> (case map_of (ts_loaded_runtime_objects ts) oid of
             Some meta \<Rightarrow> Some (Some meta)
           | None \<Rightarrow> (case bk_get_object (ts_store ts) oid of
               Inr (Some ob) \<Rightarrow> Some (Some (object_metadata ps ob))
             | _ \<Rightarrow> None)))
      else Some None)"

definition written_objects_size :: "object_params \<Rightarrow> temporary_store \<Rightarrow> nat" where
  "written_objects_size ps ts =
     foldl (\<lambda>sum (_, ob). sum + object_size_for_gas_metering ps ob) 0 (written_objects (ts_execution_results ts))"

definition conserve_unmetered_storage_rebate :: "nat \<Rightarrow> temporary_store \<Rightarrow> temporary_store option" where
  "conserve_unmetered_storage_rebate unmetered_storage_rebate ts =
     (if unmetered_storage_rebate = 0 then Some ts
      else do {
        system_state_wrapper \<leftarrow> read_object SUI_SYSTEM_STATE_OBJECT_ID ts;
        rust_assert (storage_rebate system_state_wrapper = 0);
        mutate_input_object (system_state_wrapper\<lparr>storage_rebate := unmetered_storage_rebate\<rparr>) ts
      })"

end
