(* ===== verification/Sui_Gas_Charger.thy ===== *)
theory Sui_Gas_Charger
  imports Sui_Temporary_Store
begin

text \<open>
  Charging a transaction: \<open>gas_charger.rs\<close> and the parts of \<open>temporary_store.rs\<close> that collect storage
  charges and check that SUI is conserved, both of \<open>sui-execution/latest/sui-adapter/src\<close>.

  An operation on the charger and the store returns both, \<open>None\<close> standing for a panic. The result of
  the execution, which charging may turn into an error, is passed along.
\<close>

section \<open>The gas charger\<close>

record gas_charger =
  gc_tx_digest :: nat
  gc_gas_model_version :: nat
  gc_gas_coins :: "object_ref list"
  gc_smashed_gas_coin :: "objectID option"
  gc_gas_status :: sui_gas_status

definition gas_charger_new :: "nat \<Rightarrow> object_ref list \<Rightarrow> sui_gas_status \<Rightarrow> protocol_config \<Rightarrow> gas_charger" where
  "gas_charger_new tx_digest gas_coins sg config =
     \<lparr>gc_tx_digest = tx_digest, gc_gas_model_version = pc_gas_model_version config, gc_gas_coins = gas_coins,
      gc_smashed_gas_coin = None, gc_gas_status = sg\<rparr>"

definition gas_charger_new_unmetered :: "nat \<Rightarrow> gas_charger option" where
  "gas_charger_new_unmetered tx_digest = do {
     sg \<leftarrow> sui_new_unmetered;
     Some \<lparr>gc_tx_digest = tx_digest, gc_gas_model_version = 6, gc_gas_coins = [], gc_smashed_gas_coin = None, gc_gas_status = sg\<rparr>
   }"

definition no_charges :: "gas_charger \<Rightarrow> bool" where
  "no_charges gc \<longleftrightarrow> gas_used_pre_gas_price (sg_gas_status (gc_gas_status gc)) = 0
     \<and> sg_storage_rebate (gc_gas_status gc) = 0 \<and> sg_storage_cost (gc_gas_status gc) = 0"

definition gas_coin_value :: "object_ref \<Rightarrow> temporary_store \<Rightarrow> nat option" where
  "gas_coin_value obj_ref ts = (case obj_ref of (oid, _, _) \<Rightarrow> do {
     ob \<leftarrow> map_of (ts_input_objects ts) oid;
     case ob_data ob of
       Move m \<Rightarrow> if is_gas_coin (mo_type m) then get_coin_value_unsafe m else None
     | Package _ \<Rightarrow> None
   })"

definition smash_gas :: "gas_charger \<Rightarrow> temporary_store \<Rightarrow> (gas_charger \<times> temporary_store) option" where
  "smash_gas gc ts =
     (case gc_gas_coins gc of
        [] \<Rightarrow> Some (gc, ts)
      | (gas_coin_id, _, _) # others \<Rightarrow>
          if others = [] \<and> gas_coin_id = OBJECT_ID_ZERO then Some (gc, ts)
          else let gc = gc\<lparr>gc_smashed_gas_coin := Some gas_coin_id\<rparr> in
            if others = [] then Some (gc, ts)
            else do {
              values \<leftarrow> those (map (\<lambda>obj_ref. gas_coin_value obj_ref ts) (gc_gas_coins gc));
              let new_balance = u64_wrapping_sum values;
              primary_gas_object \<leftarrow> map_of (ts_input_objects ts) gas_coin_id;
              let ts = fold (\<lambda>(oid, _, _). delete_input_object oid) others ts;
              move_obj \<leftarrow> try_as_move (ob_data primary_gas_object);
              move_obj \<leftarrow> set_coin_value_unsafe new_balance move_obj;
              ts \<leftarrow> mutate_input_object (primary_gas_object\<lparr>ob_data := Move move_obj\<rparr>) ts;
              Some (gc, ts)
            })"

definition charger_track_storage_mutation :: "nat \<Rightarrow> nat \<Rightarrow> gas_charger \<Rightarrow> (nat \<times> gas_charger) option" where
  "charger_track_storage_mutation new_size rebate gc = do {
     (cost, sg) \<leftarrow> track_storage_mutation new_size rebate (gc_gas_status gc);
     Some (cost, gc\<lparr>gc_gas_status := sg\<rparr>)
   }"

definition charger_charge_publish_package :: "nat \<Rightarrow> gas_charger \<Rightarrow> (execution_error, unit) result \<times> gas_charger" where
  "charger_charge_publish_package bytes gc =
     (case charge_publish_package bytes (gc_gas_status gc) of (r, sg) \<Rightarrow> (r, gc\<lparr>gc_gas_status := sg\<rparr>))"

definition charge_upgrade_package :: "nat \<Rightarrow> gas_charger \<Rightarrow> (execution_error, unit) result \<times> gas_charger" where
  "charge_upgrade_package bytes gc =
     (if charge_upgrades (gc_gas_model_version gc) then charger_charge_publish_package bytes gc else (Inr (), gc))"

definition charge_input_objects ::
  "object_params \<Rightarrow> temporary_store \<Rightarrow> gas_charger \<Rightarrow> (execution_error, unit) result \<times> gas_charger" where
  "charge_input_objects ps ts gc =
     (let total_size = sum_list (map (\<lambda>(_, ob). object_size_for_gas_metering ps ob)
            (filter (\<lambda>(oid, _). \<not> is_system_package oid) (ts_input_objects ts)))
      in case charge_storage_read total_size (gc_gas_status gc) of (r, sg) \<Rightarrow> (r, gc\<lparr>gc_gas_status := sg\<rparr>))"

section \<open>Collecting storage charges\<close>

definition old_storage_rebate :: "object_params \<Rightarrow> temporary_store \<Rightarrow> objectID \<Rightarrow> nat option" where
  "old_storage_rebate ps ts oid =
     map_option (\<lambda>meta. case meta of Some m \<Rightarrow> lm_storage_rebate m | None \<Rightarrow> 0) (get_object_modified_at ps oid ts)"

fun track_written ::
  "object_params \<Rightarrow> ((objectID \<times> sui_object) \<times> nat) list \<Rightarrow> gas_charger \<Rightarrow> ((objectID \<times> sui_object) list \<times> gas_charger) option" where
  "track_written ps [] gc = Some ([], gc)"
| "track_written ps (((oid, ob), old_rebate) # rest) gc = do {
     (new_storage_rebate, gc) \<leftarrow> charger_track_storage_mutation (object_size_for_gas_metering ps ob) old_rebate gc;
     (written, gc) \<leftarrow> track_written ps rest gc;
     Some ((oid, ob\<lparr>storage_rebate := new_storage_rebate\<rparr>) # written, gc)
   }"

definition collect_rebate :: "object_params \<Rightarrow> temporary_store \<Rightarrow> gas_charger \<Rightarrow> gas_charger option" where
  "collect_rebate ps ts gc = (let r = ts_execution_results ts in
     fold_opt (\<lambda>oid gc. do {
         meta \<leftarrow> get_object_modified_at ps oid ts;
         meta \<leftarrow> meta;
         (_, gc) \<leftarrow> charger_track_storage_mutation 0 (lm_storage_rebate meta) gc;
         Some gc
       }) (filter (\<lambda>oid. map_of (written_objects r) oid = None) (modified_objects r)) gc)"

definition collect_storage_and_rebate ::
  "object_params \<Rightarrow> gas_charger \<Rightarrow> temporary_store \<Rightarrow> (gas_charger \<times> temporary_store) option" where
  "collect_storage_and_rebate ps gc ts = do {
     let r = ts_execution_results ts;
     old_storage_rebates \<leftarrow> those (map (\<lambda>(oid, _). old_storage_rebate ps ts oid) (written_objects r));
     (written, gc) \<leftarrow> track_written ps (zip (written_objects r) old_storage_rebates) gc;
     let ts = ts\<lparr>ts_execution_results := r\<lparr>written_objects := written\<rparr>\<rparr>;
     gc \<leftarrow> collect_rebate ps ts gc;
     Some (gc, ts)
   }"

definition check_execution_results_consistency :: "temporary_store \<Rightarrow> (execution_error, unit) result" where
  "check_execution_results_consistency ts = (let r = ts_execution_results ts in
     if \<not> list_all (\<lambda>oid. oid \<notin> set (deleted_object_ids r) \<and> oid \<notin> set (modified_objects r)) (created_object_ids r)
     then Inl (InvariantViolation ''Created object IDs cannot also be deleted or modified'')
     else if \<not> list_all (\<lambda>oid. map_of (ts_mutable_input_refs ts) oid \<noteq> None \<or> map_of (ts_loaded_runtime_objects ts) oid \<noteq> None
                \<or> is_system_package oid) (modified_objects r)
     then Inl (InvariantViolation
       ''A modified object must be either a mutable input, a loaded child object, or a system package'')
     else Inr ())"

section \<open>Charging\<close>

definition charger_reset :: "gas_charger \<Rightarrow> temporary_store \<Rightarrow> (gas_charger \<times> temporary_store) option" where
  "charger_reset gc ts =
     smash_gas (gc\<lparr>gc_gas_status := reset_storage_cost_and_rebate (gc_gas_status gc)\<rparr>) (drop_writes ts)"

type_synonym exec_result = "(execution_error, unit) result"

definition keep_error :: "execution_error \<Rightarrow> exec_result \<Rightarrow> exec_result" where
  "keep_error err execution_result = (case execution_result of Inr _ \<Rightarrow> Inl err | Inl e \<Rightarrow> Inl e)"

definition handle_storage_and_rebate_v1 ::
  "object_params \<Rightarrow> gas_charger \<Rightarrow> temporary_store \<Rightarrow> exec_result \<Rightarrow> (gas_charger \<times> temporary_store \<times> exec_result) option" where
  "handle_storage_and_rebate_v1 ps gc ts res = do {
     charged \<leftarrow> charge_storage_and_rebate (gc_gas_status gc);
     case charged of
       Inr _ \<Rightarrow> Some (gc, ts, res)
     | Inl err \<Rightarrow> do {
         (gc, ts) \<leftarrow> charger_reset gc ts;
         let gc = gc\<lparr>gc_gas_status := adjust_computation_on_out_of_gas (gc_gas_status gc)\<rparr>;
         ts \<leftarrow> ensure_active_inputs_mutated ts;
         gc \<leftarrow> collect_rebate ps ts gc;
         Some (gc, ts, keep_error err res)
       }
   }"

definition handle_storage_and_rebate_v2 ::
  "object_params \<Rightarrow> gas_charger \<Rightarrow> temporary_store \<Rightarrow> exec_result \<Rightarrow> (gas_charger \<times> temporary_store \<times> exec_result) option" where
  "handle_storage_and_rebate_v2 ps gc ts res = do {
     charged \<leftarrow> charge_storage_and_rebate (gc_gas_status gc);
     case charged of
       Inr _ \<Rightarrow> Some (gc, ts, res)
     | Inl err \<Rightarrow> do {
         (gc, ts) \<leftarrow> charger_reset gc ts;
         ts \<leftarrow> ensure_active_inputs_mutated ts;
         (gc, ts) \<leftarrow> collect_storage_and_rebate ps gc ts;
         charged \<leftarrow> charge_storage_and_rebate (gc_gas_status gc);
         case charged of
           Inl err \<Rightarrow> do {
             (gc, ts) \<leftarrow> charger_reset gc ts;
             let gc = gc\<lparr>gc_gas_status := adjust_computation_on_out_of_gas (gc_gas_status gc)\<rparr>;
             ts \<leftarrow> ensure_active_inputs_mutated ts;
             gc \<leftarrow> collect_rebate ps ts gc;
             Some (gc, ts, keep_error err res)
           }
         | Inr _ \<Rightarrow> Some (gc, ts, keep_error err res)
       }
   }"

definition charge_gas ::
  "object_params \<Rightarrow> gas_charger \<Rightarrow> temporary_store \<Rightarrow> exec_result
     \<Rightarrow> (gas_cost_summary \<times> gas_charger \<times> temporary_store \<times> exec_result) option" where
  "charge_gas ps gc ts res = do {
     (gc, ts, res) \<leftarrow> (if gc_smashed_gas_coin gc \<noteq> None then do {
         (bucketized, sg) \<leftarrow> bucketize_computation (gc_gas_status gc);
         let gc = gc\<lparr>gc_gas_status := sg\<rparr>;
         let res = (case bucketized of Inl err \<Rightarrow> keep_error err res | Inr _ \<Rightarrow> res);
         (gc, ts) \<leftarrow> (if isl res then charger_reset gc ts else Some (gc, ts));
         Some (gc, ts, res)
       } else Some (gc, ts, res));
     ts \<leftarrow> ensure_active_inputs_mutated ts;
     (gc, ts) \<leftarrow> collect_storage_and_rebate ps gc ts;
     case gc_smashed_gas_coin gc of
       Some gas_object_id \<Rightarrow> do {
         (gc, ts, res) \<leftarrow> (if dont_charge_budget_on_storage_oog (gc_gas_model_version gc)
            then handle_storage_and_rebate_v2 ps gc ts res else handle_storage_and_rebate_v1 ps gc ts res);
         cost_summary \<leftarrow> gas_summary (gc_gas_status gc);
         gas_used \<leftarrow> net_gas_usage cost_summary;
         gas_object \<leftarrow> read_object gas_object_id ts;
         gas_object \<leftarrow> deduct_gas gas_used gas_object;
         ts \<leftarrow> mutate_input_object gas_object ts;
         Some (cost_summary, gc, ts, res)
       }
     | None \<Rightarrow> Some (gas_cost_summary_default, gc, ts, res)
   }"

section \<open>Conservation checks\<close>

type_synonym modified_object_info = "objectID \<times> loaded_metadata option \<times> sui_object option"

definition get_modified_objects :: "object_params \<Rightarrow> temporary_store \<Rightarrow> modified_object_info list option" where
  "get_modified_objects ps ts = do {
     let r = ts_execution_results ts;
     modified \<leftarrow> those (map (\<lambda>oid. map_option (\<lambda>meta. (oid, meta, map_of (written_objects r) oid)) (get_object_modified_at ps oid ts))
       (modified_objects r));
     Some (modified @ map (\<lambda>(oid, ob). (oid, None, Some ob)) (filter (\<lambda>(oid, _). oid \<notin> set (modified_objects r)) (written_objects r)))
   }"

definition check_sui_conserved ::
  "object_params \<Rightarrow> bool \<Rightarrow> gas_cost_summary \<Rightarrow> temporary_store \<Rightarrow> (execution_error, unit) result option" where
  "check_sui_conserved ps simple_conservation_checks cs ts =
     (if \<not> simple_conservation_checks then Some (Inr ())
      else do {
        infos \<leftarrow> get_modified_objects ps ts;
        let total_input_rebate = foldl (\<lambda>s (_, input, _). case input of Some m \<Rightarrow> u64_wrapping_add s (lm_storage_rebate m) | None \<Rightarrow> s) 0 infos;
        let total_output_rebate = foldl (\<lambda>s (_, _, output). case output of Some ob \<Rightarrow> u64_wrapping_add s (storage_rebate ob) | None \<Rightarrow> s) 0 infos;
        Some (if cs_storage_cost cs = 0 then
                (if total_input_rebate \<noteq> u64_wrapping_add (u64_wrapping_add total_output_rebate (cs_storage_rebate cs)) (cs_non_refundable_storage_fee cs)
                 then Inl (InvariantViolation ''SUI conservation failed -- no storage charges in gas summary'') else Inr ())
              else if total_input_rebate \<noteq> u64_wrapping_add (cs_storage_rebate cs) (cs_non_refundable_storage_fee cs)
              then Inl (InvariantViolation ''SUI conservation failed -- storage rebate of input objects'')
              else if cs_storage_cost cs \<noteq> total_output_rebate
              then Inl (InvariantViolation ''SUI conservation failed -- storage rebate of output objects'')
              else Inr ())
      })"

definition get_input_sui ::
  "layout_resolver \<Rightarrow> objectID \<Rightarrow> sequence_number \<Rightarrow> temporary_store \<Rightarrow> (execution_error, nat) result option" where
  "get_input_sui layout oid expected_version ts =
     (case map_of (ts_input_objects ts) oid of
        Some ob \<Rightarrow>
          if object_version ob \<noteq> expected_version then Some (Inl (InvariantViolation ''Version mismatching when resolving input object''))
          else map_option (map_sum (\<lambda>_. InvariantViolation ''Failed looking up input SUI'') (\<lambda>v. v)) (get_total_sui layout ob)
      | None \<Rightarrow> (case bk_get_object_by_key (ts_store ts) oid expected_version of
            Inr (Some ob) \<Rightarrow> map_option (map_sum (\<lambda>_. InvariantViolation ''Failed looking up input SUI'') (\<lambda>v. v)) (get_total_sui layout ob)
          | _ \<Rightarrow> Some (Inl (InvariantViolation ''Failed looking up dynamic field''))))"

fun sum_modified_sui ::
  "layout_resolver \<Rightarrow> temporary_store \<Rightarrow> modified_object_info list \<Rightarrow> nat \<times> nat \<Rightarrow> (execution_error, nat \<times> nat) result option" where
  "sum_modified_sui layout ts [] totals = Some (Inr totals)"
| "sum_modified_sui layout ts ((oid, input, output) # infos) (total_input_sui, total_output_sui) = do {
     input_sui \<leftarrow> (case input of Some m \<Rightarrow> get_input_sui layout oid (lm_version m) ts | None \<Rightarrow> Some (Inr 0));
     case input_sui of
       Inl e \<Rightarrow> Some (Inl e)
     | Inr i \<Rightarrow> do {
         output_sui \<leftarrow> (case output of
             Some ob \<Rightarrow> map_option (map_sum (\<lambda>_. InvariantViolation ''Failed looking up output SUI'') (\<lambda>v. v)) (get_total_sui layout ob)
           | None \<Rightarrow> Some (Inr 0));
         case output_sui of
           Inl e \<Rightarrow> Some (Inl e)
         | Inr v \<Rightarrow> sum_modified_sui layout ts infos (u64_wrapping_add total_input_sui i, u64_wrapping_add total_output_sui v)
       }
   }"

definition check_sui_conserved_expensive ::
  "object_params \<Rightarrow> layout_resolver \<Rightarrow> gas_cost_summary \<Rightarrow> (nat \<times> nat) option \<Rightarrow> temporary_store
     \<Rightarrow> (execution_error, unit) result option" where
  "check_sui_conserved_expensive ps layout cs advance_epoch_gas_summary ts = do {
     infos \<leftarrow> get_modified_objects ps ts;
     totals \<leftarrow> sum_modified_sui layout ts infos (0, 0);
     case totals of
       Inl e \<Rightarrow> Some (Inl e)
     | Inr (total_input_sui, total_output_sui) \<Rightarrow>
         let total_output_sui = u64_wrapping_add total_output_sui
               (u64_wrapping_add (cs_computation_cost cs) (cs_non_refundable_storage_fee cs));
             (total_input_sui, total_output_sui) =
               (case advance_epoch_gas_summary of
                  Some (epoch_fees, epoch_rebates) \<Rightarrow>
                    (u64_wrapping_add total_input_sui epoch_fees, u64_wrapping_add total_output_sui epoch_rebates)
                | None \<Rightarrow> (total_input_sui, total_output_sui))
         in Some (if total_input_sui \<noteq> total_output_sui
                  then Inl (InvariantViolation ''SUI conservation failed: this transaction either mints or burns SUI'')
                  else Inr ())
   }"

end
