(* ===== verification/Sui_Ownership.thy ===== *)
theory Sui_Ownership
  imports Sui_Gas_Charger
begin

text \<open>
  The ownership check made after a transaction: \<open>get_objects_to_authenticate\<close> and
  \<open>check_ownership_invariants\<close> of \<open>sui-execution/latest/sui-adapter/src/temporary_store.rs\<close>.

  The check follows the owners of every modified object up to an authenticated root, with a stack of
  objects still to authenticate and a map of the objects already covered. Sets are lists of which
  only membership is used, and the stack has its top first. The loop is a partial function: its
  outer option is \<open>None\<close> if it runs forever, the inner one if it panics. Nothing in the code bounds
  it; it ends because the database holds finitely many objects.

  Shown: the check ends, and exactly when it panics: on an input that the sender may not use, on
  a modified object that is missing or may not be modified, and on one that is owned, through
  objects that are not authenticated, by an object without an owner.
\<close>

section \<open>Roots and objects to authenticate\<close>

fun authenticate_inputs :: "sui_address \<Rightarrow> objectID list \<Rightarrow> (objectID \<times> sui_object) list \<Rightarrow> objectID list \<Rightarrow> objectID list option" where
  "authenticate_inputs sender gas_objs [] authenticated = Some authenticated"
| "authenticate_inputs sender gas_objs ((oid, ob) # rest) authenticated =
     (if oid \<in> set gas_objs then authenticate_inputs sender gas_objs rest authenticated
      else case ob_owner ob of
          AddressOwner a \<Rightarrow> if sender = a then authenticate_inputs sender gas_objs rest (oid # authenticated) else None
        | Shared _ \<Rightarrow> authenticate_inputs sender gas_objs rest (oid # authenticated)
        | Immutable \<Rightarrow> authenticate_inputs sender gas_objs rest authenticated
        | ObjectOwner _ \<Rightarrow> None)"

fun modified_to_authenticate ::
  "backing_store \<Rightarrow> bool \<Rightarrow> objectID list \<Rightarrow> objectID list \<Rightarrow> objectID list \<Rightarrow> objectID list \<Rightarrow> (string, objectID list) result option" where
  "modified_to_authenticate store is_epoch_change gas_objs authenticated [] objs = Some (Inr objs)"
| "modified_to_authenticate store is_epoch_change gas_objs authenticated (oid # rest) objs =
     (if oid \<in> set authenticated \<or> oid \<in> set gas_objs
      then modified_to_authenticate store is_epoch_change gas_objs authenticated rest objs
      else case bk_get_object store oid of
          Inl e \<Rightarrow> Some (Inl e)
        | Inr None \<Rightarrow> None
        | Inr (Some old_obj) \<Rightarrow> (case ob_owner old_obj of
              ObjectOwner _ \<Rightarrow> modified_to_authenticate store is_epoch_change gas_objs authenticated rest (oid # objs)
            | AddressOwner _ \<Rightarrow> modified_to_authenticate store is_epoch_change gas_objs authenticated rest (oid # objs)
            | Shared _ \<Rightarrow> None
            | Immutable \<Rightarrow>
                if is_epoch_change \<and> is_system_package oid
                then modified_to_authenticate store is_epoch_change gas_objs authenticated rest objs else None))"

definition get_objects_to_authenticate ::
  "sui_address \<Rightarrow> gas_charger \<Rightarrow> bool \<Rightarrow> temporary_store \<Rightarrow> (string, objectID list \<times> objectID list) result option" where
  "get_objects_to_authenticate sender gc is_epoch_change ts = do {
     let gas_objs = map fst (gc_gas_coins gc);
     authenticated \<leftarrow> authenticate_inputs sender gas_objs (ts_input_objects ts) [];
     objs \<leftarrow> modified_to_authenticate (ts_store ts) is_epoch_change gas_objs authenticated
       (modified_objects (ts_execution_results ts)) [];
     Some (map_sum (\<lambda>e. e) (\<lambda>objs. (objs, authenticated)) objs)
   }"

section \<open>Following the owners\<close>

text \<open>The owner an object is authenticated by: none for a shared or immutable object.\<close>

definition owner_parent :: "sui_object \<Rightarrow> objectID option" where
  "owner_parent ob = (case ob_owner ob of ObjectOwner p \<Rightarrow> Some p | AddressOwner p \<Rightarrow> Some p | Shared _ \<Rightarrow> None | Immutable \<Rightarrow> None)"

partial_function (option) authenticate_objects ::
  "backing_store \<Rightarrow> objectID list \<Rightarrow> objectID list \<Rightarrow> (objectID \<times> objectID) list \<Rightarrow> (string, unit) result option option" where
  "authenticate_objects store objs authenticated covered =
     (case objs of
        [] \<Rightarrow> Some (Some (Inr ()))
      | to_authenticate # objs \<Rightarrow> (case bk_get_object store to_authenticate of
            Inl e \<Rightarrow> Some (Some (Inl e))
          | Inr None \<Rightarrow> authenticate_objects store objs authenticated covered
          | Inr (Some old_obj) \<Rightarrow> (case owner_parent old_obj of
                None \<Rightarrow> Some None
              | Some parent \<Rightarrow>
                  if parent \<in> set authenticated
                  then authenticate_objects store objs (to_authenticate # authenticated) (bt_insert to_authenticate parent covered)
                  else if map_of covered parent = None
                  then authenticate_objects store (parent # objs) authenticated (bt_insert to_authenticate parent covered)
                  else authenticate_objects store objs authenticated (bt_insert to_authenticate parent covered))))"

definition check_ownership_invariants ::
  "sui_address \<Rightarrow> gas_charger \<Rightarrow> bool \<Rightarrow> temporary_store \<Rightarrow> (string, unit) result option option" where
  "check_ownership_invariants sender gc is_epoch_change ts =
     (case get_objects_to_authenticate sender gc is_epoch_change ts of
        None \<Rightarrow> Some None
      | Some (Inl e) \<Rightarrow> Some (Some (Inl e))
      | Some (Inr (objs, authenticated)) \<Rightarrow> authenticate_objects (ts_store ts) objs authenticated [])"

section \<open>The loop ends\<close>

definition stored :: "backing_store \<Rightarrow> objectID \<Rightarrow> sui_object option" where
  "stored store oid = (case bk_get_object store oid of Inr (Some ob) \<Rightarrow> Some ob | _ \<Rightarrow> None)"

text \<open>An object that is owned, through objects that are not authenticated, by one without an owner.\<close>

inductive unrooted :: "backing_store \<Rightarrow> objectID set \<Rightarrow> objectID \<Rightarrow> bool" for store roots where
  root: "stored store oid = Some ob \<Longrightarrow> owner_parent ob = None \<Longrightarrow> unrooted store roots oid"
| step: "stored store oid = Some ob \<Longrightarrow> owner_parent ob = Some p \<Longrightarrow> p \<notin> roots \<Longrightarrow> unrooted store roots p \<Longrightarrow> unrooted store roots oid"

inductive_cases unrootedE: "unrooted store roots oid"

text \<open>The invariant of the loop. Authenticated objects are not \<open>unrooted\<close>, and the owner of a covered
  object is authenticated, covered, not in the database, or the next object to look at.\<close>

definition loop_ok :: "backing_store \<Rightarrow> objectID set \<Rightarrow> objectID list \<Rightarrow> objectID list \<Rightarrow> (objectID \<times> objectID) list \<Rightarrow> bool" where
  "loop_ok store roots objs authenticated covered \<longleftrightarrow> roots \<subseteq> set authenticated
     \<and> (\<forall>oid \<in> set authenticated - roots. \<not> unrooted store roots oid)
     \<and> (\<forall>oid \<in> fst ` set covered. \<exists>ob p. stored store oid = Some ob \<and> owner_parent ob = Some p
          \<and> (p \<in> set authenticated \<or> p \<in> fst ` set covered \<or> stored store p = None \<or> (objs \<noteq> [] \<and> p = hd objs)))"

definition work :: "backing_store \<Rightarrow> objectID list \<Rightarrow> (objectID \<times> objectID) list \<Rightarrow> nat" where
  "work store objs covered = card ({oid. stored store oid \<noteq> None} - fst ` set covered)
     + (\<Sum>oid \<leftarrow> objs. if stored store oid = None then 1 else 2)"

lemma stored_lookup: "\<forall>oid e. bk_get_object store oid \<noteq> Inl e \<Longrightarrow> bk_get_object store oid = Inr (stored store oid)"
  by (cases "bk_get_object store oid") (auto simp: stored_def split: option.splits)

lemma covered_unrooted:
  assumes "unrooted store roots oid" "loop_ok store roots objs authenticated covered" "oid \<in> fst ` set covered"
  shows "objs \<noteq> [] \<and> unrooted store roots (hd objs)"
  using assms(1,3)
proof (induction rule: unrooted.induct)
  case (root oid ob)
  then show ?case using assms(2) unfolding loop_ok_def by (metis option.inject option.distinct(1))
next
  case (step oid ob p)
  have p: "p \<in> set authenticated \<or> p \<in> fst ` set covered \<or> stored store p = None \<or> (objs \<noteq> [] \<and> p = hd objs)"
    using assms(2) step.hyps(1,2) step.prems unfolding loop_ok_def by (metis option.inject)
  moreover have "p \<notin> set authenticated" using assms(2) step.hyps(3,4) unfolding loop_ok_def by blast
  moreover have "stored store p \<noteq> None" using step.hyps(4) by (auto elim: unrootedE)
  ultimately show ?case using step.IH step.hyps(4) by blast
qed

lemma unrooted_iff:
  assumes "stored store oid = Some ob" "owner_parent ob = Some p"
  shows "unrooted store roots oid \<longleftrightarrow> p \<notin> roots \<and> unrooted store roots p"
  using assms by (auto elim: unrootedE intro: unrooted.step)

lemma loop_ok_step:
  assumes "loop_ok store roots (oid # objs) authenticated covered" "stored store oid = Some ob" "owner_parent ob = Some p"
    and "set authenticated \<subseteq> set authenticated'"
    and "\<forall>x \<in> set authenticated' - set authenticated. \<not> unrooted store roots x"
    and "p \<in> set authenticated' \<or> p \<in> fst ` set covered \<or> (objs' \<noteq> [] \<and> p = hd objs')"
  shows "loop_ok store roots objs' authenticated' (bt_insert oid p covered)"
  unfolding loop_ok_def
proof (intro conjI ballI)
  show "roots \<subseteq> set authenticated'" using assms(1,4) by (auto simp: loop_ok_def)
  show "\<not> unrooted store roots x" if "x \<in> set authenticated' - roots" for x using that assms(1,5) by (auto simp: loop_ok_def)
  show "\<exists>ob q. stored store x = Some ob \<and> owner_parent ob = Some q
      \<and> (q \<in> set authenticated' \<or> q \<in> fst ` set (bt_insert oid p covered) \<or> stored store q = None \<or> (objs' \<noteq> [] \<and> q = hd objs'))"
    if "x \<in> fst ` set (bt_insert oid p covered)" for x
  proof (cases "x = oid")
    case True
    then show ?thesis using assms(2,3,6) unfolding keys_bt_insert by blast
  next
    case False
    then have "x \<in> fst ` set covered" using that unfolding keys_bt_insert by blast
    then obtain ob' q where q: "stored store x = Some ob'" "owner_parent ob' = Some q"
      "q \<in> set authenticated \<or> q \<in> fst ` set covered \<or> stored store q = None \<or> q = oid"
      using assms(1) unfolding loop_ok_def by (metis list.sel(1))
    then show ?thesis using assms(4) unfolding keys_bt_insert by blast
  qed
qed

lemma work_covered:
  assumes "finite {oid. stored store oid \<noteq> None}"
  shows "card ({oid. stored store oid \<noteq> None} - fst ` set (bt_insert oid p covered)) \<le> card ({oid. stored store oid \<noteq> None} - fst ` set covered)"
    and "stored store oid \<noteq> None \<Longrightarrow> oid \<notin> fst ` set covered \<Longrightarrow>
      card ({oid. stored store oid \<noteq> None} - fst ` set (bt_insert oid p covered)) < card ({oid. stored store oid \<noteq> None} - fst ` set covered)"
proof -
  let ?D = "{oid. stored store oid \<noteq> None}"
  have keys: "fst ` set (bt_insert oid p covered) = insert oid (fst ` set covered)" by (rule keys_bt_insert)
  have fin: "finite (?D - fst ` set covered)" using assms by (rule finite_Diff)
  show "card (?D - fst ` set (bt_insert oid p covered)) \<le> card (?D - fst ` set covered)"
    unfolding keys by (rule card_mono [OF fin]) blast
  show "card (?D - fst ` set (bt_insert oid p covered)) < card (?D - fst ` set covered)" if "stored store oid \<noteq> None" "oid \<notin> fst ` set covered"
    unfolding keys by (rule psubset_card_mono [OF fin]) (use that in blast)
qed

lemma authenticate_objects_eq:
  assumes "finite {oid. stored store oid \<noteq> None}" "\<forall>oid e. bk_get_object store oid \<noteq> Inl e"
    and "loop_ok store roots objs authenticated covered"
  shows "authenticate_objects store objs authenticated covered =
    Some (if \<exists>oid \<in> set objs. unrooted store roots oid then None else Some (Inr ()))"
  using assms(3)
proof (induction "work store objs covered" arbitrary: objs authenticated covered rule: less_induct)
  case less
  note look = stored_lookup [OF assms(2)]
  show ?case
  proof (cases objs)
    case (Cons oid rest)
    note ok = less.prems [unfolded Cons] and unfold = authenticate_objects.simps [of store "oid # rest" authenticated covered]
    show ?thesis
    proof (cases "stored store oid")
      case None
      then have "loop_ok store roots rest authenticated covered" using ok unfolding loop_ok_def by (metis list.sel(1))
      moreover have "\<not> unrooted store roots oid" using None by (auto elim: unrootedE)
      ultimately show ?thesis using less.hyps [of rest covered authenticated] None look [of oid]
        by (simp add: unfold Cons work_def)
    next
      case (Some ob)
      show ?thesis
      proof (cases "owner_parent ob")
        case None
        then show ?thesis using Some look [of oid] by (auto simp: unfold Cons intro: unrooted.root)
      next
        case parent: (Some p)
        have roots: "roots \<subseteq> set authenticated" using ok by (simp add: loop_ok_def)
        note iff = unrooted_iff [OF Some parent, of roots] and step = loop_ok_step [OF ok Some parent]
          and lt = work_covered [OF assms(1), where oid = oid and p = p and covered = covered]
        consider "p \<in> set authenticated" | "p \<notin> set authenticated" "map_of covered p = None" | "p \<notin> set authenticated" "map_of covered p \<noteq> None" by blast
        then show ?thesis
        proof cases
          case 1
          have no: "\<not> unrooted store roots oid" using iff 1 ok unfolding loop_ok_def by blast
          then have "loop_ok store roots rest (oid # authenticated) (bt_insert oid p covered)" using 1 by (intro step) auto
          then show ?thesis using less.hyps [of rest "bt_insert oid p covered" "oid # authenticated"] no 1 Some parent look [of oid] lt(1)
            by (simp add: unfold Cons work_def)
        next
          case 2
          have "loop_ok store roots (p # rest) authenticated (bt_insert oid p covered)" by (rule step) simp_all
          moreover have "work store (p # rest) (bt_insert oid p covered) < work store objs covered"
          proof (cases "stored store p = None")
            case False
            have "p \<notin> fst ` set covered" using 2(2) by (simp add: map_of_eq_None_iff)
            then have "oid \<notin> fst ` set covered" using ok False 2(1) Some parent unfolding loop_ok_def by (metis list.sel(1) option.inject)
            then show ?thesis using lt(2) Some by (simp add: work_def Cons)
          qed (use lt(1) Some in \<open>simp add: work_def Cons\<close>)
          ultimately show ?thesis using less.hyps [of "p # rest" "bt_insert oid p covered" authenticated] 2 roots iff Some parent look [of oid]
            by (auto simp: unfold Cons)
        next
          case 3
          have p: "p \<in> fst ` set covered" using 3(2) by (simp add: map_of_eq_None_iff)
          have next_ok: "loop_ok store roots rest authenticated (bt_insert oid p covered)" using p by (intro step) auto
          have "rest \<noteq> [] \<and> unrooted store roots (hd rest)" if "unrooted store roots oid"
            using covered_unrooted [OF _ next_ok] that iff p by (simp add: keys_bt_insert)
          then have "(\<exists>x \<in> set objs. unrooted store roots x) = (\<exists>x \<in> set rest. unrooted store roots x)" using hd_in_set by (auto simp: Cons)
          moreover obtain q where "map_of covered p = Some q" using 3(2) by blast
          ultimately show ?thesis using less.hyps [of rest "bt_insert oid p covered" authenticated] next_ok 3(1) Some parent look [of oid] lt(1)
            by (simp add: unfold Cons work_def)
        qed
      qed
    qed
  qed (simp add: authenticate_objects.simps [of store "[]"])
qed

section \<open>What the check decides\<close>

text \<open>The roots of a transaction: its inputs other than payment coins and immutable objects.\<close>

definition input_roots :: "gas_charger \<Rightarrow> temporary_store \<Rightarrow> objectID set" where
  "input_roots gc ts = {oid. oid \<notin> fst ` set (gc_gas_coins gc)
     \<and> (\<exists>ob. (oid, ob) \<in> set (ts_input_objects ts) \<and> ob_owner ob \<noteq> Immutable)}"

text \<open>An input that the sender may not use: owned by another address, or a child of an object.\<close>

definition foreign_input :: "sui_address \<Rightarrow> objectID list \<Rightarrow> (objectID \<times> sui_object) list \<Rightarrow> bool" where
  "foreign_input sender gas_objs inputs \<longleftrightarrow> list_ex (\<lambda>(oid, ob). oid \<notin> set gas_objs
     \<and> (case ob_owner ob of AddressOwner a \<Rightarrow> a \<noteq> sender | ObjectOwner _ \<Rightarrow> True | _ \<Rightarrow> False)) inputs"

text \<open>An object that no transaction may modify unless it is a root: it is not in the database, shared, or
  immutable (a system package at the change of epoch excepted).\<close>

definition not_modifiable :: "backing_store \<Rightarrow> bool \<Rightarrow> objectID \<Rightarrow> bool" where
  "not_modifiable store is_epoch_change oid = (case stored store oid of
     None \<Rightarrow> True
   | Some ob \<Rightarrow> (case ob_owner ob of Shared _ \<Rightarrow> True | Immutable \<Rightarrow> \<not> (is_epoch_change \<and> is_system_package oid) | _ \<Rightarrow> False))"

lemma modified_to_authenticate_eq:
  assumes "\<forall>oid e. bk_get_object store oid \<noteq> Inl e"
  shows "let todo = filter (\<lambda>oid. oid \<notin> set authenticated \<and> oid \<notin> set gas_objs) oids
    in if list_ex (not_modifiable store is_epoch_change) todo
       then modified_to_authenticate store is_epoch_change gas_objs authenticated oids objs = None
       else \<exists>objs'. modified_to_authenticate store is_epoch_change gas_objs authenticated oids objs = Some (Inr objs')
         \<and> set objs' = set objs \<union> {oid \<in> set todo. \<exists>ob p. stored store oid = Some ob \<and> owner_parent ob = Some p}"
proof (induction oids arbitrary: objs)
  case (Cons oid oids)
  note look = stored_lookup [OF assms, of oid]
  show ?case
  proof (cases "oid \<in> set authenticated \<or> oid \<in> set gas_objs")
    case False
    show ?thesis
    proof (cases "stored store oid")
      case (Some ob)
      show ?thesis
        using Cons [of objs] Cons [of "oid # objs"] False look Some
        by (cases "ob_owner ob") (auto simp: owner_parent_def not_modifiable_def Let_def split: if_splits)
    qed (use False look in \<open>simp add: not_modifiable_def\<close>)
  next
    case True
    then have "modified_to_authenticate store is_epoch_change gas_objs authenticated (oid # oids) objs
        = modified_to_authenticate store is_epoch_change gas_objs authenticated oids objs"
      and "filter (\<lambda>oid. oid \<notin> set authenticated \<and> oid \<notin> set gas_objs) (oid # oids)
        = filter (\<lambda>oid. oid \<notin> set authenticated \<and> oid \<notin> set gas_objs) oids" by auto
    then show ?thesis using Cons [of objs] by presburger
  qed
qed simp

lemma authenticate_inputs_eq:
  "if foreign_input sender gas_objs inputs then authenticate_inputs sender gas_objs inputs authenticated = None
   else \<exists>authenticated'. authenticate_inputs sender gas_objs inputs authenticated = Some authenticated'
     \<and> set authenticated' = set authenticated \<union> {oid. oid \<notin> set gas_objs \<and> (\<exists>ob. (oid, ob) \<in> set inputs \<and> ob_owner ob \<noteq> Immutable)}"
proof (induction inputs arbitrary: authenticated)
  case (Cons kv inputs)
  obtain oid ob where kv: "kv = (oid, ob)" by (cases kv)
  show ?case
    using Cons [of authenticated] Cons [of "oid # authenticated"]
    by (cases "ob_owner ob") (auto simp: kv foreign_input_def conj_disj_distribR ex_disj_distrib split: if_splits)
qed (simp add: foreign_input_def)

text \<open>C12: The ownership check ends on every finite database that answers its lookups, although it follows owners
  without a bound: an object is put on the stack only until it is covered. It panics exactly in these
  cases: an input other than a payment coin belongs to another address than the sender, or is a child
  of an object; an object the transaction modified, other than a payment coin or a root (an input that
  is not immutable), is missing from the database, shared, immutable (a system package at the change
  of epoch excepted), or owned through objects that are not roots by one without an owner. In all
  other cases it succeeds.\<close>

theorem check_ownership_panics_exactly:
  assumes "finite {oid. stored (ts_store ts) oid \<noteq> None}" "\<forall>oid e. bk_get_object (ts_store ts) oid \<noteq> Inl e"
  shows "check_ownership_invariants sender gc is_epoch_change ts =
    Some (if foreign_input sender (map fst (gc_gas_coins gc)) (ts_input_objects ts)
            \<or> (\<exists>oid \<in> set (modified_objects (ts_execution_results ts)).
                oid \<notin> input_roots gc ts \<and> oid \<notin> fst ` set (gc_gas_coins gc)
                \<and> (not_modifiable (ts_store ts) is_epoch_change oid
                   \<or> (\<exists>ob p. stored (ts_store ts) oid = Some ob \<and> owner_parent ob = Some p)
                      \<and> unrooted (ts_store ts) (input_roots gc ts) oid))
          then None else Some (Inr ()))"
proof (cases "foreign_input sender (map fst (gc_gas_coins gc)) (ts_input_objects ts)")
  case True
  then show ?thesis
    using authenticate_inputs_eq [of sender "map fst (gc_gas_coins gc)" "ts_input_objects ts" "[]"]
    by (simp add: check_ownership_invariants_def get_objects_to_authenticate_def Let_def)
next
  case False
  let ?gas = "map fst (gc_gas_coins gc)" and ?mods = "modified_objects (ts_execution_results ts)" and ?R = "input_roots gc ts"
  obtain a where a: "authenticate_inputs sender ?gas (ts_input_objects ts) [] = Some a" "set a = ?R"
    using False authenticate_inputs_eq [of sender ?gas "ts_input_objects ts" "[]"] by (auto simp: input_roots_def)
  let ?todo = "filter (\<lambda>oid. oid \<notin> set a \<and> oid \<notin> set ?gas) ?mods"
  note mods = modified_to_authenticate_eq [OF assms(2), of a ?gas ?mods is_epoch_change "[]"]
  show ?thesis
  proof (cases "list_ex (not_modifiable (ts_store ts) is_epoch_change) ?todo")
    case True
    then have "modified_to_authenticate (ts_store ts) is_epoch_change ?gas a ?mods [] = None" using mods by (simp add: Let_def)
    then show ?thesis
      using True a unfolding check_ownership_invariants_def get_objects_to_authenticate_def list_ex_iff by (auto simp: Let_def)
  next
    case ok: False
    then obtain objs where objs: "modified_to_authenticate (ts_store ts) is_epoch_change ?gas a ?mods [] = Some (Inr objs)"
      "set objs = {oid \<in> set ?todo. \<exists>ob p. stored (ts_store ts) oid = Some ob \<and> owner_parent ob = Some p}"
      using mods by (auto simp: Let_def)
    have "loop_ok (ts_store ts) ?R objs a []" using a(2) by (simp add: loop_ok_def)
    note loop = authenticate_objects_eq [OF assms this]
    have "check_ownership_invariants sender gc is_epoch_change ts = authenticate_objects (ts_store ts) objs a []"
      using a(1) objs(1) by (simp add: check_ownership_invariants_def get_objects_to_authenticate_def Let_def)
    then show ?thesis unfolding loop objs(2) using False ok a(2) by (auto simp: list_ex_iff)
  qed
qed

text \<open>A dynamic field owned through another field by a shared input.\<close>

definition field_object :: "nat \<Rightarrow> owner \<Rightarrow> sui_object" where
  "field_object i ow = new_move \<lparr>mo_type = GasCoin, has_public_transfer = True, mo_version = 1, mo_contents = replicate 32 i @ to_le_bytes 8 0\<rparr> ow 0"

definition field_objects :: "(objectID \<times> sui_object) list" where
  "field_objects = [([6], field_object 6 (Shared 1)), ([8], field_object 8 (ObjectOwner [6])), ([9], field_object 9 (ObjectOwner [8]))]"

definition field_store :: temporary_store where
  "field_store = \<lparr>ts_store = \<lparr>bk_get_object = (\<lambda>oid. Inr (map_of field_objects oid)), bk_get_object_by_key = (\<lambda>oid _. Inr (map_of field_objects oid))\<rparr>,
     ts_tx_digest = 5, ts_input_objects = [([6], field_object 6 (Shared 1))], ts_lamport_timestamp = 2,
     ts_mutable_input_refs = [([6], (1, 0), Shared 1)],
     ts_execution_results = \<lparr>written_objects = [], modified_objects = [[6], [9]], created_object_ids = [], deleted_object_ids = [], user_events = []\<rparr>,
     ts_loaded_runtime_objects = [], ts_enable_effects_v2 = True, ts_receiving_objects = []\<rparr>"

theorem check_ownership_panics_exactly_witness:
  "check_ownership_invariants [1] \<lparr>gc_tx_digest = 5, gc_gas_model_version = 8, gc_gas_coins = [], gc_smashed_gas_coin = None, gc_gas_status = example_gas\<rparr>
     False field_store = Some (Some (Inr ()))"
proof -
  let ?gc = "\<lparr>gc_tx_digest = 5, gc_gas_model_version = 8, gc_gas_coins = [], gc_smashed_gas_coin = None, gc_gas_status = example_gas\<rparr>"
  have stored: "stored (ts_store field_store) oid = map_of field_objects oid" for oid
    by (simp add: stored_def field_store_def split: option.splits)
  have "{oid. map_of field_objects oid \<noteq> None} = dom (map_of field_objects)" by (simp add: dom_def)
  then have fin: "finite {oid. stored (ts_store field_store) oid \<noteq> None}" unfolding stored by (simp only: finite_dom_map_of)
  have noerr: "\<forall>oid e. bk_get_object (ts_store field_store) oid \<noteq> Inl e" by (simp add: field_store_def)
  have owner: "ob_owner (field_object i ow) = ow" for i ow by (simp add: field_object_def new_move_def)
  have owned: "owner_parent (field_object i (ObjectOwner p)) = Some p" for i p by (simp add: owner_parent_def owner)
  have roots: "input_roots ?gc field_store = {[6]}" by (auto simp: input_roots_def field_store_def owner)
  have "\<not> unrooted (ts_store field_store) {[6]} [8]"
    by (subst unrooted_iff [OF _ owned, of _ _ 8 "[6]"]) (simp_all add: stored field_objects_def)
  then have "\<not> unrooted (ts_store field_store) {[6]} [9]"
    by (subst unrooted_iff [OF _ owned, of _ _ 9 "[8]"]) (simp_all add: stored field_objects_def)
  moreover have "\<not> foreign_input [1] [] (ts_input_objects field_store)" "\<not> not_modifiable (ts_store field_store) False [9]"
    unfolding not_modifiable_def stored by (simp_all add: foreign_input_def field_store_def field_objects_def owner)
  moreover have "modified_objects (ts_execution_results field_store) = [[6], [9]]" by (simp add: field_store_def)
  ultimately show ?thesis using check_ownership_panics_exactly [OF fin noerr, of "[1]" ?gc False] roots by simp
qed

end
