(* ===== verification/Sui_Effects.thy ===== *)
theory Sui_Effects
  imports Sui_Gas_Charger
begin

text \<open>
  The effects of a transaction: \<open>effects/object_change.rs\<close>, \<open>effects_v1.rs\<close>, \<open>effects_v2.rs\<close> and \<open>mod.rs\<close>
  of \<open>crates/sui-types/src/effects\<close>, and the functions of \<open>temporary_store.rs\<close> that build them.

  The two formats of the effects are two records with the accessors of \<open>TransactionEffectsAPI\<close>. The
  status of the execution is a type parameter, the hash of the events is the argument \<open>events_hash\<close>,
  and digests are numbers, so the marker digests of deleted and wrapped objects are the numbers of
  their 32 equal bytes. The lists the first format builds in one pass are the entries of the pass
  that go to each list, in order.
\<close>

section \<open>Object changes\<close>

definition digest_of_byte :: "nat \<Rightarrow> nat" where
  "digest_of_byte b = b * ((256 ^ 32 - 1) div 255)"

definition OBJECT_DIGEST_MIN :: nat where "OBJECT_DIGEST_MIN = digest_of_byte 0"

definition OBJECT_DIGEST_DELETED :: nat where "OBJECT_DIGEST_DELETED = digest_of_byte 99"

definition OBJECT_DIGEST_WRAPPED :: nat where "OBJECT_DIGEST_WRAPPED = digest_of_byte 88"

datatype id_operation = IDNone | IDCreated | IDDeleted

datatype object_in = InNotExist | InExist "version_digest \<times> owner"

datatype object_out = OutNotExist | ObjectWrite "nat \<times> owner" | PackageWrite version_digest

record effects_object_change =
  input_state :: object_in
  output_state :: object_out
  id_operation_of :: id_operation

definition effects_object_change_new ::
  "object_params \<Rightarrow> (version_digest \<times> owner) option \<Rightarrow> sui_object option \<Rightarrow> bool \<Rightarrow> bool \<Rightarrow> effects_object_change" where
  "effects_object_change_new ps modified_at written id_created id_deleted =
     \<lparr>input_state = (case modified_at of None \<Rightarrow> InNotExist | Some m \<Rightarrow> InExist m),
      output_state = (case written of
          None \<Rightarrow> OutNotExist
        | Some ob \<Rightarrow> if is_package ob then PackageWrite (object_version ob, op_digest ps ob) else ObjectWrite (op_digest ps ob, ob_owner ob)),
      id_operation_of = (if id_created then IDCreated else if id_deleted then IDDeleted else IDNone)\<rparr>"

definition get_object_changes :: "object_params \<Rightarrow> temporary_store \<Rightarrow> (objectID \<times> effects_object_change) list option" where
  "get_object_changes ps ts = (let r = ts_execution_results ts;
       all_ids = bs_extend [] (created_object_ids r @ deleted_object_ids r @ modified_objects r @ map fst (written_objects r))
     in those (map (\<lambda>oid. do {
          meta \<leftarrow> get_object_modified_at ps oid ts;
          Some (oid, effects_object_change_new ps (map_option (\<lambda>m. ((lm_version m, lm_digest m), lm_owner m)) meta)
            (map_of (written_objects r) oid) (oid \<in> set (created_object_ids r)) (oid \<in> set (deleted_object_ids r)))
        }) all_ids))"

section \<open>The second format\<close>

datatype unchanged_shared_kind = ReadOnlyRoot version_digest | MutateDeletedShared sequence_number | ReadDeletedShared sequence_number

datatype shared_input = ExistingShared object_ref | DeletedShared objectID sequence_number bool nat

datatype input_shared_object =
    MutateShared object_ref
  | ReadOnlyShared object_ref
  | ReadDeleted objectID sequence_number
  | MutateDeleted objectID sequence_number

record 's effects_v2 =
  e2_status :: 's
  e2_executed_epoch :: nat
  e2_gas_used :: gas_cost_summary
  e2_transaction_digest :: nat
  e2_gas_object_index :: "nat option"
  e2_events_digest :: "nat option"
  e2_dependencies :: "nat list"
  e2_lamport_version :: sequence_number
  e2_changed_objects :: "(objectID \<times> effects_object_change) list"
  e2_unchanged_shared_objects :: "(objectID \<times> unchanged_shared_kind) list"
  e2_aux_data_digest :: "nat option"

definition modified_at_versions_v2 :: "'s effects_v2 \<Rightarrow> (objectID \<times> sequence_number) list" where
  "modified_at_versions_v2 e = List.map_filter (\<lambda>(oid, change).
     case input_state change of InExist ((version, _), _) \<Rightarrow> Some (oid, version) | InNotExist \<Rightarrow> None) (e2_changed_objects e)"

definition old_object_metadata_v2 :: "'s effects_v2 \<Rightarrow> (object_ref \<times> owner) list" where
  "old_object_metadata_v2 e = List.map_filter (\<lambda>(oid, change).
     case input_state change of InExist ((version, digest), ow) \<Rightarrow> Some ((oid, version, digest), ow) | InNotExist \<Rightarrow> None) (e2_changed_objects e)"

definition input_shared_objects_v2 :: "'s effects_v2 \<Rightarrow> input_shared_object list" where
  "input_shared_objects_v2 e =
     List.map_filter (\<lambda>(oid, change).
       case input_state change of InExist ((version, digest), Shared _) \<Rightarrow> Some (MutateShared (oid, version, digest)) | _ \<Rightarrow> None) (e2_changed_objects e)
     @ map (\<lambda>(oid, kind). case kind of
         ReadOnlyRoot (version, digest) \<Rightarrow> ReadOnlyShared (oid, version, digest)
       | MutateDeletedShared seqno \<Rightarrow> MutateDeleted oid seqno
       | ReadDeletedShared seqno \<Rightarrow> ReadDeleted oid seqno) (e2_unchanged_shared_objects e)"

definition created_v2 :: "'s effects_v2 \<Rightarrow> (object_ref \<times> owner) list" where
  "created_v2 e = List.map_filter (\<lambda>(oid, change).
     case (input_state change, output_state change, id_operation_of change) of
       (InNotExist, ObjectWrite (digest, ow), IDCreated) \<Rightarrow> Some ((oid, e2_lamport_version e, digest), ow)
     | (InNotExist, PackageWrite (version, digest), IDCreated) \<Rightarrow> Some ((oid, version, digest), Immutable)
     | _ \<Rightarrow> None) (e2_changed_objects e)"

definition mutated_v2 :: "'s effects_v2 \<Rightarrow> (object_ref \<times> owner) list" where
  "mutated_v2 e = List.map_filter (\<lambda>(oid, change).
     case (input_state change, output_state change) of
       (InExist _, ObjectWrite (digest, ow)) \<Rightarrow> Some ((oid, e2_lamport_version e, digest), ow)
     | (InExist _, PackageWrite (version, digest)) \<Rightarrow> Some ((oid, version, digest), Immutable)
     | _ \<Rightarrow> None) (e2_changed_objects e)"

definition unwrapped_v2 :: "'s effects_v2 \<Rightarrow> (object_ref \<times> owner) list" where
  "unwrapped_v2 e = List.map_filter (\<lambda>(oid, change).
     case (input_state change, output_state change, id_operation_of change) of
       (InNotExist, ObjectWrite (digest, ow), IDNone) \<Rightarrow> Some ((oid, e2_lamport_version e, digest), ow)
     | _ \<Rightarrow> None) (e2_changed_objects e)"

definition deleted_v2 :: "'s effects_v2 \<Rightarrow> object_ref list" where
  "deleted_v2 e = List.map_filter (\<lambda>(oid, change).
     case (input_state change, output_state change, id_operation_of change) of
       (InExist _, OutNotExist, IDDeleted) \<Rightarrow> Some (oid, e2_lamport_version e, OBJECT_DIGEST_DELETED)
     | _ \<Rightarrow> None) (e2_changed_objects e)"

definition unwrapped_then_deleted_v2 :: "'s effects_v2 \<Rightarrow> object_ref list" where
  "unwrapped_then_deleted_v2 e = List.map_filter (\<lambda>(oid, change).
     case (input_state change, output_state change, id_operation_of change) of
       (InNotExist, OutNotExist, IDDeleted) \<Rightarrow> Some (oid, e2_lamport_version e, OBJECT_DIGEST_DELETED)
     | _ \<Rightarrow> None) (e2_changed_objects e)"

definition wrapped_v2 :: "'s effects_v2 \<Rightarrow> object_ref list" where
  "wrapped_v2 e = List.map_filter (\<lambda>(oid, change).
     case (input_state change, output_state change, id_operation_of change) of
       (InExist _, OutNotExist, IDNone) \<Rightarrow> Some (oid, e2_lamport_version e, OBJECT_DIGEST_WRAPPED)
     | _ \<Rightarrow> None) (e2_changed_objects e)"

definition no_gas_object :: "object_ref \<times> owner" where
  "no_gas_object = ((OBJECT_ID_ZERO, 0, OBJECT_DIGEST_MIN), AddressOwner (replicate 32 0))"

definition gas_object_v2 :: "'s effects_v2 \<Rightarrow> (object_ref \<times> owner) option" where
  "gas_object_v2 e = (case e2_gas_object_index e of
     Some i \<Rightarrow>
       if i < length (e2_changed_objects e) then
         (case output_state (snd (e2_changed_objects e ! i)) of
            ObjectWrite (digest, ow) \<Rightarrow> Some ((fst (e2_changed_objects e ! i), e2_lamport_version e, digest), ow)
          | _ \<Rightarrow> None)
       else None
   | None \<Rightarrow> Some no_gas_object)"

definition unchanged_shared :: "(objectID \<times> effects_object_change) list \<Rightarrow> shared_input \<Rightarrow> (objectID \<times> unchanged_shared_kind) option" where
  "unchanged_shared changed_objects inp = (case inp of
     ExistingShared (oid, version, digest) \<Rightarrow>
       if map_of changed_objects oid \<noteq> None then None else Some (oid, ReadOnlyRoot (version, digest))
   | DeletedShared oid version mutable _ \<Rightarrow>
       Some (oid, if mutable then MutateDeletedShared version else ReadDeletedShared version))"

definition effects_v2_new ::
  "'s \<Rightarrow> nat \<Rightarrow> gas_cost_summary \<Rightarrow> shared_input list \<Rightarrow> nat \<Rightarrow> sequence_number \<Rightarrow> (objectID \<times> effects_object_change) list
     \<Rightarrow> objectID option \<Rightarrow> nat option \<Rightarrow> nat list \<Rightarrow> 's effects_v2 option" where
  "effects_v2_new status executed_epoch gas_used shared_objects tx_digest lamport_version changed_objects gas_object events_digest dependencies = do {
     let unchanged_shared_objects = List.map_filter (unchanged_shared changed_objects) shared_objects;
     gas_object_index \<leftarrow> (case gas_object of
         None \<Rightarrow> Some None
       | Some gas_id \<Rightarrow> map_option (\<lambda>i. Some (i mod 2 ^ 32)) (position (\<lambda>(oid, _). oid = gas_id) changed_objects));
     Some \<lparr>e2_status = status, e2_executed_epoch = executed_epoch, e2_gas_used = gas_used, e2_transaction_digest = tx_digest,
       e2_gas_object_index = gas_object_index, e2_events_digest = events_digest, e2_dependencies = dependencies,
       e2_lamport_version = lamport_version, e2_changed_objects = changed_objects,
       e2_unchanged_shared_objects = unchanged_shared_objects, e2_aux_data_digest = None\<rparr>
   }"

section \<open>The first format\<close>

record 's effects_v1 =
  e1_status :: 's
  e1_executed_epoch :: nat
  e1_gas_used :: gas_cost_summary
  e1_modified_at_versions :: "(objectID \<times> sequence_number) list"
  e1_shared_objects :: "object_ref list"
  e1_transaction_digest :: nat
  e1_created :: "(object_ref \<times> owner) list"
  e1_mutated :: "(object_ref \<times> owner) list"
  e1_unwrapped :: "(object_ref \<times> owner) list"
  e1_deleted :: "object_ref list"
  e1_unwrapped_then_deleted :: "object_ref list"
  e1_wrapped :: "object_ref list"
  e1_gas_object :: "object_ref \<times> owner"
  e1_events_digest :: "nat option"
  e1_dependencies :: "nat list"

definition input_shared_objects_v1 :: "'s effects_v1 \<Rightarrow> input_shared_object list" where
  "input_shared_objects_v1 e =
     map (\<lambda>r. if fst r \<in> fst ` set (e1_modified_at_versions e) then MutateShared r else ReadOnlyShared r) (e1_shared_objects e)"

section \<open>Building the effects\<close>

definition events_digest_of :: "(nat list \<Rightarrow> nat) \<Rightarrow> temporary_store \<Rightarrow> nat option" where
  "events_digest_of events_hash ts = (let events = user_events (ts_execution_results ts) in
     if events = [] then None else Some (events_hash events))"

definition into_effects_v1 ::
  "object_params \<Rightarrow> (nat list \<Rightarrow> nat) \<Rightarrow> temporary_store \<Rightarrow> object_ref list \<Rightarrow> nat \<Rightarrow> nat list \<Rightarrow> gas_cost_summary \<Rightarrow> 's \<Rightarrow> gas_charger \<Rightarrow> nat
     \<Rightarrow> 's effects_v1 option" where
  "into_effects_v1 ps events_hash ts shared_object_refs tx_digest dependencies gas_used status gc epoch = do {
     let r = ts_execution_results ts;
     updated_gas_object_info \<leftarrow> (case gc_smashed_gas_coin gc of
         Some coin_id \<Rightarrow> do {
           ob \<leftarrow> map_of (written_objects r) coin_id;
           object_ref \<leftarrow> compute_object_reference ps ob;
           Some (object_ref, ob_owner ob)
         }
       | None \<Rightarrow> Some no_gas_object);
     let lamport_version = ts_lamport_timestamp ts;
     written \<leftarrow> those (map (\<lambda>(oid, ob). do {
         object_ref \<leftarrow> compute_object_reference ps ob;
         meta \<leftarrow> get_object_modified_at ps oid ts;
         Some (oid, meta, (object_ref, ob_owner ob))
       }) (written_objects r));
     let modified_at_versions = List.map_filter (\<lambda>(oid, meta, _). map_option (\<lambda>m. (oid, lm_version m)) meta) written;
     let mutated = List.map_filter (\<lambda>(oid, meta, entry). case meta of Some _ \<Rightarrow> Some entry | None \<Rightarrow> None) written;
     let created = List.map_filter (\<lambda>(oid, meta, entry). if meta = None \<and> oid \<in> set (created_object_ids r) then Some entry else None) written;
     let unwrapped = List.map_filter (\<lambda>(oid, meta, entry). if meta = None \<and> oid \<notin> set (created_object_ids r) then Some entry else None) written;
     removed \<leftarrow> those (map (\<lambda>oid. do {
         meta \<leftarrow> get_object_modified_at ps oid ts;
         meta \<leftarrow> meta;
         Some (oid, lm_version meta)
       }) (filter (\<lambda>oid. map_of (written_objects r) oid = None) (modified_objects r)));
     let deleted = List.map_filter (\<lambda>(oid, _). if oid \<in> set (deleted_object_ids r)
           then Some (oid, lamport_version, OBJECT_DIGEST_DELETED) else None) removed;
     let wrapped = List.map_filter (\<lambda>(oid, _). if oid \<notin> set (deleted_object_ids r)
           then Some (oid, lamport_version, OBJECT_DIGEST_WRAPPED) else None) removed;
     let unwrapped_then_deleted = map (\<lambda>oid. (oid, lamport_version, OBJECT_DIGEST_DELETED))
           (filter (\<lambda>oid. oid \<notin> set (modified_objects r)) (deleted_object_ids r));
     Some \<lparr>e1_status = status, e1_executed_epoch = epoch, e1_gas_used = gas_used,
       e1_modified_at_versions = modified_at_versions @ removed, e1_shared_objects = shared_object_refs,
       e1_transaction_digest = tx_digest, e1_created = created, e1_mutated = mutated, e1_unwrapped = unwrapped, e1_deleted = deleted,
       e1_unwrapped_then_deleted = unwrapped_then_deleted, e1_wrapped = wrapped, e1_gas_object = updated_gas_object_info,
       e1_events_digest = events_digest_of events_hash ts, e1_dependencies = dependencies\<rparr>
   }"

definition into_effects_v2 ::
  "object_params \<Rightarrow> (nat list \<Rightarrow> nat) \<Rightarrow> temporary_store \<Rightarrow> shared_input list \<Rightarrow> nat \<Rightarrow> nat list \<Rightarrow> gas_cost_summary \<Rightarrow> 's \<Rightarrow> gas_charger \<Rightarrow> nat
     \<Rightarrow> 's effects_v2 option" where
  "into_effects_v2 ps events_hash ts shared_object_refs tx_digest dependencies gas_used status gc epoch = do {
     object_changes \<leftarrow> get_object_changes ps ts;
     effects_v2_new status epoch gas_used shared_object_refs tx_digest (ts_lamport_timestamp ts) object_changes
       (gc_smashed_gas_coin gc) (events_digest_of events_hash ts) dependencies
   }"

datatype 's transaction_effects = EffectsV1 "'s effects_v1" | EffectsV2 "'s effects_v2"

text \<open>The transactions that wrote the objects which were received, when the loaded version is the expected one.\<close>

definition receive_dependency :: "temporary_store \<Rightarrow> object_ref \<Rightarrow> nat list \<Rightarrow> nat list" where
  "receive_dependency ts = (\<lambda>(oid, expected_version, expected_digest) dependencies.
     case map_of (ts_loaded_runtime_objects ts) oid of
       Some m \<Rightarrow>
         if lm_version m = expected_version \<and> lm_digest m = expected_digest \<and> is_address_owned (lm_owner m)
         then bs_insert (lm_previous_transaction m) dependencies else dependencies
     | None \<Rightarrow> dependencies)"

fun existing_shared :: "shared_input \<Rightarrow> object_ref option" where
  "existing_shared (ExistingShared r) = Some r"
| "existing_shared (DeletedShared _ _ _ _) = None"

definition into_effects ::
  "object_params \<Rightarrow> (nat list \<Rightarrow> nat) \<Rightarrow> temporary_store \<Rightarrow> shared_input list \<Rightarrow> nat \<Rightarrow> nat list \<Rightarrow> gas_cost_summary \<Rightarrow> 's \<Rightarrow> gas_charger \<Rightarrow> nat
     \<Rightarrow> 's transaction_effects option" where
  "into_effects ps events_hash ts shared_object_refs tx_digest dependencies gas_used status gc epoch = do {
     ts \<leftarrow> update_object_version_and_prev_tx ts;
     let dependencies = fold (receive_dependency ts) (ts_receiving_objects ts) dependencies;
     if ts_enable_effects_v2 ts
     then map_option EffectsV2 (into_effects_v2 ps events_hash ts shared_object_refs tx_digest dependencies gas_used status gc epoch)
     else do {
       shared_object_refs \<leftarrow> those (map existing_shared shared_object_refs);
       map_option EffectsV1 (into_effects_v1 ps events_hash ts shared_object_refs tx_digest dependencies gas_used status gc epoch)
     }
   }"

section \<open>Reading the effects\<close>

fun effects_created :: "'s transaction_effects \<Rightarrow> (object_ref \<times> owner) list" where
  "effects_created (EffectsV1 e) = e1_created e"
| "effects_created (EffectsV2 e) = created_v2 e"

fun effects_mutated :: "'s transaction_effects \<Rightarrow> (object_ref \<times> owner) list" where
  "effects_mutated (EffectsV1 e) = e1_mutated e"
| "effects_mutated (EffectsV2 e) = mutated_v2 e"

fun effects_unwrapped :: "'s transaction_effects \<Rightarrow> (object_ref \<times> owner) list" where
  "effects_unwrapped (EffectsV1 e) = e1_unwrapped e"
| "effects_unwrapped (EffectsV2 e) = unwrapped_v2 e"

fun effects_deleted :: "'s transaction_effects \<Rightarrow> object_ref list" where
  "effects_deleted (EffectsV1 e) = e1_deleted e"
| "effects_deleted (EffectsV2 e) = deleted_v2 e"

fun effects_wrapped :: "'s transaction_effects \<Rightarrow> object_ref list" where
  "effects_wrapped (EffectsV1 e) = e1_wrapped e"
| "effects_wrapped (EffectsV2 e) = wrapped_v2 e"

fun effects_unwrapped_then_deleted :: "'s transaction_effects \<Rightarrow> object_ref list" where
  "effects_unwrapped_then_deleted (EffectsV1 e) = e1_unwrapped_then_deleted e"
| "effects_unwrapped_then_deleted (EffectsV2 e) = unwrapped_then_deleted_v2 e"

fun effects_modified_at_versions :: "'s transaction_effects \<Rightarrow> (objectID \<times> sequence_number) list" where
  "effects_modified_at_versions (EffectsV1 e) = e1_modified_at_versions e"
| "effects_modified_at_versions (EffectsV2 e) = modified_at_versions_v2 e"

fun effects_gas_object :: "'s transaction_effects \<Rightarrow> (object_ref \<times> owner) option" where
  "effects_gas_object (EffectsV1 e) = Some (e1_gas_object e)"
| "effects_gas_object (EffectsV2 e) = gas_object_v2 e"

fun effects_input_shared_objects :: "'s transaction_effects \<Rightarrow> input_shared_object list" where
  "effects_input_shared_objects (EffectsV1 e) = input_shared_objects_v1 e"
| "effects_input_shared_objects (EffectsV2 e) = input_shared_objects_v2 e"

fun shared_object_ref :: "input_shared_object \<Rightarrow> object_ref" where
  "shared_object_ref (MutateShared r) = r"
| "shared_object_ref (ReadOnlyShared r) = r"
| "shared_object_ref (ReadDeleted oid version) = (oid, version, OBJECT_DIGEST_DELETED)"
| "shared_object_ref (MutateDeleted oid version) = (oid, version, OBJECT_DIGEST_DELETED)"

definition deleted_mutably_accessed_shared_objects :: "'s transaction_effects \<Rightarrow> objectID list" where
  "deleted_mutably_accessed_shared_objects e =
     List.map_filter (\<lambda>kind. case kind of MutateDeleted oid _ \<Rightarrow> Some oid | _ \<Rightarrow> None) (effects_input_shared_objects e)"

datatype write_kind = Mutate | Create | Unwrap

datatype object_remove_kind = DeleteKind | WrapKind

definition all_changed_objects :: "'s transaction_effects \<Rightarrow> (object_ref \<times> owner \<times> write_kind) list" where
  "all_changed_objects e = map (\<lambda>(r, ow). (r, ow, Mutate)) (effects_mutated e) @ map (\<lambda>(r, ow). (r, ow, Create)) (effects_created e)
     @ map (\<lambda>(r, ow). (r, ow, Unwrap)) (effects_unwrapped e)"

definition all_removed_objects :: "'s transaction_effects \<Rightarrow> (object_ref \<times> object_remove_kind) list" where
  "all_removed_objects e = map (\<lambda>r. (r, DeleteKind)) (effects_deleted e) @ map (\<lambda>r. (r, WrapKind)) (effects_wrapped e)"

definition mutated_excluding_gas :: "'s transaction_effects \<Rightarrow> (object_ref \<times> owner) list option" where
  "mutated_excluding_gas e = (if effects_mutated e = [] then Some [] else do {
     gas \<leftarrow> effects_gas_object e;
     Some (filter (\<lambda>entry. entry \<noteq> gas) (effects_mutated e))
   })"

end
