(* ===== verification/Sui_Charge_Sums.thy ===== *)
theory Sui_Charge_Sums
  imports Sui_Gas_Charger
begin

text \<open>
  What charging a transaction adds up, for the definitions of \<open>Sui_Gas_Charger\<close>.

  Where a modified object comes from never changes while a transaction is charged, so its old rebate
  is a function of the store's inputs (\<open>in_rebate\<close>). The charges collected are sums over the modified
  and written objects; smashing the gas coins and forcing the mutable inputs into the results give
  a store whose sums are known, whether the transaction keeps its effects or loses them.
\<close>

section \<open>Where modified objects come from\<close>

abbreviation (input) mods :: "temporary_store \<Rightarrow> objectID list" where
  "mods ts \<equiv> modified_objects (ts_execution_results ts)"

abbreviation (input) wr :: "temporary_store \<Rightarrow> (objectID \<times> sui_object) list" where
  "wr ts \<equiv> written_objects (ts_execution_results ts)"

abbreviation (input) refs :: "temporary_store \<Rightarrow> objectID set" where
  "refs ts \<equiv> fst ` set (ts_mutable_input_refs ts)"

definition meta_of :: "object_params \<Rightarrow> temporary_store \<Rightarrow> objectID \<Rightarrow> loaded_metadata option" where
  "meta_of ps ts oid =
     (case map_of (ts_mutable_input_refs ts) oid of
        Some ((version, digest), ow) \<Rightarrow>
          map_option (\<lambda>ob. \<lparr>lm_version = version, lm_digest = digest, lm_owner = ow,
            lm_storage_rebate = storage_rebate ob, lm_previous_transaction = previous_transaction ob\<rparr>)
            (map_of (ts_input_objects ts) oid)
      | None \<Rightarrow> (case map_of (ts_loaded_runtime_objects ts) oid of
            Some meta \<Rightarrow> Some meta
          | None \<Rightarrow> (case bk_get_object (ts_store ts) oid of
              Inr (Some ob) \<Rightarrow> Some (object_metadata ps ob)
            | _ \<Rightarrow> None)))"

definition in_rebate :: "object_params \<Rightarrow> temporary_store \<Rightarrow> objectID \<Rightarrow> nat" where
  "in_rebate ps ts oid = (case meta_of ps ts oid of Some m \<Rightarrow> lm_storage_rebate m | None \<Rightarrow> 0)"

lemma get_object_modified_at_eq:
  "get_object_modified_at ps oid ts = (if oid \<in> set (mods ts) then map_option Some (meta_of ps ts oid) else Some None)"
  by (auto simp: get_object_modified_at_def meta_of_def map_option_case split: option.splits sum.splits)

text \<open>Two stores with the same inputs.\<close>

definition same_inputs :: "temporary_store \<Rightarrow> temporary_store \<Rightarrow> bool" where
  "same_inputs ts ts' \<longleftrightarrow> ts' = ts\<lparr>ts_execution_results := ts_execution_results ts'\<rparr>"

lemma same_inputs_refl [simp]: "same_inputs ts ts" "same_inputs ts (ts\<lparr>ts_execution_results := r\<rparr>)"
  by (simp_all add: same_inputs_def)

lemma same_inputs_trans: "same_inputs a b \<Longrightarrow> same_inputs b c \<Longrightarrow> same_inputs a c"
  unfolding same_inputs_def by (metis temporary_store.update_convs(6) temporary_store.surjective)

lemma meta_of_results [simp]: "meta_of ps (ts\<lparr>ts_execution_results := r\<rparr>) oid = meta_of ps ts oid"
  by (simp add: meta_of_def cong: option.case_cong)

lemma same_inputsD:
  assumes "same_inputs ts ts'"
  shows "ts_store ts' = ts_store ts" "ts_input_objects ts' = ts_input_objects ts" "ts_mutable_input_refs ts' = ts_mutable_input_refs ts"
    "ts_loaded_runtime_objects ts' = ts_loaded_runtime_objects ts" "meta_of ps ts' = meta_of ps ts" "in_rebate ps ts' = in_rebate ps ts"
proof -
  obtain r where "ts' = ts\<lparr>ts_execution_results := r\<rparr>" using assms by (auto simp: same_inputs_def)
  then show "ts_store ts' = ts_store ts" "ts_input_objects ts' = ts_input_objects ts" "ts_mutable_input_refs ts' = ts_mutable_input_refs ts"
    "ts_loaded_runtime_objects ts' = ts_loaded_runtime_objects ts" "meta_of ps ts' = meta_of ps ts" "in_rebate ps ts' = in_rebate ps ts"
    by (simp_all add: in_rebate_def fun_eq_iff)
qed

text \<open>The inputs are keyed by their identifiers and every mutable input is one of them.\<close>

definition inputs_ok :: "temporary_store \<Rightarrow> bool" where
  "inputs_ok ts \<longleftrightarrow> bt_wf (ts_input_objects ts) \<and> bt_wf (ts_mutable_input_refs ts)
     \<and> (\<forall>(oid, ob) \<in> set (ts_input_objects ts). object_id ob = Some oid)
     \<and> refs ts \<subseteq> fst ` set (ts_input_objects ts)"

text \<open>The results are ordered, written objects are keyed by their identifiers, every modified object can
  be looked up, and no written object that counts as new has the identifier of a mutable input.\<close>

definition results_ok :: "object_params \<Rightarrow> temporary_store \<Rightarrow> bool" where
  "results_ok ps ts \<longleftrightarrow> bt_wf (wr ts) \<and> bs_wf (mods ts)
     \<and> (\<forall>(oid, ob) \<in> set (wr ts). object_id ob = Some oid)
     \<and> (\<forall>oid \<in> set (mods ts). meta_of ps ts oid \<noteq> None)
     \<and> (\<forall>oid \<in> fst ` set (wr ts). oid \<in> refs ts \<longrightarrow> oid \<in> set (mods ts))"

lemma inputs_ok_lookup:
  assumes "inputs_ok ts" "oid \<in> refs ts"
  obtains ob where "map_of (ts_input_objects ts) oid = Some ob" "object_id ob = Some oid" "in_rebate ps ts oid = storage_rebate ob"
    "meta_of ps ts oid \<noteq> None"
proof -
  have "oid \<in> fst ` set (ts_input_objects ts)" using assms by (auto simp: inputs_ok_def)
  then obtain ob where ob: "map_of (ts_input_objects ts) oid = Some ob" by (metis not_Some_eq map_of_eq_None_iff)
  moreover have "object_id ob = Some oid" using assms(1) map_of_SomeD [OF ob] by (auto simp: inputs_ok_def)
  moreover obtain v where "map_of (ts_mutable_input_refs ts) oid = Some v" using assms(2) by (metis not_Some_eq map_of_eq_None_iff)
  ultimately show thesis by (intro that) (auto simp: in_rebate_def meta_of_def split: prod.splits)
qed

section \<open>Collecting charges\<close>

definition storage_price :: "object_params \<Rightarrow> sui_gas_status \<Rightarrow> sui_object \<Rightarrow> nat" where
  "storage_price ps sg ob = object_size_for_gas_metering ps ob * storage_per_byte_cost (sg_cost_table sg) * sg_storage_gas_price sg"

definition add_charges :: "nat \<Rightarrow> nat \<Rightarrow> gas_charger \<Rightarrow> gas_charger" where
  "add_charges rebate cost gc = gc\<lparr>gc_gas_status := (gc_gas_status gc)\<lparr>sg_storage_rebate := sg_storage_rebate (gc_gas_status gc) + rebate,
     sg_storage_cost := sg_storage_cost (gc_gas_status gc) + cost\<rparr>\<rparr>"

lemma add_charges_simps [simp]:
  "add_charges a b (add_charges c d gc) = add_charges (c + a) (d + b) gc" "add_charges 0 0 gc = gc"
  "sg_storage_rebate (gc_gas_status (add_charges a b gc)) = sg_storage_rebate (gc_gas_status gc) + a"
  "sg_storage_cost (gc_gas_status (add_charges a b gc)) = sg_storage_cost (gc_gas_status gc) + b"
  "sg_cost_table (gc_gas_status (add_charges a b gc)) = sg_cost_table (gc_gas_status gc)"
  "sg_storage_gas_price (gc_gas_status (add_charges a b gc)) = sg_storage_gas_price (gc_gas_status gc)"
  "sg_charge (gc_gas_status (add_charges a b gc)) = sg_charge (gc_gas_status gc)"
  "sg_rebate_rate (gc_gas_status (add_charges a b gc)) = sg_rebate_rate (gc_gas_status gc)"
  "sg_gas_budget (gc_gas_status (add_charges a b gc)) = sg_gas_budget (gc_gas_status gc)"
  "sg_computation_cost (gc_gas_status (add_charges a b gc)) = sg_computation_cost (gc_gas_status gc)"
  "gc_gas_coins (add_charges a b gc) = gc_gas_coins gc" "gc_smashed_gas_coin (add_charges a b gc) = gc_smashed_gas_coin gc"
  "gc_gas_model_version (add_charges a b gc) = gc_gas_model_version gc"
  "storage_price ps (gc_gas_status (add_charges a b gc)) = storage_price ps (gc_gas_status gc)"
  by (simp_all add: add_charges_def add.assoc storage_price_def fun_eq_iff)

lemma track_exact:
  assumes "sg_charge (gc_gas_status gc)" "sg_storage_rebate (gc_gas_status gc) + rebate < u64_size"
    and "sg_storage_cost (gc_gas_status gc) + n * storage_per_byte_cost (sg_cost_table (gc_gas_status gc)) * sg_storage_gas_price (gc_gas_status gc) < u64_size"
    and "0 < sg_storage_gas_price (gc_gas_status gc)"
  shows "charger_track_storage_mutation n rebate gc =
    (let cost = n * storage_per_byte_cost (sg_cost_table (gc_gas_status gc)) * sg_storage_gas_price (gc_gas_status gc)
     in Some (cost, add_charges rebate cost gc))"
proof -
  let ?b = "n * storage_per_byte_cost (sg_cost_table (gc_gas_status gc))"
  have "?b * 1 \<le> ?b * sg_storage_gas_price (gc_gas_status gc)" using assms(4) by (intro mult_le_mono2) simp
  then have "?b < u64_size" using assms(3) by linarith
  then show ?thesis using assms
    by (simp add: charger_track_storage_mutation_def track_storage_mutation_def is_unmetered_def u64_checked_add_def u64_checked_mul_def
        Let_def add_charges_def)
qed

lemma track_written_exact:
  assumes "length kvs = length olds" "sg_charge (gc_gas_status gc)" "0 < sg_storage_gas_price (gc_gas_status gc)"
    and "sg_storage_rebate (gc_gas_status gc) + sum_list olds < u64_size"
    and "sg_storage_cost (gc_gas_status gc) + sum_list (map (\<lambda>kv. storage_price ps (gc_gas_status gc) (snd kv)) kvs) < u64_size"
  shows "track_written ps (zip kvs olds) gc =
    Some (map (\<lambda>(oid, ob). (oid, ob\<lparr>storage_rebate := storage_price ps (gc_gas_status gc) ob\<rparr>)) kvs,
      add_charges (sum_list olds) (sum_list (map (\<lambda>kv. storage_price ps (gc_gas_status gc) (snd kv)) kvs)) gc)"
  using assms
proof (induction kvs olds arbitrary: gc rule: list_induct2)
  case (Cons kv kvs old olds)
  obtain oid ob where kv: "kv = (oid, ob)" by (cases kv)
  let ?c = "storage_price ps (gc_gas_status gc) ob"
  have step: "charger_track_storage_mutation (object_size_for_gas_metering ps ob) old gc = Some (?c, add_charges old ?c gc)"
    using Cons.prems kv track_exact [of gc old "object_size_for_gas_metering ps ob"] by (simp add: storage_price_def Let_def)
  have "track_written ps (zip kvs olds) (add_charges old ?c gc) =
    Some (map (\<lambda>(oid, ob). (oid, ob\<lparr>storage_rebate := storage_price ps (gc_gas_status gc) ob\<rparr>)) kvs,
      add_charges (old + sum_list olds) (?c + sum_list (map (\<lambda>kv. storage_price ps (gc_gas_status gc) (snd kv)) kvs)) gc)"
    using Cons.IH [of "add_charges old ?c gc"] Cons.prems kv by (simp add: add.assoc comp_def)
  then show ?case by (simp add: kv step)
qed simp

lemma fold_track_rebates:
  assumes "sg_charge (gc_gas_status gc)" "0 < sg_storage_gas_price (gc_gas_status gc)" "sg_storage_cost (gc_gas_status gc) < u64_size"
    and "sg_storage_rebate (gc_gas_status gc) + sum_list (map (in_rebate ps ts) oids) < u64_size"
    and "set oids \<subseteq> set (mods ts)" "\<forall>oid \<in> set oids. meta_of ps ts oid \<noteq> None"
  shows "fold_opt (\<lambda>oid gc. do {
      meta \<leftarrow> get_object_modified_at ps oid ts;
      meta \<leftarrow> meta;
      (_, gc) \<leftarrow> charger_track_storage_mutation 0 (lm_storage_rebate meta) gc;
      Some gc
    }) oids gc = Some (add_charges (sum_list (map (in_rebate ps ts) oids)) 0 gc)"
  using assms
proof (induction oids arbitrary: gc)
  case (Cons oid oids)
  obtain m where m: "meta_of ps ts oid = Some m" using Cons.prems(6) by auto
  have "charger_track_storage_mutation 0 (in_rebate ps ts oid) gc = Some (0, add_charges (in_rebate ps ts oid) 0 gc)"
    using Cons.prems track_exact [of gc "in_rebate ps ts oid" 0] by simp
  then have "charger_track_storage_mutation 0 (lm_storage_rebate m) gc = Some (0, add_charges (in_rebate ps ts oid) 0 gc)"
    by (simp add: in_rebate_def m)
  then show ?case using Cons m by (simp add: get_object_modified_at_eq add.assoc)
qed simp

definition deleted_rebate :: "object_params \<Rightarrow> temporary_store \<Rightarrow> nat" where
  "deleted_rebate ps ts = (\<Sum>oid \<in> set (mods ts) - fst ` set (wr ts). in_rebate ps ts oid)"

definition input_rebate :: "object_params \<Rightarrow> temporary_store \<Rightarrow> nat" where
  "input_rebate ps ts = (\<Sum>oid \<in> set (mods ts). in_rebate ps ts oid)"

definition output_rebate :: "temporary_store \<Rightarrow> nat" where
  "output_rebate ts = sum_list (map (\<lambda>kv. storage_rebate (snd kv)) (wr ts))"

definition written_price :: "object_params \<Rightarrow> sui_gas_status \<Rightarrow> temporary_store \<Rightarrow> nat" where
  "written_price ps sg ts = sum_list (map (\<lambda>kv. storage_price ps sg (snd kv)) (wr ts))"

lemma collect_rebate_exact:
  assumes "results_ok ps ts" "sg_charge (gc_gas_status gc)" "0 < sg_storage_gas_price (gc_gas_status gc)"
    and "sg_storage_cost (gc_gas_status gc) < u64_size" "sg_storage_rebate (gc_gas_status gc) + deleted_rebate ps ts < u64_size"
  shows "collect_rebate ps ts gc = Some (add_charges (deleted_rebate ps ts) 0 gc)"
proof -
  let ?oids = "filter (\<lambda>oid. map_of (wr ts) oid = None) (mods ts)"
  have "distinct (mods ts)" using assms(1) by (auto simp: results_ok_def dest: sorted_less_distinct)
  then have "sum_list (map (in_rebate ps ts) ?oids) = (\<Sum>oid \<in> set ?oids. in_rebate ps ts oid)"
    by (simp add: sum_list_distinct_conv_sum_set)
  moreover have "set ?oids = set (mods ts) - fst ` set (wr ts)" by (auto simp: map_of_eq_None_iff)
  ultimately have sum: "sum_list (map (in_rebate ps ts) ?oids) = deleted_rebate ps ts" by (simp add: deleted_rebate_def)
  have "\<forall>oid \<in> set ?oids. meta_of ps ts oid \<noteq> None" using assms(1) by (auto simp: results_ok_def)
  then show ?thesis using fold_track_rebates [of gc ps ts ?oids] assms(2-5) by (simp add: collect_rebate_def Let_def sum)
qed

lemma old_rebates_split:
  assumes "results_ok ps ts"
  shows "those (map (\<lambda>(oid, _). old_storage_rebate ps ts oid) (wr ts))
      = Some (map (\<lambda>(oid, _). if oid \<in> set (mods ts) then in_rebate ps ts oid else 0) (wr ts))"
    and "sum_list (map (\<lambda>(oid, _). if oid \<in> set (mods ts) then in_rebate ps ts oid else 0) (wr ts)) + deleted_rebate ps ts
      = input_rebate ps ts"
proof -
  have "old_storage_rebate ps ts oid = Some (if oid \<in> set (mods ts) then in_rebate ps ts oid else 0)" for oid
    using assms by (auto simp: old_storage_rebate_def get_object_modified_at_eq in_rebate_def results_ok_def)
  then show "those (map (\<lambda>(oid, _). old_storage_rebate ps ts oid) (wr ts))
      = Some (map (\<lambda>(oid, _). if oid \<in> set (mods ts) then in_rebate ps ts oid else 0) (wr ts))"
    by (intro those_eq_map) auto
  have "distinct (map fst (wr ts))" using assms by (simp add: results_ok_def bt_wf_distinct)
  then have "sum_list (map (\<lambda>oid. if oid \<in> set (mods ts) then in_rebate ps ts oid else 0) (map fst (wr ts)))
      = (\<Sum>oid \<in> fst ` set (wr ts). if oid \<in> set (mods ts) then in_rebate ps ts oid else 0)"
    by (simp only: sum_list_distinct_conv_sum_set set_map)
  also have "\<dots> = (\<Sum>oid \<in> fst ` set (wr ts) \<inter> set (mods ts). in_rebate ps ts oid)"
    by (simp add: sum.inter_restrict)
  finally have "sum_list (map (\<lambda>(oid, _). if oid \<in> set (mods ts) then in_rebate ps ts oid else 0) (wr ts))
      = (\<Sum>oid \<in> set (mods ts) \<inter> fst ` set (wr ts). in_rebate ps ts oid)"
    by (simp add: comp_def case_prod_unfold Int_commute)
  then show "sum_list (map (\<lambda>(oid, _). if oid \<in> set (mods ts) then in_rebate ps ts oid else 0) (wr ts)) + deleted_rebate ps ts
      = input_rebate ps ts"
    by (simp add: deleted_rebate_def input_rebate_def flip: sum.Int_Diff)
qed

definition price_written :: "object_params \<Rightarrow> sui_gas_status \<Rightarrow> temporary_store \<Rightarrow> temporary_store" where
  "price_written ps sg ts = ts\<lparr>ts_execution_results := (ts_execution_results ts)\<lparr>written_objects :=
     map (\<lambda>(oid, ob). (oid, ob\<lparr>storage_rebate := storage_price ps sg ob\<rparr>)) (wr ts)\<rparr>\<rparr>"

lemma price_written_simps [simp]:
  "mods (price_written ps sg ts) = mods ts" "same_inputs ts (price_written ps sg ts)"
  "map fst (wr (price_written ps sg ts)) = map fst (wr ts)" "fst ` set (wr (price_written ps sg ts)) = fst ` set (wr ts)"
  "map_of (wr (price_written ps sg ts)) oid = map_option (\<lambda>ob. ob\<lparr>storage_rebate := storage_price ps sg ob\<rparr>) (map_of (wr ts) oid)"
  "output_rebate (price_written ps sg ts) = written_price ps sg ts" "deleted_rebate ps (price_written ps sg ts) = deleted_rebate ps ts"
  by (simp_all add: price_written_def comp_def split_beta image_image output_rebate_def written_price_def deleted_rebate_def in_rebate_def map_of_map)

lemma price_written_ok: "results_ok ps ts \<Longrightarrow> results_ok ps (price_written ps' sg ts)"
  by (auto simp: results_ok_def price_written_def object_id_def comp_def split_beta image_image)

lemma collect_storage_exact:
  assumes "results_ok ps ts" "sg_charge (gc_gas_status gc)" "0 < sg_storage_gas_price (gc_gas_status gc)"
    and "sg_storage_rebate (gc_gas_status gc) + input_rebate ps ts < u64_size"
    and "sg_storage_cost (gc_gas_status gc) + written_price ps (gc_gas_status gc) ts < u64_size"
  shows "collect_storage_and_rebate ps gc ts =
    Some (add_charges (input_rebate ps ts) (written_price ps (gc_gas_status gc) ts) gc, price_written ps (gc_gas_status gc) ts)"
proof -
  have "length (wr ts) = length (map (\<lambda>(oid, _). if oid \<in> set (mods ts) then in_rebate ps ts oid else 0) (wr ts))" by simp
  note track = track_written_exact [OF this assms(2,3), of ps]
  let ?olds = "sum_list (map (\<lambda>(oid, _). if oid \<in> set (mods ts) then in_rebate ps ts oid else 0) (wr ts))"
  let ?ts = "price_written ps (gc_gas_status gc) ts" and ?p = "written_price ps (gc_gas_status gc) ts"
  have track: "track_written ps (zip (wr ts) (map (\<lambda>(oid, _). if oid \<in> set (mods ts) then in_rebate ps ts oid else 0) (wr ts))) gc
      = Some (wr ?ts, add_charges ?olds ?p gc)"
    using track assms(4,5) old_rebates_split(2) [OF assms(1)] by (simp add: written_price_def price_written_def)
  have "results_ok ps ?ts" by (rule price_written_ok [OF assms(1)])
  then have "collect_rebate ps ?ts (add_charges ?olds ?p gc) = Some (add_charges (deleted_rebate ps ts) 0 (add_charges ?olds ?p gc))"
    using assms(2-5) old_rebates_split(2) [OF assms(1)] by (subst collect_rebate_exact) simp_all
  then show ?thesis
    using track old_rebates_split [OF assms(1)]
    by (simp add: collect_storage_and_rebate_def Let_def price_written_def add.commute)
qed

section \<open>Writing objects\<close>

lemma write_modified_simps [simp]:
  "same_inputs ts (write_modified oid ob ts)" "mods (write_modified oid ob ts) = bs_insert oid (mods ts)"
  "wr (write_modified oid ob ts) = bt_insert oid ob (wr ts)"
  by (simp_all add: write_modified_def Let_def)

lemma write_modified_ok:
  assumes "results_ok ps ts" "object_id ob = Some oid" "meta_of ps ts oid \<noteq> None"
  shows "results_ok ps (write_modified oid ob ts)"
proof -
  note same = same_inputsD [OF write_modified_simps(1) [of ts oid ob]]
  have "\<forall>(i, b) \<in> set (bt_insert oid ob (wr ts)). object_id b = Some i"
    using assms(1,2) set_bt_insert_subset [of oid ob "wr ts"] by (fastforce simp: results_ok_def)
  moreover have "bt_wf (wr ts)" "bs_wf (mods ts)" using assms(1) by (simp_all add: results_ok_def)
  ultimately show ?thesis
    unfolding results_ok_def write_modified_simps same
    using assms(1,3) by (auto simp: results_ok_def keys_bt_insert)
qed

definition write_all_modified :: "(objectID \<times> sui_object) list \<Rightarrow> temporary_store \<Rightarrow> temporary_store" where
  "write_all_modified kvs ts = fold (\<lambda>(oid, ob). write_modified oid ob) kvs ts"

lemma fold_mutate_input_object:
  "\<forall>(oid, ob) \<in> set kvs. object_id ob = Some oid \<Longrightarrow> fold_opt mutate_input_object (map snd kvs) ts = Some (write_all_modified kvs ts)"
  by (induction kvs arbitrary: ts) (auto simp: mutate_input_object_def write_all_modified_def)

lemma write_all_modified_facts:
  assumes "results_ok ps ts" "\<forall>(oid, ob) \<in> set kvs. object_id ob = Some oid \<and> meta_of ps ts oid \<noteq> None" "distinct (map fst kvs)"
  shows "same_inputs ts (write_all_modified kvs ts) \<and> results_ok ps (write_all_modified kvs ts)
    \<and> set (mods (write_all_modified kvs ts)) = set (mods ts) \<union> fst ` set kvs
    \<and> map_of (wr (write_all_modified kvs ts)) = map_of (wr ts) ++ map_of kvs"
  using assms
proof (induction kvs arbitrary: ts)
  case (Cons kv kvs)
  obtain oid ob where kv: "kv = (oid, ob)" by (cases kv)
  let ?ts = "write_modified oid ob ts"
  note same = same_inputsD [OF write_modified_simps(1) [of ts oid ob]]
  have ok: "results_ok ps ?ts" using Cons.prems kv by (intro write_modified_ok) auto
  have "\<forall>(oid, ob) \<in> set kvs. object_id ob = Some oid \<and> meta_of ps ?ts oid \<noteq> None" "distinct (map fst kvs)"
    using Cons.prems kv same(5) by auto
  note IH = Cons.IH [OF ok this]
  have m: "map_of (wr ?ts) ++ map_of kvs = map_of (wr ts) ++ map_of (kv # kvs)"
  proof
    fix i
    have "oid \<notin> fst ` set kvs" using Cons.prems(3) kv by auto
    then have "map_of kvs oid = None" by (simp add: map_of_eq_None_iff)
    then show "(map_of (wr ?ts) ++ map_of kvs) i = (map_of (wr ts) ++ map_of (kv # kvs)) i"
      by (auto simp: kv map_simps map_add_def split: option.splits)
  qed
  have step: "write_all_modified (kv # kvs) ts = write_all_modified kvs ?ts" by (simp add: write_all_modified_def kv)
  show ?case unfolding step m [symmetric]
    using IH kv by (auto intro: same_inputs_trans [OF write_modified_simps(1)])
qed (simp add: write_all_modified_def)

lemma ensure_exact:
  assumes "inputs_ok ts" "results_ok ps ts"
  obtains ts' where "ensure_active_inputs_mutated ts = Some ts'" "same_inputs ts ts'" "results_ok ps ts'"
    "set (mods ts') = set (mods ts) \<union> refs ts"
    "\<And>oid. map_of (wr ts') oid = (if oid \<in> refs ts - set (mods ts) then map_of (ts_input_objects ts) oid else map_of (wr ts) oid)"
proof -
  let ?oids = "filter (\<lambda>oid. oid \<notin> set (mods ts)) (map fst (ts_mutable_input_refs ts))"
  let ?kvs = "map (\<lambda>oid. (oid, the (map_of (ts_input_objects ts) oid))) ?oids"
  have look: "\<exists>ob. map_of (ts_input_objects ts) oid = Some ob \<and> object_id ob = Some oid \<and> meta_of ps ts oid \<noteq> None"
    if "oid \<in> refs ts" for oid using inputs_ok_lookup [OF assms(1) that] by metis
  have "those (map (map_of (ts_input_objects ts)) ?oids) = Some (map (\<lambda>oid. the (map_of (ts_input_objects ts) oid)) ?oids)"
    using look by (intro those_eq_map) force
  then have "those (map (map_of (ts_input_objects ts)) ?oids) = Some (map snd ?kvs)" by (simp add: comp_def)
  moreover have kvs: "\<forall>(oid, ob) \<in> set ?kvs. object_id ob = Some oid \<and> meta_of ps ts oid \<noteq> None" using look by fastforce
  ultimately have ensure: "ensure_active_inputs_mutated ts = Some (write_all_modified ?kvs ts)"
    using fold_mutate_input_object [of ?kvs ts] by (auto simp: ensure_active_inputs_mutated_def)
  have "distinct (map fst (ts_mutable_input_refs ts))" using assms(1) by (simp add: inputs_ok_def bt_wf_distinct)
  then have "distinct (map fst ?kvs)" by (simp add: comp_def)
  note facts = write_all_modified_facts [OF assms(2) kvs this]
  have keys: "fst ` set ?kvs = refs ts - set (mods ts)" by (auto simp: image_image)
  have val: "map_of ?kvs oid = (if oid \<in> refs ts - set (mods ts) then map_of (ts_input_objects ts) oid else None)" for oid
    using look [of oid] by (cases "oid \<in> refs ts") (auto simp: map_of_map_restrict restrict_map_def simp del: image_iff)
  show thesis
  proof (rule that [OF ensure])
    show "map_of (wr (write_all_modified ?kvs ts)) oid
      = (if oid \<in> refs ts - set (mods ts) then map_of (ts_input_objects ts) oid else map_of (wr ts) oid)" for oid
    proof -
      have eq: "map_of (wr (write_all_modified ?kvs ts)) = map_of (wr ts) ++ map_of ?kvs" using facts by blast
      show ?thesis
      proof (cases "oid \<in> refs ts - set (mods ts)")
        case True
        then have "oid \<in> refs ts" by blast
        then show ?thesis using look True unfolding eq map_add_def val by force
      qed (simp only: eq map_add_def val if_False option.case)
    qed
  qed (use facts keys in auto)
qed

section \<open>Smashing gas coins\<close>

abbreviation (input) coin_ids :: "gas_charger \<Rightarrow> objectID list" where
  "coin_ids gc \<equiv> map fst (gc_gas_coins gc)"

text \<open>The payment consists of distinct gas coins that are mutable inputs, with the given balances.\<close>

definition payment_ok :: "gas_charger \<Rightarrow> temporary_store \<Rightarrow> (objectID \<Rightarrow> nat) \<Rightarrow> bool" where
  "payment_ok gc ts bal \<longleftrightarrow> gc_gas_coins gc \<noteq> [] \<and> distinct (coin_ids gc) \<and> OBJECT_ID_ZERO \<notin> set (coin_ids gc)
     \<and> set (coin_ids gc) \<subseteq> refs ts
     \<and> (\<forall>oid \<in> set (coin_ids gc). \<exists>ob. map_of (ts_input_objects ts) oid = Some ob \<and> coin_of ob oid (bal oid))
     \<and> (\<Sum>oid \<in> set (coin_ids gc). bal oid) < u64_size"

definition payment_total :: "gas_charger \<Rightarrow> (objectID \<Rightarrow> nat) \<Rightarrow> nat" where
  "payment_total gc bal = (\<Sum>oid \<in> set (coin_ids gc). bal oid)"

lemma delete_input_object_simps [simp]:
  "same_inputs ts (delete_input_object oid ts)" "mods (delete_input_object oid ts) = bs_insert oid (mods ts)"
  "wr (delete_input_object oid ts) = wr ts"
  by (simp_all add: delete_input_object_def Let_def)

lemma fold_delete:
  fixes refs' :: "object_ref list"
  shows "same_inputs ts (fold (\<lambda>(oid, _, _). delete_input_object oid) refs' ts)
    \<and> set (mods (fold (\<lambda>(oid, _, _). delete_input_object oid) refs' ts)) = set (mods ts) \<union> fst ` set refs'
    \<and> (bs_wf (mods ts) \<longrightarrow> bs_wf (mods (fold (\<lambda>(oid, _, _). delete_input_object oid) refs' ts)))
    \<and> wr (fold (\<lambda>(oid, _, _). delete_input_object oid) refs' ts) = wr ts"
proof (induction refs' arbitrary: ts)
  case (Cons r refs')
  obtain oid v d where r: "r = (oid, v, d)" by (cases r)
  show ?case
    using Cons [of "delete_input_object oid ts"] same_inputs_trans [OF delete_input_object_simps(1)] by (auto simp: r)
qed simp

lemma coin_size:
  assumes "coin_of ob oid v" "coin_of ob' oid v'"
  shows "storage_price ps sg ob = storage_price ps sg ob'"
  using assms
  by (auto elim!: coin_of_move simp: storage_price_def object_size_for_gas_metering_def move_size_for_gas_metering_def)

lemma gas_coin_values:
  assumes "payment_ok gc ts bal" "ts_input_objects ts' = ts_input_objects ts"
  shows "those (map (\<lambda>obj_ref. gas_coin_value obj_ref ts') (gc_gas_coins gc)) = Some (map bal (coin_ids gc))"
    and "u64_wrapping_sum (map bal (coin_ids gc)) = payment_total gc bal"
proof -
  have "gas_coin_value r ts' = Some (bal (fst r))" if "r \<in> set (gc_gas_coins gc)" for r
  proof -
    obtain oid v d where r: "r = (oid, v, d)" by (cases r)
    have "oid \<in> set (coin_ids gc)" using imageI [OF that, of fst] by (simp add: r)
    then obtain ob where ob: "map_of (ts_input_objects ts) oid = Some ob" "coin_of ob oid (bal oid)"
      using assms(1) unfolding payment_ok_def by blast
    obtain m where m: "ob_data ob = Move m" "mo_type m = GasCoin" using ob(2) by (rule coin_of_move)
    show ?thesis using ob m coin_get_set(1) [OF m(1) ob(2), of 0]
      by (simp add: r gas_coin_value_def assms(2) is_gas_coin_def u64_size_def)
  qed
  then show "those (map (\<lambda>obj_ref. gas_coin_value obj_ref ts') (gc_gas_coins gc)) = Some (map bal (coin_ids gc))"
    using those_eq_map [of "gc_gas_coins gc" "\<lambda>obj_ref. gas_coin_value obj_ref ts'" "\<lambda>r. bal (fst r)"] by (simp add: comp_def)
  have "sum_list (map bal (coin_ids gc)) = payment_total gc bal"
    using assms(1) by (simp only: payment_ok_def payment_total_def sum_list_distinct_conv_sum_set)
  then show "u64_wrapping_sum (map bal (coin_ids gc)) = payment_total gc bal"
    using assms(1) by (subst u64_wrapping_sum_exact) (simp_all add: payment_ok_def payment_total_def)
qed

lemma smash_exact:
  assumes "inputs_ok ts" "payment_ok gc ts bal" "mods ts = []" "wr ts = []"
  obtains ts' coin where "smash_gas gc ts = Some (gc\<lparr>gc_smashed_gas_coin := Some (hd (coin_ids gc))\<rparr>, ts')"
    "same_inputs ts ts'" "results_ok ps ts'"
    "coin_of coin (hd (coin_ids gc)) (payment_total gc bal)" "storage_rebate coin = in_rebate ps ts (hd (coin_ids gc))"
    "ts' = ts \<and> gc_gas_coins gc = [hd (gc_gas_coins gc)] \<and> map_of (ts_input_objects ts) (hd (coin_ids gc)) = Some coin
     \<or> set (mods ts') = set (coin_ids gc) \<and> wr ts' = [(hd (coin_ids gc), coin)]"
proof -
  obtain g v d others where coins: "gc_gas_coins gc = (g, v, d) # others"
    using assms(2) by (cases "gc_gas_coins gc") (auto simp: payment_ok_def)
  have g: "g \<noteq> OBJECT_ID_ZERO" "g \<in> refs ts" "g \<notin> fst ` set others" using assms(2) by (auto simp: payment_ok_def coins)
  obtain ob where ob: "map_of (ts_input_objects ts) g = Some ob" "coin_of ob g (bal g)"
    using assms(2) by (auto simp: payment_ok_def coins)
  have rebate: "storage_rebate ob = in_rebate ps ts g" using inputs_ok_lookup [OF assms(1) g(2), of ps] ob(1) by force
  show thesis
  proof (cases "others = []")
    case True
    have "results_ok ps ts" using assms(3,4) by (simp add: results_ok_def)
    then show thesis using True coins g(1) ob rebate
      by (intro that [of ts ob]) (simp_all add: smash_gas_def payment_total_def)
  next
    case False
    let ?total = "payment_total gc bal" and ?ts = "fold (\<lambda>(oid, _, _). delete_input_object oid) others ts"
    have total: "?total < u64_size" using assms(2) by (simp add: payment_ok_def payment_total_def)
    obtain m where m: "ob_data ob = Move m" using ob(2) by (rule coin_of_move)
    obtain m' where m': "set_coin_value_unsafe ?total m = Some m'" "coin_of (ob\<lparr>ob_data := Move m'\<rparr>) g ?total"
      using coin_get_set(2) [OF m ob(2) total] by blast
    let ?coin = "ob\<lparr>ob_data := Move m'\<rparr>"
    note del = fold_delete [of ts others]
    have metas: "meta_of ps ts oid \<noteq> None" if "oid \<in> set (coin_ids gc)" for oid
    proof -
      have "oid \<in> refs ts" using assms(2) that unfolding payment_ok_def by blast
      then show ?thesis by (rule inputs_ok_lookup [OF assms(1), of oid ps])
    qed
    have "results_ok ps ?ts"
      using del assms(3,4) metas same_inputsD(5) [of ts ?ts ps] by (auto simp: results_ok_def coins)
    then have ok: "results_ok ps (write_modified g ?coin ?ts)"
      using m'(2) metas [of g] same_inputsD(5) [of ts ?ts ps] del by (intro write_modified_ok) (simp_all add: coins)
    have "smash_gas gc ts = Some (gc\<lparr>gc_smashed_gas_coin := Some g\<rparr>, write_modified g ?coin ?ts)"
      using False ob(1) m m' gas_coin_values [OF assms(2) refl]
      by (simp add: smash_gas_def coins Let_def try_as_move_def mutate_input_object_def)
    then show thesis using ok m'(2) rebate del assms(3,4) same_inputs_trans [OF _ write_modified_simps(1)]
      by (intro that [of "write_modified g ?coin ?ts" ?coin]) (auto simp: coins)
  qed
qed

definition reset_charger :: "gas_charger \<Rightarrow> gas_charger" where
  "reset_charger gc = gc\<lparr>gc_gas_status := reset_storage_cost_and_rebate (gc_gas_status gc), gc_smashed_gas_coin := Some (hd (coin_ids gc))\<rparr>"

lemma inputs_ok_same: "same_inputs ts ts' \<Longrightarrow> inputs_ok ts' = inputs_ok ts"
  using same_inputsD [of ts ts'] by (simp add: inputs_ok_def)

lemma payment_ok_same:
  "same_inputs ts ts' \<Longrightarrow> gc_gas_coins gc' = gc_gas_coins gc \<Longrightarrow> payment_ok gc' ts' bal = payment_ok gc ts bal"
  using same_inputsD [of ts ts'] by (simp add: payment_ok_def)

lemma drop_writes_simps [simp]:
  "same_inputs ts (drop_writes ts)" "mods (drop_writes ts) = []" "wr (drop_writes ts) = []"
  by (simp_all add: drop_writes_def results_drop_writes_def)

lemma reset_ensure_exact:
  assumes "inputs_ok ts" "payment_ok gc ts bal"
  obtains ts1 ts' coin where "charger_reset gc ts = Some (reset_charger gc, ts1)" "ensure_active_inputs_mutated ts1 = Some ts'"
    "same_inputs ts ts'" "results_ok ps ts'" "set (mods ts') = refs ts"
    "coin_of coin (hd (coin_ids gc)) (payment_total gc bal)" "storage_rebate coin = in_rebate ps ts (hd (coin_ids gc))"
    "\<forall>oid. map_of (wr ts') oid = (if oid = hd (coin_ids gc) then Some coin
       else if oid \<in> refs ts - set (coin_ids gc) then map_of (ts_input_objects ts) oid else None)"
proof -
  let ?gc = "gc\<lparr>gc_gas_status := reset_storage_cost_and_rebate (gc_gas_status gc)\<rparr>" and ?g = "hd (coin_ids gc)"
  have drop: "inputs_ok (drop_writes ts)" "payment_ok ?gc (drop_writes ts) bal"
    using assms inputs_ok_same [of ts "drop_writes ts"] payment_ok_same [of ts "drop_writes ts" ?gc gc bal] by simp_all
  obtain ts1 coin where smash: "smash_gas ?gc (drop_writes ts) = Some (?gc\<lparr>gc_smashed_gas_coin := Some (hd (coin_ids ?gc))\<rparr>, ts1)"
    and same: "same_inputs (drop_writes ts) ts1" and ok: "results_ok ps ts1"
    and coin: "coin_of coin (hd (coin_ids ?gc)) (payment_total ?gc bal)" "storage_rebate coin = in_rebate ps (drop_writes ts) (hd (coin_ids ?gc))"
    and ts1: "ts1 = drop_writes ts \<and> gc_gas_coins ?gc = [hd (gc_gas_coins ?gc)] \<and> map_of (ts_input_objects (drop_writes ts)) (hd (coin_ids ?gc)) = Some coin
      \<or> set (mods ts1) = set (coin_ids ?gc) \<and> wr ts1 = [(hd (coin_ids ?gc), coin)]"
    by (rule smash_exact [OF drop drop_writes_simps(2,3)])
  have same1: "same_inputs ts ts1" using same_inputs_trans [OF drop_writes_simps(1) same] .
  obtain ts' where ensure: "ensure_active_inputs_mutated ts1 = Some ts'" "same_inputs ts1 ts'" "results_ok ps ts'"
    "set (mods ts') = set (mods ts1) \<union> refs ts1"
    "\<And>oid. map_of (wr ts') oid = (if oid \<in> refs ts1 - set (mods ts1) then map_of (ts_input_objects ts1) oid else map_of (wr ts1) oid)"
    using ensure_exact [OF _ ok] assms(1) inputs_ok_same [OF same1] by blast
  note d = same_inputsD [OF same1] and d0 = same_inputsD [OF drop_writes_simps(1) [of ts]]
  have "coin_ids gc \<noteq> []" using assms(2) by (simp add: payment_ok_def)
  then have ids: "set (coin_ids gc) \<subseteq> refs ts" "?g \<in> set (coin_ids gc)" using assms(2) hd_in_set unfolding payment_ok_def by blast+
  have total: "payment_total ?gc bal = payment_total gc bal" by (simp add: payment_total_def)
  show thesis
  proof (rule that [OF _ ensure(1)])
    show "charger_reset gc ts = Some (reset_charger gc, ts1)" using smash by (simp add: charger_reset_def reset_charger_def)
    show "same_inputs ts ts'" using same_inputs_trans [OF same1 ensure(2)] .
    show "set (mods ts') = refs ts" using ensure(4) ts1 ids d(3) by auto
    show "coin_of coin ?g (payment_total gc bal)" "storage_rebate coin = in_rebate ps ts ?g" using coin total d0(6) by simp_all
    have "map_of (wr ts') oid = (if oid = ?g then Some coin
       else if oid \<in> refs ts - set (coin_ids gc) then map_of (ts_input_objects ts) oid else None)" for oid
      using ts1
    proof
      assume *: "ts1 = drop_writes ts \<and> gc_gas_coins ?gc = [hd (gc_gas_coins ?gc)]
        \<and> map_of (ts_input_objects (drop_writes ts)) (hd (coin_ids ?gc)) = Some coin"
      then have single: "set (coin_ids gc) = {?g}" by (cases "gc_gas_coins gc") auto
      have "mods ts1 = []" "wr ts1 = []" "map_of (ts_input_objects ts) ?g = Some coin" using * d0(2) by simp_all
      then show ?thesis using ensure(5) [of oid] ids single d(2,3) by auto
    next
      assume "set (mods ts1) = set (coin_ids ?gc) \<and> wr ts1 = [(hd (coin_ids ?gc), coin)]"
      then show ?thesis using ensure(5) [of oid] ids d(2,3) by auto
    qed
    then show "\<forall>oid. map_of (wr ts') oid = (if oid = ?g then Some coin
       else if oid \<in> refs ts - set (coin_ids gc) then map_of (ts_input_objects ts) oid else None)" by blast
  qed (rule ensure(3))
qed

section \<open>Sums over the written objects\<close>

lemma sum_written:
  assumes "bt_wf m"
  shows "sum_list (map (\<lambda>kv. f (snd kv)) m) = (\<Sum>oid \<in> fst ` set m. f (the (map_of m oid)))"
proof -
  have d: "distinct (map fst m)" using assms by (rule bt_wf_distinct)
  have "map (\<lambda>kv. f (snd kv)) m = map (\<lambda>oid. f (the (map_of m oid))) (map fst m)"
    using map_of_is_SomeI [OF d] by (auto simp: comp_def)
  then show ?thesis using d by (simp only: sum_list_distinct_conv_sum_set set_map)
qed

text \<open>After a reset the written objects are the mutable inputs but the coins that were smashed away.\<close>

lemma payment_coin:
  assumes "payment_ok gc ts bal"
  shows "coin_ids gc = hd (coin_ids gc) # tl (coin_ids gc)" "hd (coin_ids gc) \<in> refs ts" "hd (coin_ids gc) \<notin> set (tl (coin_ids gc))"
    "set (tl (coin_ids gc)) \<subseteq> refs ts" "hd (coin_ids gc) \<in> set (coin_ids gc)"
    "set (coin_ids gc) = insert (hd (coin_ids gc)) (set (tl (coin_ids gc)))"
    "\<exists>ob. map_of (ts_input_objects ts) (hd (coin_ids gc)) = Some ob \<and> coin_of ob (hd (coin_ids gc)) (bal (hd (coin_ids gc)))"
proof -
  obtain g others where ids: "coin_ids gc = g # others" using assms by (cases "coin_ids gc") (auto simp: payment_ok_def)
  have "distinct (g # others)" "set (g # others) \<subseteq> refs ts"
    "\<forall>oid \<in> set (g # others). \<exists>ob. map_of (ts_input_objects ts) oid = Some ob \<and> coin_of ob oid (bal oid)"
    using assms unfolding payment_ok_def ids by blast+
  then show "coin_ids gc = hd (coin_ids gc) # tl (coin_ids gc)" "hd (coin_ids gc) \<in> refs ts" "hd (coin_ids gc) \<notin> set (tl (coin_ids gc))"
    "set (tl (coin_ids gc)) \<subseteq> refs ts" "hd (coin_ids gc) \<in> set (coin_ids gc)"
    "set (coin_ids gc) = insert (hd (coin_ids gc)) (set (tl (coin_ids gc)))"
    "\<exists>ob. map_of (ts_input_objects ts) (hd (coin_ids gc)) = Some ob \<and> coin_of ob (hd (coin_ids gc)) (bal (hd (coin_ids gc)))"
    unfolding ids by simp_all
qed

lemma reset_sums:
  fixes f :: "sui_object \<Rightarrow> nat"
  assumes "inputs_ok ts" "payment_ok gc ts bal" "bt_wf (wr ts')"
    and written: "\<And>oid. map_of (wr ts') oid = (if oid = hd (coin_ids gc) then Some coin
       else if oid \<in> refs ts - set (coin_ids gc) then map_of (ts_input_objects ts) oid else None)"
  shows "fst ` set (wr ts') = insert (hd (coin_ids gc)) (refs ts - set (coin_ids gc))"
    and "sum_list (map (\<lambda>kv. f (snd kv)) (wr ts'))
      = f coin + (\<Sum>oid \<in> refs ts - set (coin_ids gc). f (the (map_of (ts_input_objects ts) oid)))"
proof -
  let ?g = "hd (coin_ids gc)"
  have g: "?g \<in> set (coin_ids gc)" by (rule payment_coin [OF assms(2)])
  have look: "map_of (ts_input_objects ts) oid \<noteq> None" if "oid \<in> refs ts" for oid
    using inputs_ok_lookup [OF assms(1) that] by (metis option.distinct(1))
  have "oid \<in> fst ` set (wr ts') \<longleftrightarrow> map_of (wr ts') oid \<noteq> None" for oid by (simp add: map_of_eq_None_iff)
  moreover have "map_of (wr ts') oid \<noteq> None \<longleftrightarrow> oid \<in> insert ?g (refs ts - set (coin_ids gc))" for oid
    unfolding written using look [of oid] by (cases "oid = ?g") auto
  ultimately show keys: "fst ` set (wr ts') = insert ?g (refs ts - set (coin_ids gc))" by blast
  have "(\<Sum>oid \<in> refs ts - set (coin_ids gc). f (the (map_of (wr ts') oid)))
      = (\<Sum>oid \<in> refs ts - set (coin_ids gc). f (the (map_of (ts_input_objects ts) oid)))"
  proof (intro sum.cong refl)
    fix oid assume *: "oid \<in> refs ts - set (coin_ids gc)"
    then have "oid \<noteq> ?g" using g by blast
    then show "f (the (map_of (wr ts') oid)) = f (the (map_of (ts_input_objects ts) oid))" using * by (simp only: written if_False if_True)
  qed
  then show "sum_list (map (\<lambda>kv. f (snd kv)) (wr ts'))
      = f coin + (\<Sum>oid \<in> refs ts - set (coin_ids gc). f (the (map_of (ts_input_objects ts) oid)))"
    unfolding sum_written [OF assms(3)] keys by (subst sum.insert) (use g written [of ?g] in \<open>simp_all only: finite_set finite_imageI finite_Diff Diff_iff simp_thms if_True option.sel not_True_eq_False\<close>)
qed

lemma refs_split:
  fixes f :: "objectID \<Rightarrow> nat"
  assumes "payment_ok gc ts bal"
  shows "(\<Sum>oid \<in> refs ts. f oid) = (\<Sum>oid \<in> set (coin_ids gc). f oid) + (\<Sum>oid \<in> refs ts - set (coin_ids gc). f oid)"
    and "(\<Sum>oid \<in> set (coin_ids gc). f oid) = f (hd (coin_ids gc)) + (\<Sum>oid \<in> set (tl (coin_ids gc)). f oid)"
    and "refs ts - insert (hd (coin_ids gc)) (refs ts - set (coin_ids gc)) = set (tl (coin_ids gc))"
proof -
  note coin = payment_coin [OF assms]
  show "(\<Sum>oid \<in> refs ts. f oid) = (\<Sum>oid \<in> set (coin_ids gc). f oid) + (\<Sum>oid \<in> refs ts - set (coin_ids gc). f oid)"
    using coin(2,4) unfolding coin(6) by (subst sum.subset_diff [of "insert (hd (coin_ids gc)) (set (tl (coin_ids gc)))"]) auto
  show "(\<Sum>oid \<in> set (coin_ids gc). f oid) = f (hd (coin_ids gc)) + (\<Sum>oid \<in> set (tl (coin_ids gc)). f oid)"
    unfolding coin(6) using coin(3) by (subst sum.insert) auto
  show "refs ts - insert (hd (coin_ids gc)) (refs ts - set (coin_ids gc)) = set (tl (coin_ids gc))"
    unfolding coin(6) using coin(2-4) by auto
qed

section \<open>Charging a transaction\<close>

text \<open>The storage charges balance: the rebates of the modified objects are what was collected, and the
  price paid for storage is what the written objects hold; without storage charges the collected
  rebates are those of the objects that were deleted.\<close>

definition balanced :: "object_params \<Rightarrow> gas_charger \<Rightarrow> temporary_store \<Rightarrow> bool" where
  "balanced ps gc ts \<longleftrightarrow>
     input_rebate ps ts = sg_storage_rebate (gc_gas_status gc) \<and> output_rebate ts = sg_storage_cost (gc_gas_status gc)
   \<or> sg_storage_cost (gc_gas_status gc) = 0 \<and> input_rebate ps ts = output_rebate ts + sg_storage_rebate (gc_gas_status gc)"

definition coin_written :: "temporary_store \<Rightarrow> objectID \<Rightarrow> nat \<Rightarrow> bool" where
  "coin_written ts g v \<longleftrightarrow> g \<in> set (mods ts) \<and> (\<exists>coin. map_of (wr ts) g = Some coin \<and> coin_of coin g v)"

text \<open>The amounts that charging adds up stay within 63 bits.\<close>

definition charges_fit :: "object_params \<Rightarrow> sui_gas_status \<Rightarrow> temporary_store \<Rightarrow> nat \<Rightarrow> bool" where
  "charges_fit ps sg ts v \<longleftrightarrow> sg_gas_budget sg + written_price ps sg ts < 2 ^ 63 \<and> input_rebate ps ts < 2 ^ 63
     \<and> v + input_rebate ps ts < u64_size"

text \<open>A status before storage is charged, with the computation closed.\<close>

definition status_ready :: "sui_gas_status \<Rightarrow> bool" where
  "status_ready sg \<longleftrightarrow> gas_ok sg \<and> 0 < sg_storage_gas_price sg"

definition pending :: "object_params \<Rightarrow> gas_charger \<Rightarrow> temporary_store \<Rightarrow> objectID \<Rightarrow> nat \<Rightarrow> bool" where
  "pending ps gc ts g v \<longleftrightarrow> results_ok ps ts \<and> coin_written ts g v \<and> balanced ps gc ts \<and> status_ready (gc_gas_status gc)
     \<and> sg_computation_cost (gc_gas_status gc) + sg_storage_cost (gc_gas_status gc) < 2 ^ 63
     \<and> sg_storage_rebate (gc_gas_status gc) < 2 ^ 63 \<and> sg_gas_budget (gc_gas_status gc) \<le> v
     \<and> v + sg_storage_rebate (gc_gas_status gc) < u64_size"

definition affordable :: "sui_gas_status \<Rightarrow> bool" where
  "affordable sg \<longleftrightarrow> sg_computation_cost sg + sg_storage_cost sg \<le> sg_gas_budget sg + sender_rebate (sg_storage_rebate sg) (sg_rebate_rate sg)"

lemma collect_pending:
  assumes "results_ok ps ts" "coin_written ts g v" "status_ready (gc_gas_status gc)" "charges_fit ps (gc_gas_status gc) ts v"
    and "sg_storage_rebate (gc_gas_status gc) = 0" "sg_storage_cost (gc_gas_status gc) = 0" "sg_gas_budget (gc_gas_status gc) \<le> v"
  obtains gc' ts' where "collect_storage_and_rebate ps gc ts = Some (gc', ts')" "pending ps gc' ts' g v" "same_inputs ts ts'"
    "gc' = add_charges (input_rebate ps ts) (written_price ps (gc_gas_status gc) ts) gc" "ts' = price_written ps (gc_gas_status gc) ts"
proof -
  let ?gc = "add_charges (input_rebate ps ts) (written_price ps (gc_gas_status gc) ts) gc" and ?ts = "price_written ps (gc_gas_status gc) ts"
  have sg: "sg_charge (gc_gas_status gc)" "0 < sg_storage_gas_price (gc_gas_status gc)" "sg_computation_cost (gc_gas_status gc) \<le> sg_gas_budget (gc_gas_status gc)"
    using assms(3) by (simp_all add: status_ready_def gas_ok_def)
  have fit: "input_rebate ps ts < u64_size" "written_price ps (gc_gas_status gc) ts < u64_size"
    using assms(4) by (simp_all add: charges_fit_def u64_size_def)
  have collect: "collect_storage_and_rebate ps gc ts = Some (?gc, ?ts)"
    using collect_storage_exact [OF assms(1) sg(1,2)] fit assms(5,6) by simp
  have same: "input_rebate ps ?ts = input_rebate ps ts"
    using same_inputsD(6) [OF price_written_simps(2)] by (simp add: input_rebate_def)
  obtain coin where coin: "map_of (wr ts) g = Some coin" "coin_of coin g v" "g \<in> set (mods ts)"
    using assms(2) by (auto simp: coin_written_def)
  have "coin_written ?ts g v" using coin by (simp add: coin_written_def coin_of_def)
  moreover have "status_ready (gc_gas_status ?gc)" using assms(3,5) fit(1) by (simp add: status_ready_def gas_ok_def)
  moreover have "balanced ps ?gc ?ts" using assms(5,6) same by (simp add: balanced_def)
  ultimately have "pending ps ?gc ?ts g v"
    using price_written_ok [OF assms(1)] assms(4-7) sg(3) by (simp add: pending_def charges_fit_def)
  then show thesis using that collect by simp
qed

text \<open>Charging changes the amounts of a charger, never its terms.\<close>

definition same_terms :: "gas_charger \<Rightarrow> gas_charger \<Rightarrow> bool" where
  "same_terms gc gc' \<longleftrightarrow> gc_gas_coins gc' = gc_gas_coins gc \<and> gc_gas_model_version gc' = gc_gas_model_version gc
     \<and> sg_gas_budget (gc_gas_status gc') = sg_gas_budget (gc_gas_status gc) \<and> sg_rebate_rate (gc_gas_status gc') = sg_rebate_rate (gc_gas_status gc)
     \<and> sg_cost_table (gc_gas_status gc') = sg_cost_table (gc_gas_status gc)
     \<and> sg_storage_gas_price (gc_gas_status gc') = sg_storage_gas_price (gc_gas_status gc)"

definition reset_price :: "object_params \<Rightarrow> gas_charger \<Rightarrow> temporary_store \<Rightarrow> nat" where
  "reset_price ps gc ts =
     (\<Sum>oid \<in> refs ts - set (tl (coin_ids gc)). storage_price ps (gc_gas_status gc) (the (map_of (ts_input_objects ts) oid)))"

definition refs_rebate :: "object_params \<Rightarrow> temporary_store \<Rightarrow> nat" where
  "refs_rebate ps ts = (\<Sum>oid \<in> refs ts. in_rebate ps ts oid)"

definition reset_fits :: "object_params \<Rightarrow> gas_charger \<Rightarrow> temporary_store \<Rightarrow> (objectID \<Rightarrow> nat) \<Rightarrow> bool" where
  "reset_fits ps gc ts bal \<longleftrightarrow> sg_gas_budget (gc_gas_status gc) + reset_price ps gc ts < 2 ^ 63 \<and> refs_rebate ps ts < 2 ^ 63
     \<and> payment_total gc bal + refs_rebate ps ts < u64_size \<and> sg_gas_budget (gc_gas_status gc) \<le> payment_total gc bal"

lemma reset_charger_simps [simp]:
  "gc_gas_coins (reset_charger gc) = gc_gas_coins gc" "gc_gas_model_version (reset_charger gc) = gc_gas_model_version gc"
  "gc_smashed_gas_coin (reset_charger gc) = Some (hd (coin_ids gc))"
  "sg_storage_rebate (gc_gas_status (reset_charger gc)) = 0" "sg_storage_cost (gc_gas_status (reset_charger gc)) = 0"
  "sg_gas_budget (gc_gas_status (reset_charger gc)) = sg_gas_budget (gc_gas_status gc)"
  "sg_computation_cost (gc_gas_status (reset_charger gc)) = sg_computation_cost (gc_gas_status gc)"
  "sg_rebate_rate (gc_gas_status (reset_charger gc)) = sg_rebate_rate (gc_gas_status gc)"
  "sg_cost_table (gc_gas_status (reset_charger gc)) = sg_cost_table (gc_gas_status gc)"
  "sg_storage_gas_price (gc_gas_status (reset_charger gc)) = sg_storage_gas_price (gc_gas_status gc)"
  "sg_charge (gc_gas_status (reset_charger gc)) = sg_charge (gc_gas_status gc)"
  by (simp_all add: reset_charger_def reset_storage_cost_and_rebate_def)

text \<open>The SUI in the Move part of an object, before and after the transaction.\<close>

definition sui_of :: "layout_resolver \<Rightarrow> sui_object \<Rightarrow> nat" where
  "sui_of layout ob =
     (case ob_data ob of Move m \<Rightarrow> (case move_get_total_sui layout m of Some (Inr n) \<Rightarrow> n | _ \<Rightarrow> 0) | Package _ \<Rightarrow> 0)"

definition old_object :: "object_params \<Rightarrow> temporary_store \<Rightarrow> objectID \<Rightarrow> sui_object option" where
  "old_object ps ts oid =
     (case map_of (ts_input_objects ts) oid of
        Some ob \<Rightarrow> Some ob
      | None \<Rightarrow> (case bk_get_object_by_key (ts_store ts) oid (lm_version (the (meta_of ps ts oid))) of Inr (Some ob) \<Rightarrow> Some ob | _ \<Rightarrow> None))"

definition move_in :: "layout_resolver \<Rightarrow> object_params \<Rightarrow> temporary_store \<Rightarrow> objectID \<Rightarrow> nat" where
  "move_in layout ps ts oid = sui_of layout (the (old_object ps ts oid))"

definition conserved :: "layout_resolver \<Rightarrow> object_params \<Rightarrow> temporary_store \<Rightarrow> bool" where
  "conserved layout ps ts \<longleftrightarrow> (\<Sum>oid \<in> set (mods ts). move_in layout ps ts oid) = (\<Sum>kv \<leftarrow> wr ts. sui_of layout (snd kv))"

lemma sui_of_coin: "coin_of ob oid v \<Longrightarrow> sui_of layout ob = v"
  by (erule coin_of_move)
    (simp add: sui_of_def move_get_total_sui_def get_coin_balances_def coin_type_maybe_def get_coin_value_unsafe_def add_balance_def)

lemma old_object_same:
  assumes "same_inputs ts ts'"
  shows "old_object ps ts' = old_object ps ts"
  unfolding fun_eq_iff old_object_def same_inputsD(1,2) [OF assms] same_inputsD(5) [OF assms, of ps] by simp

lemma move_in_same: "same_inputs ts ts' \<Longrightarrow> move_in layout ps ts' = move_in layout ps ts"
  by (simp add: fun_eq_iff move_in_def old_object_same)

text \<open>The store after a reset, and the sums over it.\<close>

lemma reset_store:
  assumes "inputs_ok ts" "payment_ok gc ts bal"
  obtains ts1 ts2 where "charger_reset gc ts = Some (reset_charger gc, ts1)" "ensure_active_inputs_mutated ts1 = Some ts2"
    "same_inputs ts ts2" "results_ok ps ts2" "coin_written ts2 (hd (coin_ids gc)) (payment_total gc bal)" "set (mods ts2) = refs ts"
    "input_rebate ps ts2 = refs_rebate ps ts" "written_price ps (gc_gas_status gc) ts2 = reset_price ps gc ts"
    "output_rebate ts2 + deleted_rebate ps ts2 = refs_rebate ps ts"
    "conserved layout ps ts2"
    "\<forall>kv \<in> set (wr ts2). (\<exists>oid v. coin_of (snd kv) oid v) \<or> (\<exists>oid \<in> refs ts. map_of (ts_input_objects ts) oid = Some (snd kv))"
proof -
  let ?g = "hd (coin_ids gc)"
  obtain ts1 ts2 coin where reset: "charger_reset gc ts = Some (reset_charger gc, ts1)" "ensure_active_inputs_mutated ts1 = Some ts2"
    "same_inputs ts ts2" "results_ok ps ts2" "set (mods ts2) = refs ts"
    and coin: "coin_of coin ?g (payment_total gc bal)" "storage_rebate coin = in_rebate ps ts ?g"
    and written_all: "\<forall>oid. map_of (wr ts2) oid = (if oid = ?g then Some coin
       else if oid \<in> refs ts - set (coin_ids gc) then map_of (ts_input_objects ts) oid else None)"
    by (rule reset_ensure_exact [OF assms, of ps])
  note written = written_all [rule_format]
  note d = same_inputsD [OF reset(3)] and g = payment_coin [OF assms(2)] and split = refs_split [OF assms(2)]
  have wf: "bt_wf (wr ts2)" using reset(4) by (simp add: results_ok_def)
  have at: "map_of (wr ts2) ?g = Some coin" by (simp add: written)
  have sums: "(\<Sum>kv \<leftarrow> wr ts2. f (snd kv)) = f coin + (\<Sum>oid \<in> refs ts - set (coin_ids gc). f (the (map_of (ts_input_objects ts) oid)))"
    for f :: "sui_object \<Rightarrow> nat" by (rule reset_sums(2) [OF assms wf written])
  have keys: "fst ` set (wr ts2) = insert ?g (refs ts - set (coin_ids gc))" by (rule reset_sums(1) [OF assms wf written])
  have rebate: "storage_rebate (the (map_of (ts_input_objects ts) oid)) = in_rebate ps ts oid" if "oid \<in> refs ts" for oid
    by (rule inputs_ok_lookup [OF assms(1) that, of ps]) simp
  have "output_rebate ts2 = in_rebate ps ts ?g + (\<Sum>oid \<in> refs ts - set (coin_ids gc). in_rebate ps ts oid)"
    unfolding output_rebate_def sums coin(2) using rebate by (auto intro!: sum.cong)
  moreover have "deleted_rebate ps ts2 = (\<Sum>oid \<in> set (tl (coin_ids gc)). in_rebate ps ts oid)"
    unfolding deleted_rebate_def reset(5) keys split(3) d(6) ..
  ultimately have out: "output_rebate ts2 + deleted_rebate ps ts2 = refs_rebate ps ts"
    unfolding refs_rebate_def split(1) [of "in_rebate ps ts"] split(2) [of "in_rebate ps ts"] by simp
  have "refs ts - set (tl (coin_ids gc)) = insert ?g (refs ts - set (coin_ids gc))" unfolding g(6) using g(2,3) by auto
  moreover obtain ob where "map_of (ts_input_objects ts) ?g = Some ob" "coin_of ob ?g (bal ?g)" using g(7) by blast
  ultimately have price: "written_price ps (gc_gas_status gc) ts2 = reset_price ps gc ts"
    unfolding written_price_def sums reset_price_def using g(5) coin_size [OF coin(1)] by (simp add: sum.insert_if)
  show thesis
  proof (rule that [OF reset(1-4)])
    show "coin_written ts2 ?g (payment_total gc bal)" using at coin(1) g(2) reset(5) by (simp add: coin_written_def)
    show "\<forall>kv \<in> set (wr ts2). (\<exists>oid v. coin_of (snd kv) oid v) \<or> (\<exists>oid \<in> refs ts. map_of (ts_input_objects ts) oid = Some (snd kv))"
    proof
      fix kv assume "kv \<in> set (wr ts2)"
      then have "map_of (wr ts2) (fst kv) = Some (snd kv)" using bt_wf_distinct [OF wf] by simp
      then have "snd kv = coin \<or> fst kv \<in> refs ts - set (coin_ids gc) \<and> map_of (ts_input_objects ts) (fst kv) = Some (snd kv)"
        unfolding written by (simp only: split: if_splits) (simp_all only: option.inject option.distinct simp_thms)
      then show "(\<exists>oid v. coin_of (snd kv) oid v) \<or> (\<exists>oid \<in> refs ts. map_of (ts_input_objects ts) oid = Some (snd kv))"
        using coin(1) by blast
    qed
    show "input_rebate ps ts2 = refs_rebate ps ts" unfolding input_rebate_def reset(5) d(6) refs_rebate_def ..
    have old: "move_in layout ps ts oid = sui_of layout (the (map_of (ts_input_objects ts) oid))" if "oid \<in> refs ts" for oid
      by (rule inputs_ok_lookup [OF assms(1) that, of ps]) (simp add: move_in_def old_object_def)
    have "move_in layout ps ts oid = bal oid" if coin_id: "oid \<in> set (coin_ids gc)" for oid
    proof -
      obtain ob where "map_of (ts_input_objects ts) oid = Some ob" "coin_of ob oid (bal oid)" "oid \<in> refs ts"
        using assms(2) coin_id unfolding payment_ok_def by blast
      then show ?thesis using old sui_of_coin by simp
    qed
    then have "(\<Sum>oid \<in> set (coin_ids gc). move_in layout ps ts oid) = payment_total gc bal"
      unfolding payment_total_def by (rule sum.cong [OF refl])
    moreover have "(\<Sum>oid \<in> refs ts - set (coin_ids gc). move_in layout ps ts oid)
        = (\<Sum>oid \<in> refs ts - set (coin_ids gc). sui_of layout (the (map_of (ts_input_objects ts) oid)))"
      using old by (intro sum.cong refl) blast
    ultimately have "(\<Sum>oid \<in> refs ts. move_in layout ps ts oid)
        = payment_total gc bal + (\<Sum>oid \<in> refs ts - set (coin_ids gc). sui_of layout (the (map_of (ts_input_objects ts) oid)))"
      unfolding split(1) [of "move_in layout ps ts"] by simp
    then show "conserved layout ps ts2"
      unfolding conserved_def sums sui_of_coin [OF coin(1)] reset(5) move_in_same [OF reset(3)] .
  qed (rule reset(5) price out)+
qed

end
