(* ===== verification/Sui_Conservation.thy ===== *)
theory Sui_Conservation
  imports Sui_Charge_Sums
begin

text \<open>
  What charging a transaction guarantees, for \<open>charge_gas\<close> and the checks of \<open>Sui_Gas_Charger\<close>.

  Every path of \<open>charge_gas\<close> (the normal one, the one that drops the effects of a failed transaction,
  and the ones on which storage cannot be paid, under both versions of the gas model) ends in a
  store that is \<open>pending\<close> and a status that is \<open>affordable\<close>. From there on one argument shows
  that the charge does not panic, takes at most the budget, and leaves a store that passes both
  conservation checks.
\<close>

section \<open>Counting SUI\<close>

text \<open>The SUI in an object can be counted.\<close>

definition countable_sui :: "layout_resolver \<Rightarrow> sui_object \<Rightarrow> bool" where
  "countable_sui layout ob \<longleftrightarrow> (case get_total_sui layout ob of Some (Inr _) \<Rightarrow> True | _ \<Rightarrow> False)"

lemma countable_sui_eq:
  "countable_sui layout ob = (case ob_data ob of
     Move m \<Rightarrow> (case move_get_total_sui layout m of Some (Inr _) \<Rightarrow> True | _ \<Rightarrow> False) | Package _ \<Rightarrow> True)"
proof (cases "ob_data ob")
  case (Move m)
  show ?thesis
  proof (cases "move_get_total_sui layout m")
    case (Some r)
    then show ?thesis using Move by (cases r) (simp_all add: countable_sui_def get_total_sui_def)
  qed (simp add: Move countable_sui_def get_total_sui_def)
qed (simp add: countable_sui_def get_total_sui_def)

lemma countable_sui_cases:
  assumes "countable_sui layout ob"
  obtains n where "get_total_sui layout ob = Some (Inr n)" "n mod u64_size = (storage_rebate ob + sui_of layout ob) mod u64_size"
proof (cases "ob_data ob")
  case (Move m)
  then obtain k where "move_get_total_sui layout m = Some (Inr k)"
    using assms by (auto simp: countable_sui_eq split: option.splits sum.splits)
  then show thesis using that Move by (simp add: get_total_sui_def sui_of_def u64_wrapping_add_def)
qed (use that in \<open>simp add: get_total_sui_def sui_of_def\<close>)

lemma countable_sui_coin: "coin_of ob oid v \<Longrightarrow> countable_sui layout ob"
  by (erule coin_of_move) (simp add: countable_sui_def get_total_sui_def move_get_total_sui_def get_coin_balances_def
    coin_type_maybe_def get_coin_value_unsafe_def)

lemma countable_sui_rebate [simp]:
  "countable_sui layout (ob\<lparr>storage_rebate := r\<rparr>) = countable_sui layout ob" "sui_of layout (ob\<lparr>storage_rebate := r\<rparr>) = sui_of layout ob"
  by (simp_all add: countable_sui_eq sui_of_def)

text \<open>The books of a store: the modified objects held what the written ones hold, and it can be counted.\<close>

definition books :: "layout_resolver \<Rightarrow> object_params \<Rightarrow> temporary_store \<Rightarrow> bool" where
  "books layout ps ts \<longleftrightarrow> conserved layout ps ts \<and> (\<forall>kv \<in> set (wr ts). countable_sui layout (snd kv))"

text \<open>The inputs can be read as they were, at the versions and with the rebates recorded for them.\<close>

definition readable :: "layout_resolver \<Rightarrow> object_params \<Rightarrow> temporary_store \<Rightarrow> objectID \<Rightarrow> bool" where
  "readable layout ps ts oid \<longleftrightarrow> (\<exists>ob m. old_object ps ts oid = Some ob \<and> meta_of ps ts oid = Some m
     \<and> object_version ob = lm_version m \<and> storage_rebate ob = lm_storage_rebate m \<and> countable_sui layout ob)"

lemma readable_same: "same_inputs ts ts' \<Longrightarrow> readable layout ps ts' = readable layout ps ts"
  using same_inputsD(5) [of ts ts' ps] by (simp add: fun_eq_iff readable_def old_object_same)

lemma readable_input:
  assumes "readable layout ps ts oid" "map_of (ts_input_objects ts) oid = Some ob"
  shows "countable_sui layout ob"
  using assms by (auto simp: readable_def old_object_def)

lemma books_price_written: "books layout ps ts \<Longrightarrow> books layout ps (price_written ps sg ts)"
proof -
  assume "books layout ps ts"
  moreover have "(\<Sum>kv \<leftarrow> wr (price_written ps sg ts). sui_of layout (snd kv)) = (\<Sum>kv \<leftarrow> wr ts. sui_of layout (snd kv))"
    by (simp add: price_written_def comp_def split_beta)
  moreover have "\<forall>kv \<in> set (wr (price_written ps sg ts)). \<exists>kv' \<in> set (wr ts). countable_sui layout (snd kv) = countable_sui layout (snd kv')"
    by (force simp: price_written_def)
  ultimately show ?thesis
    using move_in_same [OF price_written_simps(2)] by (auto simp: books_def conserved_def)
qed

text \<open>Forcing the mutable inputs into the results keeps the books.\<close>

lemma ensure_books:
  assumes "inputs_ok ts" "results_ok ps ts" "\<forall>oid \<in> refs ts. readable layout ps ts oid"
    and ensure: "same_inputs ts ts'" "results_ok ps ts'" "set (mods ts') = set (mods ts) \<union> refs ts"
      "\<And>oid. map_of (wr ts') oid = (if oid \<in> refs ts - set (mods ts) then map_of (ts_input_objects ts) oid else map_of (wr ts) oid)"
    and "books layout ps ts"
  shows "books layout ps ts'"
proof -
  let ?new = "refs ts - set (mods ts)" and ?sui = "\<lambda>m oid. sui_of layout (the (map_of m oid))"
  have wf: "bt_wf (wr ts)" "bt_wf (wr ts')" using assms(2) ensure(2) by (simp_all add: results_ok_def)
  have key: "oid \<in> fst ` set m \<longleftrightarrow> map_of m oid \<noteq> None" for oid and m :: "(objectID \<times> sui_object) list"
    by (simp add: map_of_eq_None_iff)
  have input: "map_of (ts_input_objects ts) oid \<noteq> None" if "oid \<in> refs ts" for oid
    using inputs_ok_lookup [OF assms(1) that, of ps] by (metis option.distinct(1))
  have keys: "fst ` set (wr ts') = fst ` set (wr ts) \<union> ?new"
    unfolding set_eq_iff key ensure(4) Un_iff using input by auto
  have disj: "fst ` set (wr ts) \<inter> ?new = {}" using assms(2) by (auto simp: results_ok_def)
  have "move_in layout ps ts oid = ?sui (ts_input_objects ts) oid" if "oid \<in> refs ts" for oid
    using input [OF that] by (auto simp: move_in_def old_object_def)
  then have new: "(\<Sum>oid \<in> ?new. move_in layout ps ts oid) = (\<Sum>oid \<in> ?new. ?sui (wr ts') oid)"
    by (intro sum.cong) (auto simp: ensure(4))
  have "(\<Sum>oid \<in> fst ` set (wr ts). ?sui (wr ts') oid) = (\<Sum>oid \<in> fst ` set (wr ts). ?sui (wr ts) oid)"
    using disj by (intro sum.cong) (auto simp: ensure(4))
  then have "(\<Sum>kv \<leftarrow> wr ts'. sui_of layout (snd kv)) = (\<Sum>kv \<leftarrow> wr ts. sui_of layout (snd kv)) + (\<Sum>oid \<in> ?new. ?sui (wr ts') oid)"
    unfolding sum_written [OF wf(1)] sum_written [OF wf(2)] keys using disj by (subst sum.union_disjoint) auto
  moreover have "set (mods ts') = set (mods ts) \<union> ?new" using ensure(3) by blast
  then have "(\<Sum>oid \<in> set (mods ts'). move_in layout ps ts oid) = (\<Sum>oid \<in> set (mods ts). move_in layout ps ts oid) + (\<Sum>oid \<in> ?new. move_in layout ps ts oid)"
    by (simp only:) (subst sum.union_disjoint; auto)
  moreover have "conserved layout ps ts" using assms(8) by (simp add: books_def)
  ultimately have cons: "conserved layout ps ts'" using new by (simp add: conserved_def move_in_same [OF ensure(1)])
  have "countable_sui layout (snd kv)" if kv: "kv \<in> set (wr ts')" for kv
  proof -
    have at: "map_of (wr ts') (fst kv) = Some (snd kv)" using kv bt_wf_distinct [OF wf(2)] by simp
    show ?thesis
    proof (cases "fst kv \<in> ?new")
      case True
      then show ?thesis using at readable_input assms(3) by (auto simp: ensure(4))
    next
      case False
      then have "(fst kv, snd kv) \<in> set (wr ts)" using at map_of_SomeD [of "wr ts"] by (simp only: ensure(4) if_False)
      then show ?thesis using assms(8) by (auto simp: books_def)
    qed
  qed
  then show ?thesis using cons by (simp add: books_def)
qed

section \<open>The paths of a charge\<close>

text \<open>What holds of the charger and the store on every path once the storage charges are collected.\<close>

definition charged :: "layout_resolver \<Rightarrow> object_params \<Rightarrow> gas_charger \<Rightarrow> temporary_store \<Rightarrow> nat \<Rightarrow> gas_charger \<Rightarrow> temporary_store \<Rightarrow> bool" where
  "charged layout ps gc ts v gc' ts' \<longleftrightarrow> pending ps gc' ts' (hd (coin_ids gc)) v \<and> same_terms gc gc' \<and> same_inputs ts ts'
     \<and> gc_smashed_gas_coin gc' = Some (hd (coin_ids gc)) \<and> set (mods ts') \<subseteq> set (mods ts) \<union> refs ts
     \<and> ((\<forall>oid \<in> refs ts. readable layout ps ts oid) \<and> books layout ps ts \<longrightarrow> books layout ps ts')"

text \<open>The charger pays with coins of the store, and what a reset would charge fits.\<close>

definition payer_ok :: "object_params \<Rightarrow> gas_charger \<Rightarrow> temporary_store \<Rightarrow> (objectID \<Rightarrow> nat) \<Rightarrow> bool" where
  "payer_ok ps gc ts bal \<longleftrightarrow> inputs_ok ts \<and> payment_ok gc ts bal \<and> status_ready (gc_gas_status gc) \<and> reset_fits ps gc ts bal"

lemma payer_ok_same:
  assumes "payer_ok ps gc ts bal" "same_terms gc gc'" "same_inputs ts ts'" "status_ready (gc_gas_status gc')"
  shows "payer_ok ps gc' ts' bal"
proof -
  note d = same_inputsD [OF assms(3)] and terms = assms(2) [unfolded same_terms_def]
  have "storage_price ps (gc_gas_status gc') = storage_price ps (gc_gas_status gc)"
    using terms by (simp add: storage_price_def fun_eq_iff)
  then have "reset_price ps gc' ts' = reset_price ps gc ts" "refs_rebate ps ts' = refs_rebate ps ts" "payment_total gc' bal = payment_total gc bal"
    using terms d(2,3,6) by (simp_all add: reset_price_def refs_rebate_def payment_total_def)
  then show ?thesis using assms(1,4) terms inputs_ok_same [OF assms(3)] payment_ok_same [OF assms(3), of gc' gc bal]
    by (simp add: payer_ok_def reset_fits_def)
qed

lemma reset_ready: "status_ready (gc_gas_status gc) \<Longrightarrow> status_ready (gc_gas_status (reset_charger gc))"
  by (simp add: status_ready_def gas_ok_def u64_size_def)

lemma reset_terms [simp]: "same_terms gc (reset_charger gc)" "same_terms gc (add_charges a b (reset_charger gc))"
  by (simp_all add: same_terms_def)

lemma reset_books:
  assumes "\<forall>oid \<in> refs ts. readable layout ps ts oid" "conserved layout ps ts2"
    and "\<forall>kv \<in> set (wr ts2). (\<exists>oid v. coin_of (snd kv) oid v) \<or> (\<exists>oid \<in> refs ts. map_of (ts_input_objects ts) oid = Some (snd kv))"
  shows "books layout ps ts2"
proof -
  have "countable_sui layout (snd kv)" if kv: "kv \<in> set (wr ts2)" for kv
    using bspec [OF assms(3) kv]
  proof
    assume "\<exists>oid v. coin_of (snd kv) oid v"
    then show ?thesis by (elim exE) (rule countable_sui_coin)
  next
    assume "\<exists>oid \<in> refs ts. map_of (ts_input_objects ts) oid = Some (snd kv)"
    then obtain oid where oid: "oid \<in> refs ts" "map_of (ts_input_objects ts) oid = Some (snd kv)" by (elim bexE)
    show ?thesis by (rule readable_input [OF bspec [OF assms(1) oid(1)] oid(2)])
  qed
  then show ?thesis using assms(2) by (simp add: books_def)
qed

text \<open>Dropping the effects and charging storage for the inputs only.\<close>

lemma reset_charged:
  assumes "payer_ok ps gc ts bal"
  obtains ts1 ts2 gc3 ts3 where "charger_reset gc ts = Some (reset_charger gc, ts1)" "ensure_active_inputs_mutated ts1 = Some ts2"
    "collect_storage_and_rebate ps (reset_charger gc) ts2 = Some (gc3, ts3)" "charged layout ps gc ts (payment_total gc bal) gc3 ts3"
proof -
  have ok: "inputs_ok ts" "payment_ok gc ts bal" "status_ready (gc_gas_status gc)" "reset_fits ps gc ts bal"
    using assms by (simp_all add: payer_ok_def)
  obtain ts1 ts2 where reset: "charger_reset gc ts = Some (reset_charger gc, ts1)" "ensure_active_inputs_mutated ts1 = Some ts2"
    "same_inputs ts ts2" "results_ok ps ts2" "coin_written ts2 (hd (coin_ids gc)) (payment_total gc bal)" "set (mods ts2) = refs ts"
    "input_rebate ps ts2 = refs_rebate ps ts" "written_price ps (gc_gas_status gc) ts2 = reset_price ps gc ts"
    "output_rebate ts2 + deleted_rebate ps ts2 = refs_rebate ps ts" "conserved layout ps ts2"
    "\<forall>kv \<in> set (wr ts2). (\<exists>oid v. coin_of (snd kv) oid v) \<or> (\<exists>oid \<in> refs ts. map_of (ts_input_objects ts) oid = Some (snd kv))"
    by (rule reset_store [OF ok(1,2), of ps layout])
  have "storage_price ps (gc_gas_status (reset_charger gc)) = storage_price ps (gc_gas_status gc)" by (simp add: storage_price_def fun_eq_iff)
  then have "charges_fit ps (gc_gas_status (reset_charger gc)) ts2 (payment_total gc bal)"
    using ok(4) reset(7,8) by (simp add: charges_fit_def reset_fits_def written_price_def)
  then obtain gc3 ts3 where collect: "collect_storage_and_rebate ps (reset_charger gc) ts2 = Some (gc3, ts3)"
    "pending ps gc3 ts3 (hd (coin_ids gc)) (payment_total gc bal)" "same_inputs ts2 ts3"
    "gc3 = add_charges (input_rebate ps ts2) (written_price ps (gc_gas_status (reset_charger gc)) ts2) (reset_charger gc)"
    "ts3 = price_written ps (gc_gas_status (reset_charger gc)) ts2"
    using ok(4) by (elim collect_pending [OF reset(4,5) reset_ready [OF ok(3)]]) (simp_all add: reset_fits_def)
  have "charged layout ps gc ts (payment_total gc bal) gc3 ts3"
    using collect(2) same_inputs_trans [OF reset(3) collect(3)] reset(6) reset_books [OF _ reset(10,11)] books_price_written
    unfolding charged_def collect(4,5) by simp
  then show thesis by (rule that [OF reset(1,2) collect(1)])
qed

text \<open>Dropping the effects and taking the whole budget, with no storage charge.\<close>

lemma reset_budget_charged:
  assumes "payer_ok ps gc ts bal"
  obtains ts1 ts2 gc3 where "charger_reset gc ts = Some (reset_charger gc, ts1)" "ensure_active_inputs_mutated ts1 = Some ts2"
    "collect_rebate ps ts2 ((reset_charger gc)\<lparr>gc_gas_status := adjust_computation_on_out_of_gas (gc_gas_status (reset_charger gc))\<rparr>) = Some gc3"
    "charged layout ps gc ts (payment_total gc bal) gc3 ts2" "affordable (gc_gas_status gc3)"
proof -
  let ?gc = "(reset_charger gc)\<lparr>gc_gas_status := adjust_computation_on_out_of_gas (gc_gas_status (reset_charger gc))\<rparr>"
  have ok: "inputs_ok ts" "payment_ok gc ts bal" "status_ready (gc_gas_status gc)" "reset_fits ps gc ts bal"
    using assms by (simp_all add: payer_ok_def)
  obtain ts1 ts2 where reset: "charger_reset gc ts = Some (reset_charger gc, ts1)" "ensure_active_inputs_mutated ts1 = Some ts2"
    "same_inputs ts ts2" "results_ok ps ts2" "coin_written ts2 (hd (coin_ids gc)) (payment_total gc bal)" "set (mods ts2) = refs ts"
    "input_rebate ps ts2 = refs_rebate ps ts" "written_price ps (gc_gas_status gc) ts2 = reset_price ps gc ts"
    "output_rebate ts2 + deleted_rebate ps ts2 = refs_rebate ps ts" "conserved layout ps ts2"
    "\<forall>kv \<in> set (wr ts2). (\<exists>oid v. coin_of (snd kv) oid v) \<or> (\<exists>oid \<in> refs ts. map_of (ts_input_objects ts) oid = Some (snd kv))"
    by (rule reset_store [OF ok(1,2), of ps layout])
  have terms: "same_terms gc (add_charges a 0 ?gc)" for a by (simp add: same_terms_def adjust_computation_on_out_of_gas_def)
  have deleted: "deleted_rebate ps ts2 < 2 ^ 63" "payment_total gc bal + deleted_rebate ps ts2 < u64_size"
    "sg_gas_budget (gc_gas_status gc) < 2 ^ 63" "sg_gas_budget (gc_gas_status gc) \<le> payment_total gc bal"
    using ok(4) reset(9) by (simp_all add: reset_fits_def)
  have sg: "sg_charge (gc_gas_status ?gc)" "0 < sg_storage_gas_price (gc_gas_status ?gc)"
    using ok(3) by (simp_all add: status_ready_def gas_ok_def adjust_computation_on_out_of_gas_def)
  have collect: "collect_rebate ps ts2 ?gc = Some (add_charges (deleted_rebate ps ts2) 0 ?gc)"
    using deleted(1) by (intro collect_rebate_exact [OF reset(4) sg]) (simp_all add: adjust_computation_on_out_of_gas_def u64_size_def)
  have "pending ps (add_charges (deleted_rebate ps ts2) 0 ?gc) ts2 (hd (coin_ids gc)) (payment_total gc bal)"
    using reset(4,5,7,9) ok(3) deleted
    by (simp add: pending_def balanced_def status_ready_def gas_ok_def adjust_computation_on_out_of_gas_def u64_size_def)
  then have "charged layout ps gc ts (payment_total gc bal) (add_charges (deleted_rebate ps ts2) 0 ?gc) ts2"
    using reset(3,6) terms reset_books [OF _ reset(10,11)] unfolding charged_def by simp
  moreover have "affordable (gc_gas_status (add_charges (deleted_rebate ps ts2) 0 ?gc))"
    by (simp add: affordable_def adjust_computation_on_out_of_gas_def)
  ultimately show thesis by (rule that [OF reset(1,2) collect])
qed

lemma chargedD:
  assumes "charged layout ps gc ts v gc' ts'"
  shows "pending ps gc' ts' (hd (coin_ids gc)) v" "same_terms gc gc'" "same_inputs ts ts'"
    "gc_smashed_gas_coin gc' = Some (hd (coin_ids gc))" "set (mods ts') \<subseteq> set (mods ts) \<union> refs ts" "coin_ids gc' = coin_ids gc"
    "gas_ok (gc_gas_status gc')" "status_ready (gc_gas_status gc')"
    "\<forall>oid \<in> refs ts. readable layout ps ts oid \<Longrightarrow> books layout ps ts \<Longrightarrow> books layout ps ts'"
  using assms by (simp_all add: charged_def same_terms_def pending_def status_ready_def)

lemma charged_trans:
  assumes "charged layout ps gc ts v gc' ts'" "charged layout ps gc' ts' w gc'' ts''"
  shows "charged layout ps gc ts w gc'' ts''"
proof -
  note a = chargedD [OF assms(1)] and b = chargedD [OF assms(2)]
  have same: "refs ts' = refs ts" "readable layout ps ts' = readable layout ps ts"
    using same_inputsD(3) [OF a(3)] readable_same [OF a(3)] by simp_all
  have "same_terms gc gc''" using a(2) b(2) by (simp add: same_terms_def)
  moreover have "set (mods ts'') \<subseteq> set (mods ts) \<union> refs ts" using a(5) b(5) unfolding same(1) by blast
  moreover have "books layout ps ts''" if "\<forall>oid \<in> refs ts. readable layout ps ts oid" "books layout ps ts"
    using that a(9) b(9) unfolding same by blast
  ultimately show ?thesis using b(1,4) same_inputs_trans [OF a(3) b(3)] unfolding charged_def a(6) by blast
qed

lemma charge_storage_affordable:
  "gas_ok sg \<Longrightarrow> charge_storage_and_rebate sg = Some (if affordable sg then Inr () else Inl InsufficientGas)"
  by (simp add: charge_storage_eq affordable_def)

lemma payment_total_terms: "same_terms gc gc' \<Longrightarrow> payment_total gc' bal = payment_total gc bal"
  by (simp add: payment_total_def same_terms_def)

lemma handle_v1_charged:
  assumes "payer_ok ps gc0 ts0 bal" "charged layout ps gc0 ts0 v gc ts"
  obtains gc' ts' w where "handle_storage_and_rebate_v1 ps gc ts res =
      Some (gc', ts', if affordable (gc_gas_status gc) then res else keep_error InsufficientGas res)"
    "charged layout ps gc0 ts0 w gc' ts'" "affordable (gc_gas_status gc')" "w = v \<or> w = payment_total gc0 bal"
proof (cases "affordable (gc_gas_status gc)")
  case True
  then show thesis using that [of gc ts v] assms(2) charge_storage_affordable [OF chargedD(7) [OF assms(2)]]
    by (simp add: handle_storage_and_rebate_v1_def)
next
  case False
  note c = chargedD [OF assms(2)]
  obtain ts1 ts2 gc3 where reset: "charger_reset gc ts = Some (reset_charger gc, ts1)" "ensure_active_inputs_mutated ts1 = Some ts2"
    "collect_rebate ps ts2 ((reset_charger gc)\<lparr>gc_gas_status := adjust_computation_on_out_of_gas (gc_gas_status (reset_charger gc))\<rparr>) = Some gc3"
    "charged layout ps gc ts (payment_total gc bal) gc3 ts2" "affordable (gc_gas_status gc3)"
    by (rule reset_budget_charged [OF payer_ok_same [OF assms(1) c(2,3,8)]])
  show thesis using that [OF _ charged_trans [OF assms(2) reset(4)] reset(5)] False payment_total_terms [OF c(2)] charge_storage_affordable [OF c(7)] reset(1-3)
    by (simp add: handle_storage_and_rebate_v1_def)
qed

lemma handle_v2_charged:
  assumes "payer_ok ps gc0 ts0 bal" "charged layout ps gc0 ts0 v gc ts"
  obtains gc' ts' w where "handle_storage_and_rebate_v2 ps gc ts res =
      Some (gc', ts', if affordable (gc_gas_status gc) then res else keep_error InsufficientGas res)"
    "charged layout ps gc0 ts0 w gc' ts'" "affordable (gc_gas_status gc')" "w = v \<or> w = payment_total gc0 bal"
proof (cases "affordable (gc_gas_status gc)")
  case True
  then show thesis using that [of gc ts v] assms(2) charge_storage_affordable [OF chargedD(7) [OF assms(2)]]
    by (simp add: handle_storage_and_rebate_v2_def)
next
  case False
  note c = chargedD [OF assms(2)]
  obtain ts1 ts2 gc3 ts3 where reset: "charger_reset gc ts = Some (reset_charger gc, ts1)" "ensure_active_inputs_mutated ts1 = Some ts2"
    "collect_storage_and_rebate ps (reset_charger gc) ts2 = Some (gc3, ts3)" "charged layout ps gc ts (payment_total gc bal) gc3 ts3"
    by (rule reset_charged [OF payer_ok_same [OF assms(1) c(2,3,8)]])
  note again = charged_trans [OF assms(2) reset(4)]
  note d = chargedD [OF again]
  note eval = charge_storage_affordable [OF c(7)] charge_storage_affordable [OF d(7)] reset(1-3)
  show thesis
  proof (cases "affordable (gc_gas_status gc3)")
    case True
    then show thesis using that [OF _ again True] False payment_total_terms [OF c(2)] eval by (simp add: handle_storage_and_rebate_v2_def)
  next
    case False': False
    obtain ts4 ts5 gc5 where budget: "charger_reset gc3 ts3 = Some (reset_charger gc3, ts4)" "ensure_active_inputs_mutated ts4 = Some ts5"
      "collect_rebate ps ts5 ((reset_charger gc3)\<lparr>gc_gas_status := adjust_computation_on_out_of_gas (gc_gas_status (reset_charger gc3))\<rparr>) = Some gc5"
      "charged layout ps gc3 ts3 (payment_total gc3 bal) gc5 ts5" "affordable (gc_gas_status gc5)"
      by (rule reset_budget_charged [OF payer_ok_same [OF assms(1) d(2,3,8)]])
    show thesis using that [OF _ charged_trans [OF again budget(4)] budget(5)] False False' payment_total_terms [OF d(2)] eval budget(1-3)
      by (simp add: handle_storage_and_rebate_v2_def)
  qed
qed

text \<open>The gas coin after the execution: written with a balance, or left alone.\<close>

definition gas_coin_left :: "temporary_store \<Rightarrow> objectID \<Rightarrow> nat \<Rightarrow> nat \<Rightarrow> bool" where
  "gas_coin_left ts g before after \<longleftrightarrow> coin_written ts g after \<or> g \<notin> set (mods ts) \<and> after = before"

text \<open>A transaction that can be charged: the payment was smashed and covers the budget, storage was not
  charged yet, the computation can be closed, and the amounts fit on the path that keeps the effects
  (in the store with its inputs forced) and on those that drop them.\<close>

definition chargeable :: "object_params \<Rightarrow> gas_charger \<Rightarrow> temporary_store \<Rightarrow> (objectID \<Rightarrow> nat) \<Rightarrow> nat \<Rightarrow> bool" where
  "chargeable ps gc ts bal v \<longleftrightarrow> (let sg = gc_gas_status gc in
     inputs_ok ts \<and> results_ok ps ts \<and> payment_ok gc ts bal \<and> gc_smashed_gas_coin gc = Some (hd (coin_ids gc))
     \<and> sg_charge sg \<and> sg_rebate_rate sg \<le> BASIS_POINTS \<and> 0 < sg_storage_gas_price sg \<and> sg_storage_cost sg = 0 \<and> sg_storage_rebate sg = 0
     \<and> bucketize_computation sg \<noteq> None \<and> reset_fits ps gc ts bal
     \<and> gas_coin_left ts (hd (coin_ids gc)) (bal (hd (coin_ids gc))) v \<and> sg_gas_budget sg \<le> v
     \<and> charges_fit ps sg (the (ensure_active_inputs_mutated ts)) v)"

lemma bucketize_terms:
  assumes "bucketize_computation sg = Some (b, sg')"
  obtains c where "sg' = sg\<lparr>sg_computation_cost := c\<rparr>" "c \<le> sg_gas_budget sg" "b = Inr () \<or> b = Inl InsufficientGas"
  using assms unfolding bucketize_computation_def Let_def
proof (elim bind_eq_SomeE)
  fix used assume "Some (if sg_gas_budget sg \<le> used then (Inl InsufficientGas, sg\<lparr>sg_computation_cost := sg_gas_budget sg\<rparr>)
           else (Inr (), sg\<lparr>sg_computation_cost := used\<rparr>)) = Some (b, sg')"
  then show thesis using that [of "sg_gas_budget sg"] that [of used] by (cases "sg_gas_budget sg \<le> used") auto
qed

lemma normal_charged:
  assumes "inputs_ok ts" "results_ok ps ts" "payment_ok gc ts bal" "gc_smashed_gas_coin gc = Some (hd (coin_ids gc))"
    and "status_ready (gc_gas_status gc)" "sg_storage_cost (gc_gas_status gc) = 0" "sg_storage_rebate (gc_gas_status gc) = 0"
    and "gas_coin_left ts (hd (coin_ids gc)) (bal (hd (coin_ids gc))) v" "sg_gas_budget (gc_gas_status gc) \<le> v"
    and "charges_fit ps (gc_gas_status gc) (the (ensure_active_inputs_mutated ts)) v"
  obtains ts1 gc2 ts2 where "ensure_active_inputs_mutated ts = Some ts1" "collect_storage_and_rebate ps gc ts1 = Some (gc2, ts2)"
    "charged layout ps gc ts v gc2 ts2"
proof -
  let ?g = "hd (coin_ids gc)"
  obtain ts1 where ensure: "ensure_active_inputs_mutated ts = Some ts1" "same_inputs ts ts1" "results_ok ps ts1"
    "set (mods ts1) = set (mods ts) \<union> refs ts"
    "\<And>oid. map_of (wr ts1) oid = (if oid \<in> refs ts - set (mods ts) then map_of (ts_input_objects ts) oid else map_of (wr ts) oid)"
    by (rule ensure_exact [OF assms(1,2)]) blast
  note g = payment_coin(2,7) [OF assms(3)]
  obtain coin where coin: "map_of (ts_input_objects ts) ?g = Some coin" "coin_of coin ?g (bal ?g)" using g(2) by blast
  have written: "coin_written ts1 ?g v"
  proof (cases "?g \<in> set (mods ts)")
    case True
    then show ?thesis using assms(8) ensure(4) unfolding coin_written_def gas_coin_left_def ensure(5) by simp
  next
    case False
    then have "map_of (wr ts1) ?g = Some coin" using coin(1) g(1) unfolding ensure(5) by simp
    moreover have "v = bal ?g" using False assms(8) by (simp add: gas_coin_left_def coin_written_def)
    ultimately show ?thesis using coin(2) g(1) ensure(4) by (simp add: coin_written_def)
  qed
  have fit: "charges_fit ps (gc_gas_status gc) ts1 v" using assms(10) ensure(1) by simp
  obtain gc2 ts2 where collect: "collect_storage_and_rebate ps gc ts1 = Some (gc2, ts2)" "pending ps gc2 ts2 ?g v" "same_inputs ts1 ts2"
    "gc2 = add_charges (input_rebate ps ts1) (written_price ps (gc_gas_status gc) ts1) gc" "ts2 = price_written ps (gc_gas_status gc) ts1"
    by (rule collect_pending [OF ensure(3) written assms(5) fit assms(7,6,9)])
  have keep: "books layout ps ts2" if "Ball (refs ts) (readable layout ps ts)" "books layout ps ts"
    unfolding collect(5) by (intro books_price_written ensure_books [OF assms(1,2) that(1) ensure(2-5) that(2)])
  have "same_terms gc gc2" "gc_smashed_gas_coin gc2 = Some ?g" "set (mods ts2) \<subseteq> set (mods ts) \<union> refs ts"
    using assms(4) ensure(4) by (simp_all add: same_terms_def collect(4,5))
  then have "charged layout ps gc ts v gc2 ts2"
    unfolding charged_def using collect(2) same_inputs_trans [OF ensure(2) collect(3)] keep by simp
  then show thesis by (rule that [OF ensure(1) collect(1)])
qed

text \<open>Deducting the charge from the gas coin.\<close>

lemma deduct_charged:
  assumes "charged layout ps gc0 ts0 v gc ts" "affordable (gc_gas_status gc)"
  obtains cs net coin coin' w where "gas_summary (gc_gas_status gc) = Some cs" "net_gas_usage cs = Some net"
    "read_object (hd (coin_ids gc0)) ts = Some coin" "map_of (wr ts) (hd (coin_ids gc0)) = Some coin" "coin_of coin (hd (coin_ids gc0)) v"
    "deduct_gas net coin = Some coin'" "mutate_input_object coin' ts = Some (write_modified (hd (coin_ids gc0)) coin' ts)"
    "coin_of coin' (hd (coin_ids gc0)) w" "int w = int v - net" "storage_rebate coin' = storage_rebate coin" "net \<le> int (sg_gas_budget (gc_gas_status gc))"
    "net = int (cs_computation_cost cs) + int (cs_storage_cost cs) - int (cs_storage_rebate cs)"
    "cs_storage_cost cs = sg_storage_cost (gc_gas_status gc)" "cs_storage_rebate cs + cs_non_refundable_storage_fee cs = sg_storage_rebate (gc_gas_status gc)"
proof -
  let ?g = "hd (coin_ids gc0)" and ?sg = "gc_gas_status gc"
  note c = chargedD [OF assms(1)]
  note p = c(1) [unfolded pending_def]
  obtain cs where cs: "gas_summary ?sg = Some cs" "cs_computation_cost cs = sg_computation_cost ?sg" "cs_storage_cost cs = sg_storage_cost ?sg"
    "cs_storage_rebate cs + cs_non_refundable_storage_fee cs = sg_storage_rebate ?sg"
    "cs_storage_rebate cs = sender_rebate (sg_storage_rebate ?sg) (sg_rebate_rate ?sg)"
    by (rule gas_summary_eq [OF c(7)])
  let ?net = "int (cs_computation_cost cs) + int (cs_storage_cost cs) - int (cs_storage_rebate cs)"
  have fit: "cs_computation_cost cs + cs_storage_cost cs < 2 ^ 63" "cs_storage_rebate cs < 2 ^ 63" "v + cs_storage_rebate cs < u64_size"
    "sg_gas_budget ?sg \<le> v" using p cs(2-4) by linarith+
  have net: "net_gas_usage cs = Some ?net" by (rule net_gas_usage_eq [OF fit(1,2)])
  have budget: "?net \<le> int (sg_gas_budget ?sg)" using assms(2) cs(2,3,5) by (simp add: affordable_def)
  obtain coin where coin: "map_of (wr ts) ?g = Some coin" "coin_of coin ?g v" using p by (auto simp: coin_written_def)
  have bounds: "?net \<le> int v" "int v - ?net < int u64_size" using budget fit(3,4) by linarith+
  obtain coin' w where ded: "deduct_gas ?net coin = Some coin'" "coin_of coin' ?g w" "int w = int v - ?net"
    "storage_rebate coin' = storage_rebate coin" "ob_owner coin' = ob_owner coin" "object_version coin' = object_version coin"
    by (rule deduct_gas_exact [OF coin(2) bounds])
  show thesis
    by (rule that [OF cs(1) net _ coin ded(1) _ ded(2,3,4) budget refl cs(3,4)])
      (use coin(1) ded(2) in \<open>simp_all add: read_object_def mutate_input_object_def\<close>)
qed

section \<open>The sums of the conservation checks\<close>

abbreviation (input) opt_sum :: "('a \<Rightarrow> nat) \<Rightarrow> 'a option \<Rightarrow> nat" where
  "opt_sum f x \<equiv> (case x of Some y \<Rightarrow> f y | None \<Rightarrow> 0)"

lemma foldl_wrapping_opt:
  assumes "s < u64_size"
  shows "foldl (\<lambda>s x. case g x of Some y \<Rightarrow> u64_wrapping_add s (f y) | None \<Rightarrow> s) s xs = (s + (\<Sum>x \<leftarrow> xs. opt_sum f (g x))) mod u64_size"
  using assms
proof (induction xs arbitrary: s)
  case (Cons x xs)
  have "u64_wrapping_add s (f y) < u64_size" for y by (simp add: u64_wrapping_add_def u64_size_def)
  then show ?case using Cons by (cases "g x") (simp_all add: u64_wrapping_add_def mod_add_left_eq add.assoc)
qed simp

text \<open>The objects that were modified and the new ones are all that was written, each counted once.\<close>

lemma modified_output_sum:
  fixes f :: "sui_object \<Rightarrow> nat"
  assumes "finite M" "distinct (map fst m)"
  shows "(\<Sum>oid \<in> M. opt_sum f (map_of m oid)) + (\<Sum>kv \<leftarrow> filter (\<lambda>(oid, _). oid \<notin> M) m. f (snd kv)) = (\<Sum>kv \<leftarrow> m. f (snd kv))"
  using assms(2)
proof (induction m)
  case (Cons kv m)
  obtain k ob where kv: "kv = (k, ob)" by (cases kv)
  have k: "map_of m k = None" using Cons.prems kv by (simp add: map_of_eq_None_iff)
  have rest: "(\<Sum>oid \<in> M - {k}. opt_sum f (map_of (kv # m) oid)) = (\<Sum>oid \<in> M - {k}. opt_sum f (map_of m oid))"
    by (intro sum.cong) (auto simp: kv)
  have "(\<Sum>oid \<in> M. opt_sum f (map_of (kv # m) oid)) = (if k \<in> M then f ob else 0) + (\<Sum>oid \<in> M. opt_sum f (map_of m oid))"
    using sum.remove [OF assms(1), of k "\<lambda>oid. opt_sum f (map_of (kv # m) oid)"] rest
      sum.remove [OF assms(1), of k "\<lambda>oid. opt_sum f (map_of m oid)"] k by (cases "k \<in> M") (simp_all add: kv)
  then show ?case using Cons by (simp add: kv)
qed simp

lemma get_modified_objects_eq:
  assumes "results_ok ps ts"
  shows "get_modified_objects ps ts = Some (map (\<lambda>oid. (oid, meta_of ps ts oid, map_of (wr ts) oid)) (mods ts)
    @ map (\<lambda>(oid, ob). (oid, None, Some ob)) (filter (\<lambda>(oid, _). oid \<notin> set (mods ts)) (wr ts)))"
proof -
  have "those (map (\<lambda>oid. map_option (\<lambda>meta. (oid, meta, map_of (wr ts) oid)) (get_object_modified_at ps oid ts)) (mods ts))
      = Some (map (\<lambda>oid. (oid, meta_of ps ts oid, map_of (wr ts) oid)) (mods ts))"
    using assms by (intro those_eq_map) (auto simp: get_object_modified_at_eq results_ok_def)
  then show ?thesis by (simp add: get_modified_objects_def Let_def)
qed

lemma modified_sums:
  fixes f :: "sui_object \<Rightarrow> nat"
  assumes "results_ok ps ts" "get_modified_objects ps ts = Some infos"
  shows "(\<Sum>info \<leftarrow> infos. opt_sum (\<lambda>m. lm_storage_rebate m + g (fst info)) (fst (snd info))) = (\<Sum>oid \<in> set (mods ts). in_rebate ps ts oid + g oid)"
    and "(\<Sum>info \<leftarrow> infos. opt_sum f (snd (snd info))) = (\<Sum>kv \<leftarrow> wr ts. f (snd kv))"
proof -
  have infos: "infos = map (\<lambda>oid. (oid, meta_of ps ts oid, map_of (wr ts) oid)) (mods ts)
    @ map (\<lambda>(oid, ob). (oid, None, Some ob)) (filter (\<lambda>(oid, _). oid \<notin> set (mods ts)) (wr ts))"
    using assms(2) get_modified_objects_eq [OF assms(1)] by simp
  have wf: "distinct (mods ts)" "distinct (map fst (wr ts))" using assms(1) by (simp_all add: results_ok_def strict_sorted_iff bt_wf_distinct)
  have none: "(\<Sum>info \<leftarrow> map (\<lambda>(oid, ob). (oid, None, Some ob)) xs. opt_sum (\<lambda>m. lm_storage_rebate m + g (fst info)) (fst (snd info))) = 0"
    and some: "(\<Sum>info \<leftarrow> map (\<lambda>(oid, ob). (oid, None, Some ob)) xs. opt_sum f (snd (snd info))) = (\<Sum>kv \<leftarrow> xs. f (snd kv))"
    for xs :: "(objectID \<times> sui_object) list" by (induction xs) auto
  have "(\<Sum>info \<leftarrow> infos. opt_sum (\<lambda>m. lm_storage_rebate m + g (fst info)) (fst (snd info)))
      = (\<Sum>oid \<leftarrow> mods ts. opt_sum (\<lambda>m. lm_storage_rebate m + g oid) (meta_of ps ts oid))"
    unfolding infos map_append sum_list_append none by (simp add: comp_def cong: option.case_cong)
  also have "\<dots> = (\<Sum>oid \<in> set (mods ts). in_rebate ps ts oid + g oid)"
    unfolding sum_list_distinct_conv_sum_set [OF wf(1)] using assms(1)
    by (intro sum.cong) (auto simp: in_rebate_def results_ok_def split: option.splits)
  finally show "(\<Sum>info \<leftarrow> infos. opt_sum (\<lambda>m. lm_storage_rebate m + g (fst info)) (fst (snd info))) = (\<Sum>oid \<in> set (mods ts). in_rebate ps ts oid + g oid)" .
  show "(\<Sum>info \<leftarrow> infos. opt_sum f (snd (snd info))) = (\<Sum>kv \<leftarrow> wr ts. f (snd kv))"
    unfolding infos map_append sum_list_append some modified_output_sum [OF finite_set wf(2), of f "mods ts", symmetric]
    using sum_list_distinct_conv_sum_set [OF wf(1), of "\<lambda>oid. opt_sum f (map_of (wr ts) oid)"] by (simp add: comp_def)
qed

lemma check_sui_conserved_balanced:
  assumes "results_ok ps ts" "cs_storage_cost cs < u64_size"
    and "input_rebate ps ts = cs_storage_rebate cs + cs_non_refundable_storage_fee cs \<and> output_rebate ts = cs_storage_cost cs
      \<or> cs_storage_cost cs = 0 \<and> input_rebate ps ts = output_rebate ts + cs_storage_rebate cs + cs_non_refundable_storage_fee cs"
  shows "check_sui_conserved ps True cs ts = Some (Inr ())"
proof -
  obtain infos where infos: "get_modified_objects ps ts = Some infos" using get_modified_objects_eq [OF assms(1)] by blast
  have zero: "0 < u64_size" by (simp add: u64_size_def)
  have inputs: "foldl (\<lambda>s (_, input, _). case input of Some m \<Rightarrow> u64_wrapping_add s (lm_storage_rebate m) | None \<Rightarrow> s) 0 infos = input_rebate ps ts mod u64_size"
    using foldl_wrapping_opt [OF zero, of lm_storage_rebate "\<lambda>info. fst (snd info)" infos] modified_sums(1) [OF assms(1) infos, of "\<lambda>_. 0"]
    by (simp add: case_prod_unfold input_rebate_def cong: option.case_cong)
  have outputs: "foldl (\<lambda>s (_, _, output). case output of Some ob \<Rightarrow> u64_wrapping_add s (storage_rebate ob) | None \<Rightarrow> s) 0 infos = output_rebate ts mod u64_size"
    using foldl_wrapping_opt [OF zero, of storage_rebate "\<lambda>info. snd (snd info)" infos] modified_sums(2) [OF assms(1) infos, of storage_rebate]
    by (simp add: case_prod_unfold output_rebate_def)
  have wrap: "u64_wrapping_add (u64_wrapping_add (a mod u64_size) b) c = (a + b + c) mod u64_size" for a b c
    by (simp add: u64_wrapping_add_def mod_simps)
  show ?thesis
  proof (cases "cs_storage_cost cs = 0")
    case True
    then have "input_rebate ps ts = output_rebate ts + cs_storage_rebate cs + cs_non_refundable_storage_fee cs" using assms(3) by auto
    then show ?thesis by (simp add: check_sui_conserved_def infos inputs outputs True wrap)
  next
    case False
    then have "input_rebate ps ts = cs_storage_rebate cs + cs_non_refundable_storage_fee cs" "output_rebate ts = cs_storage_cost cs" using assms(3) by auto
    then show ?thesis using False assms(2) by (simp add: check_sui_conserved_def infos inputs outputs u64_wrapping_add_def [of "cs_storage_rebate cs"])
  qed
qed

lemma get_input_sui_readable:
  assumes "readable layout ps ts oid" "meta_of ps ts oid = Some m"
  obtains n where "get_input_sui layout oid (lm_version m) ts = Some (Inr n)"
    "n mod u64_size = (lm_storage_rebate m + move_in layout ps ts oid) mod u64_size"
proof -
  obtain ob where ob: "old_object ps ts oid = Some ob" "object_version ob = lm_version m" "storage_rebate ob = lm_storage_rebate m" "countable_sui layout ob"
    using assms by (auto simp: readable_def)
  obtain n where n: "get_total_sui layout ob = Some (Inr n)" "n mod u64_size = (storage_rebate ob + sui_of layout ob) mod u64_size"
    by (rule countable_sui_cases [OF ob(4)])
  have "get_input_sui layout oid (lm_version m) ts = Some (Inr n)"
    using ob(1,2) n(1) assms(2) by (auto simp: get_input_sui_def old_object_def split: option.splits sum.splits)
  then show thesis using that n(2) ob(1,3) by (simp add: move_in_def)
qed

lemma sum_modified_sui_eq:
  assumes "\<forall>(oid, input, output) \<in> set infos. (\<forall>m. input = Some m \<longrightarrow> readable layout ps ts oid \<and> meta_of ps ts oid = Some m)
      \<and> (\<forall>ob. output = Some ob \<longrightarrow> countable_sui layout ob)"
    and "a < u64_size" "b < u64_size"
  shows "sum_modified_sui layout ts infos (a, b) = Some (Inr (
    (a + (\<Sum>info \<leftarrow> infos. opt_sum (\<lambda>m. lm_storage_rebate m + move_in layout ps ts (fst info)) (fst (snd info)))) mod u64_size,
    (b + (\<Sum>info \<leftarrow> infos. opt_sum (\<lambda>ob. storage_rebate ob + sui_of layout ob) (snd (snd info)))) mod u64_size))"
  using assms
proof (induction infos arbitrary: a b)
  case (Cons info infos)
  obtain oid inp outp where info: "info = (oid, inp, outp)" by (cases info)
  let ?in = "opt_sum (\<lambda>m. lm_storage_rebate m + move_in layout ps ts oid) inp" and ?out = "opt_sum (\<lambda>ob. storage_rebate ob + sui_of layout ob) outp"
  obtain i where i: "(case inp of Some m \<Rightarrow> get_input_sui layout oid (lm_version m) ts | None \<Rightarrow> Some (Inr 0)) = Some (Inr i)" "i mod u64_size = ?in mod u64_size"
  proof (cases inp)
    case (Some m)
    then have "readable layout ps ts oid" "meta_of ps ts oid = Some m" using Cons.prems(1) info by auto
    then show thesis by (rule get_input_sui_readable) (use that Some in simp)
  qed (use that in simp)
  obtain n where n: "(case outp of
             Some ob \<Rightarrow> map_option (map_sum (\<lambda>_. InvariantViolation ''Failed looking up output SUI'') (\<lambda>v. v)) (get_total_sui layout ob)
           | None \<Rightarrow> Some (Inr 0)) = Some (Inr n)" "n mod u64_size = ?out mod u64_size"
  proof (cases outp)
    case (Some ob)
    then have "countable_sui layout ob" using Cons.prems(1) info by auto
    then show thesis by (rule countable_sui_cases) (use that Some in simp)
  qed (use that in simp)
  have lt: "u64_wrapping_add x y < u64_size" for x y by (simp add: u64_wrapping_add_def u64_size_def)
  have step: "(u64_wrapping_add x y + z) mod u64_size = (x + (y' + z)) mod u64_size" if "y mod u64_size = y' mod u64_size" for x y y' z
  proof -
    have "(x + y + z) mod u64_size = (x + y' + z) mod u64_size" using that by (metis mod_add_left_eq mod_add_right_eq)
    then show ?thesis by (simp only: u64_wrapping_add_def mod_add_left_eq add.assoc)
  qed
  have "sum_modified_sui layout ts (info # infos) (a, b) = sum_modified_sui layout ts infos (u64_wrapping_add a i, u64_wrapping_add b n)"
    using i(1) n(1) by (simp add: info)
  moreover have "\<forall>(oid, input, output) \<in> set infos. (\<forall>m. input = Some m \<longrightarrow> readable layout ps ts oid \<and> meta_of ps ts oid = Some m)
      \<and> (\<forall>ob. output = Some ob \<longrightarrow> countable_sui layout ob)" using Cons.prems(1) by simp
  ultimately show ?case using Cons.IH [OF _ lt lt, of a i b n] step [OF i(2)] step [OF n(2)]
    by (simp only: info list.map sum_list.Cons fst_conv snd_conv simp_thms)
qed simp

lemma check_expensive_balanced:
  assumes "results_ok ps ts" "\<forall>oid \<in> set (mods ts). readable layout ps ts oid" "\<forall>kv \<in> set (wr ts). countable_sui layout (snd kv)"
    and "(\<Sum>oid \<in> set (mods ts). in_rebate ps ts oid + move_in layout ps ts oid)
      = (\<Sum>kv \<leftarrow> wr ts. storage_rebate (snd kv) + sui_of layout (snd kv)) + cs_computation_cost cs + cs_non_refundable_storage_fee cs"
  shows "check_sui_conserved_expensive ps layout cs None ts = Some (Inr ())"
proof -
  obtain infos where infos: "get_modified_objects ps ts = Some infos" using get_modified_objects_eq [OF assms(1)] by blast
  have zero: "0 < u64_size" by (simp add: u64_size_def)
  have count: "countable_sui layout ob" if "(oid, ob) \<in> set (wr ts)" for oid ob using bspec [OF assms(3) that] by simp
  have "\<forall>(oid, input, output) \<in> set infos. (\<forall>m. input = Some m \<longrightarrow> readable layout ps ts oid \<and> meta_of ps ts oid = Some m)
      \<and> (\<forall>ob. output = Some ob \<longrightarrow> countable_sui layout ob)"
    using assms(2) infos get_modified_objects_eq [OF assms(1)] by (auto dest!: map_of_SomeD map_of_SomeD [OF sym] count)
  note sums = sum_modified_sui_eq [OF this zero zero] modified_sums(1) [OF assms(1) infos, of "move_in layout ps ts"]
    modified_sums(2) [OF assms(1) infos, of "\<lambda>ob. storage_rebate ob + sui_of layout ob"]
  have "(i mod u64_size = u64_wrapping_add (k mod u64_size) (u64_wrapping_add c f)) = (i mod u64_size = (k + c + f) mod u64_size)" for i k c f
    by (simp add: u64_wrapping_add_def mod_simps add.assoc)
  then show ?thesis using sums assms(4) by (simp add: check_sui_conserved_expensive_def infos)
qed

section \<open>Charging never fails and conserves SUI\<close>

lemma charged_base:
  assumes "same_terms gc gc1" "charged layout ps gc1 ts v gc' ts'"
  shows "charged layout ps gc ts v gc' ts'"
  using assms by (simp add: charged_def same_terms_def)

lemma charge_gas_charged:
  assumes "chargeable ps gc ts bal v"
  obtains gc' ts2 w res' where "charge_gas ps gc ts res = do {
      cs \<leftarrow> gas_summary (gc_gas_status gc'); gas_used \<leftarrow> net_gas_usage cs; gas_object \<leftarrow> read_object (hd (coin_ids gc)) ts2;
      gas_object \<leftarrow> deduct_gas gas_used gas_object; ts' \<leftarrow> mutate_input_object gas_object ts2; Some (cs, gc', ts', res') }"
    "charged layout ps gc ts w gc' ts2" "affordable (gc_gas_status gc')" "w = v \<or> w = payment_total gc bal" "isl res \<longrightarrow> res' = res"
proof -
  note ok = assms [unfolded chargeable_def Let_def]
  obtain b sg1 where bucket: "bucketize_computation (gc_gas_status gc) = Some (b, sg1)" using ok by auto
  obtain c where c: "sg1 = (gc_gas_status gc)\<lparr>sg_computation_cost := c\<rparr>" "c \<le> sg_gas_budget (gc_gas_status gc)" by (rule bucketize_terms [OF bucket])
  let ?gc = "gc\<lparr>gc_gas_status := sg1\<rparr>" and ?g = "hd (coin_ids gc)"
  let ?res = "case b of Inl err \<Rightarrow> keep_error err res | Inr _ \<Rightarrow> res"
  have terms: "same_terms gc ?gc" by (simp add: same_terms_def c)
  have ready: "status_ready (gc_gas_status ?gc)" using ok c by (simp add: status_ready_def gas_ok_def u64_size_def)
  have price: "storage_price ps sg1 = storage_price ps (gc_gas_status gc)" by (simp add: storage_price_def fun_eq_iff c)
  have payer: "payer_ok ps ?gc ts bal"
    using ok ready price by (simp add: payer_ok_def payment_ok_def reset_fits_def reset_price_def payment_total_def c(1))
  obtain gc1 ts0 ts1 gc2 ts2 x where path: "(if isl ?res then charger_reset ?gc ts else Some (?gc, ts)) = Some (gc1, ts0)"
    "ensure_active_inputs_mutated ts0 = Some ts1" "collect_storage_and_rebate ps gc1 ts1 = Some (gc2, ts2)"
    "charged layout ps ?gc ts x gc2 ts2" "x = v \<or> x = payment_total gc bal"
  proof (cases "isl ?res")
    case True
    obtain u1 u2 gc3 u3 where "charger_reset ?gc ts = Some (reset_charger ?gc, u1)" "ensure_active_inputs_mutated u1 = Some u2"
      "collect_storage_and_rebate ps (reset_charger ?gc) u2 = Some (gc3, u3)" "charged layout ps ?gc ts (payment_total ?gc bal) gc3 u3"
      by (rule reset_charged [OF payer])
    then show thesis using that True payment_total_terms [OF terms] by simp
  next
    case False
    have pre: "payment_ok ?gc ts bal" "gc_smashed_gas_coin ?gc = Some (hd (coin_ids ?gc))" "sg_storage_cost (gc_gas_status ?gc) = 0"
      "sg_storage_rebate (gc_gas_status ?gc) = 0" "gas_coin_left ts (hd (coin_ids ?gc)) (bal (hd (coin_ids ?gc))) v"
      "sg_gas_budget (gc_gas_status ?gc) \<le> v" "charges_fit ps (gc_gas_status ?gc) (the (ensure_active_inputs_mutated ts)) v"
      using ok price by (simp_all add: c(1) payment_ok_def charges_fit_def written_price_def)
    obtain u1 gc2 u2 where "ensure_active_inputs_mutated ts = Some u1" "collect_storage_and_rebate ps ?gc u1 = Some (gc2, u2)"
      "charged layout ps ?gc ts v gc2 u2"
      using ok by (elim conjE normal_charged [OF _ _ pre(1,2) ready pre(3-7)])
    then show thesis using that False by simp
  qed
  have smashed: "gc_smashed_gas_coin gc2 = Some ?g" using chargedD(4) [OF path(4)] by simp
  obtain gc' ts' w where handle: "(if dont_charge_budget_on_storage_oog (gc_gas_model_version gc2)
      then handle_storage_and_rebate_v2 ps gc2 ts2 ?res else handle_storage_and_rebate_v1 ps gc2 ts2 ?res)
      = Some (gc', ts', if affordable (gc_gas_status gc2) then ?res else keep_error InsufficientGas ?res)"
    "charged layout ps ?gc ts w gc' ts'" "affordable (gc_gas_status gc')" "w = v \<or> w = payment_total gc bal"
  proof (cases "dont_charge_budget_on_storage_oog (gc_gas_model_version gc2)")
    case True
    show thesis by (rule handle_v2_charged [OF payer path(4), of ?res]) (use that True path(5) payment_total_terms [OF terms] in auto)
  next
    case False
    show thesis by (rule handle_v1_charged [OF payer path(4), of ?res]) (use that False path(5) payment_total_terms [OF terms] in auto)
  qed
  show thesis
  proof (rule that [OF _ charged_base [OF terms handle(2)] handle(3,4)])
    show "charge_gas ps gc ts res = do {
      cs \<leftarrow> gas_summary (gc_gas_status gc'); gas_used \<leftarrow> net_gas_usage cs; gas_object \<leftarrow> read_object ?g ts';
      gas_object \<leftarrow> deduct_gas gas_used gas_object; ts' \<leftarrow> mutate_input_object gas_object ts';
      Some (cs, gc', ts', if affordable (gc_gas_status gc2) then ?res else keep_error InsufficientGas ?res) }"
      using ok unfolding charge_gas_def by (simp add: bucket path(1-3) smashed handle(1))
    show "isl res \<longrightarrow> (if affordable (gc_gas_status gc2) then ?res else keep_error InsufficientGas ?res) = res"
      by (auto simp: keep_error_def isl_def split: sum.splits)
  qed
qed

lemma sum_bt_insert:
  fixes f :: "'v \<Rightarrow> nat"
  assumes "bt_wf m" "map_of m k = Some c"
  shows "(\<Sum>kv \<leftarrow> bt_insert k c' m. f (snd kv)) + f c = (\<Sum>kv \<leftarrow> m. f (snd kv)) + f c'"
  using assms
proof (induction k c' m rule: bt_insert.induct)
  case (2 k c' k' v' m)
  have "\<not> (k < k' \<and> (k, c) \<in> set m)" using 2(2) by (auto dest: bspec)
  then show ?case using 2 by (auto dest!: map_of_SomeD)
qed simp

text \<open>The store after the charge was deducted from the gas coin.\<close>

lemma deducted_store:
  assumes "charged layout ps gc ts v gc' ts2" "map_of (wr ts2) (hd (coin_ids gc)) = Some coin" "coin_of coin (hd (coin_ids gc)) v"
    and "coin_of coin' (hd (coin_ids gc)) w" "storage_rebate coin' = storage_rebate coin"
  defines "ts' \<equiv> write_modified (hd (coin_ids gc)) coin' ts2"
  shows "results_ok ps ts'" "same_inputs ts ts'" "set (mods ts') \<subseteq> set (mods ts) \<union> refs ts" "input_rebate ps ts' = input_rebate ps ts2"
    "output_rebate ts' = output_rebate ts2" "map_of (wr ts') (hd (coin_ids gc)) = Some coin'"
    "(\<Sum>kv \<leftarrow> wr ts'. sui_of layout (snd kv)) + v = (\<Sum>kv \<leftarrow> wr ts2. sui_of layout (snd kv)) + w"
    "set (mods ts') = set (mods ts2)" "\<forall>kv \<in> set (wr ts2). countable_sui layout (snd kv) \<Longrightarrow> \<forall>kv \<in> set (wr ts'). countable_sui layout (snd kv)"
proof -
  let ?g = "hd (coin_ids gc)"
  note c = chargedD [OF assms(1)]
  have g: "?g \<in> set (mods ts2)" and ok: "results_ok ps ts2" using c(1) by (simp_all add: pending_def coin_written_def)
  have wf: "bt_wf (wr ts2)" "meta_of ps ts2 ?g \<noteq> None" using ok g by (auto simp: results_ok_def)
  show "results_ok ps ts'" unfolding ts'_def using ok assms(4) wf(2) by (intro write_modified_ok) simp_all
  show same: "same_inputs ts ts'" unfolding ts'_def by (rule same_inputs_trans [OF c(3) write_modified_simps(1)])
  show mods: "set (mods ts') = set (mods ts2)" using g by (auto simp: ts'_def)
  show "set (mods ts') \<subseteq> set (mods ts) \<union> refs ts" unfolding mods by (rule c(5))
  show "input_rebate ps ts' = input_rebate ps ts2" unfolding input_rebate_def mods same_inputsD(6) [OF same] same_inputsD(6) [OF c(3)] ..
  show "output_rebate ts' = output_rebate ts2"
    using sum_bt_insert [OF wf(1) assms(2), of storage_rebate coin'] assms(5) by (simp add: output_rebate_def ts'_def)
  show "map_of (wr ts') ?g = Some coin'" by (simp add: ts'_def map_of_bt_insert)
  show "(\<Sum>kv \<leftarrow> wr ts'. sui_of layout (snd kv)) + v = (\<Sum>kv \<leftarrow> wr ts2. sui_of layout (snd kv)) + w"
    using sum_bt_insert [OF wf(1) assms(2), of "sui_of layout" coin'] sui_of_coin [OF assms(3)] sui_of_coin [OF assms(4)] by (simp add: ts'_def)
  show "\<forall>kv \<in> set (wr ts'). countable_sui layout (snd kv)" if "\<forall>kv \<in> set (wr ts2). countable_sui layout (snd kv)"
    using that set_bt_insert_subset [of ?g coin' "wr ts2"] countable_sui_coin [OF assms(4)] by (auto simp: ts'_def)
qed

lemma charge_gas_settled:
  assumes "chargeable ps gc ts bal v"
  obtains cs gc' ts2 res' net w coin coin' left where
    "charge_gas ps gc ts res = Some (cs, gc', write_modified (hd (coin_ids gc)) coin' ts2, res')"
    "charged layout ps gc ts w gc' ts2" "w = v \<or> w = payment_total gc bal" "isl res \<longrightarrow> res' = res"
    "map_of (wr ts2) (hd (coin_ids gc)) = Some coin" "coin_of coin (hd (coin_ids gc)) w" "coin_of coin' (hd (coin_ids gc)) left"
    "storage_rebate coin' = storage_rebate coin" "int left = int w - net" "net_gas_usage cs = Some net"
    "net \<le> int (sg_gas_budget (gc_gas_status gc))" "net = int (cs_computation_cost cs) + int (cs_storage_cost cs) - int (cs_storage_rebate cs)"
    "cs_storage_cost cs = sg_storage_cost (gc_gas_status gc')" "cs_storage_rebate cs + cs_non_refundable_storage_fee cs = sg_storage_rebate (gc_gas_status gc')"
proof -
  let ?g = "hd (coin_ids gc)"
  obtain gc' ts2 w res' where charge: "charge_gas ps gc ts res = do {
      cs \<leftarrow> gas_summary (gc_gas_status gc'); gas_used \<leftarrow> net_gas_usage cs; gas_object \<leftarrow> read_object ?g ts2;
      gas_object \<leftarrow> deduct_gas gas_used gas_object; ts' \<leftarrow> mutate_input_object gas_object ts2; Some (cs, gc', ts', res') }"
    "charged layout ps gc ts w gc' ts2" "affordable (gc_gas_status gc')" "w = v \<or> w = payment_total gc bal" "isl res \<longrightarrow> res' = res"
    by (rule charge_gas_charged [OF assms, of res layout])
  obtain cs net coin coin' left where ded: "gas_summary (gc_gas_status gc') = Some cs" "net_gas_usage cs = Some net"
    "read_object ?g ts2 = Some coin" "map_of (wr ts2) ?g = Some coin" "coin_of coin ?g w"
    "deduct_gas net coin = Some coin'" "mutate_input_object coin' ts2 = Some (write_modified ?g coin' ts2)"
    "coin_of coin' ?g left" "int left = int w - net" "storage_rebate coin' = storage_rebate coin" "net \<le> int (sg_gas_budget (gc_gas_status gc'))"
    "net = int (cs_computation_cost cs) + int (cs_storage_cost cs) - int (cs_storage_rebate cs)"
    "cs_storage_cost cs = sg_storage_cost (gc_gas_status gc')" "cs_storage_rebate cs + cs_non_refundable_storage_fee cs = sg_storage_rebate (gc_gas_status gc')"
    by (rule deduct_charged [OF charge(2,3)])
  have "charge_gas ps gc ts res = Some (cs, gc', write_modified ?g coin' ts2, res')" by (simp add: charge(1) ded(1-3,6,7))
  moreover have "net \<le> int (sg_gas_budget (gc_gas_status gc))" using ded(11) chargedD(2) [OF charge(2)] by (simp add: same_terms_def)
  ultimately show thesis using that charge(2,4,5) ded(2,4,5,8-10,12-14) by blast
qed

section \<open>A payment with two coins\<close>

text \<open>Two gas coins were smashed into one and the transaction wrote nothing else.\<close>

definition example_coin :: "nat \<Rightarrow> nat \<Rightarrow> sui_object" where
  "example_coin i v = (new_move \<lparr>mo_type = GasCoin, has_public_transfer = True, mo_version = 1, mo_contents = replicate 32 i @ to_le_bytes 8 v\<rparr>
     (AddressOwner (replicate 32 1)) 0)\<lparr>storage_rebate := 980400\<rparr>"

definition example_params :: object_params where
  "example_params = \<lparr>op_owner_size = 40, op_type_size = (\<lambda>_. 0), op_digest = (\<lambda>_. 0)\<rparr>"

definition example_store :: temporary_store where
  "example_store = \<lparr>ts_store = \<lparr>bk_get_object = (\<lambda>_. Inr None), bk_get_object_by_key = (\<lambda>_ _. Inr None)\<rparr>, ts_tx_digest = 5,
     ts_input_objects = [(replicate 32 7, example_coin 7 3000000), (replicate 32 8, example_coin 8 4000000)], ts_lamport_timestamp = 2,
     ts_mutable_input_refs = [(replicate 32 7, (1, 0), AddressOwner (replicate 32 1)), (replicate 32 8, (1, 0), AddressOwner (replicate 32 1))],
     ts_execution_results = \<lparr>written_objects = [(replicate 32 7, example_coin 7 7000000)], modified_objects = [replicate 32 7, replicate 32 8],
       created_object_ids = [], deleted_object_ids = [replicate 32 8], user_events = []\<rparr>,
     ts_loaded_runtime_objects = [], ts_enable_effects_v2 = True, ts_receiving_objects = []\<rparr>"

definition example_charger :: gas_charger where
  "example_charger = \<lparr>gc_tx_digest = 5, gc_gas_model_version = 8, gc_gas_coins = [(replicate 32 7, 1, 0), (replicate 32 8, 1, 0)],
     gc_smashed_gas_coin = Some (replicate 32 7), gc_gas_status = example_gas\<rparr>"

definition example_bal :: "objectID \<Rightarrow> nat" where
  "example_bal oid = (if oid = replicate 32 7 then 3000000 else 4000000)"

lemma example_coin_of: "v < u64_size \<Longrightarrow> coin_of (example_coin i v) (replicate 32 i) v" "storage_rebate (example_coin i v) = 980400"
  "object_version (example_coin i v) = 1"
  by (simp_all add: coin_of_def example_coin_def new_move_def coin_to_bcs_bytes_def ID_LENGTH_def object_version_def)

lemma example_ids [simp]: "replicate 32 7 < replicate 32 (8::nat)" "replicate 32 (8::nat) \<noteq> replicate 32 7" "replicate 32 (7::nat) \<noteq> replicate 32 8"
  "OBJECT_ID_ZERO \<noteq> replicate 32 7" "OBJECT_ID_ZERO \<noteq> replicate 32 8"
proof -
  show less: "replicate 32 7 < replicate 32 (8::nat)" by (simp add: numeral_eq_Suc)
  then show "replicate 32 (8::nat) \<noteq> replicate 32 7" "replicate 32 (7::nat) \<noteq> replicate 32 8" by auto
  show "OBJECT_ID_ZERO \<noteq> replicate 32 7" "OBJECT_ID_ZERO \<noteq> replicate 32 8" by (simp_all add: OBJECT_ID_ZERO_def replicate_eq_replicate)
qed

lemma example_gas_facts:
  "sg_gas_budget example_gas = 2000000" "sg_charge example_gas" "sg_storage_cost example_gas = 0" "sg_storage_rebate example_gas = 0"
  "sg_rebate_rate example_gas = 9900" "sg_storage_gas_price example_gas = 76" "storage_per_byte_cost (sg_cost_table example_gas) = 100"
  "bucketize_computation example_gas \<noteq> None"
proof -
  note facts = new_with_budget_facts [OF example_gas_new]
  show "sg_gas_budget example_gas = 2000000" "sg_charge example_gas" "sg_storage_cost example_gas = 0" "sg_storage_rebate example_gas = 0"
    "sg_rebate_rate example_gas = 9900" "sg_storage_gas_price example_gas = 76" "storage_per_byte_cost (sg_cost_table example_gas) = 100"
    using facts by (simp_all add: example_config_def)
  let ?used = "gas_used_pre_gas_price (sg_gas_status example_gas)"
  have "?used * 2 \<le> 2000000"
    using meter_used_bounded [OF facts(12), of "[]"] by (simp add: example_config_def u64_size_def)
  moreover have step: "sg_gas_rounding_step example_gas = Some 1000" using facts(8) by (simp add: example_config_def)
  ultimately have "charged_units example_gas ?used * sg_gas_price example_gas < u64_size"
    using charged_units_step [OF step, of ?used] by (simp add: facts(2) u64_size_def)
  then show "bucketize_computation example_gas \<noteq> None" using step by (simp add: bucketize_eq facts(2) Let_def)
qed

lemma example_store_sel [simp]:
  "mods example_store = [replicate 32 7, replicate 32 8]" "wr example_store = [(replicate 32 7, example_coin 7 7000000)]"
  "ts_input_objects example_store = [(replicate 32 7, example_coin 7 3000000), (replicate 32 8, example_coin 8 4000000)]"
  "ts_mutable_input_refs example_store = [(replicate 32 7, (1, 0), AddressOwner (replicate 32 1)), (replicate 32 8, (1, 0), AddressOwner (replicate 32 1))]"
  "gc_gas_coins example_charger = [(replicate 32 7, 1, 0), (replicate 32 8, 1, 0)]" "gc_gas_status example_charger = example_gas"
  "gc_smashed_gas_coin example_charger = Some (replicate 32 7)"
  by (simp_all add: example_store_def example_charger_def)

lemma example_metas:
  "meta_of example_params example_store (replicate 32 7) = Some \<lparr>lm_version = 1, lm_digest = 0, lm_owner = AddressOwner (replicate 32 1),
     lm_storage_rebate = 980400, lm_previous_transaction = 0\<rparr>"
  "meta_of example_params example_store (replicate 32 8) = Some \<lparr>lm_version = 1, lm_digest = 0, lm_owner = AddressOwner (replicate 32 1),
     lm_storage_rebate = 980400, lm_previous_transaction = 0\<rparr>"
  by (simp_all add: meta_of_def example_coin_of(2)) (simp_all add: example_coin_def new_move_def)

lemma example_coins [simp]: "coin_of (example_coin 7 3000000) (replicate 32 7) 3000000" "coin_of (example_coin 8 4000000) (replicate 32 8) 4000000"
  "coin_of (example_coin 7 7000000) (replicate 32 7) 7000000"
  by (simp_all add: example_coin_of u64_size_def)

lemma example_coin_id [simp]: "object_id (example_coin i v) = Some (replicate 32 i)"
  by (simp add: object_id_def move_object_id_def id_opt_def example_coin_def new_move_def ID_LENGTH_def)

lemma example_price: "storage_price example_params example_gas (example_coin i v) = 980400"
  by (simp add: storage_price_def object_size_for_gas_metering_def move_size_for_gas_metering_def example_params_def example_coin_def new_move_def
      example_gas_facts length_to_le_bytes)

lemma example_rebate: "in_rebate example_params example_store (replicate 32 7) = 980400" "in_rebate example_params example_store (replicate 32 8) = 980400"
  by (simp_all add: in_rebate_def example_metas)

lemma example_payment: "payment_ok example_charger example_store example_bal" "payment_total example_charger example_bal = 7000000"
  by (simp_all add: payment_ok_def payment_total_def example_bal_def u64_size_def)

lemma example_chargeable: "chargeable example_params example_charger example_store example_bal 7000000"
proof -
  have "inputs_ok example_store" by (simp add: inputs_ok_def)
  moreover have "results_ok example_params example_store" by (simp add: results_ok_def example_metas)
  moreover have "reset_fits example_params example_charger example_store example_bal"
    by (simp add: reset_fits_def reset_price_def refs_rebate_def example_payment example_rebate example_price example_gas_facts u64_size_def insert_Diff_if)
  moreover have "ensure_active_inputs_mutated example_store = Some example_store" by (simp add: ensure_active_inputs_mutated_def)
  then have "charges_fit example_params example_gas (the (ensure_active_inputs_mutated example_store)) 7000000"
    by (simp add: charges_fit_def input_rebate_def written_price_def example_rebate example_price example_gas_facts u64_size_def)
  moreover have "gas_coin_left example_store (replicate 32 7) (example_bal (replicate 32 7)) 7000000"
    by (simp add: gas_coin_left_def coin_written_def)
  ultimately show ?thesis using example_payment(1) example_gas_facts by (simp add: chargeable_def Let_def BASIS_POINTS_def)
qed

lemma example_books: "books (\<lambda>_. Inl ExceededMaxMoveValueDepth) example_params example_store"
proof -
  have "old_object example_params example_store (replicate 32 7) = Some (example_coin 7 3000000)"
    "old_object example_params example_store (replicate 32 8) = Some (example_coin 8 4000000)" by (simp_all add: old_object_def)
  then show ?thesis using example_coins [THEN sui_of_coin] countable_sui_coin [OF example_coins(3)]
    by (simp add: books_def conserved_def move_in_def)
qed

lemma example_readable: "\<forall>oid \<in> set (mods example_store) \<union> refs example_store. readable (\<lambda>_. Inl ExceededMaxMoveValueDepth) example_params example_store oid"
  using countable_sui_coin [OF example_coins(1)] countable_sui_coin [OF example_coins(2)]
  by (simp add: readable_def example_metas old_object_def example_coin_of(2,3))

section \<open>What charging guarantees\<close>

text \<open>C6: Charging a transaction never panics, whether its effects are kept or dropped and under both gas
  models. The sender pays at most the budget: the gas coin ends with the balance it had after the
  execution, or with the whole payment if the effects were dropped, less the net charge of the
  summary. An error of the execution is passed on.\<close>

theorem charge_gas_within_budget:
  assumes "chargeable ps gc ts bal v"
  shows "\<exists>cs gc' ts' res' net paid coin left. charge_gas ps gc ts res = Some (cs, gc', ts', res')
    \<and> net_gas_usage cs = Some net \<and> net \<le> int (sg_gas_budget (gc_gas_status gc))
    \<and> (paid = v \<or> paid = payment_total gc bal) \<and> map_of (wr ts') (hd (coin_ids gc)) = Some coin
    \<and> coin_of coin (hd (coin_ids gc)) left \<and> int left = int paid - net \<and> (isl res \<longrightarrow> res' = res)"
proof (rule charge_gas_settled [OF assms, of res "\<lambda>_. Inl ExceededMaxMoveValueDepth"])
  fix cs gc' ts2 res' net w coin coin' left
  let ?g = "hd (coin_ids gc)" and ?layout = "\<lambda>_. Inl ExceededMaxMoveValueDepth"
  assume settled: "charge_gas ps gc ts res = Some (cs, gc', write_modified ?g coin' ts2, res')" "charged ?layout ps gc ts w gc' ts2"
    "w = v \<or> w = payment_total gc bal" "isl res \<longrightarrow> res' = res" "map_of (wr ts2) ?g = Some coin" "coin_of coin ?g w" "coin_of coin' ?g left"
    "storage_rebate coin' = storage_rebate coin" "int left = int w - net" "net_gas_usage cs = Some net" "net \<le> int (sg_gas_budget (gc_gas_status gc))"
  show ?thesis using settled(1,3,4,7,9-11) deducted_store(6) [OF settled(2,5-8)] by blast
qed

theorem charge_gas_within_budget_witness:
  "\<exists>cs gc' ts' res' net. charge_gas example_params example_charger example_store (Inr ()) = Some (cs, gc', ts', res')
     \<and> net_gas_usage cs = Some net \<and> net \<le> 2000000"
  using charge_gas_within_budget [OF example_chargeable, of "Inr ()"] example_gas_facts(1) by fastforce

text \<open>C14: After a charge the storage rebates are conserved: the check the node makes after every transaction
  (the rebates of the modified objects are paid out, kept as fee or still held, and the storage cost is
  held by the written objects) succeeds on every path.\<close>

theorem charge_gas_conserves_rebates:
  assumes "chargeable ps gc ts bal v"
  shows "\<exists>cs gc' ts' res'. charge_gas ps gc ts res = Some (cs, gc', ts', res') \<and> check_sui_conserved ps simple cs ts' = Some (Inr ())"
proof (rule charge_gas_settled [OF assms, of res "\<lambda>_. Inl ExceededMaxMoveValueDepth"])
  fix cs gc' ts2 res' net w coin coin' left
  let ?g = "hd (coin_ids gc)" and ?layout = "\<lambda>_. Inl ExceededMaxMoveValueDepth"
  let ?ts = "write_modified ?g coin' ts2"
  assume settled: "charge_gas ps gc ts res = Some (cs, gc', ?ts, res')" "charged ?layout ps gc ts w gc' ts2"
    "map_of (wr ts2) ?g = Some coin" "coin_of coin ?g w" "coin_of coin' ?g left" "storage_rebate coin' = storage_rebate coin"
    "cs_storage_cost cs = sg_storage_cost (gc_gas_status gc')" "cs_storage_rebate cs + cs_non_refundable_storage_fee cs = sg_storage_rebate (gc_gas_status gc')"
  note store = deducted_store [OF settled(2-6)]
  have "balanced ps gc' ts2" "sg_storage_cost (gc_gas_status gc') < 2 ^ 63" using chargedD(1) [OF settled(2)] by (simp_all add: pending_def)
  then have "check_sui_conserved ps True cs ?ts = Some (Inr ())"
    using store(4,5) settled(7,8) by (intro check_sui_conserved_balanced [OF store(1)]) (auto simp: balanced_def u64_size_def)
  then show ?thesis using settled(1) by (cases simple) (auto simp: check_sui_conserved_def)
qed

theorem charge_gas_conserves_rebates_witness:
  "\<exists>cs gc' ts' res'. charge_gas example_params example_charger example_store (Inl InsufficientGas) = Some (cs, gc', ts', res')
     \<and> check_sui_conserved example_params True cs ts' = Some (Inr ())"
  by (rule charge_gas_conserves_rebates [OF example_chargeable])

text \<open>C2: Charging neither mints nor burns SUI: if the execution conserved the SUI in the objects and the
  inputs can be read back at their versions, the expensive check (all the SUI in the modified objects
  before and after, with the computation charge and the fee) succeeds on every path.\<close>

theorem charge_gas_conserves_sui:
  assumes "chargeable ps gc ts bal v" "books layout ps ts" "\<forall>oid \<in> set (mods ts) \<union> refs ts. readable layout ps ts oid"
  shows "\<exists>cs gc' ts' res'. charge_gas ps gc ts res = Some (cs, gc', ts', res') \<and> check_sui_conserved_expensive ps layout cs None ts' = Some (Inr ())"
proof (rule charge_gas_settled [OF assms(1), of res layout])
  fix cs gc' ts2 res' net w coin coin' left
  let ?g = "hd (coin_ids gc)"
  let ?ts = "write_modified ?g coin' ts2"
  assume settled: "charge_gas ps gc ts res = Some (cs, gc', ?ts, res')" "charged layout ps gc ts w gc' ts2"
    "map_of (wr ts2) ?g = Some coin" "coin_of coin ?g w" "coin_of coin' ?g left" "storage_rebate coin' = storage_rebate coin" "int left = int w - net"
    "net = int (cs_computation_cost cs) + int (cs_storage_cost cs) - int (cs_storage_rebate cs)"
    "cs_storage_cost cs = sg_storage_cost (gc_gas_status gc')" "cs_storage_rebate cs + cs_non_refundable_storage_fee cs = sg_storage_rebate (gc_gas_status gc')"
  note store = deducted_store [OF settled(2-6)] and same = chargedD(3) [OF settled(2)]
  have books: "books layout ps ts2" using chargedD(9) [OF settled(2)] assms(2,3) by simp
  have bal: "balanced ps gc' ts2" using chargedD(1) [OF settled(2)] by (simp add: pending_def)
  have "(\<Sum>oid \<in> set (mods ?ts). move_in layout ps ?ts oid) = (\<Sum>kv \<leftarrow> wr ts2. sui_of layout (snd kv))"
    using books unfolding store(8) move_in_same [OF store(2)] by (simp add: books_def conserved_def move_in_same [OF same])
  then have "(\<Sum>oid \<in> set (mods ?ts). in_rebate ps ?ts oid + move_in layout ps ?ts oid)
      = (\<Sum>kv \<leftarrow> wr ?ts. storage_rebate (snd kv) + sui_of layout (snd kv)) + cs_computation_cost cs + cs_non_refundable_storage_fee cs"
    using bal store(4,5,7) settled(7-10) unfolding sum.distrib sum_list_addf balanced_def input_rebate_def output_rebate_def by linarith
  moreover have "\<forall>oid \<in> set (mods ?ts). readable layout ps ?ts oid" using assms(3) store(3) unfolding readable_same [OF store(2)] by blast
  ultimately have "check_sui_conserved_expensive ps layout cs None ?ts = Some (Inr ())"
    using store(9) books by (intro check_expensive_balanced [OF store(1)]) (simp_all add: books_def)
  then show ?thesis using settled(1) by blast
qed

theorem charge_gas_conserves_sui_witness:
  "\<exists>cs gc' ts' res'. charge_gas example_params example_charger example_store (Inr ()) = Some (cs, gc', ts', res')
     \<and> check_sui_conserved_expensive example_params (\<lambda>_. Inl ExceededMaxMoveValueDepth) cs None ts' = Some (Inr ())"
  by (rule charge_gas_conserves_sui [OF example_chargeable example_books example_readable])

lemma fold_delete_ids:
  "set (deleted_object_ids (ts_execution_results (fold (\<lambda>(oid, _, _). delete_input_object oid) coins ts)))
   = set (deleted_object_ids (ts_execution_results ts)) \<union> fst ` set coins"
  by (induction coins arbitrary: ts) (auto simp: delete_input_object_def Let_def)

lemma smash_deleted:
  assumes "smash_gas gc ts = Some (gc', ts')" "length (gc_gas_coins gc) \<noteq> 1"
  shows "set (deleted_object_ids (ts_execution_results ts'))
    = set (deleted_object_ids (ts_execution_results ts)) \<union> set (tl (coin_ids gc))"
proof (cases "gc_gas_coins gc")
  case (Cons c others)
  obtain g v d where c: "c = (g, v, d)" by (cases c)
  have "others \<noteq> []" using assms(2) Cons by auto
  then obtain ob where mut: "mutate_input_object ob (fold (\<lambda>(oid, _, _). delete_input_object oid) others ts) = Some ts'"
    using assms(1) unfolding smash_gas_def Cons c by (auto simp: Let_def bind_eq_Some_conv)
  then have "deleted_object_ids (ts_execution_results ts')
      = deleted_object_ids (ts_execution_results (fold (\<lambda>(oid, _, _). delete_input_object oid) others ts))"
    by (auto simp: mutate_input_object_def write_modified_def Let_def bind_eq_Some_conv)
  then show ?thesis using Cons by (simp add: fold_delete_ids)
qed (use assms in \<open>simp add: smash_gas_def\<close>)

text \<open>C21: Smashing the gas coins of a payment never panics: the first coin then holds the sum of all of them
  and is the one object written, and the others are deleted, their identifiers recorded as modified
  and as deleted; a single coin is left alone.\<close>

theorem smash_gas_correct:
  assumes "inputs_ok ts" "payment_ok gc ts bal" "mods ts = []" "wr ts = []"
  shows "\<exists>ts' coin. smash_gas gc ts = Some (gc\<lparr>gc_smashed_gas_coin := Some (hd (coin_ids gc))\<rparr>, ts')
    \<and> read_object (hd (coin_ids gc)) ts' = Some coin \<and> coin_of coin (hd (coin_ids gc)) (payment_total gc bal)
    \<and> (if length (gc_gas_coins gc) = 1 then ts' = ts else set (mods ts') = set (coin_ids gc) \<and> wr ts' = [(hd (coin_ids gc), coin)]
         \<and> set (deleted_object_ids (ts_execution_results ts'))
            = set (deleted_object_ids (ts_execution_results ts)) \<union> set (tl (coin_ids gc)))"
proof (rule smash_exact [OF assms, of undefined])
  fix ts' coin
  let ?g = "hd (coin_ids gc)"
  assume smash: "smash_gas gc ts = Some (gc\<lparr>gc_smashed_gas_coin := Some ?g\<rparr>, ts')" "coin_of coin ?g (payment_total gc bal)"
    "ts' = ts \<and> gc_gas_coins gc = [hd (gc_gas_coins gc)] \<and> map_of (ts_input_objects ts) ?g = Some coin
     \<or> set (mods ts') = set (coin_ids gc) \<and> wr ts' = [(?g, coin)]"
  have single: "length (gc_gas_coins gc) = 1" if "gc_gas_coins gc = [hd (gc_gas_coins gc)]" using arg_cong [OF that, of length] by simp
  have "ts' = ts \<and> gc_gas_coins gc = [hd (gc_gas_coins gc)]" if one: "length (gc_gas_coins gc) = 1"
  proof -
    obtain g v d where "gc_gas_coins gc = [(g, v, d)]" using one by (cases "gc_gas_coins gc") auto
    moreover have "g \<noteq> OBJECT_ID_ZERO" using assms(2) calculation by (auto simp: payment_ok_def)
    ultimately show ?thesis using smash(1) by (simp add: smash_gas_def)
  qed
  then show ?thesis using smash single assms(4) smash_deleted [OF smash(1)]
    by (intro exI [of _ ts'] exI [of _ coin]) (auto simp: read_object_def)
qed

theorem smash_gas_correct_witness:
  "\<exists>ts'. smash_gas example_charger (drop_writes example_store) = Some (example_charger, ts')
     \<and> set (mods ts') = {replicate 32 7, replicate 32 8} \<and> replicate 32 8 \<in> set (deleted_object_ids (ts_execution_results ts'))"
proof -
  have "inputs_ok (drop_writes example_store)" "payment_ok example_charger (drop_writes example_store) example_bal"
    using inputs_ok_same [OF drop_writes_simps(1) [of example_store]] payment_ok_same [OF drop_writes_simps(1) [of example_store] refl] example_payment(1)
      example_chargeable by (simp_all add: chargeable_def Let_def)
  from smash_gas_correct [OF this drop_writes_simps(2,3)] show ?thesis by (auto simp: example_charger_def)
qed

end
