(* ===== verification/Sui_Effects_Agree.thy ===== *)
theory Sui_Effects_Agree
  imports Sui_Effects Sui_Conservation "HOL-Library.Multiset"
begin

text \<open>
  The two formats of the effects of \<open>Sui_Effects\<close> report the same changes.

  Both formats classify the objects of the execution results by the same three questions: was the
  object modified, is it written, was its identifier created or deleted. The first format walks over
  the written, the modified and the deleted objects, the second over all of them together; as all
  these are sorted, each list of the first format is the part of the second walk that answers the
  questions the same way.
\<close>

section \<open>Walking over sorted identifiers\<close>

lemma map_filter_restrict:
  assumes "bs_wf xs" "bs_wf ys" "set xs \<subseteq> set ys" "\<And>y. y \<in> set ys \<Longrightarrow> y \<notin> set xs \<Longrightarrow> f y = None"
  shows "List.map_filter f ys = List.map_filter f xs"
proof -
  have "filter (\<lambda>y. y \<in> set xs) ys = xs"
    using assms(1-3) by (intro bs_wf_unique) (auto simp: sorted_wrt_filter)
  moreover have "List.map_filter f zs = List.map_filter f (filter (\<lambda>y. y \<in> set xs) zs)" if "set zs \<subseteq> set ys" for zs
    using that assms(4) by (induction zs) (auto simp: List.map_filter_simps split: option.splits)
  ultimately show ?thesis by (metis order_refl)
qed

lemma map_filter_map: "List.map_filter f (map g xs) = List.map_filter (\<lambda>x. f (g x)) xs"
  by (induction xs) (simp_all add: List.map_filter_simps split: option.splits)

lemma map_filter_cong': "(\<And>x. x \<in> set xs \<Longrightarrow> f x = g x) \<Longrightarrow> List.map_filter f xs = List.map_filter g xs"
  by (induction xs) (auto simp: List.map_filter_simps split: option.splits)

lemma map_filter_if: "List.map_filter (\<lambda>x. if P x then Some (f x) else None) xs = map f (filter P xs)"
  by (induction xs) (auto simp: List.map_filter_simps split: option.splits)

lemma bs_wf_filter: "bs_wf xs \<Longrightarrow> bs_wf (filter P xs)"
  by (rule sorted_wrt_filter)

lemma mset_filter_split:
  assumes "bs_wf xs" "bs_wf ys"
  shows "mset (map f (filter (\<lambda>x. x \<in> set ys) xs)) + mset (map f (filter (\<lambda>y. y \<notin> set xs) ys)) = mset (map f ys)"
proof -
  have "filter (\<lambda>x. x \<in> set ys) xs = filter (\<lambda>y. y \<in> set xs) ys"
    using assms by (intro bs_wf_unique bs_wf_filter) auto
  then have "mset (filter (\<lambda>x. x \<in> set ys) xs) + mset (filter (\<lambda>y. y \<notin> set xs) ys) = mset ys"
    by (simp only: mset_filter) (metis multiset_partition)
  then show ?thesis by (metis image_mset_union mset_map)
qed

section \<open>The results the effects are built from\<close>

text \<open>What the consistency check and the charging of gas leave: packages are immutable and either new or
  upgraded, an identifier is not created and also modified or deleted, nor written and deleted, and the
  gas coin is written. When the effects are built every written Move object has the version of the
  transaction.\<close>

definition results_consistent :: "object_params \<Rightarrow> gas_charger \<Rightarrow> temporary_store \<Rightarrow> bool" where
  "results_consistent ps gc ts \<longleftrightarrow> (let r = ts_execution_results ts in
     bt_wf (wr ts) \<and> bs_wf (mods ts) \<and> bs_wf (created_object_ids r) \<and> bs_wf (deleted_object_ids r)
     \<and> (\<forall>(oid, ob) \<in> set (wr ts). object_id ob = Some oid
          \<and> (is_package ob \<longrightarrow> ob_owner ob = Immutable \<and> (oid \<in> set (mods ts) \<or> oid \<in> set (created_object_ids r))))
     \<and> (\<forall>oid \<in> set (mods ts). meta_of ps ts oid \<noteq> None)
     \<and> set (created_object_ids r) \<inter> (set (mods ts) \<union> set (deleted_object_ids r)) = {} \<and> fst ` set (wr ts) \<inter> set (deleted_object_ids r) = {}
     \<and> (\<forall>g. gc_smashed_gas_coin gc = Some g \<longrightarrow> (\<exists>ob. map_of (wr ts) g = Some ob \<and> \<not> is_package ob))
     \<and> length (created_object_ids r) + length (deleted_object_ids r) + length (mods ts) + length (wr ts) < 2 ^ 32)"

definition effects_ready :: "object_params \<Rightarrow> gas_charger \<Rightarrow> temporary_store \<Rightarrow> bool" where
  "effects_ready ps gc ts \<longleftrightarrow> results_consistent ps gc ts
     \<and> (\<forall>(oid, ob) \<in> set (wr ts). \<not> is_package ob \<longrightarrow> object_version ob = ts_lamport_timestamp ts)"

definition all_ids :: "temporary_store \<Rightarrow> objectID list" where
  "all_ids ts = (let r = ts_execution_results ts in
     bs_extend [] (created_object_ids r @ deleted_object_ids r @ mods ts @ map fst (wr ts)))"

definition change_of :: "object_params \<Rightarrow> temporary_store \<Rightarrow> objectID \<Rightarrow> effects_object_change" where
  "change_of ps ts oid = (let r = ts_execution_results ts in effects_object_change_new ps
     (if oid \<in> set (mods ts) then map_option (\<lambda>m. ((lm_version m, lm_digest m), lm_owner m)) (meta_of ps ts oid) else None)
     (map_of (wr ts) oid) (oid \<in> set (created_object_ids r)) (oid \<in> set (deleted_object_ids r)))"

definition entry_of :: "object_params \<Rightarrow> temporary_store \<Rightarrow> objectID \<Rightarrow> object_ref \<times> owner" where
  "entry_of ps ts oid = (let ob = the (map_of (wr ts) oid) in ((oid, object_version ob, op_digest ps ob), ob_owner ob))"

lemma all_ids_facts:
  "bs_wf (all_ids ts)" "set (all_ids ts) = set (created_object_ids (ts_execution_results ts)) \<union> set (deleted_object_ids (ts_execution_results ts))
     \<union> set (mods ts) \<union> fst ` set (wr ts)"
  by (simp_all add: all_ids_def Let_def Un_assoc)

lemma get_object_changes_eq:
  assumes "effects_ready ps gc ts"
  shows "get_object_changes ps ts = Some (map (\<lambda>oid. (oid, change_of ps ts oid)) (all_ids ts))"
proof -
  have "\<forall>oid \<in> set (mods ts). meta_of ps ts oid \<noteq> None" using assms by (simp add: effects_ready_def results_consistent_def Let_def)
  then show ?thesis unfolding get_object_changes_def all_ids_def Let_def
    by (intro those_eq_map) (auto simp: get_object_modified_at_eq change_of_def Let_def)
qed

section \<open>The lists of both formats\<close>

abbreviation (input) keys :: "temporary_store \<Rightarrow> objectID list" where
  "keys ts \<equiv> map fst (wr ts)"

abbreviation (input) created_ids :: "temporary_store \<Rightarrow> objectID list" where
  "created_ids ts \<equiv> created_object_ids (ts_execution_results ts)"

abbreviation (input) deleted_ids :: "temporary_store \<Rightarrow> objectID list" where
  "deleted_ids ts \<equiv> deleted_object_ids (ts_execution_results ts)"

lemma effects_readyD:
  assumes "effects_ready ps gc ts"
  shows "bs_wf (keys ts)" "bs_wf (mods ts)" "bs_wf (created_ids ts)" "bs_wf (deleted_ids ts)"
    "\<And>oid. oid \<in> set (mods ts) \<Longrightarrow> \<exists>m. meta_of ps ts oid = Some m"
    "\<And>oid. oid \<in> set (created_ids ts) \<Longrightarrow> oid \<notin> set (mods ts) \<and> oid \<notin> set (deleted_ids ts)"
    "\<And>oid. oid \<in> set (keys ts) \<Longrightarrow> oid \<notin> set (deleted_ids ts)"
  using assms unfolding effects_ready_def results_consistent_def Let_def by (auto simp: sorted_wrt_map)

lemma written_object:
  assumes "effects_ready ps gc ts" "oid \<in> set (keys ts)"
  obtains ob where "map_of (wr ts) oid = Some ob" "object_id ob = Some oid"
    "is_package ob \<longrightarrow> ob_owner ob = Immutable \<and> (oid \<in> set (mods ts) \<or> oid \<in> set (created_ids ts))"
    "\<not> is_package ob \<longrightarrow> object_version ob = ts_lamport_timestamp ts"
proof -
  obtain ob where ob: "map_of (wr ts) oid = Some ob" using assms(2) by (cases "map_of (wr ts) oid") (auto simp: map_of_eq_None_iff)
  have "\<forall>(oid, ob) \<in> set (wr ts). object_id ob = Some oid
          \<and> (is_package ob \<longrightarrow> ob_owner ob = Immutable \<and> (oid \<in> set (mods ts) \<or> oid \<in> set (created_ids ts)))"
    "\<forall>(oid, ob) \<in> set (wr ts). \<not> is_package ob \<longrightarrow> object_version ob = ts_lamport_timestamp ts"
    using assms(1) unfolding effects_ready_def results_consistent_def Let_def by blast+
  from this [THEN bspec, OF map_of_SomeD [OF ob]] show thesis using that [OF ob] by auto
qed

lemma not_written: "oid \<notin> set (keys ts) \<Longrightarrow> map_of (wr ts) oid = None"
  by (simp add: map_of_eq_None_iff)

lemma change_of_simps:
  "input_state (change_of ps ts oid) = (if oid \<in> set (mods ts) then
     (case meta_of ps ts oid of Some m \<Rightarrow> InExist ((lm_version m, lm_digest m), lm_owner m) | None \<Rightarrow> InNotExist) else InNotExist)"
  "output_state (change_of ps ts oid) = (case map_of (wr ts) oid of None \<Rightarrow> OutNotExist
     | Some ob \<Rightarrow> if is_package ob then PackageWrite (object_version ob, op_digest ps ob) else ObjectWrite (op_digest ps ob, ob_owner ob))"
  "id_operation_of (change_of ps ts oid) = (if oid \<in> set (created_ids ts) then IDCreated else if oid \<in> set (deleted_ids ts) then IDDeleted else IDNone)"
  by (simp_all add: change_of_def effects_object_change_new_def Let_def split: option.splits)

text \<open>A list of the second format is a walk over all identifiers.\<close>

lemma walk:
  assumes "bs_wf xs" "set xs \<subseteq> set (all_ids ts)"
    and "\<And>oid. oid \<in> set (all_ids ts) \<Longrightarrow> oid \<notin> set xs \<Longrightarrow> F (oid, change_of ps ts oid) = None"
    and "\<And>oid. oid \<in> set xs \<Longrightarrow> F (oid, change_of ps ts oid) = (if P oid then Some (f oid) else None)"
  shows "List.map_filter F (map (\<lambda>oid. (oid, change_of ps ts oid)) (all_ids ts)) = map f (filter P xs)"
proof -
  have "List.map_filter F (map (\<lambda>oid. (oid, change_of ps ts oid)) (all_ids ts)) = List.map_filter (\<lambda>oid. F (oid, change_of ps ts oid)) xs"
    unfolding map_filter_map by (rule map_filter_restrict [OF assms(1) all_ids_facts(1) assms(2,3)])
  also have "\<dots> = List.map_filter (\<lambda>oid. if P oid then Some (f oid) else None) xs" by (rule map_filter_cong' [OF assms(4)])
  finally show ?thesis by (simp only: map_filter_if)
qed

lemma v2_lists:
  assumes "effects_ready ps gc ts" "e2_changed_objects e = map (\<lambda>oid. (oid, change_of ps ts oid)) (all_ids ts)" "e2_lamport_version e = ts_lamport_timestamp ts"
  shows "mutated_v2 e = map (entry_of ps ts) (filter (\<lambda>oid. oid \<in> set (mods ts)) (keys ts))"
    and "created_v2 e = map (entry_of ps ts) (filter (\<lambda>oid. oid \<notin> set (mods ts) \<and> oid \<in> set (created_ids ts)) (keys ts))"
    and "unwrapped_v2 e = map (entry_of ps ts) (filter (\<lambda>oid. oid \<notin> set (mods ts) \<and> oid \<notin> set (created_ids ts)) (keys ts))"
    and "deleted_v2 e = map (\<lambda>oid. (oid, ts_lamport_timestamp ts, OBJECT_DIGEST_DELETED))
      (filter (\<lambda>oid. oid \<notin> set (keys ts) \<and> oid \<in> set (deleted_ids ts)) (mods ts))"
    and "wrapped_v2 e = map (\<lambda>oid. (oid, ts_lamport_timestamp ts, OBJECT_DIGEST_WRAPPED))
      (filter (\<lambda>oid. oid \<notin> set (keys ts) \<and> oid \<notin> set (deleted_ids ts)) (mods ts))"
    and "unwrapped_then_deleted_v2 e = map (\<lambda>oid. (oid, ts_lamport_timestamp ts, OBJECT_DIGEST_DELETED))
      (filter (\<lambda>oid. oid \<notin> set (mods ts)) (deleted_ids ts))"
    and "modified_at_versions_v2 e = map (\<lambda>oid. (oid, lm_version (the (meta_of ps ts oid)))) (mods ts)"
proof -
  note d = effects_readyD [OF assms(1)] and sub = all_ids_facts(2) [of ts]
  have in_state: "input_state (change_of ps ts oid) = (if oid \<in> set (mods ts)
      then InExist ((lm_version (the (meta_of ps ts oid)), lm_digest (the (meta_of ps ts oid))), lm_owner (the (meta_of ps ts oid))) else InNotExist)" for oid
    using d(5) [of oid] by (auto simp: change_of_simps(1))
  note st = in_state change_of_simps(2,3)
  have out: "output_state (change_of ps ts oid) = OutNotExist \<longleftrightarrow> oid \<notin> set (keys ts)" for oid
    using map_of_eq_None_iff [of "wr ts" oid] by (cases "map_of (wr ts) oid") (simp_all add: change_of_simps(2))
  let ?state = "\<lambda>oid. (input_state (change_of ps ts oid), output_state (change_of ps ts oid), id_operation_of (change_of ps ts oid))"
  have removed: "(case ?state oid of (InExist _, OutNotExist, IDDeleted) \<Rightarrow> Some a | _ \<Rightarrow> None)
      = (if oid \<in> set (mods ts) \<and> oid \<notin> set (keys ts) \<and> oid \<in> set (deleted_ids ts) then Some a else None)"
    "(case ?state oid of (InExist _, OutNotExist, IDNone) \<Rightarrow> Some a | _ \<Rightarrow> None)
      = (if oid \<in> set (mods ts) \<and> oid \<notin> set (keys ts) \<and> oid \<notin> set (deleted_ids ts) then Some a else None)"
    "(case ?state oid of (InNotExist, OutNotExist, IDDeleted) \<Rightarrow> Some a | _ \<Rightarrow> None)
      = (if oid \<notin> set (mods ts) \<and> oid \<notin> set (keys ts) \<and> oid \<in> set (deleted_ids ts) then Some a else None)"
    for oid and a :: object_ref
    using out [of oid] d(6) [of oid] d(7) [of oid]
    by (cases "output_state (change_of ps ts oid)"; auto simp: in_state change_of_simps(3))+
  have keys: "set (keys ts) \<subseteq> set (all_ids ts)" "set (mods ts) \<subseteq> set (all_ids ts)" "set (deleted_ids ts) \<subseteq> set (all_ids ts)" using sub by auto
  show "mutated_v2 e = map (entry_of ps ts) (filter (\<lambda>oid. oid \<in> set (mods ts)) (keys ts))"
    unfolding mutated_v2_def assms(2,3)
    by (rule walk [OF d(1) keys(1)]; (drule not_written)?; (elim written_object [OF assms(1)])?) (simp_all add: st entry_of_def)
  show "created_v2 e = map (entry_of ps ts) (filter (\<lambda>oid. oid \<notin> set (mods ts) \<and> oid \<in> set (created_ids ts)) (keys ts))"
    unfolding created_v2_def assms(2,3)
    by (rule walk [OF d(1) keys(1)]; (drule not_written)?; (elim written_object [OF assms(1)])?) (simp_all add: st entry_of_def)
  show "unwrapped_v2 e = map (entry_of ps ts) (filter (\<lambda>oid. oid \<notin> set (mods ts) \<and> oid \<notin> set (created_ids ts)) (keys ts))"
    unfolding unwrapped_v2_def assms(2,3)
    by (rule walk [OF d(1) keys(1)]; (drule not_written)?; (frule d(7))?; (elim written_object [OF assms(1)])?) (auto simp: st entry_of_def)
  show "deleted_v2 e = map (\<lambda>oid. (oid, ts_lamport_timestamp ts, OBJECT_DIGEST_DELETED))
      (filter (\<lambda>oid. oid \<notin> set (keys ts) \<and> oid \<in> set (deleted_ids ts)) (mods ts))"
    unfolding deleted_v2_def assms(2,3)
    by (rule walk [OF d(2) keys(2)]) (simp_all add: removed [simplified])
  show "wrapped_v2 e = map (\<lambda>oid. (oid, ts_lamport_timestamp ts, OBJECT_DIGEST_WRAPPED))
      (filter (\<lambda>oid. oid \<notin> set (keys ts) \<and> oid \<notin> set (deleted_ids ts)) (mods ts))"
    unfolding wrapped_v2_def assms(2,3)
    by (rule walk [OF d(2) keys(2)]) (simp_all add: removed [simplified])
  show "unwrapped_then_deleted_v2 e = map (\<lambda>oid. (oid, ts_lamport_timestamp ts, OBJECT_DIGEST_DELETED)) (filter (\<lambda>oid. oid \<notin> set (mods ts)) (deleted_ids ts))"
    unfolding unwrapped_then_deleted_v2_def assms(2,3)
    by (rule walk [OF d(4) keys(3)]) (use d(7) in \<open>auto simp: removed [simplified]\<close>)
  have "modified_at_versions_v2 e = map (\<lambda>oid. (oid, lm_version (the (meta_of ps ts oid)))) (filter (\<lambda>_. True) (mods ts))"
    unfolding modified_at_versions_v2_def assms(2) by (rule walk [OF d(2) keys(2)]) (simp_all add: st)
  then show "modified_at_versions_v2 e = map (\<lambda>oid. (oid, lm_version (the (meta_of ps ts oid)))) (mods ts)" by simp
qed

lemma written_walk:
  assumes "effects_ready ps gc ts"
  shows "those (map (\<lambda>(oid, ob). do {
      object_ref \<leftarrow> compute_object_reference ps ob; meta \<leftarrow> get_object_modified_at ps oid ts; Some (oid, meta, (object_ref, ob_owner ob)) }) (wr ts))
    = Some (map (\<lambda>oid. (oid, if oid \<in> set (mods ts) then meta_of ps ts oid else None, entry_of ps ts oid)) (keys ts))"
proof -
  have wf: "distinct (map fst (wr ts))" using assms bt_wf_distinct by (auto simp: effects_ready_def results_consistent_def Let_def)
  have "(case kv of (oid, ob) \<Rightarrow> do { object_ref \<leftarrow> compute_object_reference ps ob; meta \<leftarrow> get_object_modified_at ps oid ts; Some (oid, meta, (object_ref, ob_owner ob)) })
      = Some (fst kv, if fst kv \<in> set (mods ts) then meta_of ps ts (fst kv) else None, entry_of ps ts (fst kv))" if kv: "kv \<in> set (wr ts)" for kv
  proof -
    obtain oid ob where eq: "kv = (oid, ob)" by (cases kv)
    then have at: "map_of (wr ts) oid = Some ob" and key: "oid \<in> set (keys ts)" using kv map_of_is_SomeI [OF wf] by force+
    obtain ob' where "map_of (wr ts) oid = Some ob'" "object_id ob' = Some oid" by (rule written_object [OF assms key])
    then show ?thesis using at effects_readyD(5) [OF assms, of oid]
      by (auto simp: eq compute_object_reference_def get_object_modified_at_eq entry_of_def Let_def)
  qed
  from those_eq_map [OF this] show ?thesis by (simp add: comp_def)
qed

lemma removed_walk:
  assumes "effects_ready ps gc ts"
  shows "those (map (\<lambda>oid. do { meta \<leftarrow> get_object_modified_at ps oid ts; meta \<leftarrow> meta; Some (oid, lm_version meta) })
      (filter (\<lambda>oid. map_of (wr ts) oid = None) (mods ts)))
    = Some (map (\<lambda>oid. (oid, lm_version (the (meta_of ps ts oid)))) (filter (\<lambda>oid. oid \<notin> set (keys ts)) (mods ts)))"
proof -
  have "filter (\<lambda>oid. map_of (wr ts) oid = None) (mods ts) = filter (\<lambda>oid. oid \<notin> set (keys ts)) (mods ts)"
    by (rule filter_cong) (simp_all add: map_of_eq_None_iff)
  moreover have "those (map (\<lambda>oid. do { meta \<leftarrow> get_object_modified_at ps oid ts; meta \<leftarrow> meta; Some (oid, lm_version meta) })
      (filter (\<lambda>oid. oid \<notin> set (keys ts)) (mods ts)))
    = Some (map (\<lambda>oid. (oid, lm_version (the (meta_of ps ts oid)))) (filter (\<lambda>oid. oid \<notin> set (keys ts)) (mods ts)))"
    using effects_readyD(5) [OF assms] by (intro those_eq_map) (fastforce simp: get_object_modified_at_eq)
  ultimately show ?thesis by simp
qed

lemma gas_entry:
  assumes "effects_ready ps gc ts"
  shows "(case gc_smashed_gas_coin gc of Some coin_id \<Rightarrow> do {
      ob \<leftarrow> map_of (wr ts) coin_id; object_ref \<leftarrow> compute_object_reference ps ob; Some (object_ref, ob_owner ob) } | None \<Rightarrow> Some no_gas_object)
    = Some (case gc_smashed_gas_coin gc of Some g \<Rightarrow> entry_of ps ts g | None \<Rightarrow> no_gas_object)"
proof (cases "gc_smashed_gas_coin gc")
  case (Some g)
  then obtain ob where ob: "map_of (wr ts) g = Some ob" using assms by (auto simp: effects_ready_def results_consistent_def Let_def)
  then have "g \<in> set (keys ts)" using map_of_SomeD by force
  then obtain ob' where "map_of (wr ts) g = Some ob'" "object_id ob' = Some g" by (rule written_object [OF assms])
  then show ?thesis using Some ob by (simp add: compute_object_reference_def entry_of_def)
qed simp

lemma into_effects_v1_eq:
  assumes "effects_ready ps gc ts"
  obtains e where "into_effects_v1 ps events_hash ts refs' tx_digest deps gas_used status gc epoch = Some e"
    "e1_mutated e = map (entry_of ps ts) (filter (\<lambda>oid. oid \<in> set (mods ts)) (keys ts))"
    "e1_created e = map (entry_of ps ts) (filter (\<lambda>oid. oid \<notin> set (mods ts) \<and> oid \<in> set (created_ids ts)) (keys ts))"
    "e1_unwrapped e = map (entry_of ps ts) (filter (\<lambda>oid. oid \<notin> set (mods ts) \<and> oid \<notin> set (created_ids ts)) (keys ts))"
    "e1_deleted e = map (\<lambda>oid. (oid, ts_lamport_timestamp ts, OBJECT_DIGEST_DELETED))
      (filter (\<lambda>oid. oid \<notin> set (keys ts) \<and> oid \<in> set (deleted_ids ts)) (mods ts))"
    "e1_wrapped e = map (\<lambda>oid. (oid, ts_lamport_timestamp ts, OBJECT_DIGEST_WRAPPED))
      (filter (\<lambda>oid. oid \<notin> set (keys ts) \<and> oid \<notin> set (deleted_ids ts)) (mods ts))"
    "e1_unwrapped_then_deleted e = map (\<lambda>oid. (oid, ts_lamport_timestamp ts, OBJECT_DIGEST_DELETED))
      (filter (\<lambda>oid. oid \<notin> set (mods ts)) (deleted_ids ts))"
    "e1_modified_at_versions e = map (\<lambda>oid. (oid, lm_version (the (meta_of ps ts oid)))) (filter (\<lambda>oid. oid \<in> set (mods ts)) (keys ts))
      @ map (\<lambda>oid. (oid, lm_version (the (meta_of ps ts oid)))) (filter (\<lambda>oid. oid \<notin> set (keys ts)) (mods ts))"
    "e1_gas_object e = (case gc_smashed_gas_coin gc of Some g \<Rightarrow> entry_of ps ts g | None \<Rightarrow> no_gas_object)"
proof -
  let ?w = "\<lambda>oid. (oid, if oid \<in> set (mods ts) then meta_of ps ts oid else None, entry_of ps ts oid)"
  have meta: "(case if oid \<in> set (mods ts) then meta_of ps ts oid else None of Some _ \<Rightarrow> Some a | None \<Rightarrow> None) = (if oid \<in> set (mods ts) then Some a else None)"
    "((if oid \<in> set (mods ts) then meta_of ps ts oid else None) = None) = (oid \<notin> set (mods ts))"
    "map_option (\<lambda>m. (oid, lm_version m)) (if oid \<in> set (mods ts) then meta_of ps ts oid else None)
      = (if oid \<in> set (mods ts) then Some (oid, lm_version (the (meta_of ps ts oid))) else None)" for oid and a :: "object_ref \<times> owner"
    using effects_readyD(5) [OF assms, of oid] by auto
  have filt: "filter P (filter Q xs) = filter (\<lambda>x. Q x \<and> P x) xs" for P Q and xs :: "objectID list" by simp
  show thesis
    by (rule that) (simp only: into_effects_v1_def Let_def gas_entry [OF assms] written_walk [OF assms] removed_walk [OF assms] bind.bind_lunit,
      simp_all only: effects_v1.simps map_filter_map prod.case fst_conv meta map_filter_if filt)
qed

lemma position_walk:
  assumes "g \<in> set xs"
  obtains i where "position (\<lambda>(oid, _). oid = g) (map (\<lambda>oid. (oid, C oid)) xs) = Some i" "i < length xs" "xs ! i = g"
  using assms
proof (induction xs arbitrary: thesis)
  case (Cons x xs)
  show ?case
  proof (cases "x = g")
    case True
    then show ?thesis using Cons.prems(1) [of 0] by simp
  next
    case False
    then have "g \<in> set xs" using Cons.prems(2) by simp
    then obtain i where "position (\<lambda>(oid, _). oid = g) (map (\<lambda>oid. (oid, C oid)) xs) = Some i" "i < length xs" "xs ! i = g"
      by (rule Cons.IH [rotated])
    then show ?thesis using Cons.prems(1) [of "Suc i"] False by simp
  qed
qed simp

lemma length_bs_insert: "length (bs_insert k s) \<le> Suc (length s)"
  by (induction k s rule: bs_insert.induct) auto

lemma length_bs_extend: "length (bs_extend s ks) \<le> length s + length ks"
proof (induction ks arbitrary: s)
  case (Cons k ks)
  have "length (bs_extend (bs_insert k s) ks) \<le> length (bs_insert k s) + length ks" by (rule Cons.IH)
  then show ?case using length_bs_insert [of k s] by (simp add: bs_extend_def)
qed (simp add: bs_extend_def)

lemma into_effects_v2_eq:
  assumes "effects_ready ps gc ts"
  obtains e where "into_effects_v2 ps events_hash ts shared tx_digest deps gas_used status gc epoch = Some e"
    "e2_changed_objects e = map (\<lambda>oid. (oid, change_of ps ts oid)) (all_ids ts)" "e2_lamport_version e = ts_lamport_timestamp ts"
    "gas_object_v2 e = Some (case gc_smashed_gas_coin gc of Some g \<Rightarrow> entry_of ps ts g | None \<Rightarrow> no_gas_object)"
proof (cases "gc_smashed_gas_coin gc")
  case None
  then show thesis
    by (intro that [of "the (into_effects_v2 ps events_hash ts shared tx_digest deps gas_used status gc epoch)"])
      (simp_all add: into_effects_v2_def get_object_changes_eq [OF assms] effects_v2_new_def gas_object_v2_def)
next
  case (Some g)
  then obtain ob where ob: "map_of (wr ts) g = Some ob" "\<not> is_package ob" using assms by (auto simp: effects_ready_def results_consistent_def Let_def)
  then have key: "g \<in> set (keys ts)" using map_of_SomeD by force
  then have "g \<in> set (all_ids ts)" using all_ids_facts(2) [of ts] by auto
  then obtain i where i: "position (\<lambda>(oid, _). oid = g) (map (\<lambda>oid. (oid, change_of ps ts oid)) (all_ids ts)) = Some i"
    "i < length (all_ids ts)" "all_ids ts ! i = g" by (rule position_walk)
  have "length (all_ids ts) < 2 ^ 32"
    using assms length_bs_extend [of "[]" "created_ids ts @ deleted_ids ts @ mods ts @ keys ts"]
    by (simp add: all_ids_def effects_ready_def results_consistent_def Let_def)
  then have small: "i mod 2 ^ 32 = i" using i(2) by simp
  obtain ob' where "map_of (wr ts) g = Some ob'" "\<not> is_package ob' \<longrightarrow> object_version ob' = ts_lamport_timestamp ts"
    by (rule written_object [OF assms key])
  then have version: "object_version ob = ts_lamport_timestamp ts" using ob by simp
  show thesis
    by (intro that [of "the (into_effects_v2 ps events_hash ts shared tx_digest deps gas_used status gc epoch)"])
      (simp_all add: into_effects_v2_def get_object_changes_eq [OF assms] effects_v2_new_def gas_object_v2_def Some i small [simplified]
      change_of_simps(2) ob entry_of_def version)
qed

lemma those_map_all2: "those (map f xs) = Some ys \<Longrightarrow> list_all2 (\<lambda>x y. f x = Some y) xs ys"
  by (induction xs arbitrary: ys) (auto split: option.splits)

lemma update_written_cases:
  assumes "update_written_object lamport_version prev_tx r (oid, ob) = Some kv"
  obtains d ow where "(case ob_data ob of Move m \<Rightarrow> Some (Move (increment_version_to lamport_version m))
       | Package p \<Rightarrow> if oid \<in> set (modified_objects r) then map_option Package (package_increment_version p) else Some (Package p)) = Some d"
    "ob_owner ob = Immutable \<longrightarrow> ow = Immutable" "kv = (oid, ob\<lparr>ob_data := d, ob_owner := ow, previous_transaction := prev_tx\<rparr>)"
  using assms unfolding update_written_object_def prod.case
proof (elim bind_eq_SomeE)
  fix d ow
  assume *: "(case ob_data ob of Move m \<Rightarrow> Some (Move (increment_version_to lamport_version m))
       | Package p \<Rightarrow> if oid \<in> set (modified_objects r) then map_option Package (package_increment_version p) else Some (Package p)) = Some d"
    "(case ob_owner ob of Shared v \<Rightarrow> if oid \<in> set (created_object_ids r) then do { rust_assert (v = 0); Some (Shared lamport_version) } else Some (Shared v)
       | ow \<Rightarrow> Some ow) = Some ow"
    "Some (oid, ob\<lparr>ob_data := d, ob_owner := ow, previous_transaction := prev_tx\<rparr>) = Some kv"
  show thesis by (rule that [of d ow, OF *(1)]) (use *(2,3) in auto)
qed

lemma all2_in: "list_all2 R xs ys \<Longrightarrow> y \<in> set ys \<Longrightarrow> \<exists>x \<in> set xs. R x y"
  by (induction rule: list_all2_induct) auto

lemma all2_keys:
  assumes "list_all2 R xs ys" "\<And>x y. R x y \<Longrightarrow> fst y = fst x"
  shows "map fst ys = map fst xs" "map_of xs k = Some v \<Longrightarrow> \<exists>v'. map_of ys k = Some v' \<and> R (k, v) (k, v')"
proof -
  show "map fst ys = map fst xs" using assms(1) by (induction rule: list_all2_induct) (simp_all add: assms(2))
  show "\<exists>v'. map_of ys k = Some v' \<and> R (k, v) (k, v')" if "map_of xs k = Some v" using assms(1) that
  proof (induction rule: list_all2_induct)
    case (Cons x xs y ys)
    then show ?case using assms(2) [OF Cons(1)] by (cases x; cases y) (auto split: if_splits)
  qed simp
qed

text \<open>Setting the versions makes consistent results ready.\<close>

lemma update_ready:
  assumes "results_consistent ps gc ts" "update_object_version_and_prev_tx ts = Some ts'"
  shows "effects_ready ps gc ts'" "ts_receiving_objects ts' = ts_receiving_objects ts" "ts_enable_effects_v2 ts' = ts_enable_effects_v2 ts"
proof -
  let ?f = "update_written_object (ts_lamport_timestamp ts) (ts_tx_digest ts) (ts_execution_results ts)"
  obtain written where w: "those (map ?f (wr ts)) = Some written"
    and ts': "ts' = ts\<lparr>ts_execution_results := (ts_execution_results ts)\<lparr>written_objects := written\<rparr>\<rparr>"
    using assms(2) by (auto simp: update_object_version_and_prev_tx_def update_version_and_previous_tx_def bind_eq_Some_conv)
  show "ts_receiving_objects ts' = ts_receiving_objects ts" "ts_enable_effects_v2 ts' = ts_enable_effects_v2 ts" by (simp_all add: ts')
  have pair: "fst kv' = fst kv \<and> object_id (snd kv') = object_id (snd kv) \<and> is_package (snd kv') = is_package (snd kv)
      \<and> (is_package (snd kv) \<longrightarrow> ob_owner (snd kv) = Immutable \<longrightarrow> ob_owner (snd kv') = Immutable)
      \<and> (\<not> is_package (snd kv) \<longrightarrow> object_version (snd kv') = ts_lamport_timestamp ts)" if upd: "?f kv = Some kv'" for kv kv'
  proof -
    obtain oid ob where kv: "kv = (oid, ob)" by (cases kv)
    obtain d ow where d: "(case ob_data ob of Move m \<Rightarrow> Some (Move (increment_version_to (ts_lamport_timestamp ts) m))
         | Package p \<Rightarrow> if oid \<in> set (mods ts) then map_option Package (package_increment_version p) else Some (Package p)) = Some d"
      and ow: "ob_owner ob = Immutable \<longrightarrow> ow = Immutable" and kv': "kv' = (oid, ob\<lparr>ob_data := d, ob_owner := ow, previous_transaction := ts_tx_digest ts\<rparr>)"
      by (rule update_written_cases [OF upd [unfolded kv]])
    show ?thesis
    proof (cases "ob_data ob")
      case (Move m)
      then show ?thesis using d by (auto simp: kv kv' is_package_def object_id_def move_object_id_def object_version_def increment_version_to_def)
    next
      case (Package q)
      have "d = Package q \<or> (\<exists>q'. package_increment_version q = Some q' \<and> d = Package q')"
        using d by (auto simp: Package split: if_splits)
      then obtain q' where "d = Package q'" "mp_id q' = mp_id q"
        by (auto simp: package_increment_version_def split: if_splits)
      then show ?thesis using Package ow by (simp add: kv kv' is_package_def object_id_def)
    qed
  qed
  have all2: "list_all2 (\<lambda>kv kv'. ?f kv = Some kv') (wr ts) written" using w by (rule those_map_all2)
  let ?R = "\<lambda>kv kv'. fst kv' = fst kv \<and> object_id (snd kv') = object_id (snd kv) \<and> is_package (snd kv') = is_package (snd kv)
      \<and> (is_package (snd kv) \<longrightarrow> ob_owner (snd kv) = Immutable \<longrightarrow> ob_owner (snd kv') = Immutable)
      \<and> (\<not> is_package (snd kv) \<longrightarrow> object_version (snd kv') = ts_lamport_timestamp ts)"
  have rel: "list_all2 ?R (wr ts) written" by (rule list_all2_mono [OF all2]) (rule pair)
  have keys: "map fst written = map fst (wr ts)" by (rule all2_keys(1) [OF rel]) blast
  have at: "\<exists>v'. map_of written k = Some v' \<and> ?R (k, v) (k, v')" if "map_of (wr ts) k = Some v" for k v by (rule all2_keys(2) [OF rel _ that]) blast
  note c = assms(1) [unfolded results_consistent_def Let_def]
  have "\<forall>(oid, ob) \<in> set written. object_id ob = Some oid
      \<and> (is_package ob \<longrightarrow> ob_owner ob = Immutable \<and> (oid \<in> set (mods ts) \<or> oid \<in> set (created_ids ts)))"
  proof (intro ballI)
    fix kv' assume "kv' \<in> set written"
    then obtain kv where kv: "kv \<in> set (wr ts)" "?R kv kv'" using all2_in [OF rel] by blast
    have "\<forall>(oid, ob) \<in> set (wr ts). object_id ob = Some oid
      \<and> (is_package ob \<longrightarrow> ob_owner ob = Immutable \<and> (oid \<in> set (mods ts) \<or> oid \<in> set (created_ids ts)))" using c by (elim conjE)
    from bspec [OF this kv(1)] kv(2) show "case kv' of (oid, ob) \<Rightarrow> object_id ob = Some oid
      \<and> (is_package ob \<longrightarrow> ob_owner ob = Immutable \<and> (oid \<in> set (mods ts) \<or> oid \<in> set (created_ids ts)))" by (auto simp: split_beta)
  qed
  moreover have "\<forall>g. gc_smashed_gas_coin gc = Some g \<longrightarrow> (\<exists>ob. map_of written g = Some ob \<and> \<not> is_package ob)"
  proof (intro allI impI)
    fix g assume g: "gc_smashed_gas_coin gc = Some g"
    have "\<forall>g. gc_smashed_gas_coin gc = Some g \<longrightarrow> (\<exists>ob. map_of (wr ts) g = Some ob \<and> \<not> is_package ob)" using c by (elim conjE)
    then obtain ob where "map_of (wr ts) g = Some ob" "\<not> is_package ob" using g by blast
    then show "\<exists>ob. map_of written g = Some ob \<and> \<not> is_package ob" using at by fastforce
  qed
  moreover have "length written = length (wr ts)" by (rule list_all2_lengthD [OF rel, symmetric])
  moreover have "fst ` set written = fst ` set (wr ts)" using arg_cong [OF keys, of set] by (simp only: set_map)
  moreover have "bt_wf written" unfolding keys by (rule c [THEN conjunct1])
  ultimately have "results_consistent ps gc ts'"
    using c unfolding results_consistent_def Let_def by (simp add: ts')
  moreover have "\<forall>(oid, ob) \<in> set written. \<not> is_package ob \<longrightarrow> object_version ob = ts_lamport_timestamp ts"
    using all2_in [OF rel] by fastforce
  ultimately show "effects_ready ps gc ts'" by (simp add: effects_ready_def ts')
qed

section \<open>Both formats report the same changes\<close>

lemma formats_agree:
  assumes "effects_ready ps gc ts"
  obtains e1 e2 where "into_effects_v1 ps events_hash ts shared tx_digest deps gas_used status gc epoch = Some e1"
    "into_effects_v2 ps events_hash ts shared' tx_digest deps gas_used status gc epoch = Some e2"
    "e1_created e1 = created_v2 e2" "e1_mutated e1 = mutated_v2 e2" "e1_unwrapped e1 = unwrapped_v2 e2" "e1_deleted e1 = deleted_v2 e2"
    "e1_wrapped e1 = wrapped_v2 e2" "e1_unwrapped_then_deleted e1 = unwrapped_then_deleted_v2 e2" "Some (e1_gas_object e1) = gas_object_v2 e2"
    "mset (e1_modified_at_versions e1) = mset (modified_at_versions_v2 e2)"
proof -
  obtain e2 where e2: "into_effects_v2 ps events_hash ts shared' tx_digest deps gas_used status gc epoch = Some e2"
    "e2_changed_objects e2 = map (\<lambda>oid. (oid, change_of ps ts oid)) (all_ids ts)" "e2_lamport_version e2 = ts_lamport_timestamp ts"
    "gas_object_v2 e2 = Some (case gc_smashed_gas_coin gc of Some g \<Rightarrow> entry_of ps ts g | None \<Rightarrow> no_gas_object)"
    by (rule into_effects_v2_eq [OF assms])
  note l2 = v2_lists [OF assms e2(2,3)] and d = effects_readyD [OF assms]
  have "mset (modified_at_versions_v2 e2)
    = mset (map (\<lambda>oid. (oid, lm_version (the (meta_of ps ts oid)))) (filter (\<lambda>oid. oid \<in> set (mods ts)) (keys ts))
      @ map (\<lambda>oid. (oid, lm_version (the (meta_of ps ts oid)))) (filter (\<lambda>oid. oid \<notin> set (keys ts)) (mods ts)))"
    unfolding l2(7) mset_append mset_filter_split [OF d(1,2)] ..
  note versions = this
  obtain e1 where e1: "into_effects_v1 ps events_hash ts shared tx_digest deps gas_used status gc epoch = Some e1"
    and l1: "e1_mutated e1 = map (entry_of ps ts) (filter (\<lambda>oid. oid \<in> set (mods ts)) (keys ts))"
      "e1_created e1 = map (entry_of ps ts) (filter (\<lambda>oid. oid \<notin> set (mods ts) \<and> oid \<in> set (created_ids ts)) (keys ts))"
      "e1_unwrapped e1 = map (entry_of ps ts) (filter (\<lambda>oid. oid \<notin> set (mods ts) \<and> oid \<notin> set (created_ids ts)) (keys ts))"
      "e1_deleted e1 = map (\<lambda>oid. (oid, ts_lamport_timestamp ts, OBJECT_DIGEST_DELETED))
        (filter (\<lambda>oid. oid \<notin> set (keys ts) \<and> oid \<in> set (deleted_ids ts)) (mods ts))"
      "e1_wrapped e1 = map (\<lambda>oid. (oid, ts_lamport_timestamp ts, OBJECT_DIGEST_WRAPPED))
        (filter (\<lambda>oid. oid \<notin> set (keys ts) \<and> oid \<notin> set (deleted_ids ts)) (mods ts))"
      "e1_unwrapped_then_deleted e1 = map (\<lambda>oid. (oid, ts_lamport_timestamp ts, OBJECT_DIGEST_DELETED))
        (filter (\<lambda>oid. oid \<notin> set (mods ts)) (deleted_ids ts))"
      "e1_modified_at_versions e1 = map (\<lambda>oid. (oid, lm_version (the (meta_of ps ts oid)))) (filter (\<lambda>oid. oid \<in> set (mods ts)) (keys ts))
        @ map (\<lambda>oid. (oid, lm_version (the (meta_of ps ts oid)))) (filter (\<lambda>oid. oid \<notin> set (keys ts)) (mods ts))"
      "e1_gas_object e1 = (case gc_smashed_gas_coin gc of Some g \<Rightarrow> entry_of ps ts g | None \<Rightarrow> no_gas_object)"
    by (rule into_effects_v1_eq [OF assms, of events_hash shared tx_digest deps gas_used status epoch])
  show thesis by (rule that [OF e1 e2(1)]) (simp_all only: l1 l2(1-6) e2(4) versions)
qed

lemma flag_irrelevant [simp]:
  "get_object_modified_at ps oid (ts\<lparr>ts_enable_effects_v2 := b\<rparr>) = get_object_modified_at ps oid ts"
  "get_object_changes ps (ts\<lparr>ts_enable_effects_v2 := b\<rparr>) = get_object_changes ps ts"
  "receive_dependency (ts\<lparr>ts_enable_effects_v2 := b\<rparr>) = receive_dependency ts"
  "into_effects_v1 ps events_hash (ts\<lparr>ts_enable_effects_v2 := b\<rparr>) = into_effects_v1 ps events_hash ts"
  "into_effects_v2 ps events_hash (ts\<lparr>ts_enable_effects_v2 := b\<rparr>) = into_effects_v2 ps events_hash ts"
proof -
  have sel: "ts_execution_results (ts\<lparr>ts_enable_effects_v2 := b\<rparr>) = ts_execution_results ts"
    "ts_lamport_timestamp (ts\<lparr>ts_enable_effects_v2 := b\<rparr>) = ts_lamport_timestamp ts" by simp_all
  show modified: "get_object_modified_at ps oid (ts\<lparr>ts_enable_effects_v2 := b\<rparr>) = get_object_modified_at ps oid ts" for oid
    by (cases ts) (simp only: get_object_modified_at_def temporary_store.simps)
  show changes: "get_object_changes ps (ts\<lparr>ts_enable_effects_v2 := b\<rparr>) = get_object_changes ps ts"
    by (simp add: get_object_changes_def modified)
  show "receive_dependency (ts\<lparr>ts_enable_effects_v2 := b\<rparr>) = receive_dependency ts" by (simp add: receive_dependency_def)
  show "into_effects_v1 ps events_hash (ts\<lparr>ts_enable_effects_v2 := b\<rparr>) = into_effects_v1 ps events_hash ts"
    by (intro ext) (simp only: into_effects_v1_def modified events_digest_of_def sel)
  show "into_effects_v2 ps events_hash (ts\<lparr>ts_enable_effects_v2 := b\<rparr>) = into_effects_v2 ps events_hash ts"
    by (intro ext) (simp only: into_effects_v2_def changes events_digest_of_def sel)
qed

text \<open>C7: The two formats of the effects agree. For consistent results whose versions can be set, building the
  effects never panics in either format, and both report the same created, mutated, unwrapped, deleted,
  wrapped and unwrapped-then-deleted objects in the same order, the same gas object, and the same
  versions before the transaction up to their order.\<close>

theorem effects_formats_agree:
  assumes "results_consistent ps gc ts" "update_object_version_and_prev_tx ts = Some ts'"
  shows "\<exists>e1 e2. into_effects ps events_hash (ts\<lparr>ts_enable_effects_v2 := False\<rparr>) (map ExistingShared shared) tx_digest deps gas_used status gc epoch = Some e1
    \<and> into_effects ps events_hash (ts\<lparr>ts_enable_effects_v2 := True\<rparr>) (map ExistingShared shared) tx_digest deps gas_used status gc epoch = Some e2
    \<and> effects_created e1 = effects_created e2 \<and> effects_mutated e1 = effects_mutated e2 \<and> effects_unwrapped e1 = effects_unwrapped e2
    \<and> effects_deleted e1 = effects_deleted e2 \<and> effects_wrapped e1 = effects_wrapped e2
    \<and> effects_unwrapped_then_deleted e1 = effects_unwrapped_then_deleted e2
    \<and> effects_gas_object e1 = effects_gas_object e2 \<and> mset (effects_modified_at_versions e1) = mset (effects_modified_at_versions e2)"
proof (rule formats_agree [OF update_ready(1) [OF assms], of events_hash shared tx_digest "fold (receive_dependency ts') (ts_receiving_objects ts') deps"
    gas_used status epoch "map ExistingShared shared"])
  let ?deps = "fold (receive_dependency ts') (ts_receiving_objects ts') deps"
  fix e1 e2
  assume e: "into_effects_v1 ps events_hash ts' shared tx_digest ?deps gas_used status gc epoch = Some e1"
    "into_effects_v2 ps events_hash ts' (map ExistingShared shared) tx_digest ?deps gas_used status gc epoch = Some e2"
    and agree: "e1_created e1 = created_v2 e2" "e1_mutated e1 = mutated_v2 e2" "e1_unwrapped e1 = unwrapped_v2 e2" "e1_deleted e1 = deleted_v2 e2"
    "e1_wrapped e1 = wrapped_v2 e2" "e1_unwrapped_then_deleted e1 = unwrapped_then_deleted_v2 e2" "Some (e1_gas_object e1) = gas_object_v2 e2"
    "mset (e1_modified_at_versions e1) = mset (modified_at_versions_v2 e2)"
  have upd: "update_object_version_and_prev_tx (ts\<lparr>ts_enable_effects_v2 := b\<rparr>) = Some (ts'\<lparr>ts_enable_effects_v2 := b\<rparr>)" for b
    using assms(2) by (auto simp: update_object_version_and_prev_tx_def bind_eq_Some_conv)
  have "into_effects ps events_hash (ts\<lparr>ts_enable_effects_v2 := False\<rparr>) (map ExistingShared shared) tx_digest deps gas_used status gc epoch = Some (EffectsV1 e1)"
    "into_effects ps events_hash (ts\<lparr>ts_enable_effects_v2 := True\<rparr>) (map ExistingShared shared) tx_digest deps gas_used status gc epoch = Some (EffectsV2 e2)"
    using e by (simp_all add: into_effects_def upd comp_def)
  then show ?thesis using agree by (intro exI [of _ "EffectsV1 e1"] exI [of _ "EffectsV2 e2"]) simp
qed

lemma example_consistent: "results_consistent example_params example_charger example_store"
proof -
  have sel: "created_object_ids (ts_execution_results example_store) = []" "deleted_object_ids (ts_execution_results example_store) = [replicate 32 8]"
    by (simp_all add: example_store_def)
  have "\<not> is_package (example_coin 7 7000000)" by (simp add: example_coin_def new_move_def is_package_def)
  then show ?thesis by (simp add: results_consistent_def Let_def sel example_metas)
qed

lemma example_updates: "\<exists>ts'. update_object_version_and_prev_tx example_store = Some ts'"
  by (simp add: update_object_version_and_prev_tx_def update_version_and_previous_tx_def update_written_object_def)
    (simp add: example_coin_def new_move_def)

theorem effects_formats_agree_witness:
  "\<exists>e1 e2. into_effects example_params (\<lambda>_. 0) (example_store\<lparr>ts_enable_effects_v2 := False\<rparr>) [] 5 [] gas_cost_summary_default () example_charger 0 = Some e1
     \<and> into_effects example_params (\<lambda>_. 0) (example_store\<lparr>ts_enable_effects_v2 := True\<rparr>) [] 5 [] gas_cost_summary_default () example_charger 0 = Some e2
     \<and> effects_mutated e1 = effects_mutated e2 \<and> effects_deleted e1 = effects_deleted e2"
proof -
  obtain ts' where "update_object_version_and_prev_tx example_store = Some ts'" using example_updates by blast
  from effects_formats_agree [OF example_consistent this, of "\<lambda>_. 0" "[]" 5 "[]" gas_cost_summary_default "()" 0] show ?thesis by force
qed

section \<open>The lists of the effects\<close>

lemma update_ids:
  assumes "update_object_version_and_prev_tx ts = Some ts'"
  shows "keys ts' = keys ts" "mods ts' = mods ts" "created_ids ts' = created_ids ts" "deleted_ids ts' = deleted_ids ts"
    "ts_lamport_timestamp ts' = ts_lamport_timestamp ts"
proof -
  let ?f = "update_written_object (ts_lamport_timestamp ts) (ts_tx_digest ts) (ts_execution_results ts)"
  obtain written where w: "those (map ?f (wr ts)) = Some written"
    and ts': "ts' = ts\<lparr>ts_execution_results := (ts_execution_results ts)\<lparr>written_objects := written\<rparr>\<rparr>"
    using assms by (auto simp: update_object_version_and_prev_tx_def update_version_and_previous_tx_def bind_eq_Some_conv)
  have "fst kv' = fst kv" if "?f kv = Some kv'" for kv kv'
    using that by (cases kv) (auto elim: update_written_cases)
  then have "map fst written = keys ts" by (rule all2_keys(1) [OF those_map_all2 [OF w]])
  then show "keys ts' = keys ts" "mods ts' = mods ts" "created_ids ts' = created_ids ts" "deleted_ids ts' = deleted_ids ts"
    "ts_lamport_timestamp ts' = ts_lamport_timestamp ts" by (simp_all add: ts')
qed

lemma into_effects_lists:
  assumes cons: "results_consistent ps gc ts"
    and into: "into_effects ps events_hash ts shared tx_digest deps gas_used status gc epoch = Some e"
  obtains ts' where "update_object_version_and_prev_tx ts = Some ts'" "effects_ready ps gc ts'"
    "effects_mutated e = map (entry_of ps ts') (filter (\<lambda>oid. oid \<in> set (mods ts')) (keys ts'))"
    "effects_created e = map (entry_of ps ts') (filter (\<lambda>oid. oid \<notin> set (mods ts') \<and> oid \<in> set (created_ids ts')) (keys ts'))"
    "effects_unwrapped e = map (entry_of ps ts') (filter (\<lambda>oid. oid \<notin> set (mods ts') \<and> oid \<notin> set (created_ids ts')) (keys ts'))"
    "effects_deleted e = map (\<lambda>oid. (oid, ts_lamport_timestamp ts', OBJECT_DIGEST_DELETED))
      (filter (\<lambda>oid. oid \<notin> set (keys ts') \<and> oid \<in> set (deleted_ids ts')) (mods ts'))"
    "effects_wrapped e = map (\<lambda>oid. (oid, ts_lamport_timestamp ts', OBJECT_DIGEST_WRAPPED))
      (filter (\<lambda>oid. oid \<notin> set (keys ts') \<and> oid \<notin> set (deleted_ids ts')) (mods ts'))"
    "effects_unwrapped_then_deleted e = map (\<lambda>oid. (oid, ts_lamport_timestamp ts', OBJECT_DIGEST_DELETED))
      (filter (\<lambda>oid. oid \<notin> set (mods ts')) (deleted_ids ts'))"
proof -
  obtain ts' where upd: "update_object_version_and_prev_tx ts = Some ts'" using into by (auto simp: into_effects_def bind_eq_Some_conv)
  let ?deps = "fold (receive_dependency ts') (ts_receiving_objects ts') deps"
  have ready: "effects_ready ps gc ts'" by (rule update_ready(1) [OF cons upd])
  show thesis
  proof (cases "ts_enable_effects_v2 ts'")
    case True
    obtain e2 where e2: "into_effects_v2 ps events_hash ts' shared tx_digest ?deps gas_used status gc epoch = Some e2"
      "e2_changed_objects e2 = map (\<lambda>oid. (oid, change_of ps ts' oid)) (all_ids ts')" "e2_lamport_version e2 = ts_lamport_timestamp ts'"
      by (rule into_effects_v2_eq [OF ready])
    have "e = EffectsV2 e2" using into upd True e2(1) by (simp add: into_effects_def)
    then show thesis using that [OF upd ready] v2_lists(1-6) [OF ready e2(2,3)] by simp
  next
    case False
    then obtain refs' e1 where "into_effects_v1 ps events_hash ts' refs' tx_digest ?deps gas_used status gc epoch = Some e1" "e = EffectsV1 e1"
      using into upd by (auto simp: into_effects_def bind_eq_Some_conv)
    note e = this
    show thesis
      by (rule into_effects_v1_eq [OF ready, of events_hash refs' tx_digest ?deps gas_used status epoch]) (use that [OF upd ready] e in simp)
  qed
qed

abbreviation changed_id :: "object_ref \<times> owner \<Rightarrow> objectID" where
  "changed_id x \<equiv> fst (fst x)"

text \<open>C19: The effects of consistent results, in either format, list every object once and in the right list.
  Of the written objects, the modified ones are mutated, the ones with a created identifier are
  created, and the others are unwrapped. Of the objects that are modified and not written, those with
  a deleted identifier are deleted and the others wrapped. The deleted identifiers that were not
  modified are unwrapped then deleted. No identifier occurs twice in these six lists, and the
  references of removed objects carry the version of the transaction.\<close>

theorem effects_list_objects_once:
  assumes "results_consistent ps gc ts"
    and "into_effects ps events_hash ts shared tx_digest deps gas_used status gc epoch = Some e"
  shows "let r = ts_execution_results ts; W = fst ` set (written_objects r); M = set (modified_objects r);
      C = set (created_object_ids r); D = set (deleted_object_ids r) in
    changed_id ` set (effects_mutated e) = W \<inter> M \<and> changed_id ` set (effects_created e) = W \<inter> C
    \<and> changed_id ` set (effects_unwrapped e) = W - M - C
    \<and> fst ` set (effects_deleted e) = M \<inter> D \<and> fst ` set (effects_wrapped e) = M - W - D
    \<and> fst ` set (effects_unwrapped_then_deleted e) = D - M
    \<and> distinct (map changed_id (effects_mutated e @ effects_created e @ effects_unwrapped e)
        @ map fst (effects_deleted e @ effects_wrapped e @ effects_unwrapped_then_deleted e))
    \<and> (fst \<circ> snd) ` set (effects_deleted e @ effects_wrapped e @ effects_unwrapped_then_deleted e) \<subseteq> {ts_lamport_timestamp ts}"
proof -
  obtain ts' where upd: "update_object_version_and_prev_tx ts = Some ts'" and ready: "effects_ready ps gc ts'"
    and l: "effects_mutated e = map (entry_of ps ts') (filter (\<lambda>oid. oid \<in> set (mods ts')) (keys ts'))"
    "effects_created e = map (entry_of ps ts') (filter (\<lambda>oid. oid \<notin> set (mods ts') \<and> oid \<in> set (created_ids ts')) (keys ts'))"
    "effects_unwrapped e = map (entry_of ps ts') (filter (\<lambda>oid. oid \<notin> set (mods ts') \<and> oid \<notin> set (created_ids ts')) (keys ts'))"
    "effects_deleted e = map (\<lambda>oid. (oid, ts_lamport_timestamp ts', OBJECT_DIGEST_DELETED))
      (filter (\<lambda>oid. oid \<notin> set (keys ts') \<and> oid \<in> set (deleted_ids ts')) (mods ts'))"
    "effects_wrapped e = map (\<lambda>oid. (oid, ts_lamport_timestamp ts', OBJECT_DIGEST_WRAPPED))
      (filter (\<lambda>oid. oid \<notin> set (keys ts') \<and> oid \<notin> set (deleted_ids ts')) (mods ts'))"
    "effects_unwrapped_then_deleted e = map (\<lambda>oid. (oid, ts_lamport_timestamp ts', OBJECT_DIGEST_DELETED))
      (filter (\<lambda>oid. oid \<notin> set (mods ts')) (deleted_ids ts'))"
    by (rule into_effects_lists [OF assms])
  note d = effects_readyD [OF ready] and same = update_ids [OF upd]
  have dist: "distinct (keys ts)" "distinct (mods ts)" "distinct (deleted_ids ts)"
    using d(1,2,4) unfolding same by (simp_all only: strict_sorted_iff)
  have ids: "changed_id \<circ> entry_of ps ts' = (\<lambda>oid. oid)" "changed_id (entry_of ps ts' oid) = oid" for oid
    by (simp_all add: fun_eq_iff entry_of_def Let_def)
  have sep: "set (created_ids ts) \<inter> set (mods ts) = {}" "fst ` set (wr ts) \<inter> set (deleted_ids ts) = {}"
    using assms(1) unfolding results_consistent_def Let_def by blast+
  have "distinct (map changed_id (effects_mutated e @ effects_created e @ effects_unwrapped e)
      @ map fst (effects_deleted e @ effects_wrapped e @ effects_unwrapped_then_deleted e))"
    unfolding l map_append map_map ids same using dist sep(2) by (auto simp: comp_def distinct_append)
  moreover have "changed_id ` set (effects_mutated e) = fst ` set (wr ts) \<inter> set (mods ts)"
      "changed_id ` set (effects_created e) = fst ` set (wr ts) \<inter> set (created_ids ts)"
      "changed_id ` set (effects_unwrapped e) = fst ` set (wr ts) - set (mods ts) - set (created_ids ts)"
    unfolding l same set_map image_image ids using sep(1) by auto
  moreover have "fst ` set (effects_deleted e) = set (mods ts) \<inter> set (deleted_ids ts)"
      "fst ` set (effects_wrapped e) = set (mods ts) - fst ` set (wr ts) - set (deleted_ids ts)"
      "fst ` set (effects_unwrapped_then_deleted e) = set (deleted_ids ts) - set (mods ts)"
    unfolding l same set_map image_image fst_conv using sep(2) by auto
  moreover have "(fst \<circ> snd) ` set (effects_deleted e @ effects_wrapped e @ effects_unwrapped_then_deleted e) \<subseteq> {ts_lamport_timestamp ts}"
    unfolding l same by auto
  ultimately show ?thesis by (simp only: Let_def)
qed

theorem effects_list_objects_once_witness:
  "\<exists>e. into_effects example_params (\<lambda>_. 0) example_store [] 5 [] gas_cost_summary_default () example_charger 0 = Some e
     \<and> changed_id ` set (effects_mutated e) = {replicate 32 7} \<and> fst ` set (effects_deleted e) = {replicate 32 8}
     \<and> effects_created e = [] \<and> effects_wrapped e = []"
proof -
  obtain ts' where ts': "update_object_version_and_prev_tx example_store = Some ts'" using example_updates by blast
  have v2: "ts_enable_effects_v2 ts'" using update_ready(3) [OF example_consistent ts'] by (simp add: example_store_def)
  obtain e2 where "into_effects_v2 example_params (\<lambda>_. 0) ts' [] 5 (fold (receive_dependency ts') (ts_receiving_objects ts') []) gas_cost_summary_default () example_charger 0 = Some e2"
    by (rule into_effects_v2_eq [OF update_ready(1) [OF example_consistent ts']])
  then have into: "into_effects example_params (\<lambda>_. 0) example_store [] 5 [] gas_cost_summary_default () example_charger 0 = Some (EffectsV2 e2)"
    using ts' v2 by (simp add: into_effects_def)
  show ?thesis
    by (rule exI [of _ "EffectsV2 e2"])
      (use into effects_list_objects_once [OF example_consistent into] in \<open>auto simp: example_store_def Let_def\<close>)
qed

end
