(* ===== verification/Sui_Causal_Order.thy ===== *)
theory Sui_Causal_Order
  imports Sui_Effects "HOL-Library.Multiset"
begin

text \<open>
  The causal order of a checkpoint: \<open>crates/sui-core/src/checkpoints/causal_order.rs\<close>.

  The effects of a checkpoint are sorted by a depth-first search with an explicit stack. The vector of
  dependencies of a stack entry is kept with its end, which is popped, first. A state of the search
  that was finished must not be used again; that panic is the \<open>None\<close> of the search.

  Shown: the search ends and does not panic, its output is a permutation of the effects in which every
  transaction comes after those it depends on (including the readers of a version it overwrites), and
  the output does not depend on the order of the input.
\<close>

section \<open>Dependencies\<close>

fun effects_transaction_digest :: "'s transaction_effects \<Rightarrow> nat" where
  "effects_transaction_digest (EffectsV1 e) = e1_transaction_digest e"
| "effects_transaction_digest (EffectsV2 e) = e2_transaction_digest e"

fun effects_dependencies :: "'s transaction_effects \<Rightarrow> nat list" where
  "effects_dependencies (EffectsV1 e) = e1_dependencies e"
| "effects_dependencies (EffectsV2 e) = e2_dependencies e"

type_synonym object_key = "objectID \<times> sequence_number"

record rwlock_dependency_builder =
  read_version :: "(object_key \<times> nat list) list"
  overwrite_versions :: "(nat \<times> object_key list) list"

text \<open>\<open>entry(k).or_default().push(v)\<close> on a hash map of vectors.\<close>

definition push_entry :: "'k \<Rightarrow> 'v \<Rightarrow> ('k \<times> 'v list) list \<Rightarrow> ('k \<times> 'v list) list" where
  "push_entry k v m = AList.update k ((case map_of m k of Some vs \<Rightarrow> vs | None \<Rightarrow> []) @ [v]) m"

fun add_shared_object :: "nat \<Rightarrow> input_shared_object \<Rightarrow> rwlock_dependency_builder \<Rightarrow> rwlock_dependency_builder" where
  "add_shared_object digest (ReadOnlyShared (oid, version, _)) b = b\<lparr>read_version := push_entry (oid, version) digest (read_version b)\<rparr>"
| "add_shared_object digest (MutateShared (oid, version, _)) b = b\<lparr>overwrite_versions := push_entry digest (oid, version) (overwrite_versions b)\<rparr>"
| "add_shared_object digest (ReadDeleted oid version) b = b\<lparr>read_version := push_entry (oid, version) digest (read_version b)\<rparr>"
| "add_shared_object digest (MutateDeleted oid version) b = b\<lparr>overwrite_versions := push_entry digest (oid, version) (overwrite_versions b)\<rparr>"

definition rwlock_from_effects :: "'s transaction_effects list \<Rightarrow> rwlock_dependency_builder" where
  "rwlock_from_effects effects =
     fold (\<lambda>effect. fold (add_shared_object (effects_transaction_digest effect)) (effects_input_shared_objects effect)) effects
       \<lparr>read_version = [], overwrite_versions = []\<rparr>"

definition add_dependencies_for :: "nat \<Rightarrow> rwlock_dependency_builder \<Rightarrow> nat list \<Rightarrow> nat list" where
  "add_dependencies_for digest b v =
     (case map_of (overwrite_versions b) digest of
        None \<Rightarrow> v
      | Some overwrites \<Rightarrow> fold (\<lambda>obj_ver v. case map_of (read_version b) obj_ver of None \<Rightarrow> v | Some reads \<Rightarrow> bs_extend v reads) overwrites v)"

record 's transaction_dependencies =
  td_digest :: nat
  td_dependencies :: "nat list"
  td_effects :: "'s transaction_effects"

definition dependencies_from_effects :: "'s transaction_effects \<Rightarrow> rwlock_dependency_builder \<Rightarrow> 's transaction_dependencies" where
  "dependencies_from_effects effects b =
     \<lparr>td_digest = effects_transaction_digest effects,
      td_dependencies = add_dependencies_for (effects_transaction_digest effects) b (bs_extend [] (effects_dependencies effects)),
      td_effects = effects\<rparr>"

section \<open>The search\<close>

record 's causal_order =
  not_seen :: "(nat \<times> 's transaction_dependencies) list"
  co_output :: "'s transaction_effects list"

definition causal_from_vec :: "'s transaction_effects list \<Rightarrow> 's causal_order" where
  "causal_from_vec effects = (let b = rwlock_from_effects effects;
       dependencies = map (\<lambda>e. dependencies_from_effects e b) effects
     in \<lparr>not_seen = bt_of_list (map (\<lambda>d. (td_digest d, d)) dependencies), co_output = []\<rparr>)"

definition pop_first :: "'s causal_order \<Rightarrow> ('s transaction_dependencies \<times> 's causal_order) option" where
  "pop_first co = (case not_seen co of
     [] \<Rightarrow> None
   | (key, item) # rest \<Rightarrow> Some (item, co\<lparr>not_seen := rest\<rparr>))"

record 's insert_state =
  is_dependencies :: "nat list"
  is_transaction :: "'s transaction_dependencies option"

definition insert_state_new :: "'s transaction_dependencies \<Rightarrow> 's insert_state" where
  "insert_state_new transaction = \<lparr>is_dependencies = rev (td_dependencies transaction), is_transaction = Some transaction\<rparr>"

fun next_dependency :: "nat list \<Rightarrow> (nat \<times> 's transaction_dependencies) list
    \<Rightarrow> nat list \<times> ('s transaction_dependencies option) \<times> (nat \<times> 's transaction_dependencies) list" where
  "next_dependency [] ns = ([], None, ns)"
| "next_dependency (dep # deps) ns =
     (case map_of ns dep of
        Some dep_transaction \<Rightarrow> (deps, Some dep_transaction, filter (\<lambda>(k, _). k \<noteq> dep) ns)
      | None \<Rightarrow> next_dependency deps ns)"

definition insert_process :: "'s insert_state \<Rightarrow> 's causal_order \<Rightarrow> ('s insert_state option \<times> 's insert_state \<times> 's causal_order) option" where
  "insert_process state co = (case next_dependency (is_dependencies state) (not_seen co) of
     (deps, Some dep_transaction, ns) \<Rightarrow>
       Some (Some (insert_state_new dep_transaction), state\<lparr>is_dependencies := deps\<rparr>, co\<lparr>not_seen := ns\<rparr>)
   | (deps, None, ns) \<Rightarrow> do {
       transaction \<leftarrow> is_transaction state;
       Some (None, state\<lparr>is_dependencies := deps, is_transaction := None\<rparr>, co\<lparr>co_output := co_output co @ [td_effects transaction]\<rparr>)
     })"

lemma next_dependency_shrinks:
  assumes "next_dependency deps ns = (deps', found, ns')"
  shows "found \<noteq> None \<Longrightarrow> length ns' < length ns" "found = None \<Longrightarrow> ns' = ns \<and> deps' = []"
proof -
  have "(found \<noteq> None \<longrightarrow> length ns' < length ns) \<and> (found = None \<longrightarrow> ns' = ns \<and> deps' = [])"
    using assms
  proof (induction deps ns rule: next_dependency.induct)
    case (2 dep deps ns)
    show ?case
    proof (cases "map_of ns dep")
      case (Some t)
      then have "\<exists>x \<in> set ns. \<not> (case x of (k, _) \<Rightarrow> k \<noteq> dep)" by (force dest: map_of_SomeD)
      then have "length (filter (\<lambda>(k, _). k \<noteq> dep) ns) < length ns" by (blast intro: length_filter_less)
      then show ?thesis using 2(2) Some by auto
    qed (use 2 in simp)
  qed simp
  then show "found \<noteq> None \<Longrightarrow> length ns' < length ns" "found = None \<Longrightarrow> ns' = ns \<and> deps' = []" by auto
qed

lemma insert_process_shrinks:
  assumes "insert_process state co = Some (new, state', co')"
  shows "new \<noteq> None \<Longrightarrow> length (not_seen co') < length (not_seen co)" "new = None \<Longrightarrow> not_seen co' = not_seen co"
proof -
  obtain deps found ns where next_dep: "next_dependency (is_dependencies state) (not_seen co) = (deps, found, ns)" by (cases "next_dependency (is_dependencies state) (not_seen co)")
  show "new \<noteq> None \<Longrightarrow> length (not_seen co') < length (not_seen co)" "new = None \<Longrightarrow> not_seen co' = not_seen co"
    using assms next_dependency_shrinks [OF next_dep] by (auto simp: insert_process_def next_dep bind_eq_Some_conv split: option.splits)
qed

text \<open>The stack has its top first.\<close>

function insert_loop :: "'s insert_state list \<Rightarrow> 's causal_order \<Rightarrow> 's causal_order option" where
  "insert_loop [] co = Some co"
| "insert_loop (state # states) co =
     (case insert_process state co of
        None \<Rightarrow> None
      | Some (Some new_state, state', co') \<Rightarrow> insert_loop (new_state # state' # states) co'
      | Some (None, state', co') \<Rightarrow> insert_loop states co')"
  by pat_completeness auto

termination
  by (relation "measure (\<lambda>(states, co). 2 * length (not_seen co) + length states)") (auto dest: insert_process_shrinks)

definition causal_insert :: "'s transaction_dependencies \<Rightarrow> 's causal_order \<Rightarrow> 's causal_order option" where
  "causal_insert transaction co = insert_loop [insert_state_new transaction] co"

lemma insert_loop_shrinks: "insert_loop states co = Some co' \<Longrightarrow> length (not_seen co') \<le> length (not_seen co)"
proof (induction states co rule: insert_loop.induct)
  case (2 state states co)
  show ?case
  proof (cases "insert_process state co")
    case (Some r)
    obtain new state' co1 where r: "r = (new, state', co1)" by (cases r)
    note shrink = insert_process_shrinks [OF Some [unfolded r]]
    show ?thesis using 2 Some shrink by (cases new) (fastforce simp: r)+
  qed (use 2(3) in simp)
qed simp

function causal_loop :: "'s causal_order \<Rightarrow> 's causal_order option" where
  "causal_loop co =
     (case pop_first co of
        None \<Rightarrow> Some co
      | Some (item, co') \<Rightarrow> (case causal_insert item co' of None \<Rightarrow> None | Some co'' \<Rightarrow> causal_loop co''))"
  by pat_completeness auto

termination
  by (relation "measure (\<lambda>co. length (not_seen co))")
    (auto simp: pop_first_def causal_insert_def simp del: insert_loop.simps dest!: insert_loop_shrinks split: list.splits)

declare causal_loop.simps [simp del]

definition causal_sort :: "'s transaction_effects list \<Rightarrow> 's transaction_effects list option" where
  "causal_sort effects = map_option co_output (causal_loop (causal_from_vec effects))"

section \<open>What the search keeps\<close>

abbreviation (input) state_digest :: "'s insert_state \<Rightarrow> nat" where
  "state_digest s \<equiv> td_digest (the (is_transaction s))"

abbreviation (input) out_digests :: "'s causal_order \<Rightarrow> nat list" where
  "out_digests co \<equiv> map effects_transaction_digest (co_output co)"

text \<open>The table the search starts from.\<close>

definition table_ok :: "(nat \<times> 's transaction_dependencies) list \<Rightarrow> bool" where
  "table_ok table \<longleftrightarrow> distinct (map fst table) \<and> (\<forall>(k, t) \<in> set table. td_digest t = k \<and> effects_transaction_digest (td_effects t) = k)"

text \<open>Every transaction of the table is waiting, on the stack or in the output, and in one of them once.\<close>

definition search_ok :: "(nat \<times> 's transaction_dependencies) list \<Rightarrow> 's insert_state list \<Rightarrow> 's causal_order \<Rightarrow> bool" where
  "search_ok table states co \<longleftrightarrow>
     (\<forall>(k, t) \<in> set (not_seen co). map_of table k = Some t)
     \<and> (\<forall>s \<in> set states. \<exists>t. is_transaction s = Some t \<and> map_of table (td_digest t) = Some t)
     \<and> (\<forall>e \<in> set (co_output co). \<exists>t. map_of table (effects_transaction_digest e) = Some t \<and> td_effects t = e)
     \<and> distinct (map fst (not_seen co) @ map state_digest states @ out_digests co)
     \<and> fst ` set table = fst ` set (not_seen co) \<union> state_digest ` set states \<union> set (out_digests co)"

lemma table_lookup: "table_ok table \<Longrightarrow> map_of table k = Some t \<Longrightarrow> td_digest t = k \<and> effects_transaction_digest (td_effects t) = k"
  by (auto simp: table_ok_def dest: map_of_SomeD)

lemma next_dependency_found:
  assumes "next_dependency deps ns = (deps', Some t, ns')"
  obtains skipped dep where "deps = skipped @ dep # deps'" "map_of ns dep = Some t" "ns' = filter (\<lambda>(k, _). k \<noteq> dep) ns"
    "\<forall>d \<in> set skipped. d \<notin> fst ` set ns"
  using assms
proof (induction deps ns arbitrary: thesis rule: next_dependency.induct)
  case (2 dep deps ns)
  show ?case
  proof (cases "map_of ns dep")
    case None
    then obtain skipped d where "deps = skipped @ d # deps'" "map_of ns d = Some t" "ns' = filter (\<lambda>(k, _). k \<noteq> d) ns" "\<forall>d \<in> set skipped. d \<notin> fst ` set ns"
      using 2(1) 2(3) by auto
    then show ?thesis using None by (intro 2(2) [of "dep # skipped" d]) (auto simp: map_of_eq_None_iff)
  next
    case (Some t')
    then show ?thesis using 2(3) by (intro 2(2) [of "[]" dep]) auto
  qed
qed simp

lemma next_dependency_none: "next_dependency deps ns = (deps', None, ns') \<Longrightarrow> \<forall>d \<in> set deps. d \<notin> fst ` set ns"
  by (induction deps ns rule: next_dependency.induct) (auto simp: map_of_eq_None_iff split: option.splits)

text \<open>The dependencies of a transaction within the table, and an output in which they come first.\<close>

definition deps_of :: "(nat \<times> 's transaction_dependencies) list \<Rightarrow> nat \<Rightarrow> nat set" where
  "deps_of table k = set (td_dependencies (the (map_of table k))) \<inter> fst ` set table"

definition causally_ordered :: "(nat \<times> 's transaction_dependencies) list \<Rightarrow> nat list \<Rightarrow> bool" where
  "causally_ordered table ds \<longleftrightarrow> (\<forall>xs y ys. ds = xs @ y # ys \<longrightarrow> deps_of table y \<subseteq> set xs)"

lemma causally_ordered_Nil [simp]: "causally_ordered table []"
  by (simp add: causally_ordered_def)

lemma causally_ordered_snoc: "causally_ordered table ds \<Longrightarrow> deps_of table y \<subseteq> set ds \<Longrightarrow> causally_ordered table (ds @ [y])"
proof -
  assume ds: "causally_ordered table ds" "deps_of table y \<subseteq> set ds"
  have "deps_of table z \<subseteq> set xs" if "ds @ [y] = xs @ z # ys" for xs z ys
  proof (cases ys rule: rev_cases)
    case Nil
    then show ?thesis using that ds(2) by simp
  next
    case (snoc ys' y')
    then have "ds = xs @ z # ys'" using that by simp
    then show ?thesis using ds(1) by (auto simp: causally_ordered_def)
  qed
  then show ?thesis by (auto simp: causally_ordered_def)
qed

text \<open>The dependencies of a transaction on the stack are in the output, still to be looked at, or the
  transaction above it, which is one of them.\<close>

fun stack_ok :: "(nat \<times> 's transaction_dependencies) list \<Rightarrow> nat set \<Rightarrow> nat option \<Rightarrow> 's insert_state list \<Rightarrow> bool" where
  "stack_ok table out child [] = True"
| "stack_ok table out child (s # states) =
     (deps_of table (state_digest s) \<subseteq> out \<union> set (is_dependencies s) \<union> set_option child
      \<and> set_option child \<subseteq> deps_of table (state_digest s) \<and> set (is_dependencies s) \<inter> fst ` set table \<subseteq> deps_of table (state_digest s)
      \<and> stack_ok table out (Some (state_digest s)) states)"

lemma stack_ok_mono: "stack_ok table out child states \<Longrightarrow> out \<subseteq> out' \<Longrightarrow> stack_ok table out' child states"
  by (induction table out child states rule: stack_ok.induct) auto

definition ranked :: "(nat \<times> 's transaction_dependencies) list \<Rightarrow> (nat \<Rightarrow> nat) \<Rightarrow> bool" where
  "ranked table rank \<longleftrightarrow> (\<forall>k \<in> fst ` set table. \<forall>d \<in> deps_of table k. rank d < rank k)"

lemma stack_ranks:
  assumes "stack_ok table out (Some k) states" "ranked table rank" "\<forall>s \<in> set states. state_digest s \<in> fst ` set table"
  shows "\<forall>s \<in> set states. rank k < rank (state_digest s)"
  using assms(1,3)
proof (induction states arbitrary: k)
  case (Cons s states)
  have "rank k < rank (state_digest s)" using Cons.prems assms(2) by (auto simp: ranked_def)
  moreover have "\<forall>s' \<in> set states. rank (state_digest s) < rank (state_digest s')" using Cons.prems by (intro Cons.IH) auto
  ultimately show ?case by force
qed simp

text \<open>One step of the search.\<close>

lemma process_push:
  assumes "table_ok table" "search_ok table (s # states) co" "insert_process s co = Some (Some new, s', co')"
  obtains skipped dep t where "is_dependencies s = skipped @ dep # is_dependencies s'" "is_transaction s' = is_transaction s"
    "new = insert_state_new t" "td_digest t = dep" "map_of table dep = Some t" "\<forall>d \<in> set skipped. d \<notin> fst ` set (not_seen co)"
    "dep \<in> fst ` set (not_seen co)" "co' = co\<lparr>not_seen := filter (\<lambda>(k, _). k \<noteq> dep) (not_seen co)\<rparr>"
proof -
  obtain deps t ns where found: "next_dependency (is_dependencies s) (not_seen co) = (deps, Some t, ns)" "new = insert_state_new t"
    "s' = s\<lparr>is_dependencies := deps\<rparr>" "co' = co\<lparr>not_seen := ns\<rparr>"
    using assms(3) by (auto simp: insert_process_def bind_eq_Some_conv split: prod.splits option.splits)
  obtain skipped dep where skip: "is_dependencies s = skipped @ dep # deps" "map_of (not_seen co) dep = Some t" "ns = filter (\<lambda>(k, _). k \<noteq> dep) (not_seen co)"
    "\<forall>d \<in> set skipped. d \<notin> fst ` set (not_seen co)"
    by (rule next_dependency_found [OF found(1)])
  have "(dep, t) \<in> set (not_seen co)" using skip(2) by (rule map_of_SomeD)
  then have "map_of table dep = Some t" "dep \<in> fst ` set (not_seen co)" using assms(2) by (auto simp: search_ok_def image_iff intro: bexI [of _ "(dep, t)"])
  then show thesis using that skip(1,3,4) found(2-4) table_lookup [OF assms(1)] by simp
qed

lemma process_pop:
  assumes "search_ok table (s # states) co" "insert_process s co = Some (None, s', co')"
  obtains t where "is_transaction s = Some t" "map_of table (td_digest t) = Some t" "\<forall>d \<in> set (is_dependencies s). d \<notin> fst ` set (not_seen co)"
    "co' = co\<lparr>co_output := co_output co @ [td_effects t]\<rparr>"
proof -
  obtain deps ns where found: "next_dependency (is_dependencies s) (not_seen co) = (deps, None, ns)"
    using assms(2) by (auto simp: insert_process_def bind_eq_Some_conv split: prod.splits option.splits)
  obtain t where t: "is_transaction s = Some t" "map_of table (td_digest t) = Some t" using assms(1) by (auto simp: search_ok_def)
  show thesis using that [OF t next_dependency_none [OF found]] assms(2) t(1) found by (simp add: insert_process_def)
qed

lemma process_total: "search_ok table (s # states) co \<Longrightarrow> insert_process s co \<noteq> None"
  by (auto simp: search_ok_def insert_process_def split: prod.splits option.splits)

lemma search_okD:
  assumes "search_ok table (s # states) co"
  obtains t where "is_transaction s = Some t" "map_of table (td_digest t) = Some t" "td_digest t \<in> fst ` set table"
  using assms by (auto simp: search_ok_def dest: map_of_SomeD intro: rev_image_eqI)

lemma distinct_move: "distinct ks' \<Longrightarrow> set ks' = set ks - {x} \<Longrightarrow> distinct zs \<Longrightarrow> set ks \<inter> set zs = {} \<Longrightarrow> x \<notin> set zs \<Longrightarrow> distinct (ks' @ x # zs)"
  by auto

lemma push_search_ok:
  assumes "table_ok table" "search_ok table (s # states) co" "insert_process s co = Some (Some new, s', co')"
  shows "search_ok table (new # s' # states) co'"
proof -
  obtain skipped dep t where p: "is_transaction s' = is_transaction s" "new = insert_state_new t" "td_digest t = dep" "map_of table dep = Some t"
    "dep \<in> fst ` set (not_seen co)" "co' = co\<lparr>not_seen := filter (\<lambda>(k, _). k \<noteq> dep) (not_seen co)\<rparr>"
    by (rule process_push [OF assms])
  have keys: "fst ` set (filter (\<lambda>(k, _). k \<noteq> dep) (not_seen co)) = fst ` set (not_seen co) - {dep}" by force
  have "distinct (map fst (filter (\<lambda>(k, _). k \<noteq> dep) (not_seen co)))"
    using assms(2) by (auto simp: search_ok_def distinct_map_filter)
  note dist = this
  have c: "\<forall>(k, t) \<in> set (not_seen co). map_of table k = Some t" "\<forall>s \<in> set (s # states). \<exists>t. is_transaction s = Some t \<and> map_of table (td_digest t) = Some t"
    "\<forall>e \<in> set (co_output co). \<exists>t. map_of table (effects_transaction_digest e) = Some t \<and> td_effects t = e"
    "distinct (map state_digest (s # states) @ out_digests co)" "fst ` set (not_seen co) \<inter> (state_digest ` set (s # states) \<union> set (out_digests co)) = {}"
    "fst ` set table = fst ` set (not_seen co) \<union> state_digest ` set (s # states) \<union> set (out_digests co)"
    using assms(2) unfolding search_ok_def by (simp_all add: distinct_append)
  have fresh: "dep \<notin> state_digest ` set (s # states) \<union> set (out_digests co)" using c(5) p(5) by blast
  have new: "state_digest new = dep" "is_transaction new = Some t" "state_digest s' = state_digest s" by (simp_all add: p(1-3) insert_state_new_def)
  have stack: "map state_digest (new # s' # states) = dep # map state_digest (s # states)" using new(1,3) by (simp only: list.map)
  have sel: "not_seen co' = filter (\<lambda>(k, _). k \<noteq> dep) (not_seen co)" "co_output co' = co_output co" by (simp_all add: p(6))
  show ?thesis unfolding search_ok_def sel
  proof (intro conjI)
    show "\<forall>(k, t) \<in> set (filter (\<lambda>(k, _). k \<noteq> dep) (not_seen co)). map_of table k = Some t" using c(1) by auto
    show "\<forall>s \<in> set (new # s' # states). \<exists>t. is_transaction s = Some t \<and> map_of table (td_digest t) = Some t"
      using c(2) by (simp add: new p(1,3,4))
    show "\<forall>e \<in> set (co_output co). \<exists>t. map_of table (effects_transaction_digest e) = Some t \<and> td_effects t = e" by (rule c(3))
    show "distinct (map fst (filter (\<lambda>(k, _). k \<noteq> dep) (not_seen co)) @ map state_digest (new # s' # states) @ out_digests co)"
      unfolding stack append_Cons using dist c(4,5) fresh keys by (intro distinct_move [of _ "map fst (not_seen co)"]) (simp_all only: set_map set_append list.set_map not_False_eq_True)
    show "fst ` set table = fst ` set (filter (\<lambda>(k, _). k \<noteq> dep) (not_seen co)) \<union> state_digest ` set (new # s' # states) \<union> set (out_digests co)"
      using c(6) p(5) arg_cong [OF stack, of set] unfolding keys set_map list.set_map by auto
  qed
qed

lemma pop_search_ok:
  assumes "table_ok table" "search_ok table (s # states) co" "insert_process s co = Some (None, s', co')"
  shows "search_ok table states co'" "out_digests co' = out_digests co @ [state_digest s]"
proof -
  obtain t where p: "is_transaction s = Some t" "map_of table (td_digest t) = Some t" "co' = co\<lparr>co_output := co_output co @ [td_effects t]\<rparr>"
    by (rule process_pop [OF assms(2,3)])
  have digest: "effects_transaction_digest (td_effects t) = td_digest t" using table_lookup [OF assms(1) p(2)] by simp
  show "search_ok table states co'" using assms(2) unfolding search_ok_def p(3) by (auto simp: p(1,2) digest)
  show "out_digests co' = out_digests co @ [state_digest s]" by (simp add: p digest)
qed

text \<open>A dependency that is no longer waiting is in the output, as it cannot be on the stack.\<close>

lemma seen_in_output:
  assumes "search_ok table (s # states) co" "ranked table rank" "stack_ok table (set (out_digests co)) None (s # states)"
    and "d \<in> deps_of table (state_digest s)" "d \<notin> fst ` set (not_seen co)"
  shows "d \<in> set (out_digests co)"
proof -
  have on_table: "\<forall>s' \<in> set (s # states). state_digest s' \<in> fst ` set table" using assms(1) by (auto simp: search_ok_def)
  have "rank d < rank (state_digest s)" using assms(2,4) on_table by (auto simp: ranked_def)
  moreover have "\<forall>s' \<in> set states. rank (state_digest s) < rank (state_digest s')"
    using stack_ranks [of table "set (out_digests co)" "state_digest s" states rank] assms(2,3) on_table by simp
  ultimately have "d \<notin> state_digest ` set (s # states)" by auto
  moreover have "d \<in> fst ` set table" using assms(4) by (simp add: deps_of_def)
  ultimately show ?thesis using assms(1,5) by (auto simp: search_ok_def)
qed

lemma descend_search_ok:
  assumes "table_ok table" "search_ok table (s # states) co" "insert_process s co = Some (Some new, s', co')"
    and "ranked table rank" "stack_ok table (set (out_digests co)) None (s # states)"
  shows "stack_ok table (set (out_digests co')) None (new # s' # states)"
proof -
  obtain skipped dep t where p: "is_dependencies s = skipped @ dep # is_dependencies s'" "is_transaction s' = is_transaction s"
    "new = insert_state_new t" "td_digest t = dep" "map_of table dep = Some t" "\<forall>d \<in> set skipped. d \<notin> fst ` set (not_seen co)"
    "dep \<in> fst ` set (not_seen co)" "co' = co\<lparr>not_seen := filter (\<lambda>(k, _). k \<noteq> dep) (not_seen co)\<rparr>"
    by (rule process_push [OF assms(1-3)])
  have dep: "dep \<in> fst ` set table" using assms(2) p(7) by (auto simp: search_ok_def)
  have "d \<in> set (out_digests co)" if "d \<in> deps_of table (state_digest s)" "d \<in> set skipped" for d
    using seen_in_output [OF assms(2,4,5) that(1)] that(2) p(6) by blast
  then have "deps_of table (state_digest s) \<subseteq> set (out_digests co) \<union> set (is_dependencies s') \<union> {dep}"
    using assms(5) by (auto simp: p(1))
  moreover have "dep \<in> deps_of table (state_digest s)" "set (is_dependencies s') \<inter> fst ` set table \<subseteq> deps_of table (state_digest s)"
    using assms(5) dep by (auto simp: p(1))
  moreover have "deps_of table dep = set (td_dependencies t) \<inter> fst ` set table" by (simp add: deps_of_def p(5))
  ultimately show ?thesis using assms(5) by (auto simp: p(2-4,8) insert_state_new_def)
qed

lemma finish_search_ok:
  assumes "table_ok table" "search_ok table (s # states) co" "insert_process s co = Some (None, s', co')"
    and "ranked table rank" "stack_ok table (set (out_digests co)) None (s # states)" "causally_ordered table (out_digests co)"
  shows "stack_ok table (set (out_digests co')) None states" "causally_ordered table (out_digests co')"
proof -
  obtain t where p: "is_transaction s = Some t" "\<forall>d \<in> set (is_dependencies s). d \<notin> fst ` set (not_seen co)"
    by (rule process_pop [OF assms(2,3)])
  note out = pop_search_ok(2) [OF assms(1-3)]
  have "deps_of table (state_digest s) \<subseteq> set (out_digests co)"
    using assms(5) p(2) seen_in_output [OF assms(2,4,5)] by auto
  then show "causally_ordered table (out_digests co')" unfolding out by (rule causally_ordered_snoc [OF assms(6)])
  show "stack_ok table (set (out_digests co')) None states"
  proof (cases states)
    case (Cons s2 rest)
    have below: "stack_ok table (set (out_digests co)) (Some (state_digest s)) (s2 # rest)" using assms(5) Cons by simp
    have "stack_ok table (set (out_digests co')) (Some (state_digest s2)) rest"
      by (rule stack_ok_mono [of _ "set (out_digests co)"]) (use below out in auto)
    then show ?thesis using below by (auto simp: Cons out)
  qed simp
qed

text \<open>The whole search.\<close>

lemma insert_loop_ok:
  assumes "table_ok table" "search_ok table states co"
  shows "\<exists>co'. insert_loop states co = Some co' \<and> search_ok table [] co'
    \<and> (\<forall>rank. ranked table rank \<longrightarrow> stack_ok table (set (out_digests co)) None states \<longrightarrow> causally_ordered table (out_digests co)
        \<longrightarrow> causally_ordered table (out_digests co'))"
  using assms(2)
proof (induction states co rule: insert_loop.induct)
  case (2 s states co)
  obtain new s' co1 where p: "insert_process s co = Some (new, s', co1)" using process_total [OF 2(3)] by (cases "insert_process s co") auto
  show ?case
  proof (cases new)
    case None
    note q = p [unfolded None]
    have "\<exists>co'. insert_loop states co1 = Some co' \<and> search_ok table [] co'
      \<and> (\<forall>rank. ranked table rank \<longrightarrow> stack_ok table (set (out_digests co1)) None states \<longrightarrow> causally_ordered table (out_digests co1)
        \<longrightarrow> causally_ordered table (out_digests co'))"
      using 2(1,2) [OF q] pop_search_ok(1) [OF assms(1) 2(3) q] by simp
    moreover have "insert_loop (s # states) co = insert_loop states co1" by (simp add: q)
    ultimately show ?thesis using finish_search_ok [OF assms(1) 2(3) q] by metis
  next
    case (Some n)
    note q = p [unfolded Some]
    have "\<exists>co'. insert_loop (n # s' # states) co1 = Some co' \<and> search_ok table [] co'
      \<and> (\<forall>rank. ranked table rank \<longrightarrow> stack_ok table (set (out_digests co1)) None (n # s' # states) \<longrightarrow> causally_ordered table (out_digests co1)
        \<longrightarrow> causally_ordered table (out_digests co'))"
      using 2(1,2) [OF q] push_search_ok [OF assms(1) 2(3) q] by simp
    moreover have "insert_loop (s # states) co = insert_loop (n # s' # states) co1" by (simp add: q)
    moreover have "out_digests co1 = out_digests co" by (rule process_push [OF assms(1) 2(3) q]) simp
    ultimately show ?thesis using descend_search_ok [OF assms(1) 2(3) q] by metis
  qed
qed (use assms(2) in simp)

lemma causal_loop_ok:
  assumes "table_ok table" "search_ok table [] co"
  shows "\<exists>co'. causal_loop co = Some co' \<and> search_ok table [] co' \<and> not_seen co' = []
    \<and> (\<forall>rank. ranked table rank \<longrightarrow> causally_ordered table (out_digests co) \<longrightarrow> causally_ordered table (out_digests co'))"
  using assms(2)
proof (induction co rule: causal_loop.induct)
  case (1 co)
  show ?case
  proof (cases "not_seen co")
    case Nil
    then show ?thesis using 1(2) by (subst causal_loop.simps) (simp add: pop_first_def)
  next
    case (Cons kt rest)
    obtain k t where kt: "kt = (k, t)" by (cases kt)
    let ?co = "co\<lparr>not_seen := rest\<rparr>"
    have pop: "pop_first co = Some (t, ?co)" using Cons kt by (simp add: pop_first_def)
    have t: "map_of table k = Some t" using 1(2) Cons kt by (simp add: search_ok_def)
    then have digest: "td_digest t = k" using table_lookup [OF assms(1)] by simp
    have start: "search_ok table [insert_state_new t] ?co" using 1(2) Cons kt t digest unfolding search_ok_def by (auto simp: insert_state_new_def)
    have stack: "stack_ok table out None [insert_state_new t]" for out by (auto simp: insert_state_new_def digest deps_of_def t)
    obtain co1 where ins: "causal_insert t ?co = Some co1" "search_ok table [] co1"
      "\<forall>rank. ranked table rank \<longrightarrow> causally_ordered table (out_digests co) \<longrightarrow> causally_ordered table (out_digests co1)"
      using insert_loop_ok [OF assms(1) start] stack by (auto simp: causal_insert_def simp del: insert_loop.simps stack_ok.simps)
    obtain co' where "causal_loop co1 = Some co'" "search_ok table [] co'" "not_seen co' = []"
      "\<forall>rank. ranked table rank \<longrightarrow> causally_ordered table (out_digests co1) \<longrightarrow> causally_ordered table (out_digests co')"
      using 1(1) [OF pop refl ins(1,2)] by blast
    then show ?thesis using ins(3) by (subst causal_loop.simps) (simp add: pop ins(1))
  qed
qed

section \<open>The dependencies the search uses\<close>

fun shared_reads :: "input_shared_object \<Rightarrow> object_key option" where
  "shared_reads (ReadOnlyShared (oid, version, _)) = Some (oid, version)"
| "shared_reads (ReadDeleted oid version) = Some (oid, version)"
| "shared_reads _ = None"

fun shared_overwrites :: "input_shared_object \<Rightarrow> object_key option" where
  "shared_overwrites (MutateShared (oid, version, _)) = Some (oid, version)"
| "shared_overwrites (MutateDeleted oid version) = Some (oid, version)"
| "shared_overwrites _ = None"

definition effects_reads :: "'s transaction_effects \<Rightarrow> object_key set" where
  "effects_reads e = {k. \<exists>so \<in> set (effects_input_shared_objects e). shared_reads so = Some k}"

definition effects_overwrites :: "'s transaction_effects \<Rightarrow> object_key set" where
  "effects_overwrites e = {k. \<exists>so \<in> set (effects_input_shared_objects e). shared_overwrites so = Some k}"

text \<open>A transaction depends on those its effects name and on the readers of a version it overwrites.\<close>

definition causally_depends :: "'s transaction_effects \<Rightarrow> 's transaction_effects \<Rightarrow> bool" where
  "causally_depends e e' \<longleftrightarrow> effects_transaction_digest e' \<in> set (effects_dependencies e) \<or> effects_overwrites e \<inter> effects_reads e' \<noteq> {}"

definition entries :: "('k \<times> 'v list) list \<Rightarrow> 'k \<Rightarrow> 'v set" where
  "entries m k = (case map_of m k of Some vs \<Rightarrow> set vs | None \<Rightarrow> {})"

lemma entries_push [simp]: "entries (push_entry k v m) = (entries m)(k := insert v (entries m k))"
  by (auto simp: fun_eq_iff entries_def push_entry_def update_conv split: option.splits)

lemma entries_shared_object:
  "entries (read_version (add_shared_object d so b)) k = entries (read_version b) k \<union> (if shared_reads so = Some k then {d} else {})"
  "entries (overwrite_versions (add_shared_object d so b)) d' = entries (overwrite_versions b) d' \<union> (if d' = d then set_option (shared_overwrites so) else {})"
  by (induction d so b rule: add_shared_object.induct) auto

lemma entries_shared:
  "entries (read_version (fold (add_shared_object d) sos b)) k =
     entries (read_version b) k \<union> (if \<exists>so \<in> set sos. shared_reads so = Some k then {d} else {})"
  "entries (overwrite_versions (fold (add_shared_object d) sos b)) d' =
     entries (overwrite_versions b) d' \<union> (if d' = d then \<Union>so \<in> set sos. set_option (shared_overwrites so) else {})"
proof -
  show "entries (read_version (fold (add_shared_object d) sos b)) k =
     entries (read_version b) k \<union> (if \<exists>so \<in> set sos. shared_reads so = Some k then {d} else {})"
    by (induction sos arbitrary: b) (simp_all add: entries_shared_object(1))
  show "entries (overwrite_versions (fold (add_shared_object d) sos b)) d' =
     entries (overwrite_versions b) d' \<union> (if d' = d then \<Union>so \<in> set sos. set_option (shared_overwrites so) else {})"
    by (induction sos arbitrary: b) (simp_all add: entries_shared_object(2) Un_assoc)
qed

lemma rwlock_entries:
  "entries (read_version (rwlock_from_effects es)) k = effects_transaction_digest ` {e \<in> set es. k \<in> effects_reads e}"
  "entries (overwrite_versions (rwlock_from_effects es)) d = \<Union> (effects_overwrites ` {e \<in> set es. effects_transaction_digest e = d})"
proof -
  let ?add = "\<lambda>effect. fold (add_shared_object (effects_transaction_digest effect)) (effects_input_shared_objects effect)"
  have "entries (read_version (fold ?add es b)) k = entries (read_version b) k \<union> effects_transaction_digest ` {e \<in> set es. k \<in> effects_reads e}" for b
  proof (induction es arbitrary: b)
    case (Cons e es)
    have "{x \<in> set (e # es). k \<in> effects_reads x} = {x \<in> set es. k \<in> effects_reads x} \<union> (if k \<in> effects_reads e then {e} else {})" by auto
    moreover have "(\<exists>so \<in> set (effects_input_shared_objects e). shared_reads so = Some k) = (k \<in> effects_reads e)" by (simp add: effects_reads_def)
    ultimately show ?case by (simp add: Cons entries_shared(1) image_Un Un_ac)
  qed simp
  then show "entries (read_version (rwlock_from_effects es)) k = effects_transaction_digest ` {e \<in> set es. k \<in> effects_reads e}"
    by (simp add: rwlock_from_effects_def entries_def)
  have "entries (overwrite_versions (fold ?add es b)) d = entries (overwrite_versions b) d \<union> \<Union> (effects_overwrites ` {e \<in> set es. effects_transaction_digest e = d})" for b
  proof (induction es arbitrary: b)
    case (Cons e es)
    have "{x \<in> set (e # es). effects_transaction_digest x = d} = {x \<in> set es. effects_transaction_digest x = d} \<union> (if effects_transaction_digest e = d then {e} else {})" by auto
    moreover have "(\<Union>so \<in> set (effects_input_shared_objects e). set_option (shared_overwrites so)) = effects_overwrites e" by (auto simp: effects_overwrites_def)
    ultimately show ?case by (auto simp: Cons entries_shared(2))
  qed simp
  then show "entries (overwrite_versions (rwlock_from_effects es)) d = \<Union> (effects_overwrites ` {e \<in> set es. effects_transaction_digest e = d})"
    by (simp add: rwlock_from_effects_def entries_def)
qed

lemma set_add_dependencies:
  "set (add_dependencies_for d b v) = set v \<union> (\<Union>k \<in> entries (overwrite_versions b) d. entries (read_version b) k)"
  "bs_wf v \<Longrightarrow> bs_wf (add_dependencies_for d b v)"
proof -
  let ?add = "\<lambda>obj_ver v. case map_of (read_version b) obj_ver of None \<Rightarrow> v | Some reads \<Rightarrow> bs_extend v reads"
  have one: "set (?add k v) = set v \<union> entries (read_version b) k" "bs_wf v \<Longrightarrow> bs_wf (?add k v)" for k v
    by (simp_all add: entries_def split: option.splits)
  have "set (fold ?add ks v) = set v \<union> (\<Union>k \<in> set ks. entries (read_version b) k)" for ks
    by (induction ks arbitrary: v) (auto simp: one(1))
  then show "set (add_dependencies_for d b v) = set v \<union> (\<Union>k \<in> entries (overwrite_versions b) d. entries (read_version b) k)"
    by (simp add: add_dependencies_for_def entries_def split: option.splits)
  have "bs_wf v \<Longrightarrow> bs_wf (fold ?add ks v)" for ks by (induction ks arbitrary: v) (auto simp: one(2))
  then show "bs_wf v \<Longrightarrow> bs_wf (add_dependencies_for d b v)" by (simp add: add_dependencies_for_def split: option.splits)
qed

section \<open>The causal order\<close>

lemma map_of_bt_of_list: "distinct (map fst kvs) \<Longrightarrow> map_of (bt_of_list kvs) = map_of kvs"
proof -
  have "distinct (map fst kvs) \<Longrightarrow> map_of (foldl (\<lambda>m (k, v). bt_insert k v m) m kvs) = map_of m ++ map_of kvs" for m
  proof (induction kvs arbitrary: m)
    case (Cons kv kvs)
    obtain k v where kv: "kv = (k, v)" by (cases kv)
    have "map_of kvs k = None" using Cons.prems kv by (simp add: map_of_eq_None_iff)
    then show ?case using Cons by (auto simp: kv map_of_bt_insert fun_eq_iff map_add_def split: option.splits)
  qed simp
  then show "distinct (map fst kvs) \<Longrightarrow> map_of (bt_of_list kvs) = map_of kvs" by (simp add: bt_of_list_def)
qed

lemma bt_wf_ext:
  assumes "bt_wf m" "bt_wf m'" "map_of m = map_of m'"
  shows "m = m'"
proof -
  have rebuild: "m = map (\<lambda>k. (k, the (map_of m k))) (map fst m)" if "bt_wf m" for m :: "('a \<times> 'b) list"
    using map_of_is_SomeI [OF bt_wf_distinct [OF that]] by (force simp: comp_def intro: map_idI [symmetric])
  have "fst ` set m = fst ` set m'" using assms(3) by (metis dom_map_of_conv_image_fst)
  then have "map fst m = map fst m'" using assms(1,2) by (intro bs_wf_unique) simp_all
  then show ?thesis using rebuild [OF assms(1)] rebuild [OF assms(2)] assms(3) by metis
qed

lemma map_of_map_value: "map_of (map (\<lambda>x. (f x, g x)) xs) d = map_option g (map_of (map (\<lambda>x. (f x, x)) xs) d)"
  by (induction xs) auto

lemma causal_table:
  assumes "distinct (map effects_transaction_digest es)"
  defines "table \<equiv> not_seen (causal_from_vec es)"
  shows "bt_wf table" "map_of table d = map_option (\<lambda>e. dependencies_from_effects e (rwlock_from_effects es)) (map_of (map (\<lambda>e. (effects_transaction_digest e, e)) es) d)"
    "fst ` set table = effects_transaction_digest ` set es" "table_ok table" "search_ok table [] (causal_from_vec es)"
    "e \<in> set es \<Longrightarrow> map_of table (effects_transaction_digest e) = Some (dependencies_from_effects e (rwlock_from_effects es))"
proof -
  let ?b = "rwlock_from_effects es"
  let ?kvs = "map (\<lambda>e. (effects_transaction_digest e, dependencies_from_effects e ?b)) es"
  have table: "table = bt_of_list ?kvs" by (simp add: table_def causal_from_vec_def Let_def comp_def dependencies_from_effects_def)
  have dist: "distinct (map fst ?kvs)" using assms(1) by (simp add: comp_def)
  have look: "map_of table = map_of ?kvs" unfolding table by (rule map_of_bt_of_list [OF dist])
  show "bt_wf table" unfolding table by (rule bt_wf_bt_of_list)
  show "map_of table d = map_option (\<lambda>e. dependencies_from_effects e ?b) (map_of (map (\<lambda>e. (effects_transaction_digest e, e)) es) d)"
    unfolding look by (rule map_of_map_value)
  show keys: "fst ` set table = effects_transaction_digest ` set es"
    using look dom_map_of_conv_image_fst [of table] dom_map_of_conv_image_fst [of ?kvs] by (simp add: image_image)
  show entry: "map_of table (effects_transaction_digest e) = Some (dependencies_from_effects e ?b)" if "e \<in> set es" for e
    unfolding look by (rule map_of_is_SomeI [OF dist]) (use that in force)
  have "(k, t) \<in> set table \<Longrightarrow> td_digest t = k \<and> effects_transaction_digest (td_effects t) = k" for k t
  proof -
    assume "(k, t) \<in> set table"
    then have "map_of table k = Some t" using bt_wf_distinct [OF \<open>bt_wf table\<close>] by simp
    then have "(k, t) \<in> set ?kvs" unfolding look by (rule map_of_SomeD)
    then show ?thesis by (auto simp: dependencies_from_effects_def)
  qed
  then show "table_ok table" using bt_wf_distinct [OF \<open>bt_wf table\<close>] by (auto simp: table_ok_def)
  have "co_output (causal_from_vec es) = []" by (simp add: causal_from_vec_def Let_def)
  then show "search_ok table [] (causal_from_vec es)" using bt_wf_distinct [OF \<open>bt_wf table\<close>] by (auto simp: search_ok_def table_def)
qed

lemma causal_dependencies:
  assumes "distinct (map effects_transaction_digest es)" "e \<in> set es"
  shows "deps_of (not_seen (causal_from_vec es)) (effects_transaction_digest e) = effects_transaction_digest ` {e' \<in> set es. causally_depends e e'}"
proof -
  let ?b = "rwlock_from_effects es"
  have "{x \<in> set es. effects_transaction_digest x = effects_transaction_digest e} = {e}" using assms by (auto simp: distinct_map dest: inj_onD)
  then have "set (td_dependencies (dependencies_from_effects e ?b))
      = set (effects_dependencies e) \<union> (\<Union>k \<in> effects_overwrites e. effects_transaction_digest ` {e' \<in> set es. k \<in> effects_reads e'})"
    by (simp add: dependencies_from_effects_def set_add_dependencies(1) rwlock_entries)
  then show ?thesis unfolding deps_of_def causal_table(3) [OF assms(1)] causal_table(6) [OF assms] option.sel
    by (auto simp: causally_depends_def)
qed

text \<open>C4: Sorting the effects of a checkpoint, which have different transaction digests, always ends and never
  panics. The result is a permutation of the effects, and if the dependencies are not circular every
  transaction comes after all those of the checkpoint it depends on: the ones its effects name and
  the readers of a shared object version it overwrites.\<close>

theorem causal_sort_correct:
  assumes "distinct (map effects_transaction_digest es)"
  shows "\<exists>out. causal_sort es = Some out \<and> mset out = mset es
    \<and> ((\<exists>rank :: nat \<Rightarrow> nat. \<forall>e \<in> set es. \<forall>e' \<in> set es. causally_depends e e' \<longrightarrow> rank (effects_transaction_digest e') < rank (effects_transaction_digest e))
        \<longrightarrow> (\<forall>xs e ys. out = xs @ e # ys \<longrightarrow> (\<forall>e' \<in> set es. causally_depends e e' \<longrightarrow> e' \<in> set xs)))"
proof -
  let ?table = "not_seen (causal_from_vec es)"
  note table = causal_table [OF assms]
  obtain co where co: "causal_loop (causal_from_vec es) = Some co" "search_ok ?table [] co" "not_seen co = []"
    "\<forall>rank. ranked ?table rank \<longrightarrow> causally_ordered ?table (out_digests co)"
    using causal_loop_ok [OF table(4,5)] by (auto simp: causal_from_vec_def Let_def)
  have inj: "e \<in> set es \<Longrightarrow> e' \<in> set es \<Longrightarrow> effects_transaction_digest e = effects_transaction_digest e' \<Longrightarrow> e = e'" for e e'
    using assms by (auto simp: distinct_map dest: inj_onD)
  have out_es: "set (co_output co) \<subseteq> set es"
  proof
    fix e assume "e \<in> set (co_output co)"
    then obtain t where t: "map_of ?table (effects_transaction_digest e) = Some t" "td_effects t = e" using co(2) by (auto simp: search_ok_def)
    obtain z where z: "map_of (map (\<lambda>e. (effects_transaction_digest e, e)) es) (effects_transaction_digest e) = Some z"
      "t = dependencies_from_effects z (rwlock_from_effects es)" using t(1) unfolding table(2) by blast
    then show "e \<in> set es" using map_of_SomeD [OF z(1)] t(2) by (auto simp: dependencies_from_effects_def)
  qed
  have digs: "set (out_digests co) = effects_transaction_digest ` set es" "distinct (out_digests co)"
    using co(2,3) table(3) by (simp_all add: search_ok_def)
  have "set es \<subseteq> set (co_output co)" using digs(1) out_es inj by (fastforce simp: set_eq_iff image_iff)
  then have perm: "mset (co_output co) = mset es"
    using out_es digs(2) assms by (auto simp: distinct_map simp flip: set_eq_iff_mset_eq_distinct)
  have earlier: "e' \<in> set xs" if rank: "\<forall>e \<in> set es. \<forall>e' \<in> set es. causally_depends e e' \<longrightarrow> rank (effects_transaction_digest e') < rank (effects_transaction_digest e)"
    and split: "co_output co = xs @ e # ys" and dep: "e' \<in> set es" "causally_depends e e'" for rank :: "nat \<Rightarrow> nat" and xs e ys e'
  proof -
    have "ranked ?table rank" using rank by (auto simp: ranked_def table(3) causal_dependencies [OF assms])
    then have ord: "causally_ordered ?table (out_digests co)" using co(4) by blast
    have e: "e \<in> set es" using split out_es by auto
    have "effects_transaction_digest e' \<in> deps_of ?table (effects_transaction_digest e)" using dep by (auto simp: causal_dependencies [OF assms e])
    then have "effects_transaction_digest e' \<in> effects_transaction_digest ` set xs"
      using ord [unfolded causally_ordered_def, rule_format, of "map effects_transaction_digest xs" "effects_transaction_digest e" "map effects_transaction_digest ys"]
      by (auto simp: split)
    then show "e' \<in> set xs" using inj dep(1) split out_es by auto
  qed
  show ?thesis
  proof (intro exI [of _ "co_output co"] conjI impI allI ballI)
    show "causal_sort es = Some (co_output co)" by (simp add: causal_sort_def co(1))
    fix xs e ys e'
    assume "\<exists>rank :: nat \<Rightarrow> nat. \<forall>e \<in> set es. \<forall>e' \<in> set es. causally_depends e e' \<longrightarrow> rank (effects_transaction_digest e') < rank (effects_transaction_digest e)"
      "co_output co = xs @ e # ys" "e' \<in> set es" "causally_depends e e'"
    then show "e' \<in> set xs" by (elim exE) (rule earlier)
  qed (rule perm)
qed

text \<open>Two transactions of which the first depends on the second.\<close>

definition example_effects :: "nat \<Rightarrow> nat list \<Rightarrow> unit transaction_effects" where
  "example_effects digest deps = EffectsV1 \<lparr>e1_status = (), e1_executed_epoch = 0, e1_gas_used = gas_cost_summary_default, e1_modified_at_versions = [],
     e1_shared_objects = [], e1_transaction_digest = digest, e1_created = [], e1_mutated = [], e1_unwrapped = [], e1_deleted = [],
     e1_unwrapped_then_deleted = [], e1_wrapped = [], e1_gas_object = no_gas_object, e1_events_digest = None, e1_dependencies = deps\<rparr>"

lemma example_effects_simps [simp]:
  "effects_transaction_digest (example_effects d deps) = d" "effects_dependencies (example_effects d deps) = deps"
  "effects_reads (example_effects d deps) = {}"
  by (simp_all add: example_effects_def effects_reads_def input_shared_objects_v1_def)

theorem causal_sort_correct_witness:
  "\<exists>out xs ys. causal_sort [example_effects 1 [2], example_effects 2 []] = Some out \<and> out = xs @ example_effects 1 [2] # ys \<and> example_effects 2 [] \<in> set xs"
proof -
  let ?es = "[example_effects 1 [2], example_effects 2 []]"
  have dep: "causally_depends e e' \<longleftrightarrow> e = example_effects 1 [2] \<and> e' = example_effects 2 []" if "e \<in> set ?es" "e' \<in> set ?es" for e e'
  proof -
    have "example_effects 1 [2] \<noteq> example_effects 2 []" by (metis example_effects_simps(1) numeral_One numeral_eq_iff num.distinct(1))
    then show ?thesis using that by (auto simp: causally_depends_def)
  qed
  then have rank: "\<exists>rank :: nat \<Rightarrow> nat. \<forall>e \<in> set ?es. \<forall>e' \<in> set ?es. causally_depends e e' \<longrightarrow> rank (effects_transaction_digest e') < rank (effects_transaction_digest e)"
    by (intro exI [of _ "\<lambda>d. 2 - d"]) auto
  obtain out where out: "causal_sort ?es = Some out" "mset out = mset ?es"
    "\<forall>xs e ys. out = xs @ e # ys \<longrightarrow> (\<forall>e' \<in> set ?es. causally_depends e e' \<longrightarrow> e' \<in> set xs)"
    using causal_sort_correct [of ?es] rank by auto
  have "example_effects 1 [2] \<in> set out" using arg_cong [OF out(2), of set_mset] by simp
  then obtain xs ys where split: "out = xs @ example_effects 1 [2] # ys" by (meson split_list)
  have "example_effects 2 [] \<in> set xs" using out(3) split dep by auto
  then show ?thesis using out(1) split by blast
qed

text \<open>C20: The causal order does not depend on the order in which the effects are given.\<close>

theorem causal_sort_deterministic:
  assumes "distinct (map effects_transaction_digest es)" "mset es' = mset es"
  shows "causal_sort es' = causal_sort es"
proof -
  have set_es: "set es' = set es" using assms(2) by (metis set_mset_mset)
  have "image_mset effects_transaction_digest (mset es') = image_mset effects_transaction_digest (mset es)" using assms(2) by simp
  then have dist: "distinct (map effects_transaction_digest es')" using assms(1) by (metis distinct_count_atmost_1 mset_map set_mset_mset)
  let ?b = "rwlock_from_effects es" and ?b' = "rwlock_from_effects es'"
  have dep: "dependencies_from_effects e ?b' = dependencies_from_effects e ?b" for e
  proof -
    let ?d = "effects_transaction_digest e" and ?v = "bs_extend [] (effects_dependencies e)"
    have "add_dependencies_for ?d ?b' ?v = add_dependencies_for ?d ?b ?v"
      by (rule bs_wf_unique) (simp_all add: set_add_dependencies rwlock_entries set_es)
    then show ?thesis by (simp add: dependencies_from_effects_def)
  qed
  have "map_of (map (\<lambda>e. (effects_transaction_digest e, e)) es') = map_of (map (\<lambda>e. (effects_transaction_digest e, e)) es)"
    by (rule map_of_inject_set [THEN iffD2]) (use assms(1) dist set_es in \<open>simp_all add: comp_def\<close>)
  then have "map_of (not_seen (causal_from_vec es')) = map_of (not_seen (causal_from_vec es))"
    by (simp add: fun_eq_iff causal_table(2) [OF assms(1)] causal_table(2) [OF dist] dep)
  then have "not_seen (causal_from_vec es') = not_seen (causal_from_vec es)" by (rule bt_wf_ext [OF causal_table(1) [OF dist] causal_table(1) [OF assms(1)]])
  then have "causal_from_vec es' = causal_from_vec es" by (simp add: causal_from_vec_def Let_def)
  then show ?thesis by (simp add: causal_sort_def)
qed

theorem causal_sort_deterministic_witness:
  "causal_sort [example_effects 2 [], example_effects 1 [2]] = causal_sort [example_effects 1 [2], example_effects 2 []]"
  by (rule causal_sort_deterministic) simp_all

end
