(* ===== verification/Spec2Isabelle.thy ===== *)
theory Spec2Isabelle
  imports Narwhal_Recovery Narwhal_Aggregators Sui_Stake_Aggregator Sui_Multisig Sui_Ownership Sui_Effects_Agree Sui_Causal_Order
begin

text \<open>
  A verification development of the Sui blockchain node: the Narwhal and Bullshark consensus, the
  committees and certificates both layers are built on, and the part of the execution layer that
  charges for a transaction, checks what it did and reports its effects.

  \<^bold>\<open>The program.\<close> Validators of an epoch form a committee whose members have stake. Narwhal's
  primaries propose headers; a header with the votes of a quorum becomes a certificate, and
  certificates that reference each other form a DAG. Bullshark orders the DAG: every even round has a
  leader, a leader with enough support in the next round is committed with its causal history, and
  the committed sub-dags are the input of execution. Executing a transaction meters the Move VM,
  writes to a temporary store, charges the gas coin, checks that no SUI was created or lost and that
  only owned objects were touched, and builds the effects. Validators sign effects, signatures of a
  quorum form certificates, and the effects of a checkpoint are put into causal order.

  \<^bold>\<open>Conventions\<close> (\<open>Sui_Prelude\<close>). A panic is \<open>None\<close>, so a theorem that concludes \<open>\<dots> = Some \<dots>\<close>
  also says that the code does not panic; a \<open>Result\<close> is a sum with the error on the left. Unsigned
  64-bit numbers are \<open>nat\<close>, with operations that wrap or panic as the module is compiled: stakes and
  thresholds wrap, gas costs panic. A Narwhal committee is well-formed (\<open>wf_committee\<close>) if in addition
  a hundred times its total stake fits 64 bits, and then no sum of stakes wraps;
  multi-signatures use words of their width. A \<open>HashMap\<close> is an association list, a \<open>BTreeMap\<close> a
  strictly sorted one, a \<open>BTreeSet\<close> a strictly sorted list, and \<open>&mut self\<close> is state passing. Code
  outside the repository (hashes, signature schemes, serialisation, random numbers, the LRU cache, the
  database) is a parameter; what is relied on is a hypothesis or the assumption of a locale.

  \<^bold>\<open>Interfaces.\<close> \<open>Quorum_System\<close> has the locale \<open>quorum_system\<close> (members, stake, two thresholds), which
  gives quorum intersection once, and \<open>quorum_counter\<close>, an aggregator that counts every voter once.
  They are interpreted for both committees (\<open>narwhal_quorum\<close>, \<open>sui_quorum\<close>) and for the aggregators of
  both layers (\<open>vote_counter\<close>, \<open>certificate_counter\<close>, \<open>stake_counter\<close>). \<open>coherent_cache\<close> is what the
  certificate store needs of its cache, met by both caches of the code.

  \<^bold>\<open>Narwhal and Bullshark\<close> (\<open>src/narwhal\<close>).
  \<^item> \<open>Narwhal_Committee\<close>: \<open>config/src/committee.rs\<close>. The loaded tables agree, the thresholds are those of
    the stake computed in 64 bits, two quorums share honest stake.
  \<^item> \<open>Narwhal_Types\<close>: headers and certificates of \<open>types/src/primary.rs\<close>. A certificate that verifies has
    a quorum of signers under whose keys its signature is valid.
  \<^item> \<open>Narwhal_Aggregators\<close>: \<open>primary/src/aggregators.rs\<close>, votes and certificates up to a quorum. A certificate
    comes out exactly if the held votes are of a quorum and their aggregate verifies.
  \<^item> \<open>Narwhal_Store\<close>, \<open>Narwhal_Certificate_Store\<close>: \<open>types/src/consensus.rs\<close>, \<open>storage/src/consensus_store.rs\<close>
    and \<open>certificate_store.rs\<close>. What is written is read back; a deletion leaves one index behind.
  \<^item> \<open>Narwhal_State\<close>, \<open>Narwhal_Leader_Schedule\<close>, \<open>Narwhal_Order_Dag\<close>, \<open>Narwhal_Bullshark\<close>: \<open>state.rs\<close>,
    \<open>leader_schedule.rs\<close>, \<open>utils.rs\<close> and \<open>bullshark.rs\<close> of \<open>primary/src/consensus\<close>. Insertion keeps the
    DAG well-formed, and flattening gives exactly the uncommitted history of a leader.
  \<^item> \<open>Narwhal_Leader_Chain\<close>: the leaders of one commit. The search for a path agrees with reachability, and
    two nodes agree on the leaders they commit.
  \<^item> \<open>Narwhal_Commit\<close>, \<open>Narwhal_Consensus\<close>: the invariant of commits and the task over time. The task panics
    exactly on an equivocating certificate or a failing write, a supported leader is committed, and
    the log is consecutive, ordered, without repetition.
  \<^item> \<open>Narwhal_Recovery\<close>: a restart from the stores gives back the state and every certificate of the DAG.

  \<^bold>\<open>Committees and signatures of Sui\<close> (\<open>src/crates\<close>).
  \<^item> \<open>Sui_Committee\<close>, \<open>Sui_Sign_Info\<close>: \<open>sui-types/src/committee.rs\<close> and the authority signatures of
    \<open>crypto.rs\<close>. Two certificates share an honest signer; valid signatures of a quorum form one.
  \<^item> \<open>Sui_Stake_Aggregator\<close>: \<open>sui-core/src/stake_aggregator.rs\<close>. The votes are the stake of the recorded
    signers, and a certificate is returned only if it verifies; two ways to miss a quorum.
  \<^item> \<open>Sui_Multisig\<close>: \<open>sui-types/src/multisig.rs\<close>. Verification accepts exactly the valid signatures that
    weigh the threshold, and combined signatures verify.

  \<^bold>\<open>Execution\<close> (\<open>src/crates/sui-types/src\<close> and \<open>src/sui-execution/latest/sui-adapter/src\<close>).
  \<^item> \<open>Sui_Gas_Meter\<close>, \<open>Sui_Gas_Charges\<close>: the meter of \<open>gas_model/tables.rs\<close> with its cost schedules. A charge
    takes what its tiers say, and a run never takes more than the budget.
  \<^item> \<open>Sui_Object\<close>, \<open>Sui_Gas\<close>: objects, coins and balances (\<open>object.rs\<close>), and what a transaction pays
    (\<open>gas_model/gas_v2.rs\<close>, \<open>gas.rs\<close>).
  \<^item> \<open>Sui_Temporary_Store\<close>, \<open>Sui_Gas_Charger\<close>: \<open>temporary_store.rs\<close> and \<open>gas_charger.rs\<close>.
  \<^item> \<open>Sui_Charge_Sums\<close>, \<open>Sui_Conservation\<close>: what charging adds up. On every path, with kept or dropped
    effects and under both gas models, charging does not panic, takes at most the budget, and leaves a
    store on which both conservation checks succeed.
  \<^item> \<open>Sui_Ownership\<close>: the ownership check of \<open>temporary_store.rs\<close>, which ends on every finite database,
    and the exact cases in which it panics.
  \<^item> \<open>Sui_Effects\<close>, \<open>Sui_Effects_Agree\<close>: \<open>effects/\<close> and how effects are built. Both formats report the same
    changes, and every object is listed once, in the list its history determines.
  \<^item> \<open>Sui_Causal_Order\<close>: \<open>sui-core/src/checkpoints/causal_order.rs\<close>. Sorting ends, permutes its input, puts
    dependencies first, and does not depend on the order of its input.

  \<^bold>\<open>Loops.\<close> Two loops run on fuel. \<open>order_loop\<close> gets the size of the DAG plus two, and the theorem on
  \<open>order_dag\<close> shows that it returns, as no certificate is visited twice. \<open>commit_retry\<close> gets one step
  more than the leader's round, and the theorem on \<open>process_certificate\<close> shows that it returns, as
  every retry follows a commit that raised the committed round. The loops of the causal order, the
  binary search in a committee and the walk through a Move value are functions with a termination
  proof. The ownership check is a partial function, as a database may have cycles of owners, and its
  theorem shows that it returns.

  \<^bold>\<open>Not modelled.\<close> The asynchronous tasks of primaries, workers and validators, the network and the
  storage engines, which are input and output and scheduling; the Move VM, verifier and compiler and
  the programmable transactions that drive them, whose results enter as the temporary store; the
  Move framework, a different language; transactions and their input checks, apart from the gas
  checks; earlier execution versions, which are frozen copies; RPC servers, indexers, tools, SDKs and
  applications. Within modelled files: metrics and logging, assertions of debug builds, encodings by
  serialisation libraries, and constructors for tests.
\<close>

end
